(* ===== verification/Prelude.thy ===== *)
theory Prelude
  imports Main "HOL-Library.Word" "HOL-Library.Monad_Syntax"
begin

text \<open>
  Shared vocabulary of the development: the machine integer types of the C
  sources, the fact collections of the components, and generic lemmas on words
  and lists.
\<close>

unbundle bit_operations_syntax

type_synonym u8 = "8 word"
type_synonym u16 = "16 word"
type_synonym u32 = "32 word"
type_synonym u64 = "64 word"
type_synonym u128 = "128 word"

text \<open>Collections: facts on the frame of state updates, and on the shape of data.\<close>

named_theorems frame_simps
named_theorems shape_simps

section \<open>Words\<close>

lemma word_add_no_overflow_iff:
  fixes a b :: "'a::len word"
  shows "a \<le> a + b \<longleftrightarrow> unat a + unat b < 2 ^ LENGTH('a)"
  using no_olen_add_nat [of a b] by (simp add: ac_simps)

lemma word_add_overflow_iff:
  fixes a b :: "'a::len word"
  shows "a + b < a \<longleftrightarrow> 2 ^ LENGTH('a) \<le> unat a + unat b"
  using word_add_no_overflow_iff [of a b] by (metis not_le)

lemma unat_add_no_overflow:
  fixes a b :: "'a::len word"
  assumes "\<not> a + b < a"
  shows "unat (a + b) = unat a + unat b"
  using assms unat_add_lem [of a b] by (metis word_add_overflow_iff not_le)

lemma unat_drop_bit: "unat (drop_bit n w) = unat w div 2 ^ n"
  by (simp only: unat_drop_bit_eq drop_bit_eq_div [where 'a = nat])

text \<open>The next multiple of a power of two, as the C code computes it.\<close>

lemma unat_or_mask_Suc:
  fixes t :: u64
  assumes "unat t < 2 ^ 62" "m \<le> 40"
  shows "unat ((t OR (2 ^ m - 1)) + 1) = (unat t div 2 ^ m + 1) * 2 ^ m"
proof -
  let ?h = "push_bit m (drop_bit m (unat t))"
  have h: "?h = unat t div 2 ^ m * 2 ^ m" by (simp add: push_bit_eq_mult drop_bit_eq_div)
  have "unat t OR mask m = ?h OR mask m" by (rule bit_eqI) (auto simp: bit_simps)
  also have "\<dots> = ?h + mask m" by (rule disjunctive_add [symmetric]) (auto simp: bit_simps)
  finally have "unat t OR mask m = ?h + mask m" .
  moreover have "unat (mask m :: u64) = mask m" by (rule bit_eqI) (use assms(2) in \<open>auto simp: bit_simps\<close>)
  ultimately have o: "unat (t OR mask m) = unat t div 2 ^ m * 2 ^ m + (2 ^ m - 1)"
    by (simp add: unsigned_or_eq h mask_eq_exp_minus_1 [where 'a = nat])
  have "(2 :: nat) ^ m \<le> 2 ^ 40" by (rule power_increasing) (use assms(2) in simp_all)
  then have "unat (t OR mask m) + 1 < 2 ^ 64"
    unfolding o using assms(1) le_less_trans [OF div_times_less_eq_dividend assms(1), of "2 ^ m"] by simp
  then have "unat ((t OR mask m) + 1) = unat (t OR mask m) + 1" by (simp add: unat_word_ariths)
  then show ?thesis using o by (simp add: mask_eq_exp_minus_1)
qed


lemma word_eq_0_iff_unat: "w = 0 \<longleftrightarrow> unat w = 0"
  by (simp add: unat_eq_0)

section \<open>Options\<close>

lemma option_eqI: "(\<And>x. a = Some x \<longleftrightarrow> b = Some x) \<Longrightarrow> a = b"
  by (cases a; cases b) auto

section \<open>Loops that may fail\<close>

text \<open>
  A C loop over a known range whose body may run out of fuel: the state is
  threaded through the elements, and None stops the loop.
\<close>

fun fold_opt :: "('a \<Rightarrow> 's \<Rightarrow> 's option) \<Rightarrow> 'a list \<Rightarrow> 's \<Rightarrow> 's option" where
  "fold_opt f [] s = Some s"
| "fold_opt f (x # xs) s = f x s \<bind> fold_opt f xs"

lemma fold_opt_cong [fundef_cong]:
  "xs = ys \<Longrightarrow> s = t \<Longrightarrow> (\<And>x u. x \<in> set ys \<Longrightarrow> f x u = g x u) \<Longrightarrow> fold_opt f xs s = fold_opt g ys t"
proof (induction xs arbitrary: ys s t)
  case (Cons x xs)
  then show ?case by (cases "g x t") auto
qed simp

lemma fold_opt_invariant:
  assumes "fold_opt f xs s = Some s'" "P s"
    and "\<And>x u u'. x \<in> set xs \<Longrightarrow> P u \<Longrightarrow> f x u = Some u' \<Longrightarrow> P u'"
  shows "P s'"
  using assms
proof (induction xs arbitrary: s)
  case (Cons x xs)
  then obtain u where u: "f x s = Some u" "fold_opt f xs u = Some s'"
    by (auto simp: bind_eq_Some_conv)
  then have "P u" using Cons.prems by (meson list.set_intros(1))
  then show ?case using Cons u by (meson list.set_intros(2))
qed simp

lemma fold_opt_total:
  assumes "P s" and "\<And>x u. x \<in> set xs \<Longrightarrow> P u \<Longrightarrow> \<exists>u'. f x u = Some u' \<and> P u'"
  shows "\<exists>s'. fold_opt f xs s = Some s' \<and> P s'"
  using assms
proof (induction xs arbitrary: s)
  case (Cons x xs)
  then obtain u where "f x s = Some u" "P u" by (meson list.set_intros(1))
  then show ?case using Cons by (simp add: Cons.IH)
qed simp

end
