(* ===== verification/Block_Types.thy ===== *)
theory Block_Types
  imports Prelude
begin

text \<open>
  The data of client/hash.h and client/block.h: hashes, fields and blocks, the
  field types, the flags of \<open>block_internal\<close>, and the byte image that hashing
  and comparison read.  A field is a union of views of the same 32 bytes; it is
  modelled as its four little-endian 64-bit words with one accessor per view.
\<close>

section \<open>Bytes\<close>

definition u64_bytes :: "u64 \<Rightarrow> u8 list" where
  "u64_bytes w = map (\<lambda>i. ucast (drop_bit (8 * i) w)) [0, 1, 2, 3, 4, 5, 6, 7]"

definition bytes_u64 :: "u8 list \<Rightarrow> u64" where
  "bytes_u64 bs = foldr (\<lambda>b acc. ucast b OR push_bit 8 acc) bs 0"

fun memcmp :: "u8 list \<Rightarrow> u8 list \<Rightarrow> int" where
  "memcmp (x # xs) (y # ys) = (if x < y then - 1 else if y < x then 1 else memcmp xs ys)"
| "memcmp xs ys = 0"

section \<open>Hashes\<close>

type_synonym xdag_hash_t = "u64 \<times> u64 \<times> u64 \<times> u64"
type_synonym xdag_hashlow_t = "u64 \<times> u64 \<times> u64"

fun hashlow :: "xdag_hash_t \<Rightarrow> xdag_hashlow_t" where
  "hashlow (a, b, c, d) = (a, b, c)"

fun hash_words :: "xdag_hash_t \<Rightarrow> u64 list" where
  "hash_words (a, b, c, d) = [a, b, c, d]"

fun hash_bytes :: "xdag_hash_t \<Rightarrow> u8 list" where
  "hash_bytes (a, b, c, d) = u64_bytes a @ u64_bytes b @ u64_bytes c @ u64_bytes d"

fun hashlow_bytes :: "xdag_hashlow_t \<Rightarrow> u8 list" where
  "hashlow_bytes (a, b, c) = u64_bytes a @ u64_bytes b @ u64_bytes c"

text \<open>\<open>xdag_cmphash\<close> compares from the most significant word down.\<close>

fun cmp_words_rev :: "u64 list \<Rightarrow> u64 list \<Rightarrow> int" where
  "cmp_words_rev (l # ls) (r # rs) =
     (if l \<noteq> r then (if l < r then - 1 else 1) else cmp_words_rev ls rs)"
| "cmp_words_rev ls rs = 0"

definition xdag_cmphash :: "xdag_hash_t \<Rightarrow> xdag_hash_t \<Rightarrow> int" where
  "xdag_cmphash l r = cmp_words_rev (rev (hash_words l)) (rev (hash_words r))"

section \<open>Fields and blocks\<close>

type_synonym xdag_field = xdag_hash_t
type_synonym xdag_block = "xdag_field list"

definition XDAG_BLOCK_FIELDS :: nat where "XDAG_BLOCK_FIELDS = 16"
definition MAX_LINKS :: nat where "MAX_LINKS = 15"

fun f_transport_header :: "xdag_field \<Rightarrow> u64" where "f_transport_header (a, b, c, d) = a"
fun f_type :: "xdag_field \<Rightarrow> u64" where "f_type (a, b, c, d) = b"
fun f_time :: "xdag_field \<Rightarrow> u64" where "f_time (a, b, c, d) = c"
fun f_amount :: "xdag_field \<Rightarrow> u64" where "f_amount (a, b, c, d) = d"
fun f_hash :: "xdag_field \<Rightarrow> xdag_hashlow_t" where "f_hash (a, b, c, d) = (a, b, c)"
fun f_set_transport_header :: "u64 \<Rightarrow> xdag_field \<Rightarrow> xdag_field" where
  "f_set_transport_header v (a, b, c, d) = (v, b, c, d)"

definition block_bytes :: "xdag_block \<Rightarrow> u8 list" where
  "block_bytes b = concat (map hash_bytes b)"

definition xdag_type :: "xdag_block \<Rightarrow> nat \<Rightarrow> nat" where
  "xdag_type b n = unat (drop_bit (n * 4) (f_type (b ! 0)) AND 0xf)"

datatype xdag_field_type =
    XDAG_FIELD_NONCE | XDAG_FIELD_HEAD | XDAG_FIELD_IN | XDAG_FIELD_OUT
  | XDAG_FIELD_SIGN_IN | XDAG_FIELD_SIGN_OUT | XDAG_FIELD_PUBLIC_KEY_0 | XDAG_FIELD_PUBLIC_KEY_1
  | XDAG_FIELD_HEAD_TEST | XDAG_FIELD_REMARK
  | XDAG_FIELD_RESERVE1 | XDAG_FIELD_RESERVE2 | XDAG_FIELD_RESERVE3
  | XDAG_FIELD_RESERVE4 | XDAG_FIELD_RESERVE5 | XDAG_FIELD_RESERVE6

definition field_types :: "xdag_field_type list" where
  "field_types = [XDAG_FIELD_NONCE, XDAG_FIELD_HEAD, XDAG_FIELD_IN, XDAG_FIELD_OUT,
     XDAG_FIELD_SIGN_IN, XDAG_FIELD_SIGN_OUT, XDAG_FIELD_PUBLIC_KEY_0, XDAG_FIELD_PUBLIC_KEY_1,
     XDAG_FIELD_HEAD_TEST, XDAG_FIELD_REMARK, XDAG_FIELD_RESERVE1, XDAG_FIELD_RESERVE2,
     XDAG_FIELD_RESERVE3, XDAG_FIELD_RESERVE4, XDAG_FIELD_RESERVE5, XDAG_FIELD_RESERVE6]"

definition field_type :: "xdag_block \<Rightarrow> nat \<Rightarrow> xdag_field_type" where
  "field_type b n = field_types ! xdag_type b n"

section \<open>Flags\<close>

definition BI_MAIN :: u16 where "BI_MAIN = 0x01"
definition BI_MAIN_CHAIN :: u16 where "BI_MAIN_CHAIN = 0x02"
definition BI_APPLIED :: u16 where "BI_APPLIED = 0x04"
definition BI_MAIN_REF :: u16 where "BI_MAIN_REF = 0x08"
definition BI_REF :: u16 where "BI_REF = 0x10"
definition BI_OURS :: u16 where "BI_OURS = 0x20"
definition BI_EXTRA :: u16 where "BI_EXTRA = 0x40"
definition BI_REMARK :: u16 where "BI_REMARK = 0x80"

lemmas BI_defs = BI_MAIN_def BI_MAIN_CHAIN_def BI_APPLIED_def BI_MAIN_REF_def BI_REF_def
  BI_OURS_def BI_EXTRA_def BI_REMARK_def

section \<open>Facts on bytes\<close>

lemma length_u64_bytes [simp]: "length (u64_bytes w) = 8"
  by (simp add: u64_bytes_def)

lemma bit_ucast_u64_u8: "bit (ucast (w :: u64) :: u8) n \<longleftrightarrow> n < 8 \<and> bit w n"
  by (simp add: bit_simps)

lemma bit_bytes_u64_slices:
  "bit (bytes_u64 (map (\<lambda>i. ucast (drop_bit (8 * i) (w :: u64))) [k..<k + m])) n
   \<longleftrightarrow> n < 8 * m \<and> n < 64 \<and> bit w (n + 8 * k)"
proof (induction m arbitrary: k n)
  case (Suc m)
  have upt: "[k..<k + Suc m] = k # [Suc k..<Suc k + m]" by (simp add: upt_rec)
  show ?case
    unfolding upt using Suc.IH [of "Suc k" "n - 8"]
    by (auto simp: bytes_u64_def bit_simps ac_simps)
qed (simp add: bytes_u64_def)

lemma bytes_u64_bytes [simp]: "bytes_u64 (u64_bytes w) = w"
proof (rule bit_word_eqI)
  fix n assume "n < LENGTH(64)"
  moreover have "[0, 1, 2, 3, 4, 5, 6, 7] = [0..<0 + 8::nat]" by (simp add: upt_rec)
  ultimately show "bit (bytes_u64 (u64_bytes w)) n = bit w n"
    unfolding u64_bytes_def using bit_bytes_u64_slices [of w 0 8 n] by simp
qed

lemma u64_bytes_inj: "u64_bytes v = u64_bytes w \<longleftrightarrow> v = w"
  by (metis bytes_u64_bytes)

lemma memcmp_refl [simp]: "memcmp xs xs = 0"
  by (induction xs) auto

lemma memcmp_eq_0: "length xs = length ys \<Longrightarrow> memcmp xs ys = 0 \<longleftrightarrow> xs = ys"
  by (induction xs ys rule: memcmp.induct) auto

lemma memcmp_antisym: "memcmp xs ys = - memcmp ys xs"
  by (induction xs ys rule: memcmp.induct) auto

lemma memcmp_trans:
  "length xs = length ys \<Longrightarrow> length ys = length zs \<Longrightarrow> memcmp xs ys < 0 \<Longrightarrow> memcmp ys zs < 0
   \<Longrightarrow> memcmp xs zs < 0"
proof (induction xs ys arbitrary: zs rule: memcmp.induct)
  case (1 x xs y ys)
  then obtain z zs' where "zs = z # zs'" by (cases zs) auto
  with 1 show ?case by (auto split: if_splits)
qed auto

lemma length_hashlow_bytes [simp]: "length (hashlow_bytes h) = 24"
  by (cases h) simp

lemma hashlow_bytes_inj: "hashlow_bytes h = hashlow_bytes k \<longleftrightarrow> h = k"
  by (cases h; cases k) (simp add: u64_bytes_inj)

lemma length_block_bytes: "length (block_bytes b) = 32 * length b"
  by (induction b) (auto simp: block_bytes_def)

lemma xdag_type_less: "xdag_type b n < 16"
proof -
  have "drop_bit (n * 4) (f_type (b ! 0)) AND 0xf \<le> 0xf" by (rule word_and_le1)
  then show ?thesis unfolding xdag_type_def by (simp add: word_le_nat_alt)
qed

end
