(* ===== verification/RBTree.thy ===== *)
theory RBTree
  imports Prelude
begin

text \<open>
  The red-black tree of ldus/rbtree.h, which indexes blocks by hash.  A C
  pointer to a node carries the colour of that node in its low bit, so a value
  of \<open>rbtree\<close> is what a pointer slot holds: NULL, or a coloured pointer to a
  node with its two child slots and the data that follows the node in memory.
  An operation that C gives the address of a slot returns the new contents of
  the slot with its result code.  Rotating towards an absent child dereferences
  NULL in C; here the slot is left alone, and the invariants below show that the
  case never arises.
\<close>

datatype color = Black | Red

datatype 'a rbtree = NULL | Ptr color "'a rbtree" 'a "'a rbtree"

section \<open>Slots, walks and rotations\<close>

fun rbtree_color :: "'a rbtree \<Rightarrow> color" where
  "rbtree_color NULL = Black"
| "rbtree_color (Ptr c _ _ _) = c"

fun rbtree_set_color :: "'a rbtree \<Rightarrow> color \<Rightarrow> 'a rbtree" where
  "rbtree_set_color NULL c = NULL"
| "rbtree_set_color (Ptr _ l x r) c = Ptr c l x r"

fun ldus_rbtree_walk_up :: "'a rbtree \<Rightarrow> ('a \<Rightarrow> 's \<Rightarrow> 's) \<Rightarrow> 's \<Rightarrow> 's" where
  "ldus_rbtree_walk_up NULL callback s = s"
| "ldus_rbtree_walk_up (Ptr _ l x r) callback s =
     callback x (ldus_rbtree_walk_up r callback (ldus_rbtree_walk_up l callback s))"

fun ldus_rbtree_walk_right :: "'a rbtree \<Rightarrow> ('a \<Rightarrow> 's \<Rightarrow> 's) \<Rightarrow> 's \<Rightarrow> 's" where
  "ldus_rbtree_walk_right NULL callback s = s"
| "ldus_rbtree_walk_right (Ptr _ l x r) callback s =
     ldus_rbtree_walk_right r callback (callback x (ldus_rbtree_walk_right l callback s))"

fun rbtree_rotate_left :: "'a rbtree \<Rightarrow> 'a rbtree" where
  "rbtree_rotate_left (Ptr c a x (Ptr color b y d)) = Ptr c (Ptr color a x b) y d"
| "rbtree_rotate_left t = t"

fun rbtree_rotate_right :: "'a rbtree \<Rightarrow> 'a rbtree" where
  "rbtree_rotate_right (Ptr c (Ptr color a x b) y d) = Ptr c a x (Ptr color b y d)"
| "rbtree_rotate_right t = t"

section \<open>Insertion\<close>

fun rbtree_insert_balance_left :: "'a rbtree \<Rightarrow> int \<Rightarrow> int \<times> 'a rbtree" where
  "rbtree_insert_balance_left NULL res = (res, NULL)"
| "rbtree_insert_balance_left (Ptr c l x r) res =
     (if res \<le> 0 then (res, Ptr c l x r)
      else if res = 1 then
        (if c = Black then 0 else 2, Ptr c (rbtree_set_color l Red) x r)
      else if rbtree_color r = Red then
        (1, Ptr c (rbtree_set_color l Black) x (rbtree_set_color r Black))
      else
        (0, rbtree_rotate_right (Ptr c (if res = 3 then rbtree_rotate_left l else l) x r)))"

fun rbtree_insert_balance_right :: "'a rbtree \<Rightarrow> int \<Rightarrow> int \<times> 'a rbtree" where
  "rbtree_insert_balance_right NULL res = (res, NULL)"
| "rbtree_insert_balance_right (Ptr c l x r) res =
     (if res \<le> 0 then (res, Ptr c l x r)
      else if res = 1 then
        (if c = Black then 0 else 3, Ptr c l x (rbtree_set_color r Red))
      else if rbtree_color l = Red then
        (1, Ptr c (rbtree_set_color l Black) x (rbtree_set_color r Black))
      else
        (0, rbtree_rotate_left (Ptr c l x (if res = 2 then rbtree_rotate_right r else r))))"

fun ldus_rbtree_insert ::
  "('a \<Rightarrow> 'a \<Rightarrow> bool) \<Rightarrow> 'a rbtree \<Rightarrow> 'a \<Rightarrow> int \<times> 'a rbtree" where
  "ldus_rbtree_insert lessthan NULL node = (1, Ptr Black NULL node NULL)"
| "ldus_rbtree_insert lessthan (Ptr c l x r) node =
     (if lessthan node x then
        (let (res, l') = ldus_rbtree_insert lessthan l node
         in rbtree_insert_balance_left (Ptr c l' x r) res)
      else if lessthan x node then
        (let (res, r') = ldus_rbtree_insert lessthan r node
         in rbtree_insert_balance_right (Ptr c l x r') res)
      else (- 1, Ptr c l x r))"

fun ldus_rbtree_find :: "('a \<Rightarrow> 'a \<Rightarrow> bool) \<Rightarrow> 'a rbtree \<Rightarrow> 'a \<Rightarrow> 'a option" where
  "ldus_rbtree_find lessthan NULL node = None"
| "ldus_rbtree_find lessthan (Ptr c l x r) node =
     (if lessthan node x then ldus_rbtree_find lessthan l node
      else if lessthan x node then ldus_rbtree_find lessthan r node
      else Some x)"

section \<open>Removal\<close>

text \<open>
  The second halves of the two rebalancing routines, after \<open>proot\<close> has been
  moved below a red sibling.
\<close>

fun rbtree_remove_sibling_left :: "'a rbtree \<Rightarrow> int \<times> 'a rbtree" where
  "rbtree_remove_sibling_left (Ptr c l x (Ptr cs sl sx sr)) =
     (let s = Ptr cs sl sx sr in
      if rbtree_color sr = Black \<and> rbtree_color sl = Black then
        (if c = Black then (1, Ptr c l x (rbtree_set_color s Red))
         else (0, Ptr Black l x (rbtree_set_color s Red)))
      else
        (let s' = (if rbtree_color sr = Black then rbtree_rotate_right s else s) in
         case rbtree_rotate_left (Ptr c l x s') of
           NULL \<Rightarrow> (0, NULL)
         | Ptr c' l' x' r' \<Rightarrow> (0, Ptr c' l' x' (rbtree_set_color r' Black))))"
| "rbtree_remove_sibling_left t = (0, t)"

fun rbtree_remove_sibling_right :: "'a rbtree \<Rightarrow> int \<times> 'a rbtree" where
  "rbtree_remove_sibling_right (Ptr c (Ptr cs sl sx sr) x r) =
     (let s = Ptr cs sl sx sr in
      if rbtree_color sl = Black \<and> rbtree_color sr = Black then
        (if c = Black then (1, Ptr c (rbtree_set_color s Red) x r)
         else (0, Ptr Black (rbtree_set_color s Red) x r))
      else
        (let s' = (if rbtree_color sl = Black then rbtree_rotate_left s else s) in
         case rbtree_rotate_right (Ptr c s' x r) of
           NULL \<Rightarrow> (0, NULL)
         | Ptr c' l' x' r' \<Rightarrow> (0, Ptr c' (rbtree_set_color l' Black) x' r')))"
| "rbtree_remove_sibling_right t = (0, t)"

fun rbtree_remove_balance_left :: "'a rbtree \<Rightarrow> int \<Rightarrow> int \<times> 'a rbtree" where
  "rbtree_remove_balance_left NULL res = (res, NULL)"
| "rbtree_remove_balance_left (Ptr c l x r) res =
     (if res \<le> 0 then (res, Ptr c l x r)
      else if rbtree_color r = Red then
        (case rbtree_rotate_left (Ptr c l x r) of
           NULL \<Rightarrow> (0, NULL)
         | Ptr c' l' x' r' \<Rightarrow>
             (let (res', l'') = rbtree_remove_sibling_left l' in (res', Ptr c' l'' x' r')))
      else rbtree_remove_sibling_left (Ptr c l x r))"

fun rbtree_remove_balance_right :: "'a rbtree \<Rightarrow> int \<Rightarrow> int \<times> 'a rbtree" where
  "rbtree_remove_balance_right NULL res = (res, NULL)"
| "rbtree_remove_balance_right (Ptr c l x r) res =
     (if res \<le> 0 then (res, Ptr c l x r)
      else if rbtree_color l = Red then
        (case rbtree_rotate_right (Ptr c l x r) of
           NULL \<Rightarrow> (0, NULL)
         | Ptr c' l' x' r' \<Rightarrow>
             (let (res', r'') = rbtree_remove_sibling_right r' in (res', Ptr c' l' x' r'')))
      else rbtree_remove_sibling_right (Ptr c l x r))"

text \<open>
  \<open>_rbtree_remove_left\<close> unlinks the last node of the left subtree and puts it
  in the place of the node that \<open>pnode\<close> points to; the model returns the rest
  of the subtree and the data of the node unlinked.
\<close>

fun rbtree_remove_left :: "'a rbtree \<Rightarrow> (int \<times> 'a rbtree) \<times> 'a option" where
  "rbtree_remove_left NULL = ((0, NULL), None)"
| "rbtree_remove_left (Ptr c l x r) =
     (if r \<noteq> NULL then
        (let ((res, r'), moved) = rbtree_remove_left r
         in (rbtree_remove_balance_right (Ptr c l x r') res, moved))
      else
        (if c = Red then ((0, l), Some x)
         else if rbtree_color l = Red then ((0, rbtree_set_color l Black), Some x)
         else ((1, l), Some x)))"

fun rbtree_remove_right :: "'a rbtree \<Rightarrow> (int \<times> 'a rbtree) \<times> 'a option" where
  "rbtree_remove_right NULL = ((0, NULL), None)"
| "rbtree_remove_right (Ptr c l x r) =
     (if l \<noteq> NULL then
        (let ((res, l'), moved) = rbtree_remove_right l
         in (rbtree_remove_balance_left (Ptr c l' x r) res, moved))
      else
        (if c = Red then ((0, r), Some x)
         else if rbtree_color r = Red then ((0, rbtree_set_color r Black), Some x)
         else ((1, r), Some x)))"

fun ldus_rbtree_remove ::
  "('a \<Rightarrow> 'a \<Rightarrow> bool) \<Rightarrow> 'a rbtree \<Rightarrow> 'a \<Rightarrow> int \<times> 'a rbtree" where
  "ldus_rbtree_remove lessthan NULL node = (- 1, NULL)"
| "ldus_rbtree_remove lessthan (Ptr c l x r) node =
     (if lessthan node x then
        (let (res, l') = ldus_rbtree_remove lessthan l node
         in rbtree_remove_balance_left (Ptr c l' x r) res)
      else if lessthan x node then
        (let (res, r') = ldus_rbtree_remove lessthan r node
         in rbtree_remove_balance_right (Ptr c l x r') res)
      else if l \<noteq> NULL then
        (let ((res, l'), moved) = rbtree_remove_left l
         in rbtree_remove_balance_left (Ptr c l' (the moved) r) res)
      else if r \<noteq> NULL then
        (let ((res, r'), moved) = rbtree_remove_right r
         in rbtree_remove_balance_right (Ptr c l (the moved) r') res)
      else if c = Red then (0, NULL)
      else (1, NULL))"

section \<open>The in-order sequence and the red-black invariants\<close>

fun inorder :: "'a rbtree \<Rightarrow> 'a list" where
  "inorder NULL = []"
| "inorder (Ptr _ l x r) = inorder l @ x # inorder r"

fun bheight :: "'a rbtree \<Rightarrow> nat" where
  "bheight NULL = 0"
| "bheight (Ptr c l x r) = (if c = Black then Suc (bheight l) else bheight l)"

fun rb_height :: "'a rbtree \<Rightarrow> nat" where
  "rb_height NULL = 0"
| "rb_height (Ptr c l x r) = Suc (max (rb_height l) (rb_height r))"

fun invc :: "'a rbtree \<Rightarrow> bool" where
  "invc NULL = True"
| "invc (Ptr c l x r) =
     ((c = Red \<longrightarrow> rbtree_color l = Black \<and> rbtree_color r = Black) \<and> invc l \<and> invc r)"

fun invh :: "'a rbtree \<Rightarrow> bool" where
  "invh NULL = True"
| "invh (Ptr c l x r) = (bheight l = bheight r \<and> invh l \<and> invh r)"

definition rb_inv :: "'a rbtree \<Rightarrow> bool" where
  "rb_inv t \<longleftrightarrow> invc t \<and> invh t"

lemma color_cases [simp]: "c \<noteq> Red \<longleftrightarrow> c = Black" "c \<noteq> Black \<longleftrightarrow> c = Red"
  by (cases c; simp)+

lemma rbtree_set_color_simps [simp]:
  "inorder (rbtree_set_color t c) = inorder t"
  "invh (rbtree_set_color t c) = invh t"
  "rbtree_set_color t c = NULL \<longleftrightarrow> t = NULL"
  "rbtree_color (rbtree_set_color t c) = (if t = NULL then Black else c)"
  by (cases t; simp)+

lemma rotate_inorder [simp]:
  "inorder (rbtree_rotate_left t) = inorder t"
  "inorder (rbtree_rotate_right t) = inorder t"
  by (cases t rule: rbtree_rotate_left.cases; simp)
     (cases t rule: rbtree_rotate_right.cases; simp)

lemma insert_balance_inorder [simp]:
  "inorder (snd (rbtree_insert_balance_left t res)) = inorder t"
  "inorder (snd (rbtree_insert_balance_right t res)) = inorder t"
  by (cases t; simp)+

lemma remove_sibling_inorder [simp]:
  "inorder (snd (rbtree_remove_sibling_left t)) = inorder t"
  "inorder (snd (rbtree_remove_sibling_right t)) = inorder t"
proof -
  show "inorder (snd (rbtree_remove_sibling_left t)) = inorder t"
  proof (cases t rule: rbtree_remove_sibling_left.cases)
    case (1 c l x cs sl sx sr)
    then show ?thesis by (cases sl; cases sr) (auto simp: Let_def)
  qed simp_all
  show "inorder (snd (rbtree_remove_sibling_right t)) = inorder t"
  proof (cases t rule: rbtree_remove_sibling_right.cases)
    case (1 c cs sl sx sr x r)
    then show ?thesis by (cases sl; cases sr) (auto simp: Let_def)
  qed simp_all
qed

declare rbtree_remove_sibling_left.simps [simp del] rbtree_remove_sibling_right.simps [simp del]

lemma remove_balance_inorder [simp]:
  "inorder (snd (rbtree_remove_balance_left t res)) = inorder t"
  "inorder (snd (rbtree_remove_balance_right t res)) = inorder t"
proof -
  show "inorder (snd (rbtree_remove_balance_left t res)) = inorder t"
  proof (cases t)
    case (Ptr c l x r)
    then show ?thesis by (cases r) (auto simp: split_def Let_def)
  qed simp
  show "inorder (snd (rbtree_remove_balance_right t res)) = inorder t"
  proof (cases t)
    case (Ptr c l x r)
    then show ?thesis by (cases l) (auto simp: split_def Let_def)
  qed simp
qed

declare rbtree_remove_balance_left.simps [simp del] rbtree_remove_balance_right.simps [simp del]

lemma remove_left_inorder:
  "t \<noteq> NULL \<Longrightarrow> inorder (snd (fst (rbtree_remove_left t))) @ [the (snd (rbtree_remove_left t))] = inorder t"
  by (induction t) (auto simp: split_def Let_def)

lemma remove_right_inorder:
  "t \<noteq> NULL \<Longrightarrow> the (snd (rbtree_remove_right t)) # inorder (snd (fst (rbtree_remove_right t))) = inorder t"
  by (induction t) (auto simp: split_def Let_def)

section \<open>Colours and heights\<close>

fun ins_post :: "'a rbtree \<Rightarrow> int \<Rightarrow> 'a rbtree \<Rightarrow> bool" where
  "ins_post t res NULL = False"
| "ins_post t res (Ptr c l x r) =
     (invc l \<and> invc r \<and> invh l \<and> invh r \<and> bheight l = bheight r \<and> rbtree_color t = c \<and>
      (if res \<le> 0 then bheight (Ptr c l x r) = bheight t \<and> invc (Ptr c l x r)
       else if res = 1 then
         c = Black \<and> rbtree_color l = Black \<and> rbtree_color r = Black \<and> bheight l = bheight t
       else
         c = Red \<and> bheight l = bheight t \<and>
         (if res = 2 then rbtree_color l = Red \<and> rbtree_color r = Black
          else res = 3 \<and> rbtree_color l = Black \<and> rbtree_color r = Red)))"

lemma invc_set_color_Black [simp]: "invc t \<Longrightarrow> invc (rbtree_set_color t Black)"
  by (cases t) auto

lemma color_RedD: "rbtree_color t = Red \<Longrightarrow> \<exists>l x r. t = Ptr Red l x r"
  by (cases t) auto

lemma ins_post_codes:
  assumes "ins_post t res t'"
  shows "res \<le> 0 \<or> res = 1 \<or> res = 2 \<or> res = 3"
  using assms by (cases t') (auto split: if_splits)

lemma insert_balance_left_post:
  assumes "rb_inv (Ptr c l x r)" "ins_post l res l'"
  shows "case rbtree_insert_balance_left (Ptr c l' x r) res of (res', t') \<Rightarrow> ins_post (Ptr c l x r) res' t'"
proof -
  obtain lc ll lx lr where l': "l' = Ptr lc ll lx lr"
    using assms(2) by (cases l') auto
  consider "res \<le> 0" | "res = 1" | "res = 2 \<or> res = 3" "rbtree_color r = Red"
    | "res = 2" "rbtree_color r = Black" | "res = 3" "rbtree_color r = Black"
    using ins_post_codes [OF assms(2)] by (cases "rbtree_color r") auto
  then show ?thesis
  proof cases
    case 1 then show ?thesis using assms l' by (cases c) (auto simp: rb_inv_def)
  next
    case 2 then show ?thesis using assms l' by (cases c) (auto simp: rb_inv_def)
  next
    case 3 then show ?thesis using assms l' by (auto simp: rb_inv_def dest!: color_RedD)
  next
    case 4 then show ?thesis using assms l' by (cases c) (auto simp: rb_inv_def dest!: color_RedD)
  next
    case 5 then show ?thesis using assms l' by (cases c) (auto simp: rb_inv_def dest!: color_RedD)
  qed
qed

lemma insert_balance_right_post:
  assumes "rb_inv (Ptr c l x r)" "ins_post r res r'"
  shows "case rbtree_insert_balance_right (Ptr c l x r') res of (res', t') \<Rightarrow> ins_post (Ptr c l x r) res' t'"
proof -
  obtain rc rl rx rr where r': "r' = Ptr rc rl rx rr"
    using assms(2) by (cases r') auto
  consider "res \<le> 0" | "res = 1" | "res = 2 \<or> res = 3" "rbtree_color l = Red"
    | "res = 2" "rbtree_color l = Black" | "res = 3" "rbtree_color l = Black"
    using ins_post_codes [OF assms(2)] by (cases "rbtree_color l") auto
  then show ?thesis
  proof cases
    case 1 then show ?thesis using assms r' by (cases c) (auto simp: rb_inv_def)
  next
    case 2 then show ?thesis using assms r' by (cases c) (auto simp: rb_inv_def)
  next
    case 3 then show ?thesis using assms r' by (auto simp: rb_inv_def dest!: color_RedD)
  next
    case 4 then show ?thesis using assms r' by (cases c) (auto simp: rb_inv_def dest!: color_RedD)
  next
    case 5 then show ?thesis using assms r' by (cases c) (auto simp: rb_inv_def dest!: color_RedD)
  qed
qed

declare rbtree_insert_balance_left.simps [simp del] rbtree_insert_balance_right.simps [simp del]

lemma insert_post:
  "rb_inv t \<Longrightarrow> case ldus_rbtree_insert lt t node of (res, t') \<Rightarrow> ins_post t res t'"
proof (induction t)
  case (Ptr c l x r)
  have inv: "rb_inv l" "rb_inv r" using Ptr.prems by (auto simp: rb_inv_def)
  obtain res1 l' where L: "ldus_rbtree_insert lt l node = (res1, l')" by (cases "ldus_rbtree_insert lt l node")
  obtain res2 r' where R: "ldus_rbtree_insert lt r node = (res2, r')" by (cases "ldus_rbtree_insert lt r node")
  consider "lt node x" | "\<not> lt node x" "lt x node" | "\<not> lt node x" "\<not> lt x node" by blast
  then show ?case
  proof cases
    case 1
    then show ?thesis
      using insert_balance_left_post [OF Ptr.prems, of res1 l'] Ptr.IH(1) inv L by simp
  next
    case 2
    then show ?thesis
      using insert_balance_right_post [OF Ptr.prems, of res2 r'] Ptr.IH(2) inv R by simp
  next
    case 3
    then show ?thesis using Ptr.prems by (simp add: rb_inv_def)
  qed
qed simp

lemma insert_rb_inv:
  assumes "rb_inv t"
  shows "rb_inv (snd (ldus_rbtree_insert lt t node)) \<or> rbtree_color t = Red"
proof -
  obtain res t' where I: "ldus_rbtree_insert lt t node = (res, t')" by (cases "ldus_rbtree_insert lt t node")
  then show ?thesis
    using insert_post [OF assms, of lt node]
    by (cases t') (auto simp: rb_inv_def split: if_splits)
qed

section \<open>Removal keeps the invariants\<close>

text \<open>
  A removal with code 1 has made its subtree one black level shorter; with any
  other code the black height is kept.  A slot that was black stays black.
\<close>

definition rem_post :: "'a rbtree \<Rightarrow> int \<Rightarrow> 'a rbtree \<Rightarrow> bool" where
  "rem_post t res t' \<longleftrightarrow>
     rb_inv t' \<and> res \<le> 1 \<and> (rbtree_color t' = Red \<longrightarrow> rbtree_color t = Red) \<and>
     (if res = 1 then rbtree_color t = Black \<and> Suc (bheight t') = bheight t else bheight t' = bheight t)"

lemma remove_sibling_left_post:
  assumes "rb_inv l'" "rbtree_color l' = Black" "rb_inv r" "bheight r = Suc (bheight l')"
    "rbtree_color r = Black"
  shows "case rbtree_remove_sibling_left (Ptr c l' x r) of (res', t') \<Rightarrow>
    rb_inv t' \<and> res' \<in> {0, 1} \<and> (rbtree_color t' = Red \<longrightarrow> c = Red) \<and>
    (if res' = 1 then c = Black \<and> Suc (bheight t') = (if c = Black then Suc (bheight r) else bheight r)
      else bheight t' = (if c = Black then Suc (bheight r) else bheight r))"
proof -
  obtain sl sx sr where r: "r = Ptr Black sl sx sr"
    using assms by (cases r) auto
  consider "rbtree_color sr = Black" "rbtree_color sl = Black"
    | "rbtree_color sr = Black" "rbtree_color sl = Red" | "rbtree_color sr = Red"
    by (cases "rbtree_color sr"; cases "rbtree_color sl") auto
  then show ?thesis
  proof cases
    case 1 then show ?thesis using assms r
      by (cases c) (auto simp: rb_inv_def rbtree_remove_sibling_left.simps Let_def)
  next
    case 2 then show ?thesis using assms r
      by (cases c) (auto simp: rb_inv_def rbtree_remove_sibling_left.simps Let_def dest!: color_RedD)
  next
    case 3 then show ?thesis using assms r
      by (cases c) (auto simp: rb_inv_def rbtree_remove_sibling_left.simps Let_def dest!: color_RedD)
  qed
qed

lemma remove_balance_left_post:
  assumes "rb_inv (Ptr c l x r)" "rem_post l res l'"
  shows "case rbtree_remove_balance_left (Ptr c l' y r) res of (res', t') \<Rightarrow> rem_post (Ptr c l x r) res' t'"
proof -
  have "res \<le> 0 \<or> res = 1" using assms(2) unfolding rem_post_def by linarith
  then consider "res \<le> 0" | "res = 1" "rbtree_color r = Red" | "res = 1" "rbtree_color r = Black"
    by (cases "rbtree_color r") auto
  then show ?thesis
  proof cases
    case 1
    then show ?thesis using assms
      by (cases c) (auto simp: rem_post_def rb_inv_def rbtree_remove_balance_left.simps)
  next
    case 2
    then obtain a z b where r: "r = Ptr Red a z b" by (auto dest: color_RedD)
    obtain res' t' where S: "rbtree_remove_sibling_left (Ptr Red l' y a) = (res', t')"
      by (cases "rbtree_remove_sibling_left (Ptr Red l' y a)")
    have "c = Black" using assms(1) 2 by (simp add: rb_inv_def) 
    then show ?thesis
      using remove_sibling_left_post [of l' a Red y] S r assms 2
      by (auto simp: rem_post_def rb_inv_def rbtree_remove_balance_left.simps split: if_splits)
  next
    case 3
    then show ?thesis
      using remove_sibling_left_post [of l' r c y] assms
      by (auto simp: rem_post_def rb_inv_def rbtree_remove_balance_left.simps split: if_splits)
  qed
qed
lemma remove_sibling_right_post:
  assumes "rb_inv l'" "rbtree_color l' = Black" "rb_inv r" "bheight r = Suc (bheight l')"
    "rbtree_color r = Black"
  shows "case rbtree_remove_sibling_right (Ptr c r x l') of (res', t') \<Rightarrow>
    rb_inv t' \<and> res' \<in> {0, 1} \<and> (rbtree_color t' = Red \<longrightarrow> c = Red) \<and>
    (if res' = 1 then c = Black \<and> Suc (bheight t') = (if c = Black then Suc (bheight r) else bheight r)
      else bheight t' = (if c = Black then Suc (bheight r) else bheight r))"
proof -
  obtain sl sx sr where r: "r = Ptr Black sr sx sl"
    using assms by (cases r) auto
  consider "rbtree_color sr = Black" "rbtree_color sl = Black"
    | "rbtree_color sr = Black" "rbtree_color sl = Red" | "rbtree_color sr = Red"
    by (cases "rbtree_color sr"; cases "rbtree_color sl") auto
  then show ?thesis
  proof cases
    case 1 then show ?thesis using assms r
      by (cases c) (auto simp: rb_inv_def rbtree_remove_sibling_right.simps Let_def)
  next
    case 2 then show ?thesis using assms r
      by (cases c) (auto simp: rb_inv_def rbtree_remove_sibling_right.simps Let_def dest!: color_RedD)
  next
    case 3 then show ?thesis using assms r
      by (cases c) (auto simp: rb_inv_def rbtree_remove_sibling_right.simps Let_def dest!: color_RedD)
  qed
qed

lemma remove_balance_right_post:
  assumes "rb_inv (Ptr c r x l)" "rem_post l res l'"
  shows "case rbtree_remove_balance_right (Ptr c r y l') res of (res', t') \<Rightarrow> rem_post (Ptr c r x l) res' t'"
proof -
  have "res \<le> 0 \<or> res = 1" using assms(2) unfolding rem_post_def by linarith
  then consider "res \<le> 0" | "res = 1" "rbtree_color r = Red" | "res = 1" "rbtree_color r = Black"
    by (cases "rbtree_color r") auto
  then show ?thesis
  proof cases
    case 1
    then show ?thesis using assms
      by (cases c) (auto simp: rem_post_def rb_inv_def rbtree_remove_balance_right.simps)
  next
    case 2
    then obtain a z b where r: "r = Ptr Red b z a" by (auto dest: color_RedD)
    obtain res' t' where S: "rbtree_remove_sibling_right (Ptr Red a y l') = (res', t')"
      by (cases "rbtree_remove_sibling_right (Ptr Red a y l')")
    have "c = Black" using assms(1) 2 by (simp add: rb_inv_def) 
    then show ?thesis
      using remove_sibling_right_post [of l' a Red y] S r assms 2
      by (auto simp: rem_post_def rb_inv_def rbtree_remove_balance_right.simps split: if_splits)
  next
    case 3
    then show ?thesis
      using remove_sibling_right_post [of l' r c y] assms
      by (auto simp: rem_post_def rb_inv_def rbtree_remove_balance_right.simps split: if_splits)
  qed
qed
lemma remove_left_post:
  assumes "rb_inv t" "t \<noteq> NULL"
  shows "case rbtree_remove_left t of ((res, t'), moved) \<Rightarrow> rem_post t res t' \<and> moved \<noteq> None"
  using assms
proof (induction t)
  case (Ptr c l x r)
  show ?case
  proof (cases "r = NULL")
    case True
    then show ?thesis using Ptr.prems
      by (cases l) (auto simp: rem_post_def rb_inv_def)
  next
    case False
    obtain res r' moved where R: "rbtree_remove_left r = ((res, r'), moved)"
      by (metis surj_pair)
    have "rb_inv r" using Ptr.prems by (simp add: rb_inv_def)
    then show ?thesis
      using False R Ptr.IH(2) remove_balance_right_post [OF Ptr.prems(1), of res r' x] by simp
  qed
qed simp

lemma remove_right_post:
  assumes "rb_inv t" "t \<noteq> NULL"
  shows "case rbtree_remove_right t of ((res, t'), moved) \<Rightarrow> rem_post t res t' \<and> moved \<noteq> None"
  using assms
proof (induction t)
  case (Ptr c l x r)
  show ?case
  proof (cases "l = NULL")
    case True
    then show ?thesis using Ptr.prems
      by (cases r) (auto simp: rem_post_def rb_inv_def)
  next
    case False
    obtain res l' moved where L: "rbtree_remove_right l = ((res, l'), moved)"
      by (metis surj_pair)
    have "rb_inv l" using Ptr.prems by (simp add: rb_inv_def)
    then show ?thesis
      using False L Ptr.IH(1) remove_balance_left_post [OF Ptr.prems(1), of res l' x] by simp
  qed
qed simp

lemma remove_post:
  "rb_inv t \<Longrightarrow> case ldus_rbtree_remove lt t node of (res, t') \<Rightarrow> rem_post t res t'"
proof (induction t)
  case NULL
  then show ?case by (simp add: rem_post_def)
next
  case (Ptr c l x r)
  have inv: "rb_inv l" "rb_inv r" using Ptr.prems by (auto simp: rb_inv_def)
  note bal = remove_balance_left_post [OF Ptr.prems] remove_balance_right_post [OF Ptr.prems]
  obtain res1 l1 where L: "ldus_rbtree_remove lt l node = (res1, l1)" by (metis surj_pair)
  obtain res2 r1 where R: "ldus_rbtree_remove lt r node = (res2, r1)" by (metis surj_pair)
  obtain res3 l3 m3 where M3: "rbtree_remove_left l = ((res3, l3), m3)" by (metis surj_pair)
  obtain res4 r4 m4 where M4: "rbtree_remove_right r = ((res4, r4), m4)" by (metis surj_pair)
  consider "lt node x" | "\<not> lt node x" "lt x node" | "\<not> lt node x" "\<not> lt x node" "l \<noteq> NULL"
    | "\<not> lt node x" "\<not> lt x node" "l = NULL" "r \<noteq> NULL"
    | "\<not> lt node x" "\<not> lt x node" "l = NULL" "r = NULL" by blast
  then show ?case
  proof cases
    case 1
    then show ?thesis using bal(1) [of res1 l1 x] Ptr.IH(1) inv L by simp
  next
    case 2
    then show ?thesis using bal(2) [of res2 r1 x] Ptr.IH(2) inv R by simp
  next
    case 3
    then show ?thesis using bal(1) [of res3 l3 "the m3"] remove_left_post [OF inv(1)] M3 by simp
  next
    case 4
    then show ?thesis using bal(2) [of res4 r4 "the m4"] remove_right_post [OF inv(2)] M4 by simp
  next
    case 5
    then show ?thesis by (auto simp: rem_post_def rb_inv_def)
  qed
qed

lemma remove_rb_inv: "rb_inv t \<Longrightarrow> rb_inv (snd (ldus_rbtree_remove lt t node))"
  using remove_post [of t lt node] by (simp add: split_def rem_post_def)
section \<open>Height\<close>

lemma bheight_size: "invh t \<Longrightarrow> 2 ^ bheight t \<le> length (inorder t) + 1"
  by (induction t) auto

lemma rb_height_bheight:
  "rb_inv t \<Longrightarrow> rb_height t \<le> 2 * bheight t + (if rbtree_color t = Red then 1 else 0)"
proof (induction t)
  case (Ptr c l x r)
  then show ?case by (cases c) (auto simp: rb_inv_def split: if_splits)
qed simp

section \<open>The order\<close>

text \<open>
  What the tree relies on of the \<open>lessthan\<close> given to
  \<open>ldus_rbtree_define_prefix\<close>: a strict weak order.
\<close>

fun ins_list :: "('a \<Rightarrow> 'a \<Rightarrow> bool) \<Rightarrow> 'a \<Rightarrow> 'a list \<Rightarrow> 'a list" where
  "ins_list lt y [] = [y]"
| "ins_list lt y (x # xs) =
     (if lt y x then y # x # xs else if lt x y then x # ins_list lt y xs else x # xs)"

fun del_list :: "('a \<Rightarrow> 'a \<Rightarrow> bool) \<Rightarrow> 'a \<Rightarrow> 'a list \<Rightarrow> 'a list" where
  "del_list lt y [] = []"
| "del_list lt y (x # xs) = (if \<not> lt y x \<and> \<not> lt x y then xs else x # del_list lt y xs)"

locale strict_weak_order =
  fixes lessthan :: "'a \<Rightarrow> 'a \<Rightarrow> bool"
  assumes irrefl: "\<not> lessthan x x"
    and trans: "lessthan x y \<Longrightarrow> lessthan y z \<Longrightarrow> lessthan x z"
    and neg_trans: "lessthan x z \<Longrightarrow> lessthan x y \<or> lessthan y z"
begin

definition same :: "'a \<Rightarrow> 'a \<Rightarrow> bool" where
  "same x y \<longleftrightarrow> \<not> lessthan x y \<and> \<not> lessthan y x"

definition ordered :: "'a rbtree \<Rightarrow> bool" where
  "ordered t \<longleftrightarrow> sorted_wrt lessthan (inorder t)"

lemma same_refl [simp]: "same x x"
  by (simp add: same_def irrefl)

lemma same_sym: "same x y \<Longrightarrow> same y x"
  by (simp add: same_def)

lemma same_trans: "same x y \<Longrightarrow> same y z \<Longrightarrow> same x z"
  unfolding same_def using neg_trans by blast

lemma same_less: "same x y \<Longrightarrow> lessthan y z \<longleftrightarrow> lessthan x z" "same x y \<Longrightarrow> lessthan z y \<longleftrightarrow> lessthan z x"
  unfolding same_def using neg_trans by blast+

lemma ordered_Ptr:
  "ordered (Ptr c l x r) \<longleftrightarrow> ordered l \<and> ordered r \<and>
     (\<forall>y \<in> set (inorder l). lessthan y x) \<and> (\<forall>y \<in> set (inorder r). lessthan x y)"
  by (auto simp: ordered_def sorted_wrt_append intro: trans)

lemma ins_list_append:
  "sorted_wrt lessthan (xs @ x # ys) \<Longrightarrow>
   ins_list lessthan y (xs @ x # ys) =
     (if lessthan y x then ins_list lessthan y xs @ x # ys
      else xs @ ins_list lessthan y (x # ys))"
proof (induction xs)
  case (Cons a xs)
  then have "lessthan a x" by simp
  then have "\<not> lessthan y x \<Longrightarrow> lessthan a y" using neg_trans by blast
  moreover have "\<not> lessthan y x \<Longrightarrow> \<not> lessthan y a" using \<open>lessthan a x\<close> trans by blast
  ultimately show ?case using Cons by auto
qed simp

lemma del_list_append:
  "sorted_wrt lessthan (xs @ x # ys) \<Longrightarrow>
   del_list lessthan y (xs @ x # ys) =
     (if lessthan y x then del_list lessthan y xs @ x # ys
      else xs @ del_list lessthan y (x # ys))"
proof (induction xs)
  case (Cons a xs)
  then have "lessthan a x" by simp
  then have "\<not> lessthan y x \<Longrightarrow> lessthan a y" using neg_trans by blast
  then show ?case using Cons by auto
next
  case Nil
  have "del_list lessthan y ys = ys" if "lessthan y x" using Nil that trans
    by (induction ys) auto
  then show ?case by auto
qed

lemma inorder_insert:
  "ordered t \<Longrightarrow> inorder (snd (ldus_rbtree_insert lessthan t y)) = ins_list lessthan y (inorder t)"
proof (induction t)
  case (Ptr c l x r)
  have srt: "sorted_wrt lessthan (inorder l @ x # inorder r)" using Ptr.prems by (simp add: ordered_def)
  have "ordered l" "ordered r" using Ptr.prems by (auto simp: ordered_Ptr)
  then show ?case using Ptr.IH ins_list_append [OF srt, of y] by (auto simp: split_def Let_def)
qed simp

lemma inorder_remove:
  "ordered t \<Longrightarrow> inorder (snd (ldus_rbtree_remove lessthan t y)) = del_list lessthan y (inorder t)"
proof (induction t)
  case (Ptr c l x r)
  have srt: "sorted_wrt lessthan (inorder l @ x # inorder r)" using Ptr.prems by (simp add: ordered_def)
  have ord: "ordered l" "ordered r" using Ptr.prems by (auto simp: ordered_Ptr)
  show ?case
    using Ptr.IH ord del_list_append [OF srt, of y] remove_left_inorder [of l] remove_right_inorder [of r]
    by (auto simp: split_def Let_def)
qed simp

lemma set_ins_list:
  "set (ins_list lessthan y xs) = (if \<exists>x\<in>set xs. same x y then set xs else insert y (set xs))"
  if "sorted_wrt lessthan xs"
  using that
proof (induction xs)
  case (Cons a xs)
  have "\<not> same x y" if "lessthan y a" "x \<in> set (a # xs)" for x
    using that Cons.prems trans [of y a x] by (auto simp: same_def)
  then show ?case using Cons by (auto simp: same_def)
qed simp

lemma set_del_list:
  "set (del_list lessthan y xs) = {x \<in> set xs. \<not> same x y}" if "sorted_wrt lessthan xs"
  using that
proof (induction xs)
  case (Cons a xs)
  have "\<not> same x y" if "same a y" "x \<in> set xs" for x
    using that Cons.prems same_less(1) [of a y x] by (auto simp: same_def)
  then show ?case using Cons by (auto simp: same_def)
qed simp

lemma sorted_ins_list:
  "sorted_wrt lessthan xs \<Longrightarrow> sorted_wrt lessthan (ins_list lessthan y xs)"
  by (induction xs) (auto simp: set_ins_list intro: trans)

lemma sorted_del_list:
  "sorted_wrt lessthan xs \<Longrightarrow> sorted_wrt lessthan (del_list lessthan y xs)"
  by (induction xs) (auto simp: set_del_list)

lemma insert_ordered: "ordered t \<Longrightarrow> ordered (snd (ldus_rbtree_insert lessthan t y))"
  by (simp add: ordered_def inorder_insert sorted_ins_list)

lemma remove_ordered: "ordered t \<Longrightarrow> ordered (snd (ldus_rbtree_remove lessthan t y))"
  by (simp add: ordered_def inorder_remove sorted_del_list)

lemma find_Some_iff:
  "ordered t \<Longrightarrow> ldus_rbtree_find lessthan t y = Some x \<longleftrightarrow> x \<in> set (inorder t) \<and> same x y"
proof (induction t)
  case (Ptr c l a r)
  then show ?case
    by (auto simp: ordered_Ptr same_def dest: trans) (metis neg_trans)+
qed simp

lemma find_None_iff:
  "ordered t \<Longrightarrow> ldus_rbtree_find lessthan t y = None \<longleftrightarrow> (\<forall>x \<in> set (inorder t). \<not> same x y)"
  using find_Some_iff by (metis option.exhaust option.distinct(1))

end

section \<open>Result codes and walks\<close>

lemma insert_balance_code:
  "fst (rbtree_insert_balance_left (Ptr c l x r) res) = - 1 \<longleftrightarrow> res = - 1"
  "fst (rbtree_insert_balance_right (Ptr c l x r) res) = - 1 \<longleftrightarrow> res = - 1"
  by (auto simp: rbtree_insert_balance_left.simps rbtree_insert_balance_right.simps)

lemma remove_sibling_code:
  "fst (rbtree_remove_sibling_left t) \<noteq> - 1" "fst (rbtree_remove_sibling_right t) \<noteq> - 1"
  by (cases t rule: rbtree_remove_sibling_left.cases;
      auto simp: rbtree_remove_sibling_left.simps Let_def split: rbtree.splits)
     (cases t rule: rbtree_remove_sibling_right.cases;
      auto simp: rbtree_remove_sibling_right.simps Let_def split: rbtree.splits)

lemma remove_balance_code:
  "fst (rbtree_remove_balance_left (Ptr c l x r) res) = - 1 \<longleftrightarrow> res = - 1"
  "fst (rbtree_remove_balance_right (Ptr c l x r) res) = - 1 \<longleftrightarrow> res = - 1"
  by (auto simp: rbtree_remove_balance_left.simps rbtree_remove_balance_right.simps split_def Let_def
      remove_sibling_code split: rbtree.splits)

lemma remove_ends_code:
  "fst (fst (rbtree_remove_left t)) \<noteq> - 1" "fst (fst (rbtree_remove_right t)) \<noteq> - 1"
  by (induction t) (auto simp: split_def Let_def remove_balance_code)

lemma insert_code:
  "fst (ldus_rbtree_insert lt t y) = - 1 \<longleftrightarrow> ldus_rbtree_find lt t y \<noteq> None"
  by (induction t) (auto simp: split_def Let_def insert_balance_code)

lemma remove_code:
  "fst (ldus_rbtree_remove lt t y) = - 1 \<longleftrightarrow> ldus_rbtree_find lt t y = None"
  by (induction t) (auto simp: split_def Let_def remove_balance_code remove_ends_code)

lemma walk_right_fold: "ldus_rbtree_walk_right t callback s = fold callback (inorder t) s"
  by (induction t arbitrary: s) auto

end
