(* ===== verification/Block_State.thy ===== *)
theory Block_State
  imports Block_Types RBTree
begin

text \<open>
  The state of client/block.c.  \<open>xdag_malloc\<close> hands out fresh cells and never
  takes them back, so the cells that hold a \<open>struct block_internal\<close> form a
  list, a pointer to a cell is its index and NULL is None.  The doubly linked
  lists of own blocks and of orphans are lists of pointers, in the order of
  their next pointers.  The global configuration (\<open>g_xdag_testnet\<close> and so on) is part of the state and is
  never changed by the operations modelled here.
\<close>

type_synonym ptr = nat

text \<open>The union of \<open>ref\<close> and \<open>oref\<close>: the tag is the \<open>BI_REF\<close> flag of the code.\<close>

datatype bi_ref = NoRef | Ref ptr | ORef

record block_internal =
  bi_hash :: xdag_hash_t
  bi_difficulty :: u128
  bi_amount :: u64
  bi_linkamount :: "u64 list"
  bi_fee :: u64
  bi_time :: u64
  bi_storage_pos :: u64
  bi_ref :: bi_ref
  bi_link :: "ptr option list"
  bi_height :: u64
  bi_backrefs :: "ptr list list"
  bi_remark :: "u8 list option"
  bi_flags :: u16
  bi_in_mask :: u16
  bi_n_our_key :: u16
  bi_nlinks :: nat
  bi_max_diff_link :: nat

record block_internal_index =
  ix_hash :: xdag_hash_t
  ix_bi :: ptr

record orphan_block =
  orphan_bi :: ptr
  orphan_data :: xdag_block

datatype xdag_state_code =
    XDAG_STATE_INIT | XDAG_STATE_KEYS | XDAG_STATE_REST | XDAG_STATE_LOAD | XDAG_STATE_STOP
  | XDAG_STATE_WTST | XDAG_STATE_WAIT | XDAG_STATE_TTST | XDAG_STATE_TRYP | XDAG_STATE_CTST
  | XDAG_STATE_CONN | XDAG_STATE_XFER | XDAG_STATE_PTST | XDAG_STATE_POOL | XDAG_STATE_MTST
  | XDAG_STATE_MINE | XDAG_STATE_STST | XDAG_STATE_SYNC

datatype xdag_node_type = XDAG_WALLET | XDAG_POOL
datatype xdag_mine_type = XDAG_RAW | XDAG_RANDOMX

record xdag_stats =
  difficulty :: u128
  max_difficulty :: u128
  nblocks :: u64
  total_nblocks :: u64
  nmain :: u64
  total_nmain :: u64

record xdag_ext_stats =
  hashrate_total :: "u128 list"
  hashrate_ours :: "u128 list"
  hashrate_last_time :: u64
  nnoref :: u64
  nextra :: u64

text \<open>
  The two RandomX seed slots.  The virtual machines belong to the RandomX
  library; what matters of them is the seed they were last programmed with.
\<close>

record rx_pool_mem =
  rx_seed :: xdag_hash_t
  rx_seed_height :: u64
  rx_seed_time :: u64
  rx_switch_time :: u64
  rx_is_switched :: int
  rx_pool_vm :: "xdag_hash_t option"
  rx_block_vm :: "xdag_hash_t option"

record rx_globals =
  g_rx_fork_time :: u64
  g_rx_fork_seed_height :: u64
  g_rx_fork_lag :: u64
  g_rx_pool_mem_index :: u64
  g_rx_hash_epoch_index :: u64
  g_rx_pool_mem :: "rx_pool_mem \<times> rx_pool_mem"

record xdag_state =
  heap :: "block_internal list"
  root :: "block_internal_index rbtree"
  top_main_chain :: "ptr option"
  pretop_main_chain :: "ptr option"
  ours :: "ptr list"
  orphans :: "orphan_block list"
  extras :: "orphan_block list"
  g_balance :: u64
  g_xdag_stats :: xdag_stats
  g_xdag_extstats :: xdag_ext_stats
  g_rx :: rx_globals
  g_xdag_state :: xdag_state_code
  g_xdag_testnet :: bool
  g_xdag_type :: xdag_node_type
  g_xdag_mine_type :: xdag_mine_type
  g_block_header_type :: nat
  g_xdag_era :: u64

abbreviation cell :: "xdag_state \<Rightarrow> ptr \<Rightarrow> block_internal" where
  "cell st p \<equiv> heap st ! p"

definition upd_cell :: "ptr \<Rightarrow> (block_internal \<Rightarrow> block_internal) \<Rightarrow> xdag_state \<Rightarrow> xdag_state" where
  "upd_cell p f st = st\<lparr>heap := (heap st)[p := f (heap st ! p)]\<rparr>"

definition has_flag :: "block_internal \<Rightarrow> u16 \<Rightarrow> bool" where
  "has_flag b m \<longleftrightarrow> bi_flags b AND m \<noteq> 0"

definition set_flag :: "u16 \<Rightarrow> block_internal \<Rightarrow> block_internal" where
  "set_flag m b = b\<lparr>bi_flags := bi_flags b OR m\<rparr>"

definition clear_flag :: "u16 \<Rightarrow> block_internal \<Rightarrow> block_internal" where
  "clear_flag m b = b\<lparr>bi_flags := bi_flags b AND NOT m\<rparr>"

abbreviation link_of :: "xdag_state \<Rightarrow> ptr \<Rightarrow> nat \<Rightarrow> ptr" where
  "link_of st p i \<equiv> the (bi_link (cell st p) ! i)"

text \<open>\<open>b->link[b->max_diff_link]\<close>, the step of every walk along a chain.\<close>

definition max_diff_parent :: "block_internal \<Rightarrow> ptr option" where
  "max_diff_parent b = bi_link b ! bi_max_diff_link b"

definition is_pool :: "xdag_state \<Rightarrow> bool" where "is_pool st \<longleftrightarrow> g_xdag_type st = XDAG_POOL"
definition is_wallet :: "xdag_state \<Rightarrow> bool" where "is_wallet st \<longleftrightarrow> g_xdag_type st = XDAG_WALLET"

definition MAIN_TIME :: "u64 \<Rightarrow> u64" where "MAIN_TIME t = drop_bit 16 t"

section \<open>The own-block list\<close>

text \<open>
  \<open>order_ourblocks_by_amount\<close> moves a block towards the front past poorer
  neighbours, then towards the back past richer ones.  The first list is the
  part in front of the block, nearest neighbour first.
\<close>

fun order_up :: "(ptr \<Rightarrow> u64) \<Rightarrow> ptr \<Rightarrow> ptr list \<Rightarrow> ptr list \<Rightarrow> ptr list \<times> ptr list" where
  "order_up amt bi (ti # prev) nxt =
     (if amt bi > amt ti then order_up amt bi prev (ti # nxt) else (ti # prev, nxt))"
| "order_up amt bi [] nxt = ([], nxt)"

fun order_down :: "(ptr \<Rightarrow> u64) \<Rightarrow> ptr \<Rightarrow> ptr list \<Rightarrow> ptr list \<Rightarrow> ptr list \<times> ptr list" where
  "order_down amt bi prev (ti # nxt) =
     (if amt bi < amt ti then order_down amt bi (ti # prev) nxt else (prev, ti # nxt))"
| "order_down amt bi prev [] = (prev, [])"

definition reorder :: "(ptr \<Rightarrow> u64) \<Rightarrow> ptr \<Rightarrow> ptr list \<Rightarrow> ptr list" where
  "reorder amt bi xs =
     (if bi \<in> set xs then
        (let prev = rev (takeWhile (\<lambda>x. x \<noteq> bi) xs); nxt = tl (dropWhile (\<lambda>x. x \<noteq> bi) xs);
             (prev1, nxt1) = order_up amt bi prev nxt;
             (prev2, nxt2) = order_down amt bi prev1 nxt1
         in rev prev2 @ bi # nxt2)
      else xs)"

definition order_ourblocks_by_amount :: "ptr \<Rightarrow> xdag_state \<Rightarrow> xdag_state" where
  "order_ourblocks_by_amount bi st =
     st\<lparr>ours := reorder (\<lambda>p. bi_amount (cell st p)) bi (ours st)\<rparr>"

definition add_ourblock :: "ptr \<Rightarrow> xdag_state \<Rightarrow> xdag_state" where
  "add_ourblock p st = st\<lparr>ours := ours st @ [p]\<rparr>"

definition remove_ourblock :: "ptr \<Rightarrow> xdag_state \<Rightarrow> xdag_state" where
  "remove_ourblock p st = st\<lparr>ours := remove1 p (ours st)\<rparr>"

definition accept_amount :: "ptr \<Rightarrow> u64 \<Rightarrow> xdag_state \<Rightarrow> xdag_state" where
  "accept_amount bi amt st =
     (if amt = 0 then st
      else
        (let st1 = upd_cell bi (\<lambda>b. b\<lparr>bi_amount := bi_amount b + amt\<rparr>) st in
         if has_flag (cell st1 bi) BI_OURS then
           order_ourblocks_by_amount bi (st1\<lparr>g_balance := g_balance st1 + amt\<rparr>)
         else st1))"

section \<open>Frame facts\<close>

lemma length_upd_cell [simp]: "length (heap (upd_cell p f st)) = length (heap st)"
  by (simp add: upd_cell_def)

lemma cell_upd_cell [frame_simps]:
  "cell (upd_cell p f st) q = (if p = q \<and> p < length (heap st) then f (cell st p) else cell st q)"
  by (cases "p = q"; cases "p < length (heap st)") (auto simp: upd_cell_def list_update_beyond)

lemma upd_cell_others [simp]:
  "root (upd_cell p f st) = root st"
  "top_main_chain (upd_cell p f st) = top_main_chain st"
  "pretop_main_chain (upd_cell p f st) = pretop_main_chain st"
  "ours (upd_cell p f st) = ours st"
  "orphans (upd_cell p f st) = orphans st"
  "extras (upd_cell p f st) = extras st"
  "g_balance (upd_cell p f st) = g_balance st"
  "g_xdag_stats (upd_cell p f st) = g_xdag_stats st"
  "g_xdag_extstats (upd_cell p f st) = g_xdag_extstats st"
  "g_rx (upd_cell p f st) = g_rx st"
  "g_xdag_testnet (upd_cell p f st) = g_xdag_testnet st"
  "g_xdag_state (upd_cell p f st) = g_xdag_state st"
  "g_xdag_type (upd_cell p f st) = g_xdag_type st"
  by (simp_all add: upd_cell_def)

lemma flag_set_clear [simp]:
  "bi_flags (set_flag m b) = bi_flags b OR m"
  "bi_flags (clear_flag m b) = bi_flags b AND NOT m"
  by (simp_all add: set_flag_def clear_flag_def)

end
