(* ===== verification/Block_Chain.thy ===== *)
theory Block_Chain
  imports Block_State
begin

text \<open>
  The main chain of client/block.c: applying and undoing a block with
  everything it references, choosing and unwinding main blocks, the reward
  schedule, and the RandomX fork bookkeeping of client/rx_hash.c that every new
  main block drives.  A recursion along links carries fuel; None is a run that
  never returns.
\<close>

section \<open>Constants\<close>

definition MAX_WAITING_MAIN :: nat where "MAX_WAITING_MAIN = 1"
definition MAIN_START_AMOUNT :: u64 where "MAIN_START_AMOUNT = 2 ^ 42"
definition MAIN_APOLLO_AMOUNT :: u64 where "MAIN_APOLLO_AMOUNT = 2 ^ 39"
definition MAIN_APOLLO_HEIGHT :: u64 where "MAIN_APOLLO_HEIGHT = 1017323"
definition MAIN_APOLLO_TESTNET_HEIGHT :: u64 where "MAIN_APOLLO_TESTNET_HEIGHT = 196250"
definition MAIN_BIG_PERIOD_LOG :: nat where "MAIN_BIG_PERIOD_LOG = 21"

definition SEEDHASH_EPOCH_BLOCKS :: u64 where "SEEDHASH_EPOCH_BLOCKS = 4096"
definition SEEDHASH_EPOCH_TESTNET_BLOCKS :: u64 where "SEEDHASH_EPOCH_TESTNET_BLOCKS = 64"

section \<open>Applying a block\<close>

text \<open>The value \<open>-1l\<close> that \<open>apply_block\<close> returns for a block already applied.\<close>

definition already_applied :: u64 where "already_applied = - 1"

text \<open>The checks of the second loop: the sums over inputs and outputs, or a rejection.\<close>

fun check_links ::
  "xdag_state \<Rightarrow> block_internal \<Rightarrow> nat list \<Rightarrow> u64 \<Rightarrow> u64 \<Rightarrow> (u64 \<times> u64) option" where
  "check_links st b [] sum_in sum_out = Some (sum_in, sum_out)"
| "check_links st b (i # is) sum_in sum_out =
     (if bit (bi_in_mask b) i then
        (if bi_amount (cell st (the (bi_link b ! i))) < bi_linkamount b ! i then None
         else if sum_in + bi_linkamount b ! i < sum_in then None
         else check_links st b is (sum_in + bi_linkamount b ! i) sum_out)
      else
        (if sum_out + bi_linkamount b ! i < sum_out then None
         else check_links st b is sum_in (sum_out + bi_linkamount b ! i)))"

definition transfer_link :: "block_internal \<Rightarrow> nat \<Rightarrow> xdag_state \<Rightarrow> xdag_state" where
  "transfer_link b i st =
     (if bit (bi_in_mask b) i then accept_amount (the (bi_link b ! i)) (0 - bi_linkamount b ! i) st
      else accept_amount (the (bi_link b ! i)) (bi_linkamount b ! i) st)"

text \<open>The tail of \<open>apply_block\<close>: check the amounts, then move them.\<close>

definition apply_amounts :: "ptr \<Rightarrow> xdag_state \<Rightarrow> xdag_state \<times> u64" where
  "apply_amounts bi st =
     (let b = cell st bi in
      case check_links st b [0..<bi_nlinks b] 0 (bi_fee b) of
        None \<Rightarrow> (st, 0)
      | Some (sum_in, sum_out) \<Rightarrow>
          if sum_in + bi_amount b < sum_in \<or> sum_in + bi_amount b < sum_out then (st, 0)
          else
            (let st1 = fold (transfer_link b) [0..<bi_nlinks b] st;
                 st2 = accept_amount bi (sum_in - sum_out) st1
             in (upd_cell bi (set_flag BI_APPLIED) st2, bi_fee b)))"

text \<open>One round of the first loop, with the recursive call as a parameter.\<close>

definition apply_ref ::
  "(ptr \<Rightarrow> xdag_state \<Rightarrow> (xdag_state \<times> u64) option) \<Rightarrow> ptr \<Rightarrow> nat \<Rightarrow> xdag_state \<Rightarrow> xdag_state option" where
  "apply_ref apply bi i st =
     do {
       (st', ref_amount) \<leftarrow> apply (link_of st bi i) st;
       if ref_amount = already_applied then Some st'
       else
         (let st'' = upd_cell (link_of st' bi i) (\<lambda>b. b\<lparr>bi_ref := Ref bi\<rparr>) st' in
          if bi_amount (cell st'' bi) + ref_amount \<ge> bi_amount (cell st'' bi)
          then Some (accept_amount bi ref_amount st'') else Some st'')
     }"

fun apply_block :: "nat \<Rightarrow> ptr \<Rightarrow> xdag_state \<Rightarrow> (xdag_state \<times> u64) option" where
  "apply_block 0 bi st = None"
| "apply_block (Suc fuel) bi st =
     (if has_flag (cell st bi) BI_MAIN_REF then Some (st, already_applied)
      else
        do {
          st1 \<leftarrow> fold_opt (apply_ref (\<lambda>q s. apply_block fuel q s) bi)
            [0..<bi_nlinks (cell st bi)] (upd_cell bi (set_flag BI_MAIN_REF) st);
          Some (apply_amounts bi st1)
        })"

section \<open>Undoing a block\<close>

definition untransfer_link :: "block_internal \<Rightarrow> nat \<Rightarrow> xdag_state \<Rightarrow> xdag_state" where
  "untransfer_link b i st =
     (if bit (bi_in_mask b) i then accept_amount (the (bi_link b ! i)) (bi_linkamount b ! i) st
      else accept_amount (the (bi_link b ! i)) (0 - bi_linkamount b ! i) st)"

fun unapply_sum :: "block_internal \<Rightarrow> nat list \<Rightarrow> u64 \<Rightarrow> u64" where
  "unapply_sum b [] s = s"
| "unapply_sum b (i # is) s =
     unapply_sum b is (if bit (bi_in_mask b) i then s - bi_linkamount b ! i else s + bi_linkamount b ! i)"

definition unapply_amounts :: "ptr \<Rightarrow> xdag_state \<Rightarrow> xdag_state" where
  "unapply_amounts bi st =
     (let b = cell st bi in
      if has_flag b BI_APPLIED then
        (let st1 = fold (untransfer_link b) [0..<bi_nlinks b] st;
             st2 = accept_amount bi (unapply_sum b [0..<bi_nlinks b] (bi_fee b)) st1
         in upd_cell bi (clear_flag BI_APPLIED) st2)
      else st)"

definition unapply_ref ::
  "(ptr \<Rightarrow> xdag_state \<Rightarrow> (xdag_state \<times> u64) option) \<Rightarrow> ptr \<Rightarrow> nat \<Rightarrow> xdag_state \<Rightarrow> xdag_state option" where
  "unapply_ref unapply bi i st =
     (if bi_ref (cell st (link_of st bi i)) = Ref bi \<and>
         has_flag (cell st (link_of st bi i)) BI_MAIN_REF
      then do {
        (st', amt) \<leftarrow> unapply (link_of st bi i) st;
        Some (accept_amount bi amt st')
      }
      else Some st)"

fun unapply_block :: "nat \<Rightarrow> ptr \<Rightarrow> xdag_state \<Rightarrow> (xdag_state \<times> u64) option" where
  "unapply_block 0 bi st = None"
| "unapply_block (Suc fuel) bi st =
     do {
       st1 \<leftarrow> fold_opt (unapply_ref (\<lambda>q s. unapply_block fuel q s) bi)
         [0..<bi_nlinks (cell st bi)]
         (upd_cell bi (\<lambda>b. (clear_flag BI_MAIN_REF b)\<lparr>bi_ref := NoRef\<rparr>) (unapply_amounts bi st));
       Some (st1, 0 - bi_fee (cell st1 bi))
     }"

section \<open>Rewards\<close>

definition fork_height :: "bool \<Rightarrow> u64" where
  "fork_height testnet = (if testnet then MAIN_APOLLO_TESTNET_HEIGHT else MAIN_APOLLO_HEIGHT)"

definition get_start_amount :: "bool \<Rightarrow> u64 \<Rightarrow> u64" where
  "get_start_amount testnet n =
     (if n \<ge> fork_height testnet then MAIN_APOLLO_AMOUNT else MAIN_START_AMOUNT)"

definition get_block_earning :: "bool \<Rightarrow> u64 \<Rightarrow> u64" where
  "get_block_earning testnet n =
     drop_bit (unat (drop_bit MAIN_BIG_PERIOD_LOG n)) (get_start_amount testnet n)"

definition get_amount :: "bool \<Rightarrow> u64 \<Rightarrow> u64" where
  "get_amount testnet n =
     drop_bit (unat (drop_bit MAIN_BIG_PERIOD_LOG n)) (get_start_amount testnet n)"

text \<open>The loop of \<open>xdag_get_supply\<close>: periods of \<open>2 ^ 21\<close> main blocks, halving.\<close>

function supply_loop :: "u64 \<Rightarrow> u64 \<Rightarrow> u64 \<Rightarrow> u64" where
  "supply_loop current_nmain amount res =
     (if drop_bit MAIN_BIG_PERIOD_LOG current_nmain \<noteq> 0 then
        supply_loop (current_nmain - push_bit MAIN_BIG_PERIOD_LOG 1) (drop_bit 1 amount)
          (res + push_bit MAIN_BIG_PERIOD_LOG 1 * amount)
      else res + current_nmain * amount)"
  by pat_completeness auto

lemma drop_period_nonzero:
  "drop_bit MAIN_BIG_PERIOD_LOG c \<noteq> 0 \<longleftrightarrow> 2 ^ 21 \<le> unat c"
  by (simp only: word_eq_0_iff_unat unat_drop_bit MAIN_BIG_PERIOD_LOG_def)
     (simp add: div_eq_0_iff not_less)

termination supply_loop
proof (relation "measure (\<lambda>(c, a, r). unat c)")
  fix c a r :: u64
  assume "drop_bit MAIN_BIG_PERIOD_LOG c \<noteq> 0"
  then have "2 ^ 21 \<le> unat c" by (simp only: drop_period_nonzero)
  then have "unat (c - 2 ^ 21) < unat c"
    by (simp add: unat_sub_if_size word_le_nat_alt)
  then show "((c - push_bit MAIN_BIG_PERIOD_LOG 1, drop_bit 1 a, r + push_bit MAIN_BIG_PERIOD_LOG 1 * a), c, a, r)
    \<in> measure (\<lambda>(c, a, r). unat c)"
    by (simp add: MAIN_BIG_PERIOD_LOG_def push_bit_eq_mult)
qed simp

declare supply_loop.simps [simp del]

definition xdag_get_supply :: "bool \<Rightarrow> u64 \<Rightarrow> u64" where
  "xdag_get_supply testnet n =
     (let res = supply_loop n (get_start_amount testnet n) 0 in
      if n \<ge> fork_height testnet
      then res + (fork_height testnet - 1) * (MAIN_START_AMOUNT - MAIN_APOLLO_AMOUNT)
      else res)"

section \<open>Walks along the main chain\<close>

record xdag_env =
  env_xtimestamp :: u64
  env_stack_word :: u64

text \<open>
  \<open>env_xtimestamp\<close> is what \<open>xdag_get_xtimestamp\<close> returns.
  \<open>env_stack_word\<close> is the word that follows the three-word array \<open>hash\<close> on the
  stack of \<open>rx_set_fork_time\<close>, which \<open>xdag_cmphash\<close> reads as its fourth.
\<close>

definition chain_fuel :: "xdag_state \<Rightarrow> nat" where
  "chain_fuel st = Suc (length (heap st))"

fun block_by_height_loop :: "nat \<Rightarrow> u64 \<Rightarrow> ptr option \<Rightarrow> nat \<Rightarrow> xdag_state \<Rightarrow> ptr option option" where
  "block_by_height_loop 0 h bi i st = None"
| "block_by_height_loop (Suc fuel) h bi i st =
     (case bi of
        None \<Rightarrow> Some None
      | Some p \<Rightarrow>
          if \<not> i < unat (nmain (g_xdag_stats st)) then Some (Some p)
          else if has_flag (cell st p) BI_MAIN then
            (if h = bi_height (cell st p) then Some (Some p)
             else block_by_height_loop fuel h (max_diff_parent (cell st p)) (Suc i) st)
          else block_by_height_loop fuel h (max_diff_parent (cell st p)) i st)"

definition block_by_height :: "u64 \<Rightarrow> xdag_state \<Rightarrow> ptr option option" where
  "block_by_height h st =
     (if h > nmain (g_xdag_stats st) then Some None
      else block_by_height_loop (chain_fuel st) h (top_main_chain st) 0 st)"

section \<open>RandomX fork bookkeeping\<close>

definition is_randomx_fork :: "u64 \<Rightarrow> xdag_state \<Rightarrow> bool" where
  "is_randomx_fork t st \<longleftrightarrow> g_xdag_mine_type st = XDAG_RANDOMX \<and> t > g_rx_fork_time (g_rx st)"

definition rx_mem :: "rx_globals \<Rightarrow> u64 \<Rightarrow> rx_pool_mem" where
  "rx_mem g i = (if i AND 1 = 0 then fst (g_rx_pool_mem g) else snd (g_rx_pool_mem g))"

definition rx_set_mem :: "u64 \<Rightarrow> rx_pool_mem \<Rightarrow> rx_globals \<Rightarrow> rx_globals" where
  "rx_set_mem i m g =
     g\<lparr>g_rx_pool_mem :=
         (if i AND 1 = 0 then (m, snd (g_rx_pool_mem g)) else (fst (g_rx_pool_mem g), m))\<rparr>"

fun copy_hashlow :: "xdag_hashlow_t \<Rightarrow> xdag_hash_t \<Rightarrow> xdag_hash_t" where
  "copy_hashlow (a, b, c) (p, q, r, s) = (a, b, c, s)"

fun widen_hashlow :: "xdag_hashlow_t \<Rightarrow> u64 \<Rightarrow> xdag_hash_t" where
  "widen_hashlow (a, b, c) w = (a, b, c, w)"

text \<open>Allocation failures inside the RandomX library abort the process and are not modelled.\<close>

definition rx_pool_update_seed :: "rx_pool_mem \<Rightarrow> rx_pool_mem" where
  "rx_pool_update_seed m = m\<lparr>rx_pool_vm := Some (rx_seed m), rx_block_vm := Some (rx_seed m)\<rparr>"

definition seed_epoch_mask :: "bool \<Rightarrow> u64" where
  "seed_epoch_mask testnet =
     (if testnet then SEEDHASH_EPOCH_TESTNET_BLOCKS else SEEDHASH_EPOCH_BLOCKS) - 1"

definition rx_next_seed :: "xdag_env \<Rightarrow> block_internal \<Rightarrow> xdag_hashlow_t \<Rightarrow> rx_globals \<Rightarrow> rx_globals" where
  "rx_next_seed env m h g =
     (let next_mem_index = g_rx_hash_epoch_index g + 1;
          mem1 = (rx_mem g next_mem_index)
            \<lparr>rx_switch_time := MAIN_TIME (bi_time m) + g_rx_fork_lag g + 1,
             rx_seed_time := bi_time m, rx_seed_height := bi_height m\<rparr>;
          mem2 = (if xdag_cmphash (rx_seed mem1) (widen_hashlow h (env_stack_word env)) \<noteq> 0
                  then rx_pool_update_seed (mem1\<lparr>rx_seed := copy_hashlow h (rx_seed mem1)\<rparr>) else mem1)
      in (rx_set_mem next_mem_index (mem2\<lparr>rx_is_switched := 0\<rparr>) g)
           \<lparr>g_rx_hash_epoch_index := next_mem_index\<rparr>)"

definition rx_set_fork_time :: "xdag_env \<Rightarrow> ptr \<Rightarrow> xdag_state \<Rightarrow> xdag_state option" where
  "rx_set_fork_time env p st =
     (let m = cell st p; g = g_rx st in
      if bi_height m \<ge> g_rx_fork_seed_height g then
        (let g1 = (if bi_height m = g_rx_fork_seed_height g
                   then g\<lparr>g_rx_fork_time := MAIN_TIME (bi_time m) + g_rx_fork_lag g\<rparr> else g) in
         if bi_height m AND seed_epoch_mask (g_xdag_testnet st) = 0 then
           do {
             seed_block \<leftarrow> block_by_height (bi_height m - g_rx_fork_lag g) st;
             q \<leftarrow> seed_block;
             Some (st\<lparr>g_rx := rx_next_seed env m (hashlow (bi_hash (cell st q))) g1\<rparr>)
           }
         else Some (st\<lparr>g_rx := g1\<rparr>))
      else Some st)"

definition rx_unset_fork_time :: "ptr \<Rightarrow> xdag_state \<Rightarrow> xdag_state" where
  "rx_unset_fork_time p st =
     (let m = cell st p; g = g_rx st in
      if bi_height m \<ge> g_rx_fork_seed_height g then
        (let g1 = (if bi_height m = g_rx_fork_seed_height g then g\<lparr>g_rx_fork_time := - 1\<rparr> else g);
             i = g_rx_hash_epoch_index g1;
             g2 = (if bi_height m AND seed_epoch_mask (g_xdag_testnet st) = 0
                   then rx_set_mem i ((rx_mem g1 i)\<lparr>rx_seed_time := - 1, rx_seed_height := - 1,
                          rx_switch_time := - 1, rx_is_switched := - 1\<rparr>)
                          (g1\<lparr>g_rx_hash_epoch_index := i - 1\<rparr>)
                   else g1)
         in st\<lparr>g_rx := g2\<rparr>)
      else st)"

section \<open>Main blocks\<close>

definition set_main :: "xdag_env \<Rightarrow> ptr \<Rightarrow> xdag_state \<Rightarrow> xdag_state option" where
  "set_main env m st =
     (let h = nmain (g_xdag_stats st) + 1;
          amount = get_amount (g_xdag_testnet st) h;
          st1 = upd_cell m (\<lambda>b. set_flag BI_MAIN (b\<lparr>bi_height := h\<rparr>)) st;
          st2 = accept_amount m amount st1;
          stats = (g_xdag_stats st2)\<lparr>nmain := nmain (g_xdag_stats st2) + 1\<rparr>;
          stats' = (if nmain stats > total_nmain stats then stats\<lparr>total_nmain := nmain stats\<rparr> else stats)
      in do {
        (st3, fee) \<leftarrow> apply_block (chain_fuel st) m (st2\<lparr>g_xdag_stats := stats'\<rparr>);
        rx_set_fork_time env m
          (upd_cell m (\<lambda>b. b\<lparr>bi_ref := Ref m\<rparr>) (accept_amount m fee st3))
      })"

definition unset_main :: "ptr \<Rightarrow> xdag_state \<Rightarrow> xdag_state option" where
  "unset_main m st =
     (let stats = g_xdag_stats st;
          amount = get_amount (g_xdag_testnet st) (nmain stats);
          st1 = st\<lparr>g_xdag_stats := stats\<lparr>total_nmain := total_nmain stats - 1, nmain := nmain stats - 1\<rparr>\<rparr>;
          st2 = accept_amount m (0 - amount) (upd_cell m (clear_flag BI_MAIN) st1)
      in do {
        (st3, fee) \<leftarrow> unapply_block (chain_fuel st) m st2;
        Some (rx_unset_fork_time m (accept_amount m fee st3))
      })"

text \<open>
  The walk of \<open>check_new_main\<close>: the last candidate below the top that is not
  yet main, and how many candidates there are.
\<close>

fun find_new_main :: "nat \<Rightarrow> ptr option \<Rightarrow> ptr option \<Rightarrow> nat \<Rightarrow> xdag_state \<Rightarrow> (ptr option \<times> nat) option" where
  "find_new_main 0 b p i st = None"
| "find_new_main (Suc fuel) b p i st =
     (case b of
        None \<Rightarrow> Some (p, i)
      | Some q \<Rightarrow>
          if has_flag (cell st q) BI_MAIN then Some (p, i)
          else if has_flag (cell st q) BI_MAIN_CHAIN
          then find_new_main fuel (max_diff_parent (cell st q)) (Some q) (Suc i) st
          else find_new_main fuel (max_diff_parent (cell st q)) p i st)"

definition check_new_main :: "xdag_env \<Rightarrow> xdag_state \<Rightarrow> xdag_state option" where
  "check_new_main env st =
     do {
       (cand, i) \<leftarrow> find_new_main (chain_fuel st) (top_main_chain st) None 0 st;
       case cand of
         None \<Rightarrow> Some st
       | Some p \<Rightarrow>
           if has_flag (cell st p) BI_REF \<and> i > MAX_WAITING_MAIN \<and>
              env_xtimestamp env \<ge> bi_time (cell st p) + 2 * 1024
           then set_main env p st else Some st
     }"

fun unwind_main_loop :: "nat \<Rightarrow> ptr option \<Rightarrow> ptr option \<Rightarrow> xdag_state \<Rightarrow> xdag_state option" where
  "unwind_main_loop 0 t b st = None"
| "unwind_main_loop (Suc fuel) t b st =
     (case t of
        None \<Rightarrow> Some st
      | Some q \<Rightarrow>
          if t = b then Some st
          else
            (let st1 = upd_cell q (clear_flag BI_MAIN_CHAIN) st in
             do {
               st2 \<leftarrow> (if has_flag (cell st1 q) BI_MAIN then unset_main q st1 else Some st1);
               unwind_main_loop fuel (max_diff_parent (cell st2 q)) b st2
             }))"

definition unwind_main :: "ptr option \<Rightarrow> xdag_state \<Rightarrow> xdag_state option" where
  "unwind_main b st = unwind_main_loop (chain_fuel st) (top_main_chain st) b st"

end
