(* ===== verification/Supply.thy ===== *)
theory Supply
  imports Block_Chain
begin

text \<open>
  The supply formula of \<open>xdag_get_supply\<close> against the sum of the rewards that
  \<open>set_main\<close> hands out.
\<close>

definition halving :: "nat \<Rightarrow> nat \<Rightarrow> nat" where
  "halving a k = a div 2 ^ (k div 2 ^ 21)"

lemma sum_halving_step:
  assumes "2 ^ 21 \<le> c"
  shows "(\<Sum>k<c. halving a k) = 2 ^ 21 * a + (\<Sum>k<c - 2 ^ 21. halving (a div 2) k)"
proof -
  have "(\<Sum>k<c. halving a k) = (\<Sum>k<2 ^ 21. halving a k) + (\<Sum>k\<in>{2 ^ 21..<c}. halving a k)"
    using assms by (metis sum.atLeastLessThan_concat lessThan_atLeast0 zero_le)
  moreover have "(\<Sum>k<2 ^ 21. halving a k) = (\<Sum>k<(2 ^ 21::nat). a)"
    by (intro sum.cong refl) (simp add: halving_def)
  moreover have "(\<Sum>k\<in>{2 ^ 21..<c}. halving a k) = (\<Sum>k<c - 2 ^ 21. halving a (k + 2 ^ 21))"
    using sum.shift_bounds_nat_ivl [of "halving a" 0 "2 ^ 21" "c - 2 ^ 21"] assms
    by (simp add: lessThan_atLeast0)
  moreover have "halving a (k + 2 ^ 21) = halving (a div 2) k" for k
  proof -
    have "(k + 2 ^ 21) div 2 ^ 21 = Suc (k div 2 ^ 21)" using div_add_self2 [of "2 ^ 21" k] by simp
    then show ?thesis unfolding halving_def by (simp only: power_Suc div_mult2_eq)
  qed
  ultimately show ?thesis by simp
qed

lemma sum_halving_small: "c \<le> 2 ^ 21 \<Longrightarrow> (\<Sum>k<c. halving a k) = c * a"
proof -
  assume "c \<le> 2 ^ 21"
  then have "(\<Sum>k<c. halving a k) = (\<Sum>k<c. a)"
    by (intro sum.cong refl) (simp add: halving_def)
  then show ?thesis by simp
qed

lemma sum_halving_bound: "(\<Sum>k<c. halving a k) \<le> 2 ^ 22 * a"
proof (induction c arbitrary: a rule: less_induct)
  case (less c)
  show ?case
  proof (cases "2 ^ 21 \<le> c")
    case True
    have "(\<Sum>k<c - 2 ^ 21. halving (a div 2) k) \<le> 2 ^ 22 * (a div 2)"
      using True by (intro less.IH) auto
    also have "\<dots> \<le> 2 ^ 21 * a" by simp
    finally show ?thesis using sum_halving_step [OF True, of a] by simp
  next
    case False
    then have "(\<Sum>k<c. halving a k) = c * a" by (simp add: sum_halving_small)
    also have "\<dots> \<le> 2 ^ 22 * a" using False by (intro mult_right_mono) auto
    finally show ?thesis .
  qed
qed

lemma supply_loop_sum:
  "supply_loop c a r = r + of_nat (\<Sum>k<unat c. halving (unat a) k)"
proof (induction c a r rule: supply_loop.induct)
  case (1 c a r)
  show ?case
  proof (cases "2 ^ 21 \<le> unat c")
    case True
    have "unat (c - 2 ^ 21) = unat c - 2 ^ 21" using True
      by (simp add: unat_sub_if_size word_le_nat_alt)
    moreover have "unat (drop_bit 1 a) = unat a div 2" using unat_drop_bit [of 1 a] by simp
    moreover have "drop_bit MAIN_BIG_PERIOD_LOG c \<noteq> 0" using True by (simp only: drop_period_nonzero)
    ultimately show ?thesis
      using 1 sum_halving_step [OF True, of "unat a"] supply_loop.simps [of c a r]
      by (simp add: MAIN_BIG_PERIOD_LOG_def push_bit_eq_mult algebra_simps)
  next
    case False
    then have "\<not> drop_bit MAIN_BIG_PERIOD_LOG c \<noteq> 0" by (simp only: drop_period_nonzero not_False_eq_True)
    then show ?thesis
      using False supply_loop.simps [of c a r] by (simp add: sum_halving_small)
  qed
qed


lemma fork_height_bounds: "0 < unat (fork_height tn)" "unat (fork_height tn) < 2 ^ 21"
  by (simp_all add: fork_height_def MAIN_APOLLO_HEIGHT_def MAIN_APOLLO_TESTNET_HEIGHT_def)

lemma get_amount_unat:
  "unat (get_amount tn n) =
     halving (if unat n < unat (fork_height tn) then 2 ^ 42 else 2 ^ 39) (unat n)"
  by (simp only: get_amount_def get_start_amount_def unat_drop_bit halving_def MAIN_BIG_PERIOD_LOG_def
      word_le_nat_alt not_less [symmetric] MAIN_START_AMOUNT_def MAIN_APOLLO_AMOUNT_def) simp

text \<open>The rewards of the main blocks 1 to n, as natural numbers.\<close>

definition rewards_upto :: "bool \<Rightarrow> nat \<Rightarrow> nat" where
  "rewards_upto tn n = (\<Sum>k = 1..n. unat (get_amount tn (of_nat k)))"

lemma rewards_before_fork:
  assumes "n < unat (fork_height tn)"
  shows "rewards_upto tn n = n * 2 ^ 42"
proof -
  have "unat (get_amount tn (of_nat k)) = 2 ^ 42" if "k \<in> {1..n}" for k
  proof -
    have k: "k < 2 ^ 21" using that assms fork_height_bounds(2) [of tn] by simp
    then have "unat (of_nat k :: u64) = k" by (simp add: unat_of_nat)
    then show ?thesis using that assms k by (simp add: get_amount_unat halving_def)
  qed
  then show ?thesis unfolding rewards_upto_def by simp
qed

lemma rewards_after_fork:
  assumes "unat (fork_height tn) \<le> n" "n < 2 ^ 64"
  shows "rewards_upto tn n + 2 ^ 39 =
    (\<Sum>k<n. halving (2 ^ 39) k) + halving (2 ^ 39) n + (unat (fork_height tn) - 1) * (2 ^ 42 - 2 ^ 39)"
  using assms
proof (induction n rule: dec_induct)
  case base
  define f where "f = unat (fork_height tn)"
  have f: "0 < f" "f < 2 ^ 21" using fork_height_bounds [of tn] by (simp_all add: f_def)
  then have "unat (of_nat f :: u64) = f" by (simp add: unat_of_nat)
  then have "unat (get_amount tn (of_nat f)) = 2 ^ 39"
    using f by (simp add: get_amount_unat halving_def f_def [symmetric])
  moreover have "rewards_upto tn (f - 1) = (f - 1) * 2 ^ 42"
    using f by (intro rewards_before_fork) (simp add: f_def)
  moreover have "rewards_upto tn f = rewards_upto tn (f - 1) + unat (get_amount tn (of_nat f))"
    using f by (cases f) (simp_all add: rewards_upto_def)
  moreover have "(\<Sum>k<f. halving (2 ^ 39) k) = f * 2 ^ 39" using f by (intro sum_halving_small) simp
  ultimately show ?case using f by (cases f) (simp_all add: halving_def f_def [symmetric])
next
  case (step n)
  have "unat (of_nat (Suc n) :: u64) = Suc n"
    by (simp only: unat_of_nat) (use step in simp)
  then have "unat (get_amount tn (of_nat (Suc n))) = halving (2 ^ 39) (Suc n)"
    using step by (simp only: get_amount_unat) simp
  moreover have "rewards_upto tn (Suc n) = rewards_upto tn n + unat (get_amount tn (of_nat (Suc n)))"
    by (simp add: rewards_upto_def)
  ultimately show ?case using step by simp
qed

lemma supply_unat:
  "unat (xdag_get_supply tn n) = rewards_upto tn (unat n) +
     (if unat n < unat (fork_height tn) then 0 else 2 ^ 39 - halving (2 ^ 39) (unat n))"
proof (cases "unat n < unat (fork_height tn)")
  case True
  have small: "unat n < 2 ^ 21" using True fork_height_bounds(2) [of tn] by simp
  then have "unat n * 2 ^ 42 < 2 ^ 63" by simp
  moreover have "xdag_get_supply tn n = of_nat (unat n * 2 ^ 42)"
    using True small by (simp add: xdag_get_supply_def supply_loop_sum get_start_amount_def
        word_le_nat_alt MAIN_START_AMOUNT_def sum_halving_small Let_def)
  ultimately have "unat (xdag_get_supply tn n) = unat n * 2 ^ 42"
    by (simp only: unat_of_nat) simp
  then show ?thesis using True by (simp add: rewards_before_fork)
next
  case False
  define f where "f = unat (fork_height tn)"
  define S where "S = (\<Sum>k<unat n. halving (2 ^ 39) k)"
  have f: "0 < f" "f < 2 ^ 21" using fork_height_bounds [of tn] by (simp_all add: f_def)
  have fw: "fork_height tn = of_nat f" by (simp add: f_def)
  have "S \<le> 2 ^ 61" using sum_halving_bound [of "2 ^ 39" "unat n"] by (simp add: S_def)
  moreover have "(f - 1) * (2 ^ 42 - 2 ^ 39) < 2 ^ 63"
    using f by (simp add: less_mult_imp_div_less)
  ultimately have bound: "S + (f - 1) * (2 ^ 42 - 2 ^ 39) < 2 ^ 64" by simp
  have "xdag_get_supply tn n = of_nat S + (of_nat f - 1) * (2 ^ 42 - 2 ^ 39)"
    using False by (simp add: xdag_get_supply_def supply_loop_sum get_start_amount_def
        word_le_nat_alt MAIN_START_AMOUNT_def MAIN_APOLLO_AMOUNT_def Let_def S_def fw [symmetric])
  also have "\<dots> = of_nat (S + (f - 1) * (2 ^ 42 - 2 ^ 39))"
    using f by (simp add: of_nat_diff)
  finally have "unat (xdag_get_supply tn n) = S + (f - 1) * (2 ^ 42 - 2 ^ 39)"
    by (simp only: unat_of_nat) (use bound in simp)
  moreover have "rewards_upto tn (unat n) + 2 ^ 39 = S + halving (2 ^ 39) (unat n) + (f - 1) * (2 ^ 42 - 2 ^ 39)"
    using False rewards_after_fork [of tn "unat n"] unsigned_less [of n] by (simp add: S_def f_def)
  moreover have "halving (2 ^ 39) (unat n) \<le> 2 ^ 39" by (simp add: halving_def)
  ultimately show ?thesis using False by simp
qed

section \<open>Properties\<close>

text \<open>
  below the first halving the supply reported by \<open>xdag_get_supply\<close> for
  height n is exactly the sum of the rewards \<open>get_amount\<close> of the main blocks 1
  to n, with no wrap-around, before and after the Apollo fork.
\<close>

theorem xdag_get_supply_exact:
  assumes "unat n < 2 ^ 21"
  shows "unat (xdag_get_supply tn n) = (\<Sum>k = 1..unat n. unat (get_amount tn (of_nat k)))"
  using assms supply_unat [of tn n] by (simp add: rewards_upto_def halving_def)

theorem xdag_get_supply_exact_witness:
  "unat (xdag_get_supply False 1017323) = (\<Sum>k = 1..1017323. unat (get_amount False (of_nat k)))"
  using xdag_get_supply_exact [of 1017323 False] by simp

text \<open>
  C25: from the first halving on (and as long as the shift count is below the
  width, which is where C defines it), \<open>xdag_get_supply\<close> exceeds the rewards
  handed out: it counts the heights 0 to n - 1 instead of 1 to n behind the Apollo
  fork, so the excess is the difference between the reward at the fork,
  \<open>2 ^ 39\<close> (128 XDAG), and the current reward.
\<close>

theorem xdag_get_supply_overcount:
  assumes "2 ^ 21 \<le> unat n" "unat n < 2 ^ 27"
  shows "unat (xdag_get_supply tn n) =
    (\<Sum>k = 1..unat n. unat (get_amount tn (of_nat k))) + (2 ^ 39 - unat (get_amount tn n))"
proof -
  have "\<not> unat n < unat (fork_height tn)" using assms fork_height_bounds(2) [of tn] by simp
  then show ?thesis using supply_unat [of tn n] by (simp add: rewards_upto_def get_amount_unat)
qed

theorem xdag_get_supply_overcount_witness:
  "unat (xdag_get_supply False (2 ^ 21)) =
    (\<Sum>k = 1..unat (2 ^ 21 :: u64). unat (get_amount False (of_nat k))) + 64 * 2 ^ 32"
proof -
  have "unat (get_amount False (2 ^ 21)) = 2 ^ 38"
    by (simp add: get_amount_unat halving_def fork_height_def MAIN_APOLLO_HEIGHT_def)
  then show ?thesis using xdag_get_supply_overcount [of "2 ^ 21" False] by simp
qed

end
