(* ===== verification/Dag.thy ===== *)
theory Dag
  imports Block_Chain
begin

text \<open>
  What the ledger operations leave alone.  \<open>static\<close> is the part of a cell that
  is fixed when a block is added; \<open>same_dag\<close> says that two states differ only in
  amounts, flags, references and heights.  On a well-formed graph every link
  leads to a strictly older block, so the number of older cells bounds every
  recursion, and \<open>chain_fuel\<close> is enough fuel.
\<close>

section \<open>The static part of a cell\<close>

definition static ::
  "block_internal \<Rightarrow> (xdag_hash_t \<times> u128 \<times> u64 list \<times> u64 \<times> u64) \<times> (ptr option list \<times> u16 \<times> nat \<times> nat)" where
  "static b = ((bi_hash b, bi_difficulty b, bi_linkamount b, bi_fee b, bi_time b),
     (bi_link b, bi_in_mask b, bi_nlinks b, bi_max_diff_link b))"

definition same_dag :: "xdag_state \<Rightarrow> xdag_state \<Rightarrow> bool" where
  "same_dag st st' \<longleftrightarrow> map static (heap st) = map static (heap st')"

lemma static_eqD [dest]:
  assumes "static b = static c"
  shows "bi_hash b = bi_hash c" "bi_difficulty b = bi_difficulty c" "bi_linkamount b = bi_linkamount c"
    "bi_fee b = bi_fee c" "bi_time b = bi_time c" "bi_link b = bi_link c" "bi_in_mask b = bi_in_mask c"
    "bi_nlinks b = bi_nlinks c" "bi_max_diff_link b = bi_max_diff_link c"
  using assms by (simp_all add: static_def)

lemma static_update [simp]:
  "static (b\<lparr>bi_amount := a\<rparr>) = static b"
  "static (b\<lparr>bi_ref := r\<rparr>) = static b"
  "static (b\<lparr>bi_height := h\<rparr>) = static b"
  "static (b\<lparr>bi_flags := f\<rparr>) = static b"
  "static (set_flag m b) = static b"
  "static (clear_flag m b) = static b"
  by (simp_all add: static_def set_flag_def clear_flag_def)

lemma same_dag_refl [simp]: "same_dag st st"
  by (simp add: same_dag_def)

lemma same_dag_sym: "same_dag st st' \<Longrightarrow> same_dag st' st"
  by (simp add: same_dag_def)

lemma same_dag_trans [trans]: "same_dag st st' \<Longrightarrow> same_dag st' st'' \<Longrightarrow> same_dag st st''"
  by (simp add: same_dag_def)

lemma same_dag_length: "same_dag st st' \<Longrightarrow> length (heap st') = length (heap st)"
  unfolding same_dag_def by (metis length_map)

lemma same_dag_static:
  assumes "same_dag st st'" "p < length (heap st)"
  shows "static (cell st' p) = static (cell st p)"
proof -
  have "map static (heap st') ! p = map static (heap st) ! p" using assms(1) by (simp add: same_dag_def)
  then show ?thesis using assms same_dag_length [OF assms(1)] by simp
qed

lemma same_dag_upd_cell:
  assumes "\<And>b. static (f b) = static b"
  shows "same_dag st (upd_cell p f st)"
proof -
  have "map static ((heap st)[p := f (heap st ! p)]) = (map static (heap st))[p := static (heap st ! p)]"
    by (simp add: map_update assms)
  also have "\<dots> = map static (heap st)"
    by (cases "p < length (heap st)") (simp_all add: list_update_same_conv list_update_beyond)
  finally show ?thesis by (simp add: same_dag_def upd_cell_def)
qed

lemma same_dag_fields [simp]:
  "same_dag st (st'\<lparr>ours := x\<rparr>) = same_dag st st'"
  "same_dag st (st'\<lparr>g_balance := y\<rparr>) = same_dag st st'"
  "same_dag st (st'\<lparr>g_xdag_stats := z\<rparr>) = same_dag st st'"
  "same_dag st (st'\<lparr>g_rx := w\<rparr>) = same_dag st st'"
  by (simp_all add: same_dag_def)

lemma same_dag_accept [simp]: "same_dag st (accept_amount p a st)"
  by (auto simp: accept_amount_def Let_def order_ourblocks_by_amount_def intro: same_dag_upd_cell)

lemma length_accept [simp]: "length (heap (accept_amount p a st)) = length (heap st)"
  by (rule same_dag_length) simp

text \<open>The whole effect of \<open>accept_amount\<close> on the cells.\<close>

lemma cell_accept [frame_simps]:
  "cell (accept_amount p a st) q =
     (if p = q \<and> p < length (heap st) then (cell st q)\<lparr>bi_amount := bi_amount (cell st q) + a\<rparr>
      else cell st q)"
  by (auto simp: accept_amount_def Let_def order_ourblocks_by_amount_def cell_upd_cell)

lemma accept_others [simp]:
  "root (accept_amount p a st) = root st"
  "top_main_chain (accept_amount p a st) = top_main_chain st"
  "pretop_main_chain (accept_amount p a st) = pretop_main_chain st"
  "orphans (accept_amount p a st) = orphans st"
  "extras (accept_amount p a st) = extras st"
  "g_xdag_stats (accept_amount p a st) = g_xdag_stats st"
  "g_xdag_extstats (accept_amount p a st) = g_xdag_extstats st"
  "g_rx (accept_amount p a st) = g_rx st"
  "g_xdag_testnet (accept_amount p a st) = g_xdag_testnet st"
  by (simp_all add: accept_amount_def Let_def order_ourblocks_by_amount_def)

section \<open>Well-formed graphs\<close>

definition wf_links :: "xdag_state \<Rightarrow> ptr \<Rightarrow> bool" where
  "wf_links st p \<longleftrightarrow>
     (let b = cell st p in
      length (bi_link b) = MAX_LINKS \<and> length (bi_linkamount b) = MAX_LINKS \<and>
      bi_nlinks b \<le> MAX_LINKS \<and> bi_max_diff_link b < MAX_LINKS \<and>
      (\<forall>i < bi_nlinks b. \<exists>q < length (heap st). bi_link b ! i = Some q \<and> bi_time (cell st q) < bi_time b) \<and>
      (\<forall>q. max_diff_parent b = Some q \<longrightarrow> q < length (heap st) \<and> bi_time (cell st q) < bi_time b))"

definition wf_dag :: "xdag_state \<Rightarrow> bool" where
  "wf_dag st \<longleftrightarrow> (\<forall>p < length (heap st). wf_links st p)"

lemma wf_links_static:
  assumes "same_dag st st'" "p < length (heap st)" "wf_links st p"
  shows "wf_links st' p"
proof -
  have len: "length (heap st') = length (heap st)" by (rule same_dag_length [OF assms(1)])
  have eq: "static (cell st' q) = static (cell st q)" if "q < length (heap st)" for q
    using assms(1) that by (rule same_dag_static)
  then have time: "bi_time (cell st' q) = bi_time (cell st q)" if "q < length (heap st)" for q
    using that by blast
  note p = static_eqD [OF eq [OF assms(2)]]
  show ?thesis using assms(3) time
    unfolding wf_links_def Let_def p len max_diff_parent_def by metis
qed

lemma wf_dag_same: "same_dag st st' \<Longrightarrow> wf_dag st' = wf_dag st"
  unfolding wf_dag_def by (metis same_dag_length same_dag_sym wf_links_static)

lemma wf_link:
  assumes "wf_dag st" "p < length (heap st)" "i < bi_nlinks (cell st p)"
  shows "link_of st p i < length (heap st)" "bi_time (cell st (link_of st p i)) < bi_time (cell st p)"
    "bi_link (cell st p) ! i = Some (link_of st p i)" "link_of st p i \<noteq> p"
  using assms unfolding wf_dag_def wf_links_def Let_def by fastforce+

lemma wf_parent:
  assumes "wf_dag st" "p < length (heap st)" "max_diff_parent (cell st p) = Some q"
  shows "q < length (heap st)" "bi_time (cell st q) < bi_time (cell st p)"
  using assms unfolding wf_dag_def wf_links_def Let_def by auto

definition rank :: "xdag_state \<Rightarrow> ptr \<Rightarrow> nat" where
  "rank st p = card {q. q < length (heap st) \<and> bi_time (cell st q) < bi_time (cell st p)}"

lemma rank_mono:
  assumes "bi_time (cell st q) < bi_time (cell st p)" "q < length (heap st)"
  shows "rank st q < rank st p"
  unfolding rank_def
proof (rule psubset_card_mono)
  show "{r. r < length (heap st) \<and> bi_time (cell st r) < bi_time (cell st q)}
    \<subset> {r. r < length (heap st) \<and> bi_time (cell st r) < bi_time (cell st p)}"
    using assms by (auto intro: less_trans)
qed simp

lemma rank_bound: "p < length (heap st) \<Longrightarrow> rank st p < length (heap st)"
proof -
  assume p: "p < length (heap st)"
  then have "{q. q < length (heap st) \<and> bi_time (cell st q) < bi_time (cell st p)} \<subset> {..<length (heap st)}"
    by auto
  then show ?thesis unfolding rank_def by (metis card_lessThan finite_lessThan psubset_card_mono)
qed

lemma rank_same:
  assumes "same_dag st st'" "p < length (heap st)"
  shows "rank st' p = rank st p"
proof -
  have t: "bi_time (cell st' q) = bi_time (cell st q)" if "q < length (heap st)" for q
    using same_dag_static [OF assms(1) that] by blast
  then show ?thesis unfolding rank_def same_dag_length [OF assms(1)]
    by (metis (no_types, lifting) assms(2))
qed

section \<open>Ledger operations keep the graph and end\<close>

lemma same_dag_fold:
  assumes "\<And>i st. same_dag st (f i st)"
  shows "same_dag st (fold f is st)"
  using assms by (induction "is" arbitrary: st) (auto intro: same_dag_trans)

lemma same_dag_transfer: "same_dag st (transfer_link b i st)" "same_dag st (untransfer_link b i st)"
  by (simp_all add: transfer_link_def untransfer_link_def)

lemma same_dag_apply_amounts: "same_dag st (fst (apply_amounts p st))"
proof -
  have "same_dag st (upd_cell p (set_flag BI_APPLIED) (accept_amount p a (fold (transfer_link b) is st)))" for a b "is"
    by (rule same_dag_trans [OF same_dag_fold [OF same_dag_transfer(1)]],
        rule same_dag_trans [OF same_dag_accept], rule same_dag_upd_cell, simp)
  then show ?thesis by (simp add: apply_amounts_def Let_def split: option.split)
qed

lemma same_dag_unapply_amounts: "same_dag st (unapply_amounts p st)"
proof -
  have "same_dag st (upd_cell p (clear_flag BI_APPLIED) (accept_amount p a (fold (untransfer_link b) is st)))" for a b "is"
    by (rule same_dag_trans [OF same_dag_fold [OF same_dag_transfer(2)]],
        rule same_dag_trans [OF same_dag_accept], rule same_dag_upd_cell, simp)
  then show ?thesis by (simp add: unapply_amounts_def Let_def)
qed

text \<open>What a recursive call along a link can rely on.\<close>

lemma link_call:
  assumes "wf_dag st" "same_dag st u" "p < length (heap st)" "i < bi_nlinks (cell st p)"
  shows "link_of u p i = link_of st p i" "link_of u p i < length (heap u)" "wf_dag u"
    "rank u (link_of u p i) < rank st p" "link_of u p i \<noteq> p"
proof -
  have len: "length (heap u) = length (heap st)" by (rule same_dag_length [OF assms(2)])
  have eq: "static (cell u p) = static (cell st p)" by (rule same_dag_static [OF assms(2,3)])
  show wf: "wf_dag u" using assms(1,2) wf_dag_same by blast
  have i: "i < bi_nlinks (cell u p)" using assms(4) static_eqD(8) [OF eq] by simp
  show "link_of u p i = link_of st p i" using static_eqD(6) [OF eq] by simp
  note l = wf_link [OF wf _ i, unfolded len, OF assms(3)]
  show "link_of u p i < length (heap u)" using l(1) len by simp
  show "link_of u p i \<noteq> p" by (rule l(4))
  show "rank u (link_of u p i) < rank st p"
    using rank_mono [OF l(2)] l(1) len rank_same [OF assms(2,3)] by simp
qed

lemma same_dag_apply_ref:
  assumes "apply (link_of u p i) u = Some (u1, r)" "same_dag u u1"
  shows "\<exists>u'. apply_ref apply p i u = Some u' \<and> same_dag u u'"
proof -
  have *: "same_dag u (upd_cell q (\<lambda>b. b\<lparr>bi_ref := Ref p\<rparr>) u1)" for q
    by (rule same_dag_trans [OF assms(2)], rule same_dag_upd_cell) simp
  then have "same_dag u (accept_amount p a (upd_cell q (\<lambda>b. b\<lparr>bi_ref := Ref p\<rparr>) u1))" for a q
    using same_dag_trans same_dag_accept by blast
  then show ?thesis using * assms by (simp add: apply_ref_def Let_def)
qed

lemma apply_block_total:
  assumes "wf_dag st" "p < length (heap st)" "rank st p < fuel"
  shows "\<exists>st' r. apply_block fuel p st = Some (st', r) \<and> same_dag st st'"
  using assms
proof (induction fuel arbitrary: p st)
  case (Suc fuel)
  define st0 where "st0 = upd_cell p (set_flag BI_MAIN_REF) st"
  have st0: "same_dag st st0" unfolding st0_def by (rule same_dag_upd_cell) simp
  have "\<exists>u'. apply_ref (apply_block fuel) p i u = Some u' \<and> same_dag st u'"
    if "i \<in> set [0..<bi_nlinks (cell st p)]" "same_dag st u" for i u
  proof -
    have i: "i < bi_nlinks (cell st p)" using that by simp
    note c = link_call [OF Suc.prems(1) that(2) Suc.prems(2) i]
    obtain u1 r where "apply_block fuel (link_of u p i) u = Some (u1, r)" "same_dag u u1"
      using Suc.IH [OF c(3,2)] c(4) Suc.prems(3) by fastforce
    then show ?thesis using same_dag_apply_ref that(2) same_dag_trans by blast
  qed
  then obtain st1 where st1: "fold_opt (apply_ref (apply_block fuel) p) [0..<bi_nlinks (cell st p)] st0 = Some st1"
      "same_dag st st1"
    using fold_opt_total [of "same_dag st" st0] st0 by blast
  obtain st2 r where "apply_amounts p st1 = (st2, r)" by (cases "apply_amounts p st1")
  moreover from this have "same_dag st st2"
    using same_dag_apply_amounts [of st1 p] same_dag_trans [OF st1(2)] by simp
  ultimately show ?case using st1(1) by (simp add: st0_def)
qed simp

lemma same_dag_unapply_ref:
  assumes "unapply (link_of u p i) u = Some (u1, r)" "same_dag u u1"
  shows "\<exists>u'. unapply_ref unapply p i u = Some u' \<and> same_dag u u'"
  using assms same_dag_trans [OF assms(2) same_dag_accept] by (simp add: unapply_ref_def)

lemma unapply_block_total:
  assumes "wf_dag st" "p < length (heap st)" "rank st p < fuel"
  shows "\<exists>st' r. unapply_block fuel p st = Some (st', r) \<and> same_dag st st'"
  using assms
proof (induction fuel arbitrary: p st)
  case (Suc fuel)
  define st0 where "st0 = upd_cell p (\<lambda>b. (clear_flag BI_MAIN_REF b)\<lparr>bi_ref := NoRef\<rparr>) (unapply_amounts p st)"
  have st0: "same_dag st st0"
    unfolding st0_def by (rule same_dag_trans [OF same_dag_unapply_amounts same_dag_upd_cell]) simp
  have "\<exists>u'. unapply_ref (unapply_block fuel) p i u = Some u' \<and> same_dag st u'"
    if "i \<in> set [0..<bi_nlinks (cell st p)]" "same_dag st u" for i u
  proof -
    have i: "i < bi_nlinks (cell st p)" using that by simp
    note c = link_call [OF Suc.prems(1) that(2) Suc.prems(2) i]
    obtain u1 r where "unapply_block fuel (link_of u p i) u = Some (u1, r)" "same_dag u u1"
      using Suc.IH [OF c(3,2)] c(4) Suc.prems(3) by fastforce
    then show ?thesis using same_dag_unapply_ref that(2) same_dag_trans by blast
  qed
  then obtain st1 where "fold_opt (unapply_ref (unapply_block fuel) p) [0..<bi_nlinks (cell st p)] st0 = Some st1"
      "same_dag st st1"
    using fold_opt_total [of "same_dag st" st0] st0 by blast
  then show ?case by (simp add: st0_def)
qed simp

section \<open>What the ledger operations keep\<close>

text \<open>
  A property of states that survives each elementary update of the ledger: an
  amount, a ledger flag, a reference.  Applying and undoing blocks are made of
  these, so they keep it too.
\<close>

locale ledger_stable =
  fixes P :: "xdag_state \<Rightarrow> bool"
  assumes accept: "P st \<Longrightarrow> p < length (heap st) \<Longrightarrow> P (accept_amount p a st)"
    and set_flag: "P st \<Longrightarrow> p < length (heap st) \<Longrightarrow> m \<in> {BI_MAIN_REF, BI_APPLIED} \<Longrightarrow>
      P (upd_cell p (set_flag m) st)"
    and clear_flag: "P st \<Longrightarrow> p < length (heap st) \<Longrightarrow> m \<in> {BI_MAIN_REF, BI_APPLIED} \<Longrightarrow>
      P (upd_cell p (clear_flag m) st)"
    and set_ref: "P st \<Longrightarrow> p < length (heap st) \<Longrightarrow> P (upd_cell p (\<lambda>b. b\<lparr>bi_ref := r\<rparr>) st)"
begin

lemma fold_transfers:
  assumes "\<forall>i \<in> set is. the (bi_link b ! i) < length (heap st)" "P st"
  shows "P (fold (transfer_link b) is st)" "P (fold (untransfer_link b) is st)"
  using assms
  by (induction "is" arbitrary: st) (auto simp: transfer_link_def untransfer_link_def accept)

lemma amounts:
  assumes "wf_dag st" "p < length (heap st)" "P st"
  shows "P (fst (apply_amounts p st))" "P (unapply_amounts p st)"
proof -
  define b where "b = cell st p"
  have "\<forall>i \<in> set [0..<bi_nlinks b]. the (bi_link b ! i) < length (heap st)"
    using wf_link(1) [OF assms(1,2)] by (simp add: b_def)
  note folds = fold_transfers [OF this assms(3)]
  have len: "length (heap (fold (transfer_link b) is st)) = length (heap st)"
    "length (heap (fold (untransfer_link b) is st)) = length (heap st)" for "is"
    using same_dag_length [OF same_dag_fold [of "transfer_link b", OF same_dag_transfer(1)]]
      same_dag_length [OF same_dag_fold [of "untransfer_link b", OF same_dag_transfer(2)]] by blast+
  show "P (fst (apply_amounts p st))" "P (unapply_amounts p st)"
    using folds assms(2,3) len unfolding apply_amounts_def unapply_amounts_def Let_def b_def [symmetric]
    by (auto simp: accept set_flag clear_flag split: option.split)
qed

lemma apply_block:
  assumes "wf_dag st" "p < length (heap st)" "P st" "apply_block fuel p st = Some (st', r)"
  shows "P st' \<and> same_dag st st'"
  using assms
proof (induction fuel arbitrary: p st st' r)
  case (Suc fuel)
  define Inv where "Inv u \<longleftrightarrow> P u \<and> same_dag st u" for u
  show ?case
  proof (cases "has_flag (cell st p) BI_MAIN_REF")
    case False
    then obtain st1 where st1: "fold_opt (apply_ref (apply_block fuel) p) [0..<bi_nlinks (cell st p)]
        (upd_cell p (set_flag BI_MAIN_REF) st) = Some st1" "apply_amounts p st1 = (st', r)"
      using Suc.prems by (auto simp: bind_eq_Some_conv)
    have start: "Inv (upd_cell p (set_flag BI_MAIN_REF) st)"
      using Suc.prems set_flag by (simp add: Inv_def same_dag_upd_cell)
    have step: "Inv u'" if "i \<in> set [0..<bi_nlinks (cell st p)]" "Inv u"
      "apply_ref (apply_block fuel) p i u = Some u'" for i u u'
    proof -
      note h = that
      have i: "i < bi_nlinks (cell st p)" and du: "same_dag st u" and Pu: "P u"
        using h by (simp_all add: Inv_def)
      note c = link_call [OF Suc.prems(1) du Suc.prems(2) i]
      obtain u1 q where u1: "apply_block fuel (link_of u p i) u = Some (u1, q)"
        using h(3) by (auto simp: apply_ref_def bind_eq_Some_conv)
      have P1: "P u1" "same_dag u u1" using Suc.IH [OF c(3,2) Pu u1] by simp_all
      have d1: "same_dag st u1" using du P1(2) same_dag_trans by blast
      have l: "link_of u1 p i < length (heap u1)"
        using link_call(2) [OF Suc.prems(1) d1 Suc.prems(2) i] .
      have "p < length (heap u1)" using Suc.prems(2) same_dag_length [OF d1] by simp
      then have "P u'" using h(3) u1 P1(1) l
        by (auto simp: apply_ref_def Let_def accept set_ref split: if_splits)
      moreover have "same_dag u u'"
        using same_dag_apply_ref [of "apply_block fuel", OF u1 P1(2)] h(3) by auto
      ultimately show ?thesis using du same_dag_trans by (auto simp: Inv_def)
    qed
    have inv: "P st1" "same_dag st st1"
      using fold_opt_invariant [OF st1(1), of Inv, OF start step] by (simp_all add: Inv_def)
    have "wf_dag st1" "p < length (heap st1)"
      using inv(2) Suc.prems(1,2) wf_dag_same same_dag_length by auto
    then show ?thesis
      using amounts(1) [of st1 p] same_dag_apply_amounts [of st1 p] same_dag_trans [OF inv(2)] st1(2) inv(1) by simp
  qed (use Suc.prems in simp)
qed simp

lemma unapply_block:
  assumes "wf_dag st" "p < length (heap st)" "P st" "unapply_block fuel p st = Some (st', r)"
  shows "P st' \<and> same_dag st st'"
  using assms
proof (induction fuel arbitrary: p st st' r)
  case (Suc fuel)
  define Inv where "Inv u \<longleftrightarrow> P u \<and> same_dag st u" for u
  define v where "v = unapply_amounts p st"
  have clr: "upd_cell p (\<lambda>b. (clear_flag BI_MAIN_REF b)\<lparr>bi_ref := NoRef\<rparr>) v =
      upd_cell p (\<lambda>b. b\<lparr>bi_ref := NoRef\<rparr>) (upd_cell p (clear_flag BI_MAIN_REF) v)"
    by (cases "p < length (heap v)") (auto simp: upd_cell_def list_update_beyond)
  obtain st1 where st1: "fold_opt (unapply_ref (unapply_block fuel) p) [0..<bi_nlinks (cell st p)]
      (upd_cell p (\<lambda>b. (clear_flag BI_MAIN_REF b)\<lparr>bi_ref := NoRef\<rparr>) v) = Some st1" "st1 = st'"
    using Suc.prems(4) by (auto simp: bind_eq_Some_conv v_def)
  have dv: "same_dag st v" unfolding v_def by (rule same_dag_unapply_amounts)
  have "P v" "p < length (heap v)"
    using amounts(2) [OF Suc.prems(1-3)] Suc.prems(2) same_dag_length [OF dv] by (simp_all add: v_def)
  then have start: "Inv (upd_cell p (\<lambda>b. (clear_flag BI_MAIN_REF b)\<lparr>bi_ref := NoRef\<rparr>) v)"
    using same_dag_trans [OF dv same_dag_upd_cell, of "\<lambda>b. (clear_flag BI_MAIN_REF b)\<lparr>bi_ref := NoRef\<rparr>" p]
    by (simp add: Inv_def clr clear_flag set_ref)
  have step: "Inv u'" if "i \<in> set [0..<bi_nlinks (cell st p)]" "Inv u"
    "unapply_ref (unapply_block fuel) p i u = Some u'" for i u u'
  proof -
    note h = that
    have i: "i < bi_nlinks (cell st p)" and du: "same_dag st u" and Pu: "P u"
      using h by (simp_all add: Inv_def)
    note c = link_call [OF Suc.prems(1) du Suc.prems(2) i]
    have p: "p < length (heap u)" using Suc.prems(2) same_dag_length [OF du] by simp
    show ?thesis
    proof (cases "bi_ref (cell u (link_of u p i)) = Ref p \<and> has_flag (cell u (link_of u p i)) BI_MAIN_REF")
      case True
      then obtain u1 a where u1: "unapply_block fuel (link_of u p i) u = Some (u1, a)" "u' = accept_amount p a u1"
        using h(3) by (auto simp: unapply_ref_def bind_eq_Some_conv)
      have P1: "P u1" "same_dag u u1" using Suc.IH [OF c(3,2) Pu u1(1)] by simp_all
      then show ?thesis using u1(2) p du same_dag_length [OF P1(2)] same_dag_trans same_dag_accept accept
        unfolding Inv_def by metis
    next
      case False
      then have "u' = u" using h(3) by (auto simp: unapply_ref_def split: if_splits)
      then show ?thesis using h(2) by simp
    qed
  qed
  show ?case
    using fold_opt_invariant [OF st1(1), of Inv, OF start step] st1(2) by (simp add: Inv_def)
qed simp

end

text \<open>The globals other than the own-block list and the balance.\<close>

definition globals where
  "globals st = ((root st, top_main_chain st, pretop_main_chain st, orphans st, extras st),
     (g_xdag_stats st, g_xdag_extstats st, g_rx st, g_xdag_state st),
     (g_xdag_testnet st, g_xdag_type st, g_xdag_mine_type st, g_block_header_type st, g_xdag_era st))"

lemma globalsD:
  assumes "globals st' = globals st"
  shows "root st' = root st" "top_main_chain st' = top_main_chain st"
    "pretop_main_chain st' = pretop_main_chain st" "orphans st' = orphans st" "extras st' = extras st"
    "g_xdag_stats st' = g_xdag_stats st" "g_xdag_extstats st' = g_xdag_extstats st" "g_rx st' = g_rx st"
    "g_xdag_testnet st' = g_xdag_testnet st"
  using assms by (simp_all add: globals_def)

lemma globals_upd_cell [simp]: "globals (upd_cell p f st) = globals st"
  by (simp add: globals_def upd_cell_def)

lemma globals_accept [simp]: "globals (accept_amount p a st) = globals st"
  by (simp add: globals_def accept_amount_def Let_def order_ourblocks_by_amount_def upd_cell_def)

interpretation glob: ledger_stable "\<lambda>u. globals u = g" for g
  by unfold_locales simp_all

text \<open>The fields of a cell that only \<open>set_main\<close> or the adding of a block write.\<close>

definition cell_meta :: "block_internal \<Rightarrow> u64 \<times> u64 \<times> ptr list list \<times> u8 list option \<times> u16" where
  "cell_meta b = (bi_height b, bi_storage_pos b, bi_backrefs b, bi_remark b, bi_n_our_key b)"

definition metas :: "xdag_state \<Rightarrow> (u64 \<times> u64 \<times> ptr list list \<times> u8 list option \<times> u16) list" where
  "metas st = map cell_meta (heap st)"

lemma metas_upd_cell:
  assumes "\<And>b. cell_meta (f b) = cell_meta b"
  shows "metas (upd_cell p f st) = metas st"
proof (cases "p < length (heap st)")
  case True
  then show ?thesis by (simp add: metas_def upd_cell_def map_update assms list_update_same_conv)
qed (simp add: metas_def upd_cell_def list_update_beyond)

lemma metas_accept [simp]: "metas (accept_amount p a st) = metas st"
proof -
  have "metas (upd_cell p (\<lambda>b. b\<lparr>bi_amount := bi_amount b + a\<rparr>) st) = metas st"
    by (rule metas_upd_cell) (simp add: cell_meta_def)
  then show ?thesis
    by (simp add: accept_amount_def Let_def order_ourblocks_by_amount_def metas_def)
qed

interpretation meta: ledger_stable "\<lambda>u. metas u = ms" for ms
  by unfold_locales (simp_all add: metas_upd_cell cell_meta_def set_flag_def clear_flag_def)

lemma metas_cell:
  assumes "metas st' = metas st" "q < length (heap st)"
  shows "cell_meta (cell st' q) = cell_meta (cell st q)"
proof -
  have "length (heap st') = length (heap st)" using arg_cong [OF assms(1), of length] by (simp add: metas_def)
  then show ?thesis using arg_cong [OF assms(1), of "\<lambda>xs. xs ! q"] assms(2) by (simp add: metas_def)
qed

end
