(* ===== verification/Ledger.thy ===== *)
theory Ledger
  imports Dag Supply
begin

text \<open>
  Conservation of money.  \<open>total\<close> is the sum of all amounts as a natural
  number, so that it sees every wrap-around of the 64-bit amounts.  Applying a
  block only moves amounts: nothing is created, no amount wraps, and the fee
  leaves the block for the block that references it.  This holds when no block
  takes two inputs from one block, which the code does not check.
\<close>

section \<open>Amounts\<close>

abbreviation amt :: "xdag_state \<Rightarrow> ptr \<Rightarrow> u64" where
  "amt st q \<equiv> bi_amount (cell st q)"

definition total_amount :: "xdag_state \<Rightarrow> nat" where
  "total_amount st = (\<Sum>q < length (heap st). unat (amt st q))"

lemma amt_le_total: "q < length (heap st) \<Longrightarrow> unat (amt st q) \<le> total_amount st"
  unfolding total_amount_def by (rule member_le_sum) auto

lemma total_upd_cell:
  assumes "\<And>b. bi_amount (f b) = bi_amount b"
  shows "total_amount (upd_cell p f st) = total_amount st"
  unfolding total_amount_def by (intro sum.cong) (auto simp: frame_simps assms)

lemma total_accept:
  assumes "p < length (heap st)" "unat (amt st p) + unat a < 2 ^ 64"
  shows "total_amount (accept_amount p a st) = total_amount st + unat a"
proof -
  have "unat (amt (accept_amount p a st) q) = unat (amt st q) + (if q = p then unat a else 0)"
    if "q < length (heap st)" for q
    using assms that by (simp add: frame_simps unat_word_ariths)
  then have "total_amount (accept_amount p a st) = (\<Sum>q < length (heap st). unat (amt st q) + (if q = p then unat a else 0))"
    unfolding total_amount_def by simp
  then show ?thesis using assms(1) by (simp add: total_amount_def sum.distrib sum.delta)
qed

section \<open>The links of one block\<close>

abbreviation is_in :: "block_internal \<Rightarrow> nat \<Rightarrow> bool" where
  "is_in b i \<equiv> bit (bi_in_mask b) i"

abbreviation lamt :: "block_internal \<Rightarrow> nat \<Rightarrow> nat" where
  "lamt b i \<equiv> unat (bi_linkamount b ! i)"

definition link_delta :: "block_internal \<Rightarrow> nat \<Rightarrow> int" where
  "link_delta b i = (if is_in b i then - int (lamt b i) else int (lamt b i))"

definition moved :: "block_internal \<Rightarrow> nat list \<Rightarrow> ptr \<Rightarrow> int" where
  "moved b is q = (\<Sum>i\<leftarrow>is. if the (bi_link b ! i) = q then link_delta b i else 0)"

lemma fold_transfer_amount:
  assumes "\<forall>i \<in> set is. the (bi_link b ! i) < length (heap st)"
  shows "amt (fold (transfer_link b) is st) q = amt st q + of_int (moved b is q)"
  using assms
proof (induction "is" arbitrary: st)
  case (Cons i "is")
  have "amt (transfer_link b i st) q =
      amt st q + of_int (if the (bi_link b ! i) = q then link_delta b i else 0)"
    using Cons.prems by (auto simp: transfer_link_def frame_simps link_delta_def)
  moreover have "length (heap (transfer_link b i st)) = length (heap st)"
    by (simp add: transfer_link_def)
  ultimately show ?case using Cons by (simp add: moved_def add.assoc)
qed (simp add: moved_def)

lemma check_links_sums:
  assumes "check_links st b is s_in s_out = Some (s_in', s_out')"
  shows "unat s_in' = unat s_in + (\<Sum>i\<leftarrow>is. if is_in b i then lamt b i else 0)"
    and "unat s_out' = unat s_out + (\<Sum>i\<leftarrow>is. if is_in b i then 0 else lamt b i)"
    and "\<forall>i \<in> set is. is_in b i \<longrightarrow> lamt b i \<le> unat (amt st (the (bi_link b ! i)))"
  using assms
  by (induction "is" arbitrary: s_in s_out)
     (auto split: if_splits simp: unat_add_no_overflow word_less_nat_alt not_less)

definition distinct_inputs :: "block_internal \<Rightarrow> bool" where
  "distinct_inputs b \<longleftrightarrow>
     (\<forall>i < bi_nlinks b. \<forall>j < bi_nlinks b.
        is_in b i \<and> is_in b j \<and> bi_link b ! i = bi_link b ! j \<longrightarrow> i = j)"

definition inputs_ok :: "xdag_state \<Rightarrow> bool" where
  "inputs_ok st \<longleftrightarrow> (\<forall>p < length (heap st). distinct_inputs (cell st p))"

lemma inputs_ok_same:
  assumes "same_dag st st'" "inputs_ok st"
  shows "inputs_ok st'"
proof -
  have "distinct_inputs (cell st' p)" if "p < length (heap st)" for p
    using same_dag_static [OF assms(1) that] assms(2) that
    by (simp add: inputs_ok_def distinct_inputs_def static_def)
  then show ?thesis using same_dag_length [OF assms(1)] by (simp add: inputs_ok_def)
qed

text \<open>With distinct inputs a block takes from another at most the amount of one input link.\<close>

lemma moved_lower_bound:
  assumes "distinct_inputs b" "\<forall>i < bi_nlinks b. bi_link b ! i = Some (the (bi_link b ! i))"
    and "\<forall>i < bi_nlinks b. is_in b i \<longrightarrow> lamt b i \<le> unat (amt st (the (bi_link b ! i)))"
  shows "- int (unat (amt st q)) \<le> moved b [0..<bi_nlinks b] q"
proof -
  define S where "S = {i. i < bi_nlinks b \<and> is_in b i \<and> the (bi_link b ! i) = q}"
  have one: "i = j" if "i \<in> S" "j \<in> S" for i j
  proof -
    have "bi_link b ! i = Some q" "bi_link b ! j = Some q" using that assms(2) by (auto simp: S_def)
    then show ?thesis using that assms(1) by (simp add: S_def distinct_inputs_def)
  qed
  have S: "S = {} \<or> (\<exists>i. S = {i})" using one by blast
  have "moved b [0..<bi_nlinks b] q = (\<Sum>i<bi_nlinks b. if the (bi_link b ! i) = q then link_delta b i else 0)"
    by (simp add: moved_def sum_list_distinct_conv_sum_set lessThan_atLeast0)
  also have "\<dots> \<ge> (\<Sum>i<bi_nlinks b. if i \<in> S then - int (lamt b i) else 0)"
    by (rule sum_mono) (auto simp: S_def link_delta_def)
  finally have "moved b [0..<bi_nlinks b] q \<ge> (\<Sum>i<bi_nlinks b. if i \<in> S then - int (lamt b i) else 0)" .
  moreover have "(\<Sum>i<bi_nlinks b. if i \<in> S then - int (lamt b i) else 0) = (\<Sum>i\<in>S. - int (lamt b i))"
    by (rule sum.mono_neutral_cong_right) (auto simp: S_def)
  moreover have "(\<Sum>i\<in>S. - int (lamt b i)) \<ge> - int (unat (amt st q))"
  proof (cases "S = {}")
    case False
    then obtain i where i: "S = {i}" using S by blast
    then have "i \<in> S" by simp
    then have "lamt b i \<le> unat (amt st q)" using assms(3) by (auto simp: S_def)
    then show ?thesis unfolding i by (simp del: of_nat_unat)
  qed simp
  ultimately show ?thesis by linarith
qed

lemma sum_moved:
  assumes "\<forall>i < bi_nlinks b. the (bi_link b ! i) < n"
  shows "(\<Sum>q<n. moved b [0..<bi_nlinks b] q) = (\<Sum>i<bi_nlinks b. link_delta b i)"
proof -
  have "(\<Sum>q<n. moved b [0..<bi_nlinks b] q) =
      (\<Sum>q<n. \<Sum>i<bi_nlinks b. if the (bi_link b ! i) = q then link_delta b i else 0)"
    by (simp add: moved_def sum_list_distinct_conv_sum_set lessThan_atLeast0)
  also have "\<dots> = (\<Sum>i<bi_nlinks b. \<Sum>q<n. if the (bi_link b ! i) = q then link_delta b i else 0)"
    by (rule sum.swap)
  also have "\<dots> = (\<Sum>i<bi_nlinks b. link_delta b i)"
    using assms by (intro sum.cong refl) (simp add: sum.delta)
  finally show ?thesis .
qed

lemma unat_of_int_bounded:
  "0 \<le> x \<Longrightarrow> x < 2 ^ 64 \<Longrightarrow> unat (of_int x :: u64) = nat x"
  by (simp add: unat_eq_nat_uint uint_word_of_int)


lemma sum_in_out_delta:
  "(\<Sum>i<n. link_delta b i) =
     int (\<Sum>i<n. if is_in b i then 0 else lamt b i) - int (\<Sum>i<n. if is_in b i then lamt b i else 0)"
  by (simp add: sum_subtractf [symmetric] int_sum) (rule sum.cong, auto simp: link_delta_def)

lemma apply_amounts_rejected:
  assumes "apply_amounts p st = (st', r)"
  shows "(st' = st \<and> r = 0) \<or> (\<exists>s_in s_out b. b = cell st p \<and> r = bi_fee b \<and>
    check_links st b [0..<bi_nlinks b] 0 (bi_fee b) = Some (s_in, s_out) \<and>
    \<not> s_in + bi_amount b < s_in \<and> \<not> s_in + bi_amount b < s_out \<and>
    st' = upd_cell p (set_flag BI_APPLIED)
      (accept_amount p (s_in - s_out) (fold (transfer_link b) [0..<bi_nlinks b] st)))"
  using assms by (auto simp: apply_amounts_def Let_def split: option.splits if_splits)

lemma apply_amounts_total:
  assumes wf: "wf_dag st" and p: "p < length (heap st)" and ok: "inputs_ok st"
    and bound: "total_amount st < 2 ^ 64" and app: "apply_amounts p st = (st', r)"
  shows "total_amount st' + unat r = total_amount st"
proof (cases "st' = st \<and> r = 0")
  case False
  define b where "b = cell st p"
  define n where "n = bi_nlinks b"
  define len where "len = length (heap st)"
  obtain s_in s_out where r: "r = bi_fee b"
    and chk: "check_links st b [0..<n] 0 (bi_fee b) = Some (s_in, s_out)"
    and g1: "\<not> s_in + bi_amount b < s_in" and g2: "\<not> s_in + bi_amount b < s_out"
    and st': "st' = upd_cell p (set_flag BI_APPLIED)
      (accept_amount p (s_in - s_out) (fold (transfer_link b) [0..<n] st))"
    using apply_amounts_rejected [OF app] False unfolding b_def n_def by blast
  have links: "\<forall>i<n. the (bi_link b ! i) < len \<and> bi_link b ! i = Some (the (bi_link b ! i)) \<and> the (bi_link b ! i) \<noteq> p"
    using wf_link [OF wf p] by (simp add: b_def n_def len_def)
  note sums = check_links_sums [OF chk]
  define IN where "IN = (\<Sum>i<n. if is_in b i then lamt b i else 0)"
  define OUT where "OUT = (\<Sum>i<n. if is_in b i then 0 else lamt b i)"
  have s_in: "unat s_in = IN" and s_out: "unat s_out = unat (bi_fee b) + OUT"
    using sums(1,2) by (simp_all add: IN_def OUT_def sum_list_distinct_conv_sum_set lessThan_atLeast0)
  have guard: "unat (bi_fee b) + OUT \<le> IN + unat (amt st p)"
    using g2 unat_add_no_overflow [OF g1] s_in s_out by (simp add: word_less_nat_alt b_def)
  define I where "I q = int (unat (amt st q)) + moved b [0..<n] q +
      (if q = p then int IN - int (unat (bi_fee b) + OUT) else 0)" for q
  have amt': "amt st' q = of_int (I q)" if "q < len" for q
  proof -
    have lf: "length (heap (fold (transfer_link b) [0..<n] st)) = len"
      using same_dag_length [OF same_dag_fold [OF same_dag_transfer(1)]] by (simp add: len_def)
    have "amt (fold (transfer_link b) [0..<n] st) q = amt st q + of_int (moved b [0..<n] q)"
      by (rule fold_transfer_amount) (use links in \<open>auto simp: len_def\<close>)
    moreover have "(s_in - s_out :: u64) = of_int (int IN - int (unat (bi_fee b) + OUT))"
      unfolding s_in [symmetric] s_out [symmetric] by simp
    ultimately show ?thesis using that p lf unfolding st' I_def len_def
      by (auto simp: frame_simps set_flag_def)
  qed
  have nonneg: "0 \<le> I q" for q
  proof (cases "q = p")
    case True
    have "moved b [0..<n] p = 0" using links
      by (simp add: moved_def sum_list_distinct_conv_sum_set)
    then show ?thesis using True guard by (simp add: I_def del: of_nat_unat)
  next
    case qp: False
    have "distinct_inputs b" using ok p by (simp add: inputs_ok_def b_def)
    then have "- int (unat (amt st q)) \<le> moved b [0..<n] q"
      unfolding n_def by (rule moved_lower_bound) (use links sums(3) in \<open>auto simp: n_def\<close>)
    then show ?thesis using qp by (simp add: I_def)
  qed
  have sumI: "(\<Sum>q<len. I q) = int (total_amount st) - int (unat (bi_fee b))"
  proof -
    have "(\<Sum>q<len. moved b [0..<n] q) = int OUT - int IN"
      using sum_moved [of b len] links sum_in_out_delta [of b n] by (simp add: n_def IN_def OUT_def)
    then show ?thesis using p
      by (simp add: I_def sum.distrib total_amount_def sum.delta len_def)
  qed
  have "I q < 2 ^ 64" if "q < len" for q
  proof -
    have "I q \<le> (\<Sum>q<len. I q)" by (rule member_le_sum) (use that nonneg in auto)
    then show ?thesis using sumI bound by (simp del: of_nat_unat)
  qed
  then have "unat (amt st' q) = nat (I q)" if "q < len" for q
    using amt' [OF that] nonneg unat_of_int_bounded that by simp
  moreover have "length (heap st') = len"
    using same_dag_length [OF same_dag_apply_amounts [of st p]] app by (simp add: len_def)
  ultimately have "total_amount st' = (\<Sum>q<len. nat (I q))" by (simp add: total_amount_def)
  then have "int (total_amount st') = (\<Sum>q<len. I q)" using nonneg by simp
  then show ?thesis using sumI r by (simp del: of_nat_unat)
qed simp

section \<open>Applying a block conserves money\<close>

definition returned :: "u64 \<Rightarrow> nat" where
  "returned r = (if r = already_applied then 0 else unat r)"

lemma max_u64_unat: "unat (already_applied) = 2 ^ 64 - 1"
  by (simp add: already_applied_def unsigned_minus_1_eq_mask mask_eq_exp_minus_1)

lemma apply_ref_total:
  assumes "apply_ref apply p i u = Some u'" "apply (link_of u p i) u = Some (u1, r)"
    and "same_dag u u1" "p < length (heap u)" "total_amount u1 + returned r = total_amount u"
    and "total_amount u < 2 ^ 64"
  shows "total_amount u' = total_amount u"
proof (cases "r = already_applied")
  case False
  define u2 where "u2 = upd_cell (link_of u1 p i) (\<lambda>b. b\<lparr>bi_ref := Ref p\<rparr>) u1"
  have p: "p < length (heap u2)" using assms(3,4) same_dag_length [of u u1] by (simp add: u2_def)
  have tot: "total_amount u2 + unat r = total_amount u"
    using assms(5) False by (simp add: u2_def total_upd_cell returned_def)
  then have "unat (amt u2 p) + unat r < 2 ^ 64"
    using amt_le_total [OF p] assms(6) by simp
  then have "amt u2 p \<le> amt u2 p + r" "total_amount (accept_amount p r u2) = total_amount u2 + unat r"
    using total_accept [OF p] by (simp_all add: word_add_no_overflow_iff)
  then show ?thesis using assms(1,2) False tot by (simp add: apply_ref_def u2_def Let_def)
qed (use assms in \<open>simp add: apply_ref_def returned_def\<close>)

lemma apply_block_total_amount:
  assumes "wf_dag st" "p < length (heap st)" "rank st p < fuel" "inputs_ok st"
    and "total_amount st < 2 ^ 64 - 1" "apply_block fuel p st = Some (st', r)"
  shows "total_amount st' + returned r = total_amount st"
  using assms
proof (induction fuel arbitrary: p st st' r)
  case (Suc fuel)
  show ?case
  proof (cases "has_flag (cell st p) BI_MAIN_REF")
    case True
    then show ?thesis using Suc.prems by (simp add: returned_def)
  next
    case False
    define st0 where "st0 = upd_cell p (set_flag BI_MAIN_REF) st"
    define Inv where "Inv u \<longleftrightarrow> same_dag st u \<and> total_amount u = total_amount st" for u
    have st0: "Inv st0" unfolding Inv_def st0_def
      by (simp add: same_dag_upd_cell total_upd_cell set_flag_def)
    obtain st1 where st1: "fold_opt (apply_ref (apply_block fuel) p) [0..<bi_nlinks (cell st p)] st0 = Some st1"
      and app: "apply_amounts p st1 = (st', r)"
      using Suc.prems(6) False by (auto simp: st0_def bind_eq_Some_conv)
    have step: "Inv u'" if "i \<in> set [0..<bi_nlinks (cell st p)]" "Inv u" "apply_ref (apply_block fuel) p i u = Some u'" for i u u'
    proof -
      have u: "same_dag st u" "total_amount u = total_amount st" using that(2) by (simp_all add: Inv_def)
      have i: "i < bi_nlinks (cell st p)" using that(1) by simp
      note c = link_call [OF Suc.prems(1) u(1) Suc.prems(2) i]
      have fuel: "rank u (link_of u p i) < fuel" using c(4) Suc.prems(3) by simp
      obtain u1 q where u1: "apply_block fuel (link_of u p i) u = Some (u1, q)" "same_dag u u1"
        using apply_block_total [OF c(3,2) fuel] by blast
      have "total_amount u1 + returned q = total_amount u"
        using Suc.IH [OF c(3,2) fuel inputs_ok_same [OF u(1) Suc.prems(4)] _ u1(1)] u(2) Suc.prems(5) by simp
      then have "total_amount u' = total_amount u"
        using apply_ref_total [OF that(3) u1 _ ] same_dag_length [OF u(1)] Suc.prems(2,5) u(2) by simp
      moreover have "same_dag u u'" using same_dag_apply_ref [of "apply_block fuel", OF u1] that(3) by auto
      ultimately show ?thesis using u same_dag_trans by (auto simp: Inv_def)
    qed
    have inv: "same_dag st st1" "total_amount st1 = total_amount st"
      using fold_opt_invariant [OF st1, of Inv, OF st0 step] by (simp_all add: Inv_def)
    have tot: "total_amount st' + unat r = total_amount st1"
      by (rule apply_amounts_total [OF _ _ _ _ app])
        (use inv Suc.prems wf_dag_same inputs_ok_same same_dag_length in auto)
    moreover have "r \<noteq> already_applied"
      using tot inv(2) Suc.prems(5) max_u64_unat by auto
    ultimately show ?thesis using inv(2) by (simp add: returned_def)
  qed
qed simp

end
