(* ===== verification/Flags.thy ===== *)
theory Flags
  imports Block_State
begin

text \<open>The flags of a cell as bits, for the proofs about flag updates.\<close>

lemma has_flag_bit:
  "has_flag b BI_MAIN \<longleftrightarrow> bit (bi_flags b) 0"
  "has_flag b BI_MAIN_CHAIN \<longleftrightarrow> bit (bi_flags b) 1"
  "has_flag b BI_APPLIED \<longleftrightarrow> bit (bi_flags b) 2"
  "has_flag b BI_MAIN_REF \<longleftrightarrow> bit (bi_flags b) 3"
  "has_flag b BI_REF \<longleftrightarrow> bit (bi_flags b) 4"
  "has_flag b BI_OURS \<longleftrightarrow> bit (bi_flags b) 5"
  "has_flag b BI_EXTRA \<longleftrightarrow> bit (bi_flags b) 6"
  "has_flag b BI_REMARK \<longleftrightarrow> bit (bi_flags b) 7"
proof -
  have "w AND push_bit n 1 \<noteq> 0 \<longleftrightarrow> bit w n" if "n < 16" for w :: u16 and n
    using that by (metis and_exp_eq_0_iff_not_bit push_bit_of_1)
  from this [of 0] this [of 1] this [of 2] this [of 3] this [of 4] this [of 5] this [of 6] this [of 7]
  show "has_flag b BI_MAIN \<longleftrightarrow> bit (bi_flags b) 0"
  "has_flag b BI_MAIN_CHAIN \<longleftrightarrow> bit (bi_flags b) 1"
  "has_flag b BI_APPLIED \<longleftrightarrow> bit (bi_flags b) 2"
  "has_flag b BI_MAIN_REF \<longleftrightarrow> bit (bi_flags b) 3"
  "has_flag b BI_REF \<longleftrightarrow> bit (bi_flags b) 4"
  "has_flag b BI_OURS \<longleftrightarrow> bit (bi_flags b) 5"
  "has_flag b BI_EXTRA \<longleftrightarrow> bit (bi_flags b) 6"
  "has_flag b BI_REMARK \<longleftrightarrow> bit (bi_flags b) 7"
    by (simp_all add: has_flag_def BI_defs)
qed

lemma BI_bits:
  "bit BI_MAIN n \<longleftrightarrow> n = 0"
  "bit BI_MAIN_CHAIN n \<longleftrightarrow> n = 1"
  "bit BI_APPLIED n \<longleftrightarrow> n = 2"
  "bit BI_MAIN_REF n \<longleftrightarrow> n = 3"
  "bit BI_REF n \<longleftrightarrow> n = 4"
  "bit BI_OURS n \<longleftrightarrow> n = 5"
  "bit BI_EXTRA n \<longleftrightarrow> n = 6"
  "bit BI_REMARK n \<longleftrightarrow> n = 7"
proof -
  have *: "bit (push_bit k (1 :: u16)) n \<longleftrightarrow> n = k" if "k < 16" for k
    using that by (auto simp: bit_simps)
  show
  "bit BI_MAIN n \<longleftrightarrow> n = 0"
  "bit BI_MAIN_CHAIN n \<longleftrightarrow> n = 1"
  "bit BI_APPLIED n \<longleftrightarrow> n = 2"
  "bit BI_MAIN_REF n \<longleftrightarrow> n = 3"
  "bit BI_REF n \<longleftrightarrow> n = 4"
  "bit BI_OURS n \<longleftrightarrow> n = 5"
  "bit BI_EXTRA n \<longleftrightarrow> n = 6"
  "bit BI_REMARK n \<longleftrightarrow> n = 7"
    using * [of 0] * [of 1] * [of 2] * [of 3] * [of 4] * [of 5] * [of 6] * [of 7]
    by (simp_all add: BI_defs)
qed

lemmas flag_bits = has_flag_bit BI_bits bit_or_iff bit_and_iff bit_not_iff

end
