(* ===== verification/Rollback.thy ===== *)
theory Rollback
  imports Ledger Flags
begin

text \<open>
  Undoing a main block.  The blocks that a run of \<open>apply_block\<close> marks are the
  blocks that a later \<open>unapply_block\<close> of the same block visits, and the second
  run gives back every amount the first one moved.
\<close>

abbreviation mr :: "xdag_state \<Rightarrow> ptr \<Rightarrow> bool" where "mr st q \<equiv> has_flag (cell st q) BI_MAIN_REF"
abbreviation ap :: "xdag_state \<Rightarrow> ptr \<Rightarrow> bool" where "ap st q \<equiv> has_flag (cell st q) BI_APPLIED"
abbreviation fl :: "xdag_state \<Rightarrow> ptr \<Rightarrow> u16" where "fl st q \<equiv> bi_flags (cell st q)"
abbreviation rf :: "xdag_state \<Rightarrow> ptr \<Rightarrow> bi_ref" where "rf st q \<equiv> bi_ref (cell st q)"

definition newly :: "xdag_state \<Rightarrow> xdag_state \<Rightarrow> ptr set" where
  "newly st st' = {q. q < length (heap st) \<and> mr st' q \<and> \<not> mr st q}"

definition ledger_mask :: u16 where "ledger_mask = BI_MAIN_REF OR BI_APPLIED"

section \<open>What a forward run marks\<close>

text \<open>\<open>forward p st st'\<close>: marks made below p between two states.\<close>

definition forward :: "ptr \<Rightarrow> xdag_state \<Rightarrow> xdag_state \<Rightarrow> bool" where
  "forward p st st' \<longleftrightarrow> same_dag st st' \<and>
     (\<forall>q < length (heap st). mr st q \<longrightarrow> fl st' q = fl st q \<and> rf st' q = rf st q) \<and>
     (\<forall>q < length (heap st). \<not> mr st' q \<longrightarrow> fl st' q = fl st q \<and> rf st' q = rf st q) \<and>
     (\<forall>q \<in> newly st st'. fl st' q AND NOT ledger_mask = fl st q AND NOT ledger_mask) \<and>
     (\<forall>q \<in> newly st st'. \<exists>r \<in> insert p (newly st st'). rf st' q = Ref r)"

lemma forward_refl: "forward p st st"
  by (simp add: forward_def newly_def)

lemma forward_marked: "forward p st st' \<Longrightarrow> q < length (heap st) \<Longrightarrow> mr st q \<Longrightarrow> mr st' q"
  unfolding forward_def has_flag_def by metis

lemma newly_Un:
  assumes "forward p st st1" "forward p st1 st2"
  shows "newly st st2 = newly st st1 \<union> newly st1 st2" "newly st st1 \<inter> newly st1 st2 = {}"
proof -
  have "length (heap st1) = length (heap st)" using assms(1) same_dag_length by (auto simp: forward_def)
  then show "newly st st2 = newly st st1 \<union> newly st1 st2"
    using forward_marked [OF assms(1)] forward_marked [OF assms(2)] by (auto simp: newly_def)
  show "newly st st1 \<inter> newly st1 st2 = {}" by (auto simp: newly_def)
qed

lemma forward_trans:
  assumes "forward p st st1" "forward p st1 st2"
  shows "forward p st st2"
proof -
  have len: "length (heap st1) = length (heap st)" using assms(1) same_dag_length by (auto simp: forward_def)
  have dag: "same_dag st st2" using assms same_dag_trans by (auto simp: forward_def)
  have old: "fl st2 q = fl st q \<and> rf st2 q = rf st q" if "q < length (heap st)" "mr st q" for q
    using that assms forward_marked [OF assms(1)] len by (simp add: forward_def)
  have out: "fl st2 q = fl st q \<and> rf st2 q = rf st q" if "q < length (heap st)" "\<not> mr st2 q" for q
    using that assms forward_marked [OF assms(2), of q] len by (auto simp: forward_def)
  have new1: "fl st2 q = fl st1 q \<and> rf st2 q = rf st1 q" if "q \<in> newly st st1" for q
    using that assms(2) len by (auto simp: forward_def newly_def)
  have new2: "fl st1 q = fl st q \<and> rf st1 q = rf st q" if "q \<in> newly st1 st2" for q
    using that assms(1) len by (auto simp: forward_def newly_def)
  note un = newly_Un(1) [OF assms]
  have "fl st2 q AND NOT ledger_mask = fl st q AND NOT ledger_mask" if "q \<in> newly st st2" for q
    using that un new1 new2 assms by (auto simp: forward_def)
  moreover have "\<exists>r \<in> insert p (newly st st2). rf st2 q = Ref r" if "q \<in> newly st st2" for q
    using that un new1 assms unfolding forward_def by (metis UnE UnI1 UnI2 insert_iff)
  ultimately show ?thesis using dag old out by (simp add: forward_def)
qed

section \<open>The effect of applying and undoing the amounts of one block\<close>

definition net :: "block_internal \<Rightarrow> ptr \<Rightarrow> ptr \<Rightarrow> u64" where
  "net b p x = of_int (moved b [0..<bi_nlinks b] x) -
     (if x = p then bi_fee b + of_int (\<Sum>i\<leftarrow>[0..<bi_nlinks b]. link_delta b i) else 0)"

lemma check_links_difference:
  "check_links st b is s_in s_out = Some (s_in', s_out') \<Longrightarrow>
   s_in' - s_out' = s_in - s_out - of_int (\<Sum>i\<leftarrow>is. link_delta b i)"
  by (induction "is" arbitrary: s_in s_out) (auto split: if_splits simp: link_delta_def)

lemma unapply_sum_eq: "unapply_sum b is s = s + of_int (\<Sum>i\<leftarrow>is. link_delta b i)"
  by (induction "is" arbitrary: s) (auto simp: link_delta_def)

lemma transfer_cell:
  "fl (fold (transfer_link b) is st) q = fl st q" "rf (fold (transfer_link b) is st) q = rf st q"
  "fl (fold (untransfer_link b) is st) q = fl st q" "rf (fold (untransfer_link b) is st) q = rf st q"
proof -
  have "fl (transfer_link b i st) q = fl st q \<and> rf (transfer_link b i st) q = rf st q \<and>
      fl (untransfer_link b i st) q = fl st q \<and> rf (untransfer_link b i st) q = rf st q" for i st
    by (simp add: transfer_link_def untransfer_link_def frame_simps)
  then show
    "fl (fold (transfer_link b) is st) q = fl st q" "rf (fold (transfer_link b) is st) q = rf st q"
    "fl (fold (untransfer_link b) is st) q = fl st q" "rf (fold (untransfer_link b) is st) q = rf st q"
    by (induction "is" arbitrary: st) simp_all
qed

lemma fold_untransfer_amount:
  assumes "\<forall>i \<in> set is. the (bi_link b ! i) < length (heap st)"
  shows "amt (fold (untransfer_link b) is st) q = amt st q - of_int (moved b is q)"
  using assms
proof (induction "is" arbitrary: st)
  case (Cons i "is")
  have "amt (untransfer_link b i st) q =
      amt st q - of_int (if the (bi_link b ! i) = q then link_delta b i else 0)"
    using Cons.prems by (auto simp: untransfer_link_def frame_simps link_delta_def)
  moreover have "length (heap (untransfer_link b i st)) = length (heap st)"
    by (simp add: untransfer_link_def)
  ultimately show ?case using Cons by (simp add: moved_def diff_diff_eq)
qed (simp add: moved_def)

lemma transfer_length:
  "length (heap (fold (transfer_link b) is st)) = length (heap st)"
  "length (heap (fold (untransfer_link b) is st)) = length (heap st)"
  using same_dag_length [OF same_dag_fold [of "transfer_link b", OF same_dag_transfer(1)]]
    same_dag_length [OF same_dag_fold [of "untransfer_link b", OF same_dag_transfer(2)]] by blast+

lemma apply_amounts_effect:
  assumes "wf_dag st" "p < length (heap st)" "apply_amounts p st = (st', r)"
  shows "(st' = st \<and> r = 0) \<or>
    (r = bi_fee (cell st p) \<and>
     (\<forall>q < length (heap st). amt st' q = amt st q + net (cell st p) p q \<and>
        fl st' q = (if q = p then fl st q OR BI_APPLIED else fl st q) \<and> rf st' q = rf st q))"
proof (cases "st' = st \<and> r = 0")
  case False
  define b where "b = cell st p"
  obtain s_in s_out where r: "r = bi_fee b"
    and chk: "check_links st b [0..<bi_nlinks b] 0 (bi_fee b) = Some (s_in, s_out)"
    and st': "st' = upd_cell p (set_flag BI_APPLIED)
      (accept_amount p (s_in - s_out) (fold (transfer_link b) [0..<bi_nlinks b] st))"
    using apply_amounts_rejected [OF assms(3)] False unfolding b_def by blast
  have "\<forall>i \<in> set [0..<bi_nlinks b]. the (bi_link b ! i) < length (heap st)"
    using wf_link(1) [OF assms(1,2)] by (simp add: b_def)
  note amounts = fold_transfer_amount [OF this]
  have "amt st' q = amt st q + net b p q \<and>
      fl st' q = (if q = p then fl st q OR BI_APPLIED else fl st q) \<and> rf st' q = rf st q"
    if "q < length (heap st)" for q
    using assms(2) check_links_difference [OF chk] unfolding st'
    by (simp add: frame_simps transfer_length amounts transfer_cell net_def set_flag_def algebra_simps)
  then show ?thesis using r by (simp add: b_def)
qed simp

lemma unapply_amounts_effect:
  assumes "wf_dag st" "p < length (heap st)" "q < length (heap st)"
  shows "amt (unapply_amounts p st) q = (if ap st p then amt st q - net (cell st p) p q else amt st q)"
    "fl (unapply_amounts p st) q = (if q = p then fl st q AND NOT BI_APPLIED else fl st q)"
    "rf (unapply_amounts p st) q = rf st q"
proof -
  define b where "b = cell st p"
  have "\<forall>i \<in> set [0..<bi_nlinks b]. the (bi_link b ! i) < length (heap st)"
    using wf_link(1) [OF assms(1,2)] by (simp add: b_def)
  note amounts = fold_untransfer_amount [OF this]
  have nap: "fl st p AND NOT BI_APPLIED = fl st p" if "\<not> ap st p"
    by (rule bit_word_eqI) (use that in \<open>auto simp: flag_bits\<close>)
  show "amt (unapply_amounts p st) q = (if ap st p then amt st q - net (cell st p) p q else amt st q)"
    using assms(2) unfolding unapply_amounts_def Let_def b_def [symmetric]
    by (auto simp: frame_simps transfer_length amounts unapply_sum_eq net_def clear_flag_def)
  show "fl (unapply_amounts p st) q = (if q = p then fl st q AND NOT BI_APPLIED else fl st q)"
    "rf (unapply_amounts p st) q = rf st q"
    using assms(2) nap unfolding unapply_amounts_def Let_def
    by (auto simp: frame_simps transfer_length transfer_cell clear_flag_def)
qed

section \<open>Forward runs\<close>

definition fees_ok :: "xdag_state \<Rightarrow> bool" where
  "fees_ok st \<longleftrightarrow> (\<forall>q < length (heap st). bi_fee (cell st q) \<noteq> already_applied)"

lemma fees_ok_same: "same_dag st st' \<Longrightarrow> fees_ok st \<Longrightarrow> fees_ok st'"
  unfolding fees_ok_def by (metis same_dag_length same_dag_static static_eqD(4))

definition block_run :: "ptr \<Rightarrow> xdag_state \<Rightarrow> xdag_state \<Rightarrow> bool" where
  "block_run p st st' \<longleftrightarrow> same_dag st st' \<and> p \<in> newly st st' \<and> rf st' p = rf st p \<and>
     (\<forall>q < length (heap st). mr st q \<longrightarrow> fl st' q = fl st q \<and> rf st' q = rf st q) \<and>
     (\<forall>q < length (heap st). \<not> mr st' q \<longrightarrow> fl st' q = fl st q \<and> rf st' q = rf st q) \<and>
     (\<forall>q \<in> newly st st'. fl st' q AND NOT ledger_mask = fl st q AND NOT ledger_mask) \<and>
     (\<forall>q \<in> newly st st' - {p}. \<exists>r \<in> newly st st'. rf st' q = Ref r)"

text \<open>The state after one round: the sub-block is marked as referenced by p and p gets its fee.\<close>

definition after_ref :: "ptr \<Rightarrow> ptr \<Rightarrow> u64 \<Rightarrow> xdag_state \<Rightarrow> xdag_state" where
  "after_ref p c r u = accept_amount p r (upd_cell c (\<lambda>b. b\<lparr>bi_ref := Ref p\<rparr>) u)"

lemma after_ref_cell:
  assumes "c < length (heap u)" "p < length (heap u)"
  shows "fl (after_ref p c r u) q = fl u q"
    "rf (after_ref p c r u) q = (if q = c then Ref p else rf u q)"
    "amt (after_ref p c r u) q = (if q = p then amt u q + r else amt u q)"
    "same_dag u (after_ref p c r u)"
proof -
  have "same_dag u (upd_cell c (\<lambda>b. b\<lparr>bi_ref := Ref p\<rparr>) u)" by (rule same_dag_upd_cell) simp
  then show "same_dag u (after_ref p c r u)" unfolding after_ref_def
    using same_dag_trans same_dag_accept by blast
qed (use assms in \<open>auto simp: after_ref_def frame_simps\<close>)

lemma forward_after_ref:
  assumes run: "block_run c u u1" and p: "p < length (heap u)" "mr u p"
  shows "forward p u (after_ref p c r u1)" "newly u (after_ref p c r u1) = newly u u1"
proof -
  have dag: "same_dag u u1" and c: "c \<in> newly u u1" using run by (simp_all add: block_run_def)
  have len: "length (heap u1) = length (heap u)" by (rule same_dag_length [OF dag])
  have "c < length (heap u1)" using c len by (simp add: newly_def)
  note cell = after_ref_cell [OF this, of p]
  have mr: "mr (after_ref p c r u1) q = mr u1 q" for q
    using cell(1) p(1) len by (simp add: has_flag_def)
  show new: "newly u (after_ref p c r u1) = newly u u1" by (simp add: newly_def mr)
  have c': "\<not> mr u c" "mr u1 c" using c by (simp_all add: newly_def)
  have "same_dag u (after_ref p c r u1)" using cell(4) p(1) len same_dag_trans [OF dag] by simp
  moreover have "\<forall>q \<in> newly u u1. \<exists>s \<in> insert p (newly u u1). rf (after_ref p c r u1) q = Ref s"
  proof
    fix q assume "q \<in> newly u u1"
    then show "\<exists>s \<in> insert p (newly u u1). rf (after_ref p c r u1) q = Ref s"
      using run cell(2) p(1) len unfolding block_run_def by (cases "q = c") auto
  qed
  ultimately show "forward p u (after_ref p c r u1)"
    unfolding forward_def new using run cell(1,2) p(1) len c' mr
    by (auto simp: block_run_def)
qed

lemma forward_accept_free:
  assumes "same_dag u u'" "\<forall>q < length (heap u). fl u' q = fl u q \<and> rf u' q = rf u q"
  shows "forward p u u'" "newly u u' = {}"
  using assms by (auto simp: forward_def newly_def has_flag_def)

lemma apply_ref_result:
  assumes "apply (link_of u p i) u = Some (u1, r)" "link_of u1 p i = link_of u p i"
    "p < length (heap u1)"
  shows "apply_ref apply p i u = Some (if r = already_applied then u1
    else after_ref p (link_of u p i) (if amt u1 p + r \<ge> amt u1 p then r else 0) u1)"
proof -
  have "amt (upd_cell q (\<lambda>b. b\<lparr>bi_ref := Ref p\<rparr>) u1) p = amt u1 p" for q
    by (simp add: frame_simps)
  then show ?thesis using assms by (simp add: apply_ref_def after_ref_def Let_def accept_amount_def)
qed

lemma mark_cell:
  assumes "p < length (heap st)"
  shows "fl (upd_cell p (set_flag BI_MAIN_REF) st) q = (if q = p then fl st q OR BI_MAIN_REF else fl st q)"
    "rf (upd_cell p (set_flag BI_MAIN_REF) st) q = rf st q"
    "amt (upd_cell p (set_flag BI_MAIN_REF) st) q = amt st q"
    "mr (upd_cell p (set_flag BI_MAIN_REF) st) q = (q = p \<or> mr st q)"
  using assms by (auto simp: frame_simps set_flag_def flag_bits)

text \<open>The marks made by the loop, then the block's own amounts, make a run of the block.\<close>

lemma block_run_compose:
  assumes p: "p < length (heap st)" "\<not> mr st p" and wf: "wf_dag st"
    and st0: "st0 = upd_cell p (set_flag BI_MAIN_REF) st" and fwd: "forward p st0 v"
    and app: "apply_amounts p v = (st1, r)"
  shows "block_run p st st1" "newly st st1 = insert p (newly st0 v)"
    "(r = bi_fee (cell st p) \<and> ap st1 p) \<or> (r = 0 \<and> st1 = v)"
    "\<forall>q < length (heap st). q \<noteq> p \<longrightarrow> fl st1 q = fl v q" "\<forall>q < length (heap st). rf st1 q = rf v q"
proof -
  have d0: "same_dag st st0" unfolding st0 by (rule same_dag_upd_cell) simp
  have dv: "same_dag st0 v" using fwd by (simp add: forward_def)
  have d1: "same_dag v st1" using same_dag_apply_amounts [of v p] app by simp
  have len: "length (heap v) = length (heap st)" "length (heap st0) = length (heap st)"
    using d0 dv same_dag_length same_dag_trans by metis+
  have wfv: "wf_dag v" using wf d0 dv wf_dag_same by blast
  have fee: "bi_fee (cell v p) = bi_fee (cell st p)"
    using same_dag_static [OF same_dag_trans [OF d0 dv] p(1)] by blast
  note eff = apply_amounts_effect [OF wfv _ app, unfolded len, OF p(1)]
  have eff_r: "rf st1 q = rf v q" if "q < length (heap st)" for q using eff that by auto
  have eff_f: "fl st1 q = fl v q" if "q < length (heap st)" "q \<noteq> p" for q using eff that by auto
  have eff_p: "fl st1 p = fl v p \<or> fl st1 p = fl v p OR BI_APPLIED" using eff p(1) by auto
  show "\<forall>q < length (heap st). q \<noteq> p \<longrightarrow> fl st1 q = fl v q" "\<forall>q < length (heap st). rf st1 q = rf v q"
    using eff_f eff_r by auto
  have vp: "fl v p = fl st p OR BI_MAIN_REF" "rf v p = rf st p"
    using fwd p(1) mark_cell [OF p(1)] by (simp_all add: forward_def st0)
  have mrp: "mr st1 p" using eff_p vp by (auto simp: flag_bits)
  have mr1: "mr st1 q = mr v q" if "q < length (heap st)" "q \<noteq> p" for q
    using eff_f that by (simp add: has_flag_def)
  show new: "newly st st1 = insert p (newly st0 v)"
    using p mrp mr1 mark_cell(4) [OF p(1)] forward_marked [OF fwd] len by (auto simp: newly_def st0)
  show "(r = bi_fee (cell st p) \<and> ap st1 p) \<or> (r = 0 \<and> st1 = v)"
    using eff p(1) fee by (auto simp: flag_bits)
  have mask_p: "fl st1 p AND NOT ledger_mask = fl st p AND NOT ledger_mask"
    by (rule bit_word_eqI) (use eff_p vp in \<open>auto simp: ledger_mask_def flag_bits\<close>)
  have notp: "q \<noteq> p" if "q \<in> newly st0 v" for q using that mark_cell(4) [OF p(1)] by (auto simp: newly_def st0)
  have old: "fl st1 q = fl st q \<and> rf st1 q = rf st q" if "q < length (heap st)" "mr st q" for q
  proof -
    have "q \<noteq> p" using that p(2) by auto
    moreover have "mr st0 q" using that mark_cell(4) [OF p(1)] by (simp add: st0)
    ultimately show ?thesis using fwd that eff_f eff_r len mark_cell [OF p(1)] by (simp add: forward_def st0)
  qed
  have out: "fl st1 q = fl st q \<and> rf st1 q = rf st q" if "q < length (heap st)" "\<not> mr st1 q" for q
  proof -
    have "q \<noteq> p" using that mrp by auto
    moreover have "\<not> mr v q" using that mr1 calculation by simp
    ultimately show ?thesis using fwd that eff_f eff_r len mark_cell [OF p(1)] by (simp add: forward_def st0)
  qed
  have mask: "fl st1 q AND NOT ledger_mask = fl st q AND NOT ledger_mask" if "q \<in> newly st st1" for q
  proof (cases "q = p")
    case False
    then have q: "q \<in> newly st0 v" using that new by simp
    then have "q < length (heap st)" using len by (simp add: newly_def)
    then show ?thesis using q fwd eff_f False mark_cell(1) [OF p(1)] by (simp add: forward_def st0)
  qed (simp add: mask_p)
  have refs: "\<exists>s \<in> newly st st1. rf st1 q = Ref s" if "q \<in> newly st st1 - {p}" for q
  proof -
    have q: "q \<in> newly st0 v" using that new by simp
    then show ?thesis using fwd eff_r len new by (auto simp: forward_def newly_def)
  qed
  have "same_dag st st1" using d0 dv d1 same_dag_trans by blast
  moreover have "p \<in> newly st st1" "rf st1 p = rf st p" using new vp(2) eff_r [OF p(1)] by simp_all
  ultimately show "block_run p st st1" using old out mask refs by (simp add: block_run_def)
qed

lemma block_forward:
  assumes "wf_dag st" "fees_ok st" "p < length (heap st)" "rank st p < fuel" "\<not> mr st p"
    and "apply_block fuel p st = Some (st1, r)"
  shows "block_run p st st1 \<and> r \<noteq> already_applied"
  using assms
proof (induction fuel arbitrary: p st st1 r)
  case (Suc fuel)
  define st0 where "st0 = upd_cell p (set_flag BI_MAIN_REF) st"
  have d0: "same_dag st st0" unfolding st0_def by (rule same_dag_upd_cell) simp
  have mrp: "mr st0 p" using mark_cell(4) [OF Suc.prems(3)] by (simp add: st0_def)
  obtain v where v: "fold_opt (apply_ref (apply_block fuel) p) [0..<bi_nlinks (cell st p)] st0 = Some v"
    and app: "apply_amounts p v = (st1, r)"
    using Suc.prems(5,6) by (auto simp: st0_def bind_eq_Some_conv)
  have step: "forward p st0 u'"
    if "i \<in> set [0..<bi_nlinks (cell st p)]" "forward p st0 u" "apply_ref (apply_block fuel) p i u = Some u'" for i u u'
  proof -
    have du: "same_dag st u" using that(2) d0 same_dag_trans by (auto simp: forward_def)
    have i: "i < bi_nlinks (cell st p)" using that(1) by simp
    note c = link_call [OF Suc.prems(1) du Suc.prems(3) i]
    have len: "length (heap u) = length (heap st)" by (rule same_dag_length [OF du])
    have fuel: "rank u (link_of u p i) < fuel" using c(4) Suc.prems(4) by simp
    have mru: "mr u p" using forward_marked [OF that(2) _ mrp] Suc.prems(3) same_dag_length [OF d0] by simp
    obtain u1 q where u1: "apply_block fuel (link_of u p i) u = Some (u1, q)" "same_dag u u1"
      using apply_block_total [OF c(3,2) fuel] by blast
    have l1: "link_of u1 p i = link_of u p i"
      using link_call(1) [OF Suc.prems(1) same_dag_trans [OF du u1(2)] Suc.prems(3) i] c(1) by simp
    have p1: "p < length (heap u1)" using Suc.prems(3) len same_dag_length [OF u1(2)] by simp
    note res = apply_ref_result [of "apply_block fuel", OF u1(1) l1 p1]
    have "forward p u u'"
    proof (cases "mr u (link_of u p i)")
      case True
      then have "u1 = u \<and> q = already_applied" using u1(1) fuel by (cases fuel) auto
      then show ?thesis using res that(3) forward_refl by simp
    next
      case False
      have "block_run (link_of u p i) u u1 \<and> q \<noteq> already_applied"
        using Suc.IH [OF c(3) fees_ok_same [OF du Suc.prems(2)] c(2) fuel False u1(1)] .
      then show ?thesis
        using forward_after_ref(1) [of "link_of u p i" u u1 p] res that(3) mru Suc.prems(3) len by simp
    qed
    then show ?thesis using forward_trans that(2) by blast
  qed
  have fwd: "forward p st0 v"
    using fold_opt_invariant [OF v, of "forward p st0", OF forward_refl step] .
  note run = block_run_compose [OF Suc.prems(3,5,1) st0_def fwd app]
  then show ?case using Suc.prems(2,3) by (auto simp: fees_ok_def already_applied_def)
qed simp

section \<open>One round of the loop\<close>

definition ap_marked :: "xdag_state \<Rightarrow> bool" where
  "ap_marked st \<longleftrightarrow> (\<forall>q < length (heap st). ap st q \<longrightarrow> mr st q)"

definition ledger_ok :: "xdag_state \<Rightarrow> bool" where
  "ledger_ok st \<longleftrightarrow> wf_dag st \<and> fees_ok st \<and> inputs_ok st \<and> total_amount st < 2 ^ 64 - 1 \<and> ap_marked st"

lemma ledger_ok_step:
  assumes "ledger_ok u" "forward p u u'" "total_amount u' = total_amount u"
  shows "ledger_ok u'"
proof -
  have d: "same_dag u u'" using assms(2) by (simp add: forward_def)
  have "ap_marked u'" unfolding ap_marked_def same_dag_length [OF d]
  proof (intro allI impI, rule ccontr)
    fix q assume q: "q < length (heap u)" "ap u' q" "\<not> mr u' q"
    then have "fl u' q = fl u q" using assms(2) by (simp add: forward_def)
    then have "ap u q" using q by (simp add: has_flag_def)
    then show False using assms(1) q forward_marked [OF assms(2)] by (auto simp: ledger_ok_def ap_marked_def)
  qed
  then show ?thesis using assms d wf_dag_same fees_ok_same inputs_ok_same by (auto simp: ledger_ok_def)
qed

lemma apply_ref_step:
  assumes ok: "ledger_ok u" and p: "p < length (heap u)" "mr u p" and i: "i < bi_nlinks (cell u p)"
    and fuel: "rank u p \<le> fuel"
  obtains (old) "mr u (link_of u p i)" "apply_ref (apply_block fuel) p i u = Some u"
    | (new) u1 r where "\<not> mr u (link_of u p i)" "apply_block fuel (link_of u p i) u = Some (u1, r)"
      "block_run (link_of u p i) u u1"
      "apply_ref (apply_block fuel) p i u = Some (after_ref p (link_of u p i) r u1)"
      "total_amount (after_ref p (link_of u p i) r u1) = total_amount u"
proof -
  have wf: "wf_dag u" using ok by (simp add: ledger_ok_def)
  note c = link_call [OF wf same_dag_refl p(1) i]
  have f: "rank u (link_of u p i) < fuel" using c(4) fuel by simp
  obtain u1 r where u1: "apply_block fuel (link_of u p i) u = Some (u1, r)" "same_dag u u1"
    using apply_block_total [OF wf c(2) f] by blast
  have l1: "link_of u1 p i = link_of u p i" using link_call(1) [OF wf u1(2) p(1) i] .
  have p1: "p < length (heap u1)" using p(1) same_dag_length [OF u1(2)] by simp
  note res = apply_ref_result [of "apply_block fuel", OF u1(1) l1 p1]
  show ?thesis
  proof (cases "mr u (link_of u p i)")
    case True
    then have "u1 = u \<and> r = already_applied" using u1(1) f by (cases fuel) auto
    then show ?thesis using old True res by simp
  next
    case False
    have run: "block_run (link_of u p i) u u1" "r \<noteq> already_applied"
      using block_forward [OF wf _ c(2) f False u1(1)] ok by (simp_all add: ledger_ok_def)
    have tot: "total_amount u1 + unat r = total_amount u"
      using apply_block_total_amount [OF wf c(2) f _ _ u1(1)] ok run(2) by (simp add: ledger_ok_def returned_def)
    then have "unat (amt u1 p) + unat r < 2 ^ 64"
      using amt_le_total [OF p1] ok by (simp add: ledger_ok_def)
    then have "amt u1 p \<le> amt u1 p + r" by (simp add: word_add_no_overflow_iff)
    then have eq: "apply_ref (apply_block fuel) p i u = Some (after_ref p (link_of u p i) r u1)"
      using res run(2) by simp
    have "total_amount (after_ref p (link_of u p i) r u1) = total_amount u"
      using apply_ref_total [of "apply_block fuel", OF eq u1 p(1)] tot run(2) ok
      by (simp add: returned_def ledger_ok_def)
    then show ?thesis using new False u1(1) run(1) eq by blast
  qed
qed

section \<open>Undoing mirrors applying\<close>

definition agrees :: "xdag_state \<Rightarrow> ptr set \<Rightarrow> xdag_state \<Rightarrow> bool" where
  "agrees v W s \<longleftrightarrow> same_dag v s \<and>
     (\<forall>q \<in> W. fl s q AND ledger_mask = fl v q AND ledger_mask)"

definition detached :: "xdag_state \<Rightarrow> ptr set \<Rightarrow> ptr set \<Rightarrow> bool" where
  "detached s W R \<longleftrightarrow> (\<forall>q < length (heap s). q \<notin> W \<longrightarrow> mr s q \<longrightarrow> (\<forall>r \<in> R. rf s q \<noteq> Ref r))"

definition undone :: "ptr set \<Rightarrow> xdag_state \<Rightarrow> xdag_state \<Rightarrow> bool" where
  "undone V s s' \<longleftrightarrow> same_dag s s' \<and>
     (\<forall>q < length (heap s). fl s' q = (if q \<in> V then fl s q AND NOT ledger_mask else fl s q) \<and>
        rf s' q = (if q \<in> V then NoRef else rf s q))"

definition gives_back :: "xdag_state \<Rightarrow> xdag_state \<Rightarrow> xdag_state \<Rightarrow> xdag_state \<Rightarrow> bool" where
  "gives_back u v s s' \<longleftrightarrow> (\<forall>x < length (heap s). amt s' x = amt s x + (amt u x - amt v x))"

definition clean :: "xdag_state \<Rightarrow> ptr set \<Rightarrow> bool" where
  "clean v W \<longleftrightarrow> (\<forall>q \<in> W. ap v q \<or> bi_fee (cell v q) = 0)"

lemma mr_mask: "fl s q AND ledger_mask = fl v q AND ledger_mask \<Longrightarrow> mr s q = mr v q \<and> ap s q = ap v q"
proof -
  assume eq: "fl s q AND ledger_mask = fl v q AND ledger_mask"
  have "bit (fl s q AND ledger_mask) n = bit (fl v q AND ledger_mask) n" for n using eq by simp
  from this [of 2] this [of 3] show ?thesis by (simp add: ledger_mask_def flag_bits)
qed

lemma undone_trans:
  assumes "undone V s s1" "undone W s1 s2"
  shows "undone (V \<union> W) s s2"
  using assms same_dag_length [of s s1] same_dag_trans
  by (auto simp: undone_def and.assoc)

lemma gives_back_trans:
  assumes "gives_back u t s s1" "gives_back t v s1 s2" "same_dag s s1"
  shows "gives_back u v s s2"
  using assms same_dag_length [of s s1] by (simp add: gives_back_def)

definition mirror :: "nat \<Rightarrow> ptr \<Rightarrow> xdag_state \<Rightarrow> xdag_state \<Rightarrow> bool" where
  "mirror fuel p st st1 \<longleftrightarrow> (\<forall>s. agrees st1 (newly st st1) s \<longrightarrow>
     (\<forall>q \<in> newly st st1 - {p}. rf s q = rf st1 q) \<longrightarrow>
     detached s (newly st st1) (newly st st1) \<longrightarrow> clean st1 (newly st st1) \<longrightarrow>
     (\<exists>s2. unapply_block fuel p s = Some (s2, 0 - bi_fee (cell st p)) \<and>
        undone (newly st st1) s s2 \<and> gives_back st st1 s s2))"

text \<open>Undoing the call made for a link that was new.\<close>

lemma unapply_ref_new:
  assumes mir: "mirror fuel c u u1" and run: "block_run c u u1" and ok: "ledger_ok u"
    and p: "p < length (heap u)" "c \<noteq> p" and c: "c = link_of u p i" "c < length (heap u)"
    and u': "u' = after_ref p c r u1" and r: "r = bi_fee (cell u c)"
    and dag: "same_dag u' s" and W: "newly u u1 \<subseteq> W"
    and fl: "\<forall>q \<in> newly u u1. fl s q AND ledger_mask = fl u1 q AND ledger_mask"
    and rf: "\<forall>q \<in> newly u u1. rf s q = rf u' q"
    and det: "detached s (newly u u1) (newly u u1)" and cl: "clean u1 (newly u u1)"
  shows "\<exists>s'. unapply_ref (unapply_block fuel) p i s = Some s' \<and> undone (newly u u1) s s' \<and> gives_back u u' s s'"
proof -
  have d1: "same_dag u u1" and cn: "c \<in> newly u u1" using run by (simp_all add: block_run_def)
  have len1: "length (heap u1) = length (heap u)" by (rule same_dag_length [OF d1])
  note cell = after_ref_cell [of c u1 p r, unfolded len1, OF c(2) p(1), folded u']
  have ds: "same_dag u1 s" using cell(4) dag same_dag_trans by blast
  have lens: "length (heap s) = length (heap u)" using same_dag_length [OF ds] len1 by simp
  have dus: "same_dag u s" using d1 ds same_dag_trans by blast
  have ci: "link_of s p i = c"
    using same_dag_static [OF dus p(1)] c(1) static_eqD(6) by metis
  have "\<forall>q \<in> newly u u1 - {c}. rf s q = rf u1 q" using rf cell(2) by auto
  then obtain s2 where s2: "unapply_block fuel c s = Some (s2, 0 - bi_fee (cell u c))"
      "undone (newly u u1) s s2" "gives_back u u1 s s2"
    using mir ds fl det cl unfolding mirror_def agrees_def by blast
  have rc: "rf s c = Ref p" using rf cn cell(2) by simp
  have mc: "mr s c" using mr_mask [of s c u1] fl cn by (auto simp: newly_def)
  define s' where "s' = accept_amount p (0 - bi_fee (cell u c)) s2"
  have len2: "length (heap s2) = length (heap u)"
    using s2(2) same_dag_length [of s s2] lens by (simp add: undone_def)
  have "unapply_ref (unapply_block fuel) p i s = Some s'"
    using s2(1) rc mc ci by (simp add: unapply_ref_def s'_def)
  moreover have "undone (newly u u1) s s'"
    using s2(2) same_dag_trans [of s s2, OF _ same_dag_accept] by (auto simp: undone_def s'_def frame_simps)
  moreover have "gives_back u u' s s'"
    using s2(3) p(1) len2 lens cell(3) r by (auto simp: gives_back_def s'_def frame_simps)
  ultimately show ?thesis by blast
qed

lemma apply_ref_forward:
  assumes ok: "ledger_ok u" and p: "p < length (heap u)" "mr u p" and i: "i < bi_nlinks (cell u p)"
    and fuel: "rank u p \<le> fuel" and "apply_ref (apply_block fuel) p i u = Some u'"
  shows "forward p u u' \<and> ledger_ok u'"
proof (rule apply_ref_step [OF ok p i fuel])
  assume "apply_ref (apply_block fuel) p i u = Some u"
  then show ?thesis using assms(6) ok forward_refl by simp
next
  fix u1 r
  assume new: "block_run (link_of u p i) u u1" "total_amount (after_ref p (link_of u p i) r u1) = total_amount u"
    "apply_ref (apply_block fuel) p i u = Some (after_ref p (link_of u p i) r u1)"
  have "forward p u (after_ref p (link_of u p i) r u1)" by (rule forward_after_ref(1) [OF new(1) p])
  then show ?thesis using ledger_ok_step [OF ok _ new(2)] new(3) assms(6) by auto
qed

lemma fold_forward:
  assumes "fold_opt (apply_ref (apply_block fuel) p) is u = Some v" "ledger_ok u"
    and "p < length (heap u)" "mr u p" "\<forall>i \<in> set is. i < bi_nlinks (cell u p)" "rank u p \<le> fuel"
  shows "forward p u v \<and> ledger_ok v"
  using assms
proof (induction "is" arbitrary: u)
  case (Cons i "is")
  then obtain u' where u': "apply_ref (apply_block fuel) p i u = Some u'"
      "fold_opt (apply_ref (apply_block fuel) p) is u' = Some v" by (auto simp: bind_eq_Some_conv)
  have f: "forward p u u'" "ledger_ok u'" using apply_ref_forward [OF Cons.prems(2-4) _ Cons.prems(6) u'(1)] Cons.prems(5) by auto
  then have d: "same_dag u u'" by (simp add: forward_def)
  have "forward p u' v \<and> ledger_ok v"
    using Cons.IH [OF u'(2) f(2)] forward_marked [OF f(1) Cons.prems(3,4)] Cons.prems(3,5,6)
      same_dag_length [OF d] rank_same [OF d Cons.prems(3)] static_eqD(8) [OF same_dag_static [OF d Cons.prems(3)]]
    by simp
  then show ?case using forward_trans [OF f(1)] by blast
qed (simp add: forward_refl)

lemma fold_mirror:
  assumes IH: "\<And>c u u1 r. ledger_ok u \<Longrightarrow> c < length (heap u) \<Longrightarrow> rank u c < fuel \<Longrightarrow> \<not> mr u c \<Longrightarrow>
      apply_block fuel c u = Some (u1, r) \<Longrightarrow> mirror fuel c u u1 \<and> (clean u1 {c} \<longrightarrow> r = bi_fee (cell u c))"
    and fold: "fold_opt (apply_ref (apply_block fuel) p) is u = Some v"
    and "ledger_ok u" "p < length (heap u)" "mr u p" "\<forall>i \<in> set is. i < bi_nlinks (cell u p)" "rank u p \<le> fuel"
    and "agrees v (newly u v) s" "\<forall>q \<in> newly u v. rf s q = rf v q"
    and "detached s (newly u v) (insert p (newly u v))" "clean v (newly u v)"
  shows "\<exists>s'. fold_opt (unapply_ref (unapply_block fuel) p) is s = Some s' \<and>
    undone (newly u v) s s' \<and> gives_back u v s s'"
  using fold assms(3-)
proof (induction "is" arbitrary: u s)
  case Nil
  then show ?case by (auto simp: newly_def undone_def gives_back_def)
next
  case (Cons i "is")
  define c where "c = link_of u p i"
  have wf: "wf_dag u" and i: "i < bi_nlinks (cell u p)" using Cons.prems by (simp_all add: ledger_ok_def)
  note lc = link_call [OF wf same_dag_refl Cons.prems(3) i, folded c_def]
  have fuv: "forward p u v" using fold_forward [OF Cons.prems(1-6)] by simp
  have dvs: "same_dag v s" using Cons.prems(7) by (simp add: agrees_def)
  have duv: "same_dag u v" using fuv by (simp add: forward_def)
  have dus: "same_dag u s" using duv dvs same_dag_trans by blast
  have lens: "length (heap s) = length (heap u)" by (rule same_dag_length [OF dus])
  have lnk: "link_of s p i = c"
    using static_eqD(6) [OF same_dag_static [OF dus Cons.prems(3)]] by (simp add: c_def)
  show ?case
  proof (rule apply_ref_step [OF Cons.prems(2-4) i Cons.prems(6)])
    assume old: "mr u (link_of u p i)" "apply_ref (apply_block fuel) p i u = Some u"
    have rest: "fold_opt (apply_ref (apply_block fuel) p) is u = Some v" using Cons.prems(1) old(2) by simp
    have "c \<notin> newly u v" using old(1) by (simp add: newly_def c_def)
    then have "\<not> (rf s c = Ref p \<and> mr s c)"
      using Cons.prems(9) lc(2) lens by (auto simp: detached_def)
    then have "unapply_ref (unapply_block fuel) p i s = Some s"
      by (auto simp: unapply_ref_def lnk)
    then show ?thesis using Cons.IH [OF rest Cons.prems(2-4) _ Cons.prems(6-10)] Cons.prems(5) by simp
  next
    fix u1 r
    assume new: "\<not> mr u (link_of u p i)" "apply_block fuel (link_of u p i) u = Some (u1, r)"
      "block_run (link_of u p i) u u1"
      "apply_ref (apply_block fuel) p i u = Some (after_ref p (link_of u p i) r u1)"
      "total_amount (after_ref p (link_of u p i) r u1) = total_amount u"
    define u' where "u' = after_ref p c r u1"
    define V where "V = newly u u1"
    define W where "W = newly u' v"
    note new = new [folded c_def]
    have rest: "fold_opt (apply_ref (apply_block fuel) p) is u' = Some v"
      using Cons.prems(1) new(4) by (simp add: u'_def)
    have fuu: "forward p u u'" and nuu: "newly u u' = V"
      using forward_after_ref [OF new(3) Cons.prems(3,4)] by (simp_all add: u'_def V_def)
    have ok': "ledger_ok u'" using ledger_ok_step [OF Cons.prems(2) fuu] new(5) by (simp add: u'_def)
    have duu: "same_dag u u'" using fuu by (simp add: forward_def)
    have len': "length (heap u') = length (heap u)" by (rule same_dag_length [OF duu])
    have p': "p < length (heap u')" "mr u' p" "\<forall>i \<in> set is. i < bi_nlinks (cell u' p)" "rank u' p \<le> fuel"
      using Cons.prems(3-6) len' forward_marked [OF fuu] rank_same [OF duu]
        static_eqD(8) [OF same_dag_static [OF duu Cons.prems(3)]] by simp_all
    have fuv': "forward p u' v" using fold_forward [OF rest ok' p'] by simp
    have un: "newly u v = V \<union> W" "V \<inter> W = {}"
      using newly_Un [OF fuu fuv'] nuu by (simp_all add: W_def)
    have keepV: "fl v q = fl u' q \<and> rf v q = rf u' q" if "q \<in> V" for q
      using fuv' that nuu len' by (auto simp: forward_def newly_def)
    have len1: "length (heap u1) = length (heap u)" using same_dag_length new(3) by (auto simp: block_run_def)
    have flu': "fl u' q = fl u1 q" for q
      using after_ref_cell(1) [of c u1 p] lc(2) Cons.prems(3) len1 by (simp add: u'_def)
    have pV: "p \<notin> V" using Cons.prems(4) by (simp add: V_def newly_def)
    have Wref: "\<exists>x \<in> insert p W. rf s q = Ref x" if "q \<in> W" for q
      using fuv' that Cons.prems(8) un(1) by (auto simp: forward_def W_def)
    have detV: "detached s V V"
      unfolding detached_def
    proof (intro allI impI ballI)
      fix q x assume q: "q < length (heap s)" "q \<notin> V" "mr s q" "x \<in> V"
      show "rf s q \<noteq> Ref x"
      proof (cases "q \<in> W")
        case True
        then show ?thesis using Wref [OF True] q(4) pV un(2) by auto
      next
        case False
        then show ?thesis using Cons.prems(9) q un(1) by (simp add: detached_def)
      qed
    qed
    have feeV: "bi_fee (cell u1 q) = bi_fee (cell v q)" if "q \<in> V" for q
    proof -
      have "q < length (heap u)" using that by (simp add: V_def newly_def)
      moreover have "same_dag u u1" using new(3) by (simp add: block_run_def)
      ultimately show ?thesis using same_dag_static duv static_eqD(4) by metis
    qed
    have clV: "clean u1 V"
      using Cons.prems(10) un(1) keepV flu' feeV by (auto simp: clean_def has_flag_def)
    have cV: "c \<in> V" using new(3) by (simp add: block_run_def V_def)
    have rank_c: "rank u c < fuel" using lc(4) Cons.prems(6) by simp
    have mir: "mirror fuel c u u1" and r: "r = bi_fee (cell u c)"
      using IH [OF Cons.prems(2) lc(2) rank_c new(1,2)] clV cV by (auto simp: clean_def)
    have "same_dag u' s" using dvs fuv' same_dag_trans by (auto simp: forward_def)
    then obtain s' where s': "unapply_ref (unapply_block fuel) p i s = Some s'" "undone V s s'" "gives_back u u' s s'"
      using unapply_ref_new [OF mir new(3) Cons.prems(2,3) lc(5) c_def lc(2) u'_def r, of s V]
        Cons.prems(7,8) un(1) keepV flu' detV clV unfolding V_def [symmetric] agrees_def by auto
    have ds': "same_dag s s'" using s'(2) by (simp add: undone_def)
    have lens': "length (heap s') = length (heap s)" by (rule same_dag_length [OF ds'])
    have sW: "fl s' q = fl s q \<and> rf s' q = rf s q" if "q < length (heap s)" "q \<notin> V" for q
      using s'(2) that by (simp add: undone_def)
    have inW: "q < length (heap s) \<and> q \<notin> V" if "q \<in> W" for q
      using that un(2) lens len' by (auto simp: W_def newly_def)
    have a1: "agrees v W s'"
      using Cons.prems(7) un(1) sW inW ds' same_dag_trans by (auto simp: agrees_def)
    have a2: "\<forall>q \<in> W. rf s' q = rf v q" using Cons.prems(8) un(1) sW inW by auto
    have a3: "detached s' W (insert p W)"
      unfolding detached_def lens'
    proof (intro allI impI ballI)
      fix q x assume q: "q < length (heap s)" "q \<notin> W" "mr s' q" "x \<in> insert p W"
      have "q \<notin> V"
      proof
        assume "q \<in> V"
        then have "fl s' q = fl s q AND NOT ledger_mask" using s'(2) q(1) by (simp add: undone_def)
        then show False using q(3) by (simp add: flag_bits ledger_mask_def)
      qed
      then have "mr s q" "rf s' q = rf s q" using sW [OF q(1)] q(3) by (simp_all add: has_flag_def)
      then show "rf s' q \<noteq> Ref x" using Cons.prems(9) q \<open>q \<notin> V\<close> un(1) by (auto simp: detached_def)
    qed
    have a4: "clean v W" using Cons.prems(10) un(1) by (simp add: clean_def)
    obtain s2 where s2: "fold_opt (unapply_ref (unapply_block fuel) p) is s' = Some s2"
        "undone W s' s2" "gives_back u' v s' s2"
      using Cons.IH [OF rest ok' p' a1 [unfolded W_def] a2 [unfolded W_def] a3 [unfolded W_def] a4 [unfolded W_def]]
      unfolding W_def by blast
    have "undone (newly u v) s s2" using undone_trans [OF s'(2) s2(2)] un(1) by simp
    moreover have "gives_back u v s s2" using gives_back_trans [OF s'(3) s2(3) ds'] .
    ultimately show ?thesis using s'(1) s2(1) by simp
  qed
qed

lemma unapply_start:
  assumes "wf_dag s" "p < length (heap s)" "q < length (heap s)"
  defines "s0 \<equiv> upd_cell p (\<lambda>b. (clear_flag BI_MAIN_REF b)\<lparr>bi_ref := NoRef\<rparr>) (unapply_amounts p s)"
  shows "fl s0 q = (if q = p then fl s q AND NOT ledger_mask else fl s q)"
    "rf s0 q = (if q = p then NoRef else rf s q)"
    "amt s0 q = (if ap s p then amt s q - net (cell s p) p q else amt s q)"
    "same_dag s s0"
proof -
  have len: "length (heap (unapply_amounts p s)) = length (heap s)"
    by (rule same_dag_length [OF same_dag_unapply_amounts])
  note eff = unapply_amounts_effect [OF assms(1-3)]
  have "w AND NOT BI_APPLIED AND NOT BI_MAIN_REF = w AND NOT ledger_mask" for w :: u16
    by (rule bit_word_eqI) (auto simp: ledger_mask_def flag_bits)
  then show "fl s0 q = (if q = p then fl s q AND NOT ledger_mask else fl s q)"
    using eff assms(2) len by (auto simp: s0_def frame_simps clear_flag_def and.assoc)
  show "rf s0 q = (if q = p then NoRef else rf s q)"
    using eff assms(2) len by (auto simp: s0_def frame_simps)
  show "amt s0 q = (if ap s p then amt s q - net (cell s p) p q else amt s q)"
    using eff assms(2) len by (auto simp: s0_def frame_simps clear_flag_def)
  show "same_dag s s0"
    unfolding s0_def by (rule same_dag_trans [OF same_dag_unapply_amounts same_dag_upd_cell]) simp
qed

lemma net_static: "static b = static c \<Longrightarrow> net b p x = net c p x"
  by (simp add: net_def moved_def link_delta_def static_def cong: if_cong)

lemma ledger_ok_mark:
  assumes "ledger_ok st" "p < length (heap st)"
  shows "ledger_ok (upd_cell p (set_flag BI_MAIN_REF) st)"
proof -
  have d: "same_dag st (upd_cell p (set_flag BI_MAIN_REF) st)" by (rule same_dag_upd_cell) simp
  have "ap (upd_cell p (set_flag BI_MAIN_REF) st) q = ap st q" for q
    using assms(2) by (auto simp: frame_simps flag_bits)
  then show ?thesis
    using assms d wf_dag_same fees_ok_same inputs_ok_same mark_cell(4) [OF assms(2)]
    by (auto simp: ledger_ok_def ap_marked_def total_upd_cell set_flag_def)
qed

lemma block_mirror:
  assumes "ledger_ok st" "p < length (heap st)" "rank st p < fuel" "\<not> mr st p"
    and "apply_block fuel p st = Some (st1, r)"
  shows "mirror fuel p st st1 \<and> (clean st1 {p} \<longrightarrow> r = bi_fee (cell st p))"
  using assms
proof (induction fuel arbitrary: p st st1 r)
  case (Suc fuel)
  define st0 where "st0 = upd_cell p (set_flag BI_MAIN_REF) st"
  have d0: "same_dag st st0" unfolding st0_def by (rule same_dag_upd_cell) simp
  note mark = mark_cell [OF Suc.prems(2), folded st0_def]
  have wf: "wf_dag st" and napp: "\<not> ap st p"
    using Suc.prems(1,2,4) by (auto simp: ledger_ok_def ap_marked_def)
  have ok0: "ledger_ok st0" using ledger_ok_mark [OF Suc.prems(1,2)] by (simp add: st0_def)
  obtain v where v: "fold_opt (apply_ref (apply_block fuel) p) [0..<bi_nlinks (cell st p)] st0 = Some v"
    and app: "apply_amounts p v = (st1, r)"
    using Suc.prems(4,5) by (auto simp: st0_def bind_eq_Some_conv)
  have p0: "p < length (heap st0)" "mr st0 p" "rank st0 p \<le> fuel"
    "\<forall>i \<in> set [0..<bi_nlinks (cell st p)]. i < bi_nlinks (cell st0 p)"
    using Suc.prems(2,3) mark(4) rank_same [OF d0 Suc.prems(2)] same_dag_length [OF d0]
      static_eqD(8) [OF same_dag_static [OF d0 Suc.prems(2)]] by simp_all
  have fwd: "forward p st0 v" using fold_forward [OF v ok0 p0(1,2,4,3)] by simp
  note run = block_run_compose [OF Suc.prems(2,4) wf st0_def fwd app]
  define W where "W = newly st0 v"
  have V: "newly st st1 = insert p W" using run(2) by (simp add: W_def)
  have pW: "p \<notin> W" using p0(2) by (simp add: W_def newly_def)
  have dv: "same_dag st v" using d0 fwd same_dag_trans by (auto simp: forward_def)
  have dv1: "same_dag v st1" using same_dag_apply_amounts [of v p] app by simp
  have lenv: "length (heap v) = length (heap st)" by (rule same_dag_length [OF dv])
  have Wlen: "q < length (heap st)" if "q \<in> W" for q
    using that same_dag_length [OF d0] by (simp add: W_def newly_def)
  have "fl v p = fl st p OR BI_MAIN_REF" using fwd p0(1,2) mark(1) by (simp add: forward_def)
  then have napv: "\<not> ap v p" using napp by (simp add: flag_bits)
  have wfv: "wf_dag v" using wf dv wf_dag_same by blast
  have amounts: "amt st1 x = (if ap st1 p then amt v x + net (cell st p) p x else amt v x)"
    if "x < length (heap st)" for x
    using apply_amounts_effect [OF wfv _ app] lenv Suc.prems(2) that napv
      net_static [OF same_dag_static [OF dv Suc.prems(2)]] by (auto simp: flag_bits)
  have "clean st1 {p} \<longrightarrow> r = bi_fee (cell st p)"
    using run(3) napv static_eqD(4) [OF same_dag_static [OF dv Suc.prems(2)]] by (auto simp: clean_def)
  moreover have "mirror (Suc fuel) p st st1"
    unfolding mirror_def V
  proof (intro allI impI)
    fix s assume h: "agrees st1 (insert p W) s" "\<forall>q \<in> insert p W - {p}. rf s q = rf st1 q"
      "detached s (insert p W) (insert p W)" "clean st1 (insert p W)"
    define s0 where "s0 = upd_cell p (\<lambda>b. (clear_flag BI_MAIN_REF b)\<lparr>bi_ref := NoRef\<rparr>) (unapply_amounts p s)"
    have ds: "same_dag v s" "same_dag st s" using h(1) dv dv1 same_dag_trans by (auto simp: agrees_def)
    have lens: "length (heap s) = length (heap st)" by (rule same_dag_length [OF ds(2)])
    have wfs: "wf_dag s" using wf ds(2) wf_dag_same by blast
    note u0 = unapply_start [OF wfs, of p, unfolded lens, OF Suc.prems(2), folded s0_def]
    have len0: "length (heap s0) = length (heap st)" using same_dag_length [OF u0(4)] Suc.prems(2) lens by simp
    have stat: "static (cell s p) = static (cell st p)" by (rule same_dag_static [OF ds(2) Suc.prems(2)])
    have aps: "ap s p = ap st1 p" using h(1) mr_mask [of s p st1] by (simp add: agrees_def)
    have "same_dag v s0" using same_dag_trans [OF ds(1) u0(4) [OF Suc.prems(2)]] .
    then have a1: "agrees v W s0"
      using h(1) run(4) u0(1) Wlen pW by (auto simp: agrees_def)
    have a2: "\<forall>q \<in> W. rf s0 q = rf v q" using h(2) run(5) u0(2) Wlen pW by auto
    have a3: "detached s0 W (insert p W)"
      unfolding detached_def len0
    proof (intro allI impI ballI)
      fix q x assume q: "q < length (heap st)" "q \<notin> W" "mr s0 q" "x \<in> insert p W"
      have "q \<noteq> p" using q(3) u0(1) [OF q(1)] by (auto simp: flag_bits ledger_mask_def)
      then show "rf s0 q \<noteq> Ref x"
        using h(3) q u0(1,2) [OF q(1)] lens by (auto simp: detached_def has_flag_def)
    qed
    have a4: "clean v W"
      unfolding clean_def
    proof
      fix q assume q: "q \<in> W"
      then have "fl st1 q = fl v q" using run(4) Wlen pW by auto
      moreover have "bi_fee (cell st1 q) = bi_fee (cell v q)"
        using same_dag_static [OF dv1] Wlen [OF q] lenv by auto
      ultimately show "ap v q \<or> bi_fee (cell v q) = 0" using h(4) q by (auto simp: clean_def has_flag_def)
    qed
    obtain s2 where s2: "fold_opt (unapply_ref (unapply_block fuel) p) [0..<bi_nlinks (cell st p)] s0 = Some s2"
        "undone W s0 s2" "gives_back st0 v s0 s2"
      using fold_mirror [OF Suc.IH v ok0 p0(1,2,4,3), of s0] a1 a2 a3 a4 unfolding W_def by blast
    have "same_dag s0 s2" using s2(2) by (simp add: undone_def)
    then have d02: "same_dag st s2"
      using same_dag_trans [OF same_dag_trans [OF ds(2) u0(4) [OF Suc.prems(2)]]] by blast
    have "unapply_block (Suc fuel) p s = Some (s2, 0 - bi_fee (cell st p))"
      using s2(1) static_eqD(8) [OF stat] static_eqD(4) [OF same_dag_static [OF d02 Suc.prems(2)]]
      by (simp add: s0_def)
    moreover have "undone {p} s s0" using u0 lens Suc.prems(2) by (auto simp: undone_def)
    then have "undone (insert p W) s s2" using undone_trans [OF _ s2(2)] by fastforce
    moreover have "gives_back st st1 s s2"
      unfolding gives_back_def
    proof (intro allI impI)
      fix x assume x: "x < length (heap s)"
      then have "amt s2 x = amt s0 x + (amt st x - amt v x)"
        using s2(3) mark(3) len0 lens by (simp add: gives_back_def)
      then show "amt s2 x = amt s x + (amt st x - amt st1 x)"
        using amounts u0(3) aps net_static [OF stat] x lens by simp
    qed
    ultimately show "\<exists>s2. unapply_block (Suc fuel) p s = Some (s2, 0 - bi_fee (cell st p)) \<and>
        undone (insert p W) s s2 \<and> gives_back st st1 s s2" by blast
  qed
  ultimately show ?case by blast
qed simp

section \<open>Main blocks\<close>

text \<open>A marked block is referenced by a marked block: the marks form trees below the main blocks.\<close>

definition refs_marked :: "xdag_state \<Rightarrow> bool" where
  "refs_marked st \<longleftrightarrow> (\<forall>q < length (heap st). mr st q \<longrightarrow>
     (\<forall>r. rf st q = Ref r \<longrightarrow> r < length (heap st) \<and> mr st r))"

lemma refs_markedD:
  assumes "refs_marked st" "q < length (heap st)" "mr st q" "rf st q = Ref r"
  shows "r < length (heap st)" "mr st r"
  using assms unfolding refs_marked_def by blast+

lemma refs_marked_cong:
  assumes "refs_marked st" "length (heap st') = length (heap st)"
    "\<And>q. mr st' q = mr st q" "\<And>q. rf st' q = rf st q"
  shows "refs_marked st'"
  using assms(1) unfolding refs_marked_def assms(2-4) .

text \<open>Every block marked in the second state but not in the first was accepted or has no fee.\<close>

definition no_lost_fee :: "xdag_state \<Rightarrow> xdag_state \<Rightarrow> bool" where
  "no_lost_fee st st1 \<longleftrightarrow> clean st1 (newly st st1)"

lemma newly_not_marked: "q \<in> newly st st1 \<Longrightarrow> \<not> mr st q"
  by (simp add: newly_def)

lemma apply_then_unapply:
  assumes "ledger_ok st" "refs_marked st" "p < length (heap st)" "\<not> mr st p" "rank st p < fuel"
    and "apply_block fuel p st = Some (st1, r)" "no_lost_fee st st1"
    and s: "same_dag st1 s" "\<forall>q < length (heap st). fl s q AND ledger_mask = fl st1 q AND ledger_mask"
      "\<forall>q < length (heap st). q \<noteq> p \<longrightarrow> rf s q = rf st1 q"
  shows "r = bi_fee (cell st p) \<and> (\<exists>s2. unapply_block fuel p s = Some (s2, 0 - r) \<and>
     undone (newly st st1) s s2 \<and> gives_back st st1 s s2)"
proof -
  have wf: "wf_dag st" "fees_ok st" using assms(1) by (simp_all add: ledger_ok_def)
  have run: "block_run p st st1" using block_forward [OF wf assms(3,5,4,6)] by simp
  have d1: "same_dag st st1" using run by (simp add: block_run_def)
  have lens: "length (heap s) = length (heap st)"
    using same_dag_length [OF d1] same_dag_length [OF s(1)] by simp
  define V where "V = newly st st1"
  have V: "q < length (heap st)" if "q \<in> V" for q using that by (simp add: V_def newly_def)
  have pV: "p \<in> V" using run by (simp add: block_run_def V_def)
  have mir: "mirror fuel p st st1" and r: "r = bi_fee (cell st p)"
    using block_mirror [OF assms(1,3,5,4,6)] assms(7) pV by (auto simp: no_lost_fee_def clean_def V_def)
  have det: "detached s V V"
    unfolding detached_def lens
  proof (intro allI impI ballI)
    fix q x assume q: "q < length (heap st)" "q \<notin> V" "mr s q" "x \<in> V"
    then have "mr st1 q" using s(2) mr_mask [of s q st1] by simp
    then have mq: "mr st q" using q by (auto simp: V_def newly_def)
    then have "rf s q = rf st q" using run q pV s(3) by (auto simp: block_run_def)
    moreover have "\<not> mr st x" using q(4) newly_not_marked by (simp add: V_def)
    ultimately show "rf s q \<noteq> Ref x" using refs_markedD(2) [OF assms(2) q(1) mq] by auto
  qed
  then show ?thesis
    using mir s assms(7) r V unfolding mirror_def agrees_def no_lost_fee_def V_def [symmetric] by auto
qed

text \<open>The state of \<open>set_main\<close> just before \<open>apply_block\<close>, with the reward booked.\<close>

definition rewarded :: "ptr \<Rightarrow> xdag_state \<Rightarrow> xdag_state" where
  "rewarded m st = accept_amount m (get_amount (g_xdag_testnet st) (nmain (g_xdag_stats st) + 1))
     (upd_cell m (\<lambda>b. set_flag BI_MAIN (b\<lparr>bi_height := nmain (g_xdag_stats st) + 1\<rparr>)) st)"

lemma rewarded_cell:
  assumes "m < length (heap st)"
  shows "fl (rewarded m st) q = (if q = m then fl st q OR BI_MAIN else fl st q)"
    "rf (rewarded m st) q = rf st q"
    "amt (rewarded m st) q = amt st q +
       (if q = m then get_amount (g_xdag_testnet st) (nmain (g_xdag_stats st) + 1) else 0)"
    "same_dag st (rewarded m st)" "globals (rewarded m st) = globals st"
    "mr (rewarded m st) q = mr st q" "ap (rewarded m st) q = ap st q"
proof -
  have "same_dag st (upd_cell m (\<lambda>b. set_flag BI_MAIN (b\<lparr>bi_height := h\<rparr>)) st)" for h
    by (rule same_dag_upd_cell) simp
  then show "same_dag st (rewarded m st)"
    unfolding rewarded_def using same_dag_trans same_dag_accept by blast
qed (use assms in \<open>auto simp: rewarded_def frame_simps set_flag_def flag_bits\<close>)

lemma rewarded_total:
  assumes "m < length (heap st)"
    "total_amount st + unat (get_amount (g_xdag_testnet st) (nmain (g_xdag_stats st) + 1)) < 2 ^ 64"
  shows "total_amount (rewarded m st) =
    total_amount st + unat (get_amount (g_xdag_testnet st) (nmain (g_xdag_stats st) + 1))"
proof -
  let ?u = "upd_cell m (\<lambda>b. set_flag BI_MAIN (b\<lparr>bi_height := nmain (g_xdag_stats st) + 1\<rparr>)) st"
  have tot: "total_amount ?u = total_amount st" by (simp add: total_upd_cell set_flag_def)
  have "unat (amt ?u m) \<le> total_amount st" using amt_le_total [of m ?u] assms(1) tot by simp
  then show ?thesis unfolding rewarded_def using total_accept [of m ?u] assms tot by simp
qed

lemma heap_only [simp]:
  "wf_dag (st\<lparr>g_xdag_stats := z\<rparr>) = wf_dag st" "wf_dag (st\<lparr>g_rx := w\<rparr>) = wf_dag st"
  "ledger_ok (st\<lparr>g_xdag_stats := z\<rparr>) = ledger_ok st" "ledger_ok (st\<lparr>g_rx := w\<rparr>) = ledger_ok st"
  "refs_marked (st\<lparr>g_xdag_stats := z\<rparr>) = refs_marked st" "refs_marked (st\<lparr>g_rx := w\<rparr>) = refs_marked st"
  "rank (st\<lparr>g_xdag_stats := z\<rparr>) p = rank st p" "newly (st\<lparr>g_xdag_stats := z\<rparr>) st' = newly st st'"
  "total_amount (st\<lparr>g_xdag_stats := z\<rparr>) = total_amount st" "total_amount (st\<lparr>g_rx := w\<rparr>) = total_amount st"
  by (simp_all add: wf_dag_def wf_links_def ledger_ok_def fees_ok_def inputs_ok_def total_amount_def
      ap_marked_def refs_marked_def rank_def newly_def)

lemma rx_set_fork_time_frame:
  "rx_set_fork_time env p st = Some st' \<Longrightarrow> \<exists>w. st' = st\<lparr>g_rx := w\<rparr>"
  by (auto simp: rx_set_fork_time_def Let_def bind_eq_Some_conv split: if_splits intro: exI [of _ "g_rx st"])

lemma rx_unset_fork_time_frame: "\<exists>w. rx_unset_fork_time p st = st\<lparr>g_rx := w\<rparr>"
proof -
  have "st = st\<lparr>g_rx := g_rx st\<rparr>" by simp
  then show ?thesis unfolding rx_unset_fork_time_def Let_def by metis
qed

definition counted :: "xdag_stats \<Rightarrow> xdag_stats" where
  "counted s = (let s' = s\<lparr>nmain := nmain s + 1\<rparr> in
     if nmain s' > total_nmain s' then s'\<lparr>total_nmain := nmain s'\<rparr> else s')"

lemma set_main_unfold:
  "set_main env m st = do {
     (st3, fee) \<leftarrow> apply_block (chain_fuel st) m ((rewarded m st)\<lparr>g_xdag_stats := counted (g_xdag_stats st)\<rparr>);
     rx_set_fork_time env m (upd_cell m (\<lambda>b. b\<lparr>bi_ref := Ref m\<rparr>) (accept_amount m fee st3))
   }"
  by (simp add: set_main_def rewarded_def counted_def Let_def)

lemma chain_fuel_rank: "p < length (heap st) \<Longrightarrow> rank st p < chain_fuel st"
  using rank_bound [of p st] by (simp add: chain_fuel_def)

text \<open>The conditions under which a block can be made main, reward included.\<close>

definition main_ready :: "ptr \<Rightarrow> xdag_state \<Rightarrow> bool" where
  "main_ready m st \<longleftrightarrow> wf_dag st \<and> fees_ok st \<and> inputs_ok st \<and> ap_marked st \<and> m < length (heap st) \<and> \<not> mr st m \<and>
     total_amount st + unat (get_amount (g_xdag_testnet st) (nmain (g_xdag_stats st) + 1)) < 2 ^ 64 - 1"

lemma main_ready_rewarded:
  assumes "main_ready m st"
  shows "ledger_ok (rewarded m st)" "m < length (heap (rewarded m st))" "\<not> mr (rewarded m st) m"
    "rank (rewarded m st) m < chain_fuel st"
proof -
  have m: "m < length (heap st)" using assms by (simp add: main_ready_def)
  note c = rewarded_cell [OF m]
  have len: "length (heap (rewarded m st)) = length (heap st)" by (rule same_dag_length [OF c(4)])
  show "m < length (heap (rewarded m st))" using m len by simp
  show "\<not> mr (rewarded m st) m" using assms c(6) by (simp add: main_ready_def)
  show "rank (rewarded m st) m < chain_fuel st"
    using rank_same [OF c(4) m] chain_fuel_rank [OF m] by simp
  show "ledger_ok (rewarded m st)"
    using assms rewarded_total [OF m] wf_dag_same [OF c(4)] fees_ok_same [OF c(4)] inputs_ok_same [OF c(4)] c(6,7) len
    by (simp add: ledger_ok_def main_ready_def ap_marked_def)
qed

lemma set_main_steps:
  assumes "main_ready m st"
  obtains st3 r where
    "apply_block (chain_fuel st) m ((rewarded m st)\<lparr>g_xdag_stats := counted (g_xdag_stats st)\<rparr>) = Some (st3, r)"
    "same_dag (rewarded m st) st3" "block_run m (rewarded m st) st3" "r \<noteq> already_applied"
    "total_amount st3 + unat r =
       total_amount st + unat (get_amount (g_xdag_testnet st) (nmain (g_xdag_stats st) + 1))"
    "globals st3 = globals ((rewarded m st)\<lparr>g_xdag_stats := counted (g_xdag_stats st)\<rparr>)"
    "set_main env m st = rx_set_fork_time env m
       (upd_cell m (\<lambda>b. b\<lparr>bi_ref := Ref m\<rparr>) (accept_amount m r st3))"
proof -
  let ?u = "(rewarded m st)\<lparr>g_xdag_stats := counted (g_xdag_stats st)\<rparr>"
  note R = main_ready_rewarded [OF assms]
  have u: "wf_dag ?u" "fees_ok ?u" "inputs_ok ?u" "total_amount ?u < 2 ^ 64 - 1" "m < length (heap ?u)"
      "rank ?u m < chain_fuel st" "\<not> mr ?u m"
    using R by (simp_all add: ledger_ok_def fees_ok_def inputs_ok_def)
  obtain st3 r where app: "apply_block (chain_fuel st) m ?u = Some (st3, r)" "same_dag ?u st3"
    using apply_block_total [OF u(1,5,6)] by blast
  have run: "block_run m ?u st3" "r \<noteq> already_applied" using block_forward [OF u(1,2,5,6,7) app(1)] by simp_all
  have "total_amount st3 + returned r = total_amount ?u"
    using apply_block_total_amount [OF u(1,5,6,3,4) app(1)] .
  moreover have "total_amount ?u = total_amount st + unat (get_amount (g_xdag_testnet st) (nmain (g_xdag_stats st) + 1))"
    using rewarded_total [of m st] assms by (simp add: main_ready_def)
  moreover have "globals st3 = globals ?u" using glob.apply_block [OF u(1,5) refl app(1)] by simp
  moreover have "block_run m (rewarded m st) st3"
    using run(1) by (simp add: block_run_def same_dag_def newly_def)
  moreover have "same_dag (rewarded m st) st3" using app(2) by (simp add: same_dag_def)
  ultimately show ?thesis
    using that [of st3 r] app(1) run(2) set_main_unfold [of env m st] by (simp add: returned_def)
qed

lemma set_main_total_amount:
  assumes ready: "main_ready m st" and set: "set_main env m st = Some st'"
  shows "total_amount st' =
    total_amount st + unat (get_amount (g_xdag_testnet st) (nmain (g_xdag_stats st) + 1))"
proof (rule set_main_steps [OF ready, of env])
  fix st3 r
  assume a: "same_dag (rewarded m st) st3"
    "total_amount st3 + unat r =
       total_amount st + unat (get_amount (g_xdag_testnet st) (nmain (g_xdag_stats st) + 1))"
    "set_main env m st = rx_set_fork_time env m
       (upd_cell m (\<lambda>b. b\<lparr>bi_ref := Ref m\<rparr>) (accept_amount m r st3))"
  have m: "m < length (heap st3)" using main_ready_rewarded(2) [OF ready] same_dag_length [OF a(1)] by simp
  have "unat (amt st3 m) + unat r < 2 ^ 64"
    using amt_le_total [OF m] a(2) ready by (simp add: main_ready_def)
  note acc = total_accept [OF m this]
  have "rx_set_fork_time env m (upd_cell m (\<lambda>b. b\<lparr>bi_ref := Ref m\<rparr>) (accept_amount m r st3)) = Some st'"
    using set a(3) by simp
  from rx_set_fork_time_frame [OF this]
  have "total_amount st' = total_amount (accept_amount m r st3)"
    by (auto simp: total_upd_cell)
  then show ?thesis using acc a(2) by simp
qed

text \<open>\<open>unset_main\<close> after \<open>set_main\<close>: the state handed to \<open>unapply_block\<close>.\<close>

definition unrewarded :: "ptr \<Rightarrow> xdag_state \<Rightarrow> xdag_state" where
  "unrewarded m st = accept_amount m (0 - get_amount (g_xdag_testnet st) (nmain (g_xdag_stats st)))
     (upd_cell m (clear_flag BI_MAIN) (st\<lparr>g_xdag_stats := (g_xdag_stats st)
        \<lparr>total_nmain := total_nmain (g_xdag_stats st) - 1, nmain := nmain (g_xdag_stats st) - 1\<rparr>\<rparr>))"

lemma unset_main_unfold:
  "unset_main m st = do {
     (st3, fee) \<leftarrow> unapply_block (chain_fuel st) m (unrewarded m st);
     Some (rx_unset_fork_time m (accept_amount m fee st3))
   }"
  by (simp add: unset_main_def unrewarded_def Let_def)

lemma unrewarded_cell:
  assumes "m < length (heap st)"
  shows "fl (unrewarded m st) q = (if q = m then fl st q AND NOT BI_MAIN else fl st q)"
    "rf (unrewarded m st) q = rf st q"
    "amt (unrewarded m st) q = amt st q -
       (if q = m then get_amount (g_xdag_testnet st) (nmain (g_xdag_stats st)) else 0)"
    "same_dag st (unrewarded m st)"
    "nmain (g_xdag_stats (unrewarded m st)) = nmain (g_xdag_stats st) - 1"
proof -
  let ?v = "st\<lparr>g_xdag_stats := (g_xdag_stats st)
    \<lparr>total_nmain := total_nmain (g_xdag_stats st) - 1, nmain := nmain (g_xdag_stats st) - 1\<rparr>\<rparr>"
  have "same_dag st (upd_cell m (clear_flag BI_MAIN) ?v)"
    using same_dag_upd_cell [of "clear_flag BI_MAIN" ?v m] by (simp add: same_dag_def)
  then show "same_dag st (unrewarded m st)" unfolding unrewarded_def using same_dag_trans same_dag_accept by blast
qed (use assms in \<open>auto simp: unrewarded_def frame_simps clear_flag_def\<close>)

text \<open>The state of \<open>set_main\<close> just before the RandomX bookkeeping.\<close>

lemma set_main_mid:
  assumes ready: "main_ready m st"
  obtains st3 r w where
    "apply_block (chain_fuel st) m ((rewarded m st)\<lparr>g_xdag_stats := counted (g_xdag_stats st)\<rparr>) = Some (st3, r)"
    "same_dag st st3" "block_run m (rewarded m st) st3" "same_dag st3 w"
    "\<forall>q < length (heap st). fl w q = fl st3 q \<and> rf w q = (if q = m then Ref m else rf st3 q) \<and>
       amt w q = (if q = m then amt st3 q + r else amt st3 q) \<and>
       bi_height (cell w q) = (if q = m then nmain (g_xdag_stats st) + 1 else bi_height (cell st q))"
    "globals w = globals (st\<lparr>g_xdag_stats := counted (g_xdag_stats st)\<rparr>)"
    "set_main env m st = rx_set_fork_time env m w"
proof (rule set_main_steps [OF ready, of env])
  fix st3 r
  let ?u = "(rewarded m st)\<lparr>g_xdag_stats := counted (g_xdag_stats st)\<rparr>"
  let ?w = "upd_cell m (\<lambda>b. b\<lparr>bi_ref := Ref m\<rparr>) (accept_amount m r st3)"
  assume a: "apply_block (chain_fuel st) m ?u = Some (st3, r)"
    "same_dag (rewarded m st) st3" "block_run m (rewarded m st) st3"
    "globals st3 = globals ?u" "set_main env m st = rx_set_fork_time env m ?w"
  have m: "m < length (heap st)" using ready by (simp add: main_ready_def)
  have d: "same_dag st st3" using rewarded_cell(4) [OF m] a(2) same_dag_trans by blast
  have len: "length (heap st3) = length (heap st)" by (rule same_dag_length [OF d])
  have "globals ?w = globals ?u" using a(4) by simp
  then have g: "globals ?w = globals (st\<lparr>g_xdag_stats := counted (g_xdag_stats st)\<rparr>)"
    using rewarded_cell(5) [OF m] by (simp add: globals_def)
  have dw: "same_dag st3 ?w" by (rule same_dag_trans [OF same_dag_accept same_dag_upd_cell]) simp
  have u: "wf_dag ?u" "m < length (heap ?u)" using main_ready_rewarded [OF ready] by (simp_all add: ledger_ok_def)
  have ms: "metas st3 = metas ?u" using meta.apply_block [OF u refl a(1)] by simp
  have "bi_height (cell st3 q) = (if q = m then nmain (g_xdag_stats st) + 1 else bi_height (cell st q))"
    if "q < length (heap st)" for q
    using metas_cell [OF ms, of q] that same_dag_length [OF rewarded_cell(4) [OF m]] m
    by (auto simp: cell_meta_def rewarded_def frame_simps set_flag_def)
  then have cells: "\<forall>q < length (heap st). fl ?w q = fl st3 q \<and> rf ?w q = (if q = m then Ref m else rf st3 q) \<and>
       amt ?w q = (if q = m then amt st3 q + r else amt st3 q) \<and>
       bi_height (cell ?w q) = (if q = m then nmain (g_xdag_stats st) + 1 else bi_height (cell st q))"
    using m len by (auto simp: frame_simps)
  show ?thesis by (rule that [OF a(1) d a(3) dw cells g a(5)])
qed

lemma set_main_effect:
  assumes ready: "main_ready m st" and set: "set_main env m st = Some st1"
  obtains st3 r where
    "apply_block (chain_fuel st) m ((rewarded m st)\<lparr>g_xdag_stats := counted (g_xdag_stats st)\<rparr>) = Some (st3, r)"
    "same_dag st st3" "block_run m (rewarded m st) st3" "same_dag st3 st1"
    "\<forall>q < length (heap st). fl st1 q = fl st3 q \<and> rf st1 q = (if q = m then Ref m else rf st3 q) \<and>
       amt st1 q = (if q = m then amt st3 q + r else amt st3 q) \<and>
       bi_height (cell st1 q) = (if q = m then nmain (g_xdag_stats st) + 1 else bi_height (cell st q))"
    "g_xdag_stats st1 = counted (g_xdag_stats st)" "g_xdag_testnet st1 = g_xdag_testnet st"
    "top_main_chain st1 = top_main_chain st"
proof (rule set_main_mid [OF ready, of env])
  fix st3 r w
  let ?u = "(rewarded m st)\<lparr>g_xdag_stats := counted (g_xdag_stats st)\<rparr>"
  assume a: "apply_block (chain_fuel st) m ?u = Some (st3, r)"
    "same_dag st st3" "block_run m (rewarded m st) st3" "same_dag st3 w"
    "\<forall>q < length (heap st). fl w q = fl st3 q \<and> rf w q = (if q = m then Ref m else rf st3 q) \<and>
       amt w q = (if q = m then amt st3 q + r else amt st3 q) \<and>
       bi_height (cell w q) = (if q = m then nmain (g_xdag_stats st) + 1 else bi_height (cell st q))"
    "globals w = globals (st\<lparr>g_xdag_stats := counted (g_xdag_stats st)\<rparr>)"
    "set_main env m st = rx_set_fork_time env m w"
  obtain x where st1: "st1 = w\<lparr>g_rx := x\<rparr>" using rx_set_fork_time_frame [of env m w st1] set a(7) by auto
  show ?thesis
    by (rule that [OF a(1-3)]) (use a(4,5) globalsD [OF a(6)] in \<open>simp_all add: st1\<close>)
qed

lemma set_main_rollback:
  assumes ready: "main_ready m st" and refs: "refs_marked st" and nmain: "\<not> has_flag (cell st m) BI_MAIN"
    and set: "set_main env m st = Some st1" and clean: "no_lost_fee st st1"
  shows "\<exists>st2. unset_main m st1 = Some st2 \<and>
    g_xdag_stats st2 = (g_xdag_stats st)\<lparr>total_nmain := max (nmain (g_xdag_stats st) + 1) (total_nmain (g_xdag_stats st)) - 1\<rparr> \<and>
    (\<forall>q < length (heap st). amt st2 q = amt st q \<and> fl st2 q = fl st q)"
proof (rule set_main_effect [OF ready set])
  fix st3 r
  let ?u = "(rewarded m st)\<lparr>g_xdag_stats := counted (g_xdag_stats st)\<rparr>"
  let ?s = "unrewarded m st1"
  assume a: "apply_block (chain_fuel st) m ?u = Some (st3, r)" "same_dag st st3"
    "block_run m (rewarded m st) st3" "same_dag st3 st1"
    "\<forall>q < length (heap st). fl st1 q = fl st3 q \<and> rf st1 q = (if q = m then Ref m else rf st3 q) \<and>
       amt st1 q = (if q = m then amt st3 q + r else amt st3 q) \<and>
       bi_height (cell st1 q) = (if q = m then nmain (g_xdag_stats st) + 1 else bi_height (cell st q))"
    "g_xdag_stats st1 = counted (g_xdag_stats st)" "g_xdag_testnet st1 = g_xdag_testnet st"
  have m: "m < length (heap st)" using ready by (simp add: main_ready_def)
  note R = main_ready_rewarded [OF ready] rewarded_cell [OF m]
  define V where "V = newly (rewarded m st) st3"
  have d1: "same_dag st st1" using a(2,4) same_dag_trans by blast
  have len1: "length (heap st1) = length (heap st)" "length (heap (rewarded m st)) = length (heap st)"
      "length (heap st3) = length (heap st)"
    by (rule same_dag_length [OF d1], rule same_dag_length [OF R(8)], rule same_dag_length [OF a(2)])
  note U = unrewarded_cell [of m st1, unfolded len1(1), OF m]
  have Vst: "newly st st1 = V" using a(5) R(10) len1 by (auto simp: V_def newly_def has_flag_def)
  have lost: "no_lost_fee ?u st3"
    unfolding no_lost_fee_def clean_def heap_only V_def [symmetric]
  proof
    fix q assume q: "q \<in> V"
    then have ql: "q < length (heap st)" using Vst by (auto simp: newly_def)
    have "bi_fee (cell st1 q) = bi_fee (cell st3 q)"
      using same_dag_static [OF a(4)] ql len1(3) by auto
    then show "ap st3 q \<or> bi_fee (cell st3 q) = 0"
      using clean q a(5) ql Vst by (auto simp: no_lost_fee_def clean_def has_flag_def)
  qed
  have refs': "refs_marked ?u" unfolding heap_only by (rule refs_marked_cong [OF refs len1(2) R(10) R(6)])
  have maskm: "(w AND NOT BI_MAIN) AND ledger_mask = w AND ledger_mask" for w :: u16
    by (rule bit_word_eqI) (auto simp: ledger_mask_def flag_bits)
  have ds: "same_dag st3 ?s" using a(4) U(4) same_dag_trans by blast
  have s1: "\<forall>q < length (heap st). fl ?s q AND ledger_mask = fl st3 q AND ledger_mask"
    using U(1) a(5) maskm by simp
  have s2: "\<forall>q < length (heap st). q \<noteq> m \<longrightarrow> rf ?s q = rf st3 q" using U(2) a(5) by simp
  have ok: "ledger_ok ?u" "m < length (heap ?u)" "\<not> mr ?u m" "rank ?u m < chain_fuel st"
    using R by simp_all
  obtain s3 where r: "r = bi_fee (cell ?u m)" and s3: "unapply_block (chain_fuel st) m ?s = Some (s3, 0 - r)"
      "undone (newly ?u st3) ?s s3" "gives_back ?u st3 ?s s3"
    using apply_then_unapply [OF ok(1) refs' ok(2,3,4) a(1) lost ds] s1 s2 len1 by auto
  define st2 where "st2 = rx_unset_fork_time m (accept_amount m (0 - r) s3)"
  obtain w where w: "st2 = (accept_amount m (0 - r) s3)\<lparr>g_rx := w\<rparr>"
    using rx_unset_fork_time_frame unfolding st2_def by blast
  have "unset_main m st1 = Some st2"
    using s3(1) len1(1) by (simp add: unset_main_unfold st2_def chain_fuel_def)
  moreover have "g_xdag_stats st2 =
      (g_xdag_stats st)\<lparr>total_nmain := max (nmain (g_xdag_stats st) + 1) (total_nmain (g_xdag_stats st)) - 1\<rparr>"
  proof -
    have wf: "wf_dag ?s" using ready wf_dag_same [OF d1] wf_dag_same [OF U(4)] by (simp add: main_ready_def)
    have ml: "m < length (heap ?s)" using same_dag_length [OF U(4)] m len1(1) by simp
    have "globals s3 = globals ?s" using glob.unapply_block [OF wf ml refl s3(1)] by simp
    then have "g_xdag_stats st2 = g_xdag_stats ?s" unfolding w using globalsD(6) by simp
    then show ?thesis using a(6) by (simp add: unrewarded_def frame_simps counted_def Let_def max_def not_le)
  qed
  moreover have "amt st2 q = amt st q \<and> fl st2 q = fl st q" if q: "q < length (heap st)" for q
  proof -
    have lens: "length (heap ?s) = length (heap st)" "length (heap s3) = length (heap st)"
      using same_dag_length [OF U(4)] len1(1) s3(2) same_dag_length [of ?s s3] by (simp_all add: undone_def)
    have "amt s3 q = amt ?s q + (amt (rewarded m st) q - amt st3 q)"
      using s3(3) q lens by (simp add: gives_back_def)
    then have am: "amt st2 q = amt st q"
      unfolding w using q lens m a(5,6,7) U(3) R(7) by (auto simp: frame_simps counted_def Let_def)
    have fl3: "fl s3 q = (if q \<in> V then fl ?s q AND NOT ledger_mask else fl ?s q)"
      using s3(2) q lens by (simp add: undone_def V_def)
    have "fl st2 q = fl s3 q" unfolding w by (simp add: frame_simps)
    also have "\<dots> = fl st q"
    proof (cases "q \<in> V")
      case True
      then have nq: "\<not> mr st q" using Vst by (auto simp: newly_def)
      then have naq: "\<not> ap st q" using ready q by (auto simp: main_ready_def ap_marked_def)
      have "fl st3 q AND NOT ledger_mask = fl (rewarded m st) q AND NOT ledger_mask"
        using a(3) True by (simp add: block_run_def V_def)
      then have mb: "bit (fl st3 q AND NOT ledger_mask) n = bit (fl (rewarded m st) q AND NOT ledger_mask) n" for n by simp
      have "bit (fl s3 q) n = bit (fl st q) n" if "n < 16" for n
        using that mb [of n] fl3 True U(1) [of q] a(5) q R(5) nq naq nmain
        by (cases "n = 0") (auto simp: ledger_mask_def flag_bits)
      then show ?thesis by (intro bit_word_eqI) simp
    next
      case False
      have "fl st3 q = fl (rewarded m st) q"
        using a(3) False q len1 by (auto simp: block_run_def V_def newly_def)
      then show ?thesis using fl3 False U(1) a(5) q R(5) a(3) by (auto simp: block_run_def V_def)
    qed
    finally show ?thesis using am by simp
  qed
  ultimately show ?thesis by blast
qed

end
