(* ===== verification/Example_State.thy ===== *)
theory Example_State
  imports Block_State
begin

text \<open>
  A small concrete node state, used to show that the hypotheses of the
  properties can hold: three blocks in a row, the oldest in cell 0.
\<close>

definition pad_links :: "ptr list \<Rightarrow> ptr option list" where
  "pad_links ps = map Some ps @ replicate (15 - length ps) None"

definition example_cell :: "u64 \<Rightarrow> u64 \<Rightarrow> u16 \<Rightarrow> ptr list \<Rightarrow> block_internal" where
  "example_cell t d f ps =
     \<lparr>bi_hash = (t, 0, 0, 0), bi_difficulty = ucast d, bi_amount = 0, bi_linkamount = replicate 15 0, bi_fee = 0,
      bi_time = t, bi_storage_pos = 0, bi_ref = NoRef, bi_link = pad_links ps, bi_height = 0,
      bi_backrefs = [], bi_remark = None, bi_flags = f, bi_in_mask = 0, bi_n_our_key = 0,
      bi_nlinks = length ps, bi_max_diff_link = 0\<rparr>"

definition example_rx :: rx_globals where
  "example_rx = (let m = \<lparr>rx_seed = (0, 0, 0, 0), rx_seed_height = 0, rx_seed_time = 0, rx_switch_time = - 1,
      rx_is_switched = - 1, rx_pool_vm = None, rx_block_vm = None\<rparr> in
     \<lparr>g_rx_fork_time = - 1, g_rx_fork_seed_height = 1540096, g_rx_fork_lag = 128,
      g_rx_pool_mem_index = 0, g_rx_hash_epoch_index = 0, g_rx_pool_mem = (m, m)\<rparr>)"

definition example_state :: "block_internal list \<Rightarrow> ptr option \<Rightarrow> u64 \<Rightarrow> xdag_state" where
  "example_state cells chain_top n =
     \<lparr>heap = cells, root = NULL, top_main_chain = chain_top, pretop_main_chain = None, ours = [], orphans = [], extras = [],
      g_balance = 0,
      g_xdag_stats = \<lparr>difficulty = 0, max_difficulty = 0, nblocks = of_nat (length cells),
        total_nblocks = of_nat (length cells), nmain = n, total_nmain = n\<rparr>,
      g_xdag_extstats = \<lparr>hashrate_total = replicate 256 0, hashrate_ours = replicate 256 0,
        hashrate_last_time = 0, nnoref = 0, nextra = 0\<rparr>,
      g_rx = example_rx, g_xdag_state = XDAG_STATE_SYNC, g_xdag_testnet = False, g_xdag_type = XDAG_POOL,
      g_xdag_mine_type = XDAG_RAW, g_block_header_type = 1, g_xdag_era = 0x16940000000\<rparr>"

text \<open>Flags 0x12: referenced and on the main chain.  Flags 0x1f: also main, marked and applied.\<close>

definition three_blocks :: xdag_state where
  "three_blocks = example_state
     [example_cell 0x10000 1 0x12 [], example_cell 0x20000 2 0x12 [0], example_cell 0x30000 3 0x12 [1]] (Some 2) 0"

definition one_main :: xdag_state where
  "one_main = example_state
     [(example_cell 0x10000 1 0x1f [])\<lparr>bi_amount := 2 ^ 42, bi_height := 1, bi_ref := Ref 0\<rparr>,
      example_cell 0x20000 2 0x12 [0], example_cell 0x30000 3 0x12 [1]] (Some 2) 1"

lemmas example_defs = three_blocks_def one_main_def example_state_def example_cell_def pad_links_def example_rx_def

end
