(* ===== verification/MainChain.thy ===== *)
theory MainChain
  imports Rollback Example_State
begin

text \<open>
  The main chain as a list: the cells reached from the top along
  \<open>link[max_diff_link]\<close>.  The main blocks on it carry the heights nmain, ..., 1.
  \<open>check_new_main\<close> always returns, keeps this shape and creates exactly the
  reward of one block.
\<close>

section \<open>Chains\<close>

fun path :: "xdag_state \<Rightarrow> ptr option \<Rightarrow> ptr list \<Rightarrow> bool" where
  "path st b [] \<longleftrightarrow> b = None"
| "path st b (x # xs) \<longleftrightarrow> b = Some x \<and> path st (max_diff_parent (cell st x)) xs"

definition in_heap :: "xdag_state \<Rightarrow> ptr option \<Rightarrow> bool" where
  "in_heap st b \<longleftrightarrow> (\<forall>p. b = Some p \<longrightarrow> p < length (heap st))"

abbreviation newer :: "xdag_state \<Rightarrow> ptr \<Rightarrow> ptr \<Rightarrow> bool" where
  "newer st p q \<equiv> bi_time (cell st q) < bi_time (cell st p)"

lemma path_exists:
  assumes "wf_dag st" "in_heap st b"
  shows "\<exists>xs. path st b xs"
proof (cases b)
  case (Some p)
  then have "p < length (heap st)" using assms(2) by (simp add: in_heap_def)
  then have "\<exists>xs. path st (Some p) xs"
  proof (induction "rank st p" arbitrary: p rule: less_induct)
    case less
    show ?case
    proof (cases "max_diff_parent (cell st p)")
      case None
      then have "path st (Some p) [p]" by simp
      then show ?thesis ..
    next
      case (Some q)
      then obtain xs where "path st (Some q) xs"
        using less.hyps [of q] rank_mono wf_parent [OF assms(1) less.prems Some] by blast
      then have "path st (Some p) (p # xs)" using Some by simp
      then show ?thesis ..
    qed
  qed
  then show ?thesis using Some by simp
qed (use path.simps(1) in blast)

lemma path_facts:
  assumes "wf_dag st" "in_heap st b" "path st b xs"
  shows "set xs \<subseteq> {..<length (heap st)}" "sorted_wrt (newer st) xs"
proof -
  have "set xs \<subseteq> {..<length (heap st)} \<and> sorted_wrt (newer st) xs \<and>
      (\<forall>p. b = Some p \<longrightarrow> (\<forall>x \<in> set xs. bi_time (cell st x) \<le> bi_time (cell st p)))"
    using assms(2,3)
  proof (induction xs arbitrary: b)
    case (Cons x xs)
    have x: "x < length (heap st)" using Cons.prems by (simp add: in_heap_def)
    have h: "in_heap st (max_diff_parent (cell st x))"
      using wf_parent [OF assms(1) x] by (simp add: in_heap_def)
    note IH = Cons.IH [OF h]
    have "newer st x y" if "y \<in> set xs" for y
    proof (cases "max_diff_parent (cell st x)")
      case None
      then show ?thesis using Cons.prems that by (cases xs) auto
    next
      case (Some q)
      then have "bi_time (cell st y) \<le> bi_time (cell st q)" using IH Cons.prems that by simp
      then show ?thesis using wf_parent(2) [OF assms(1) x Some] by simp
    qed
    then show ?case using IH Cons.prems x by (auto intro: less_imp_le)
  qed simp
  then show "set xs \<subseteq> {..<length (heap st)}" "sorted_wrt (newer st) xs" by simp_all
qed

lemma path_distinct:
  assumes "sorted_wrt (newer st) xs"
  shows "distinct xs"
  using assms by (induction xs) auto

lemma path_length:
  assumes "wf_dag st" "in_heap st b" "path st b xs"
  shows "length xs < chain_fuel st"
proof -
  note f = path_facts [OF assms]
  have "length xs = card (set xs)" using distinct_card [OF path_distinct [OF f(2)]] by simp
  also have "\<dots> \<le> length (heap st)" using card_mono [OF _ f(1)] by simp
  finally show ?thesis by (simp add: chain_fuel_def)
qed

lemma path_static:
  assumes "path st b xs" "\<And>x. x \<in> set xs \<Longrightarrow> static (cell st' x) = static (cell st x)"
  shows "path st' b xs"
  using assms
proof (induction xs arbitrary: b)
  case (Cons x xs)
  then have "max_diff_parent (cell st' x) = max_diff_parent (cell st x)"
    by (simp add: max_diff_parent_def static_def)
  then show ?case using Cons by auto
qed simp

section \<open>The walks\<close>

abbreviation is_main :: "xdag_state \<Rightarrow> ptr \<Rightarrow> bool" where "is_main st p \<equiv> has_flag (cell st p) BI_MAIN"
abbreviation on_chain :: "xdag_state \<Rightarrow> ptr \<Rightarrow> bool" where "on_chain st p \<equiv> has_flag (cell st p) BI_MAIN_CHAIN"

definition candidates :: "xdag_state \<Rightarrow> ptr list \<Rightarrow> ptr list" where
  "candidates st xs = filter (on_chain st) (takeWhile (\<lambda>x. \<not> is_main st x) xs)"

lemma find_new_main_path:
  assumes "path st b xs" "length xs < fuel"
  shows "find_new_main fuel b p i st =
    Some (if candidates st xs = [] then p else Some (last (candidates st xs)), i + length (candidates st xs))"
  using assms
proof (induction xs arbitrary: b p i fuel)
  case Nil
  then show ?case by (cases fuel) (auto simp: candidates_def)
next
  case (Cons x xs)
  then show ?case by (cases fuel) (auto simp: candidates_def)
qed

fun find_height :: "xdag_state \<Rightarrow> u64 \<Rightarrow> nat \<Rightarrow> ptr list \<Rightarrow> ptr option" where
  "find_height st h k [] = None"
| "find_height st h k (x # xs) =
     (if k = 0 then Some x
      else if is_main st x then (if h = bi_height (cell st x) then Some x else find_height st h (k - 1) xs)
      else find_height st h k xs)"

lemma block_by_height_loop_path:
  assumes "path st b xs" "length xs < fuel"
  shows "block_by_height_loop fuel h b i st = Some (find_height st h (unat (nmain (g_xdag_stats st)) - i) xs)"
  using assms
proof (induction xs arbitrary: b i fuel)
  case Nil
  then show ?case by (cases fuel) auto
next
  case (Cons x xs)
  then obtain fuel' where "fuel = Suc fuel'" by (cases fuel) auto
  then show ?case using Cons by auto
qed

definition heights_down :: "nat \<Rightarrow> u64 list" where
  "heights_down n = map of_nat (rev [1..<Suc n])"

lemma heights_down_Suc: "heights_down (Suc n) = of_nat (Suc n) # heights_down n"
  by (simp add: heights_down_def)

lemma find_height_found:
  assumes "map (\<lambda>x. bi_height (cell st x)) (filter (is_main st) xs) = heights_down k"
    and "h = of_nat j" "1 \<le> j" "j \<le> k" "k < 2 ^ 64"
  shows "\<exists>x. find_height st h k xs = Some x \<and> x \<in> set xs \<and> is_main st x \<and> bi_height (cell st x) = h"
  using assms
proof (induction xs arbitrary: k)
  case Nil
  then show ?case by (cases k) (simp_all add: heights_down_def)
next
  case (Cons x xs)
  show ?case
  proof (cases "is_main st x")
    case True
    then obtain k' where k: "k = Suc k'" using Cons.prems by (cases k) (auto simp: heights_down_def)
    have hx: "bi_height (cell st x) = of_nat k" "map (\<lambda>x. bi_height (cell st x)) (filter (is_main st) xs) = heights_down k'"
      using Cons.prems(1) True by (simp_all add: k heights_down_Suc)
    have "h = of_nat k \<longleftrightarrow> j = k" using Cons.prems by (simp add: word_of_nat_eq_iff take_bit_nat_eq_self)
    then show ?thesis using Cons.IH [OF hx(2)] Cons.prems hx(1) True k by auto
  next
    case False
    then have "map (\<lambda>x. bi_height (cell st x)) (filter (is_main st) xs) = heights_down k" using Cons.prems(1) by simp
    from Cons.IH [OF this Cons.prems(2-5)] show ?thesis using False Cons.prems(3,4) by auto
  qed
qed

section \<open>The invariant\<close>

definition mains :: "xdag_state \<Rightarrow> ptr list \<Rightarrow> ptr list" where
  "mains st xs = filter (is_main st) xs"

definition heights_ok :: "xdag_state \<Rightarrow> ptr list \<Rightarrow> bool" where
  "heights_ok st xs \<longleftrightarrow>
     map (\<lambda>x. bi_height (cell st x)) (mains st xs) = heights_down (unat (nmain (g_xdag_stats st)))"

text \<open>Every marked block is at most as new as the newest main block.\<close>

definition marks_below :: "xdag_state \<Rightarrow> ptr list \<Rightarrow> bool" where
  "marks_below st xs \<longleftrightarrow> (\<forall>q < length (heap st). mr st q \<longrightarrow>
     mains st xs \<noteq> [] \<and> bi_time (cell st q) \<le> bi_time (cell st (hd (mains st xs))))"

definition supply_inv :: "xdag_state \<Rightarrow> bool" where
  "supply_inv st \<longleftrightarrow> total_amount st = rewards_upto (g_xdag_testnet st) (unat (nmain (g_xdag_stats st)))"

definition chain_inv :: "xdag_state \<Rightarrow> bool" where
  "chain_inv st \<longleftrightarrow> wf_dag st \<and> fees_ok st \<and> inputs_ok st \<and> ap_marked st \<and> refs_marked st \<and>
     length (heap st) < 2 ^ 63 \<and> in_heap st (top_main_chain st) \<and> supply_inv st \<and>
     (\<exists>xs. path st (top_main_chain st) xs \<and> heights_ok st xs \<and> marks_below st xs)"

lemma nmain_bound:
  assumes "chain_inv st"
  shows "unat (nmain (g_xdag_stats st)) < 2 ^ 63"
proof -
  obtain xs where xs: "path st (top_main_chain st) xs" "heights_ok st xs"
    using assms by (auto simp: chain_inv_def)
  have "length (mains st xs) = unat (nmain (g_xdag_stats st))"
    using arg_cong [OF xs(2) [unfolded heights_ok_def], of length] by (simp add: heights_down_def)
  moreover have "length (mains st xs) \<le> length xs" by (simp add: mains_def)
  moreover have "length xs < chain_fuel st"
    using path_length xs(1) assms by (auto simp: chain_inv_def)
  ultimately show ?thesis using assms by (simp add: chain_inv_def chain_fuel_def)
qed

lemma rewards_bound:
  assumes "n < 2 ^ 64"
  shows "rewards_upto tn n < 2 ^ 63"
proof (cases "n < unat (fork_height tn)")
  case True
  then show ?thesis using rewards_before_fork [OF True] fork_height_bounds(2) [of tn] by simp
next
  case False
  have "(\<Sum>k<n. halving (2 ^ 39) k) \<le> 2 ^ 61" using sum_halving_bound [of "2 ^ 39" n] by simp
  moreover have "halving (2 ^ 39) n \<le> 2 ^ 39" by (simp add: halving_def)
  moreover have "(unat (fork_height tn) - 1) * (2 ^ 42 - 2 ^ 39) \<le> 2 ^ 62"
    by (simp add: fork_height_def MAIN_APOLLO_HEIGHT_def MAIN_APOLLO_TESTNET_HEIGHT_def)
  ultimately show ?thesis using rewards_after_fork [of tn n] False assms by simp
qed

lemma rewards_Suc: "rewards_upto tn (Suc n) = rewards_upto tn n + unat (get_amount tn (of_nat (Suc n)))"
  by (simp add: rewards_upto_def)

lemma chain_inv_ready:
  assumes inv: "chain_inv st" and m: "m < length (heap st)" "\<not> mr st m"
  shows "main_ready m st"
proof -
  let ?n = "unat (nmain (g_xdag_stats st))"
  have "rewards_upto (g_xdag_testnet st) (Suc ?n) < 2 ^ 63"
    using rewards_bound [of "Suc ?n"] nmain_bound [OF inv] by simp
  moreover have "(of_nat (Suc ?n) :: u64) = nmain (g_xdag_stats st) + 1" by simp
  ultimately show ?thesis using assms rewards_Suc [of "g_xdag_testnet st" ?n]
    by (simp add: main_ready_def chain_inv_def supply_inv_def add.commute)
qed

text \<open>A candidate lies above the newest main block, so it is not marked.\<close>

lemma candidate_facts:
  assumes sorted: "sorted_wrt (newer st) xs" and below: "marks_below st xs"
    and sub: "set xs \<subseteq> {..<length (heap st)}" and m: "m \<in> set (candidates st xs)"
  shows "m < length (heap st)" "\<not> mr st m" "\<not> is_main st m" "on_chain st m"
    "\<exists>ys zs. xs = ys @ m # zs \<and> (\<forall>y \<in> set ys. \<not> is_main st y)"
proof -
  define D where "D = dropWhile (\<lambda>x. \<not> is_main st x) xs"
  have mt: "m \<in> set (takeWhile (\<lambda>x. \<not> is_main st x) xs)" and oc: "on_chain st m"
    using m by (simp_all add: candidates_def)
  then obtain ys zs where yz: "takeWhile (\<lambda>x. \<not> is_main st x) xs = ys @ m # zs"
    using split_list by fastforce
  have xs: "xs = ys @ m # zs @ D"
    using takeWhile_dropWhile_id [of "\<lambda>x. \<not> is_main st x" xs] unfolding yz D_def by simp
  have nm: "\<not> is_main st y" if "y \<in> set (ys @ m # zs)" for y
    using that set_takeWhileD [of y "\<lambda>x. \<not> is_main st x" xs] unfolding yz by simp
  show "on_chain st m" by (rule oc)
  show "\<not> is_main st m" using nm by simp
  have "m \<in> set xs" unfolding xs by simp
  then show ml: "m < length (heap st)" using sub by auto
  show "\<exists>ys zs. xs = ys @ m # zs \<and> (\<forall>y \<in> set ys. \<not> is_main st y)" using xs nm by auto
  show "\<not> mr st m"
  proof
    assume "mr st m"
    then have h: "mains st xs \<noteq> []" "bi_time (cell st m) \<le> bi_time (cell st (hd (mains st xs)))"
      using below ml by (simp_all add: marks_below_def)
    have "mains st (ys @ m # zs) = []" using nm by (auto simp: mains_def filter_empty_conv)
    then have "mains st xs = mains st D" unfolding xs by (auto simp: mains_def split: if_splits)
    then have "hd (mains st xs) \<in> set D"
      using hd_in_set [OF h(1)] by (simp add: mains_def)
    then have "newer st m (hd (mains st xs))" using sorted unfolding xs by (simp add: sorted_wrt_append)
    then show False using h(2) by simp
  qed
qed

section \<open>Marks made by a main block\<close>

lemma apply_block_marks_older:
  assumes "wf_dag st" "fees_ok st" "p < length (heap st)" "rank st p < fuel"
    and "apply_block fuel p st = Some (st', r)" "q < length (heap st)" "mr st' q"
  shows "mr st q \<or> bi_time (cell st q) \<le> bi_time (cell st p)"
  using assms
proof (induction fuel arbitrary: p st st' r q)
  case (Suc fuel)
  show ?case
  proof (cases "mr st p")
    case False
    define st0 where "st0 = upd_cell p (set_flag BI_MAIN_REF) st"
    define Inv where "Inv u \<longleftrightarrow> same_dag st u \<and>
      (\<forall>q < length (heap st). mr u q \<longrightarrow> mr st q \<or> bi_time (cell st q) \<le> bi_time (cell st p))" for u
    have start: "Inv st0"
      using mark_cell(4) [OF Suc.prems(3)] by (auto simp: Inv_def st0_def intro: same_dag_upd_cell)
    obtain v where v: "fold_opt (apply_ref (apply_block fuel) p) [0..<bi_nlinks (cell st p)] st0 = Some v"
      and app: "apply_amounts p v = (st', r)"
      using Suc.prems(5) False by (auto simp: st0_def bind_eq_Some_conv)
    have step: "Inv u'" if h: "i \<in> set [0..<bi_nlinks (cell st p)]" "Inv u"
      "apply_ref (apply_block fuel) p i u = Some u'" for i u u'
    proof -
      have du: "same_dag st u" and i: "i < bi_nlinks (cell st p)" using h by (simp_all add: Inv_def)
      note c = link_call [OF Suc.prems(1) du Suc.prems(3) i]
      have len: "length (heap u) = length (heap st)" by (rule same_dag_length [OF du])
      have fuel: "rank u (link_of u p i) < fuel" using c(4) Suc.prems(4) by simp
      obtain u1 a where u1: "apply_block fuel (link_of u p i) u = Some (u1, a)" "same_dag u u1"
        using apply_block_total [OF c(3,2) fuel] by blast
      have l1: "link_of u1 p i = link_of u p i"
        using link_call(1) [OF Suc.prems(1) same_dag_trans [OF du u1(2)] Suc.prems(3) i] c(1) by simp
      have p1: "p < length (heap u1)" "link_of u p i < length (heap u1)"
        using Suc.prems(3) len same_dag_length [OF u1(2)] c(2) by simp_all
      have flu: "fl u' q = fl u1 q" for q
        using apply_ref_result [of "apply_block fuel", OF u1(1) l1 p1(1)] h(3) after_ref_cell(1) [OF p1(2,1)]
        by (auto split: if_splits)
      have "mr st q \<or> bi_time (cell st q) \<le> bi_time (cell st p)" if q: "q < length (heap st)" "mr u' q" for q
      proof -
        have time: "bi_time (cell u x) = bi_time (cell st x)" if "x < length (heap st)" for x
          using same_dag_static [OF du that] by blast
        have "mr u1 q" using q(2) flu by (simp add: has_flag_def)
        then have "mr u q \<or> bi_time (cell u q) \<le> bi_time (cell u (link_of u p i))"
          using Suc.IH [OF c(3) fees_ok_same [OF du Suc.prems(2)] c(2) fuel u1(1)] q(1) len by simp
        then show ?thesis
        proof
          assume "mr u q" then show ?thesis using h(2) q(1) by (simp add: Inv_def)
        next
          assume "bi_time (cell u q) \<le> bi_time (cell u (link_of u p i))"
          then have "bi_time (cell st q) \<le> bi_time (cell st (link_of st p i))" using time q(1) c(1,2) len by simp
          then show ?thesis using wf_link(2) [OF Suc.prems(1,3) i] by (meson le_less_trans less_imp_le)
        qed
      qed
      moreover have "same_dag u u'" using same_dag_apply_ref [of "apply_block fuel", OF u1] h(3) by auto
      ultimately show ?thesis using du same_dag_trans by (auto simp: Inv_def)
    qed
    have inv: "Inv v" using fold_opt_invariant [OF v, of Inv, OF start step] .
    then have dv: "same_dag st v" by (simp add: Inv_def)
    have wfv: "wf_dag v" "length (heap v) = length (heap st)"
      using wf_dag_same [OF dv] Suc.prems(1) same_dag_length [OF dv] by simp_all
    have "mr v q" using apply_amounts_effect [OF wfv(1) _ app] wfv(2) Suc.prems(3,6,7)
      by (auto simp: flag_bits split: if_splits)
    then show ?thesis using inv Suc.prems(6) by (simp add: Inv_def)
  qed (use Suc.prems in simp)
qed simp

text \<open>What \<open>set_main\<close> on a candidate does to the flags that matter for the chain.\<close>

lemma block_run_is_main:
  assumes "block_run m u v" "q < length (heap u)"
  shows "is_main v q = is_main u q"
proof (cases "q \<in> newly u v")
  case True
  then have "fl v q AND NOT ledger_mask = fl u q AND NOT ledger_mask" using assms(1) by (simp add: block_run_def)
  then have "bit (fl v q AND NOT ledger_mask) 0 = bit (fl u q AND NOT ledger_mask) 0" by simp
  then show ?thesis by (simp add: flag_bits ledger_mask_def)
next
  case False
  then have "fl v q = fl u q" using assms by (auto simp: block_run_def newly_def)
  then show ?thesis by (simp add: has_flag_def)
qed

definition rx_cfg :: "xdag_state \<Rightarrow> bool" where
  "rx_cfg st \<longleftrightarrow> g_rx_fork_lag (g_rx st) < g_rx_fork_seed_height (g_rx st)"

text \<open>The seed block of a new main block is always on the chain.\<close>

lemma block_by_height_found:
  assumes wf: "wf_dag st" "in_heap st (top_main_chain st)" and xs: "path st (top_main_chain st) xs"
    and ok: "heights_ok st xs" and h: "1 \<le> unat h" "h \<le> nmain (g_xdag_stats st)"
  shows "\<exists>x. block_by_height h st = Some (Some x) \<and> x \<in> set xs \<and> is_main st x \<and> bi_height (cell st x) = h"
proof -
  have "block_by_height_loop (chain_fuel st) h (top_main_chain st) 0 st =
      Some (find_height st h (unat (nmain (g_xdag_stats st))) xs)"
    using block_by_height_loop_path [OF xs path_length [OF wf xs]] by simp
  moreover have "\<exists>x. find_height st h (unat (nmain (g_xdag_stats st))) xs = Some x \<and> x \<in> set xs \<and> is_main st x \<and> bi_height (cell st x) = h"
    by (rule find_height_found [of st xs _ h "unat h"])
      (use ok h unsigned_less [of "nmain (g_xdag_stats st)"] in \<open>simp_all add: heights_ok_def mains_def word_le_nat_alt\<close>)
  ultimately show ?thesis using h(2) by (simp add: block_by_height_def)
qed

lemma rx_set_fork_time_returns:
  assumes "wf_dag st" "in_heap st (top_main_chain st)" "path st (top_main_chain st) xs" "heights_ok st xs"
    and "bi_height (cell st m) = nmain (g_xdag_stats st)" "rx_cfg st"
  shows "\<exists>st'. rx_set_fork_time env m st = Some st'"
proof (cases "bi_height (cell st m) \<ge> g_rx_fork_seed_height (g_rx st)")
  case True
  let ?h = "bi_height (cell st m) - g_rx_fork_lag (g_rx st)"
  have lag: "unat (g_rx_fork_lag (g_rx st)) < unat (bi_height (cell st m))"
    using True assms(6) by (simp add: rx_cfg_def word_le_nat_alt word_less_nat_alt)
  then have "unat ?h = unat (bi_height (cell st m)) - unat (g_rx_fork_lag (g_rx st))"
    by (simp add: unat_sub word_le_nat_alt)
  then have "1 \<le> unat ?h" "?h \<le> nmain (g_xdag_stats st)"
    using lag assms(5) by (simp_all add: word_le_nat_alt)
  then obtain x where "block_by_height ?h st = Some (Some x)"
    using block_by_height_found [OF assms(1-4)] by blast
  then show ?thesis by (simp add: rx_set_fork_time_def Let_def)
qed (simp add: rx_set_fork_time_def Let_def)

lemma mains_new:
  assumes "xs = ys @ m # zs" "\<forall>y \<in> set ys. \<not> is_main st y" "\<not> is_main st m" "distinct xs"
    and "\<forall>x \<in> set xs. is_main st' x = (x = m \<or> is_main st x)"
  shows "mains st' xs = m # mains st xs"
proof -
  have "filter (is_main st') ys = []" using assms by (auto simp: filter_empty_conv)
  moreover have "filter (is_main st') zs = filter (is_main st) zs"
    by (rule filter_cong) (use assms in auto)
  moreover have "filter (is_main st) ys = []" using assms(2) by (auto simp: filter_empty_conv)
  ultimately show ?thesis using assms by (simp add: mains_def)
qed

lemma set_main_chain_inv:
  assumes inv: "chain_inv st" and cfg: "rx_cfg st" and xs: "path st (top_main_chain st) xs"
    "heights_ok st xs" "marks_below st xs" and m: "m \<in> set (candidates st xs)"
  shows "\<exists>st'. set_main env m st = Some st' \<and> chain_inv st' \<and>
    nmain (g_xdag_stats st') = nmain (g_xdag_stats st) + 1 \<and> is_main st' m \<and>
    bi_height (cell st' m) = nmain (g_xdag_stats st) + 1 \<and> top_main_chain st' = top_main_chain st"
proof -
  have wf: "wf_dag st" "in_heap st (top_main_chain st)" using inv by (simp_all add: chain_inv_def)
  note pf = path_facts [OF wf xs(1)]
  note cf = candidate_facts [OF pf(2) xs(3) pf(1) m]
  have ready: "main_ready m st" by (rule chain_inv_ready [OF inv cf(1,2)])
  show ?thesis
  proof (rule set_main_mid [OF ready, of env])
    fix st3 r w
    let ?u = "(rewarded m st)\<lparr>g_xdag_stats := counted (g_xdag_stats st)\<rparr>"
    let ?n = "unat (nmain (g_xdag_stats st))"
    assume a: "apply_block (chain_fuel st) m ?u = Some (st3, r)"
      "same_dag st st3" "block_run m (rewarded m st) st3" "same_dag st3 w"
      "\<forall>q < length (heap st). fl w q = fl st3 q \<and> rf w q = (if q = m then Ref m else rf st3 q) \<and>
         amt w q = (if q = m then amt st3 q + r else amt st3 q) \<and>
         bi_height (cell w q) = (if q = m then nmain (g_xdag_stats st) + 1 else bi_height (cell st q))"
      "globals w = globals (st\<lparr>g_xdag_stats := counted (g_xdag_stats st)\<rparr>)"
      "set_main env m st = rx_set_fork_time env m w"
    note g = globalsD [OF a(6)]
    have d: "same_dag st w" using a(2,4) same_dag_trans by blast
    note R = rewarded_cell [OF cf(1)]
    have lenR: "length (heap (rewarded m st)) = length (heap st)" by (rule same_dag_length [OF R(4)])
    have lenw: "length (heap w) = length (heap st)" by (rule same_dag_length [OF d])
    have nm: "nmain (g_xdag_stats w) = nmain (g_xdag_stats st) + 1"
      using g(6) by (simp add: counted_def Let_def)
    have unm: "unat (nmain (g_xdag_stats w)) = Suc ?n"
      using nm nmain_bound [OF inv] by (simp add: unat_word_ariths)
    have main: "is_main w q = (q = m \<or> is_main st q)" if "q < length (heap st)" for q
      using block_run_is_main [OF a(3)] that lenR a(5) R(1) by (auto simp: flag_bits)
    have wfw: "wf_dag w" "in_heap w (top_main_chain w)"
      using wf wf_dag_same [OF d] g(2) lenw by (simp_all add: in_heap_def)
    have pw: "path w (top_main_chain w) xs"
      using path_static [OF xs(1)] same_dag_static [OF d] pf(1) g(2) by auto
    obtain ys zs where yz: "xs = ys @ m # zs" "\<forall>y \<in> set ys. \<not> is_main st y" using cf(5) by blast
    have mw: "mains w xs = m # mains st xs"
      by (rule mains_new [OF yz cf(3) path_distinct [OF pf(2)]]) (use main pf(1) in auto)
    have mxs: "x < length (heap st) \<and> x \<noteq> m" if "x \<in> set (mains st xs)" for x
      using that pf(1) cf(3) by (auto simp: mains_def)
    have mh: "map (\<lambda>x. bi_height (cell w x)) (mains st xs) = map (\<lambda>x. bi_height (cell st x)) (mains st xs)"
      using a(5) mxs by auto
    have hw: "heights_ok w xs"
      using xs(2) a(5) cf(1) unm by (simp add: heights_ok_def mw mh heights_down_Suc add.commute)
    have "rx_cfg w" using cfg g(8) by (simp add: rx_cfg_def)
    then obtain st' where st': "rx_set_fork_time env m w = Some st'"
      using rx_set_fork_time_returns [OF wfw pw hw, of m env] a(5) cf(1) nm by auto
    obtain x where x: "st' = w\<lparr>g_rx := x\<rparr>" using rx_set_fork_time_frame [OF st'] by blast
    have set: "set_main env m st = Some st'" using a(7) st' by simp
    have ap: "ap_marked w"
      unfolding ap_marked_def lenw
    proof (intro allI impI, rule ccontr)
      fix q assume q: "q < length (heap st)" "ap w q" "\<not> mr w q"
      then have "\<not> mr st3 q" "ap st3 q" using a(5) by (simp_all add: has_flag_def)
      moreover from this(1) have "fl st3 q = fl (rewarded m st) q" using a(3) q(1) lenR by (simp add: block_run_def)
      ultimately have "ap (rewarded m st) q" "\<not> mr (rewarded m st) q" by (simp_all add: has_flag_def)
      then have "ap st q" "\<not> mr st q" using R(6,7) by simp_all
      then show False using inv q(1) by (simp add: chain_inv_def ap_marked_def)
    qed
    have mono: "mr w q" if "q < length (heap st)" "mr st q" for q
    proof -
      have "fl st3 q = fl (rewarded m st) q" using a(3) R(6) that lenR by (simp add: block_run_def)
      then show ?thesis using a(5) R(6) that by (simp add: has_flag_def)
    qed
    have refs: "refs_marked w"
      unfolding refs_marked_def lenw
    proof (intro allI impI)
      fix q x assume q: "q < length (heap st)" "mr w q" "rf w q = Ref x"
      have new: "z < length (heap st) \<and> mr w z" if "z \<in> newly (rewarded m st) st3" for z
        using that a(5) lenR by (auto simp: newly_def has_flag_def)
      have mm: "m \<in> newly (rewarded m st) st3" using a(3) by (simp add: block_run_def)
      show "x < length (heap st) \<and> mr w x"
      proof (cases "q \<in> newly (rewarded m st) st3")
        case True
        show ?thesis
        proof (cases "q = m")
          case qm: False
          then obtain y where "y \<in> newly (rewarded m st) st3" "rf st3 q = Ref y"
            using a(3) True unfolding block_run_def by blast
          then show ?thesis using qm q a(5) new by auto
        qed (use a(5) q new mm in auto)
      next
        case False
        then have "mr st q" using q a(5) R(6) lenR by (auto simp: newly_def has_flag_def)
        moreover have "q \<noteq> m" using calculation cf(2) by auto
        moreover have "rf st3 q = rf st q" using a(3) calculation R(2,6) q(1) lenR by (simp add: block_run_def)
        ultimately have "rf st q = Ref x" using q a(5) by simp
        then show ?thesis using refs_markedD [of st q x] \<open>mr st q\<close> inv q(1) mono by (simp add: chain_inv_def)
      qed
    qed
    have below: "marks_below w xs"
      unfolding marks_below_def lenw mw
    proof (intro allI impI conjI)
      fix q assume q: "q < length (heap st)" "mr w q"
      have time: "bi_time (cell w z) = bi_time (cell st z)" if "z < length (heap st)" for z
        using same_dag_static [OF d that] by blast
      have timeR: "bi_time (cell (rewarded m st) z) = bi_time (cell st z)" if "z < length (heap st)" for z
        using same_dag_static [OF R(4) that] by blast
      have u: "wf_dag ?u" "fees_ok ?u" "m < length (heap ?u)" "rank ?u m < chain_fuel st"
        using main_ready_rewarded [OF ready] by (simp_all add: ledger_ok_def fees_ok_def)
      have "mr st3 q" using q a(5) by (simp add: has_flag_def)
      then have "mr st q \<or> bi_time (cell st q) \<le> bi_time (cell st m)"
        using apply_block_marks_older [OF u a(1), of q] q(1) lenR R(6) timeR cf(1) by simp
      then show "bi_time (cell w q) \<le> bi_time (cell w (hd (m # mains st xs)))"
      proof
        assume "mr st q"
        then have h: "mains st xs \<noteq> []" "bi_time (cell st q) \<le> bi_time (cell st (hd (mains st xs)))"
          using xs(3) q(1) by (simp_all add: marks_below_def)
        have "hd (mains st xs) \<in> set zs"
          using hd_in_set [OF h(1)] yz cf(3) by (auto simp: mains_def)
        then have "newer st m (hd (mains st xs))" using pf(2) yz(1) by (simp add: sorted_wrt_append)
        then show ?thesis using h(2) time q(1) cf(1) by (simp add: order.strict_implies_order order_le_less_trans)
      qed (use time q(1) cf(1) in simp)
    qed simp
    have "total_amount st' = rewards_upto (g_xdag_testnet st) (Suc ?n)"
      using set_main_total_amount [OF ready set] inv rewards_Suc [of "g_xdag_testnet st" ?n]
      by (simp add: chain_inv_def supply_inv_def add.commute)
    then have supp: "supply_inv st'" using g(9) unm by (simp add: supply_inv_def x)
    have "chain_inv st'"
      unfolding chain_inv_def
      using wfw fees_ok_same [OF d] inputs_ok_same [OF d] ap refs inv lenw supp pw hw below
      by (auto simp: x chain_inv_def fees_ok_def inputs_ok_def ap_marked_def in_heap_def intro!: exI [of _ xs]
          intro: path_static simp: heights_ok_def mains_def marks_below_def)
    then show ?thesis using set nm a(5) cf(1) main [OF cf(1)] g(2) by (auto simp: x)
  qed
qed

section \<open>The invariant on the example states\<close>

lemma all_less_3: "(\<forall>p < (3::nat). P p) \<longleftrightarrow> P 0 \<and> P 1 \<and> P 2"
  by (auto simp: less_Suc_eq numeral_3_eq_3 numeral_2_eq_2)

lemma all_less_1: "(\<forall>p < (1::nat). P p) \<longleftrightarrow> P 0"
  by auto

lemma three_blocks_cells:
  "length (heap three_blocks) = 3"
  "cell three_blocks 0 = example_cell 0x10000 1 0x12 []"
  "cell three_blocks 1 = example_cell 0x20000 2 0x12 [0]" "cell three_blocks (Suc 0) = example_cell 0x20000 2 0x12 [0]"
  "cell three_blocks 2 = example_cell 0x30000 3 0x12 [1]"
  "top_main_chain three_blocks = Some 2" "nmain (g_xdag_stats three_blocks) = 0"
  by (simp_all add: three_blocks_def example_state_def)

lemma one_main_cells:
  "length (heap one_main) = 3"
  "cell one_main 0 = (example_cell 0x10000 1 0x1f [])\<lparr>bi_amount := 2 ^ 42, bi_height := 1, bi_ref := Ref 0\<rparr>"
  "cell one_main 1 = example_cell 0x20000 2 0x12 [0]" "cell one_main (Suc 0) = example_cell 0x20000 2 0x12 [0]"
  "cell one_main 2 = example_cell 0x30000 3 0x12 [1]"
  "top_main_chain one_main = Some 2" "nmain (g_xdag_stats one_main) = 1"
  by (simp_all add: one_main_def example_state_def)

lemma three_blocks_inv: "chain_inv three_blocks"
proof -
  have "total_amount three_blocks = 0"
    by (simp add: total_amount_def three_blocks_cells example_cell_def lessThan_nat_numeral lessThan_Suc)
  then have "supply_inv three_blocks" by (simp add: supply_inv_def three_blocks_cells rewards_upto_def)
  moreover have "path three_blocks (top_main_chain three_blocks) [2, 1, 0]"
    by (simp add: three_blocks_cells max_diff_parent_def example_cell_def pad_links_def)
  moreover have "wf_dag three_blocks"
    unfolding wf_dag_def three_blocks_cells(1) all_less_3
    by (simp add: wf_links_def three_blocks_cells example_cell_def pad_links_def MAX_LINKS_def max_diff_parent_def all_less_1)
  moreover have "heights_ok three_blocks [2, 1, 0] \<and> marks_below three_blocks [2, 1, 0]"
    unfolding marks_below_def three_blocks_cells(1) all_less_3
    by (simp add: heights_ok_def mains_def three_blocks_cells example_cell_def has_flag_def BI_defs heights_down_def)
  moreover have "fees_ok three_blocks \<and> inputs_ok three_blocks \<and> ap_marked three_blocks \<and> refs_marked three_blocks"
    unfolding fees_ok_def inputs_ok_def ap_marked_def refs_marked_def three_blocks_cells(1) all_less_3
    by (simp add: three_blocks_cells example_cell_def distinct_inputs_def has_flag_def BI_defs already_applied_def)
  ultimately show ?thesis
    by (auto simp: chain_inv_def in_heap_def three_blocks_cells(1,6) intro!: exI [of _ "[2, 1, 0]"])
qed

lemma one_main_inv: "chain_inv one_main"
proof -
  have "unat (get_amount False 1) = 2 ^ 42" by (simp add: get_amount_unat halving_def fork_height_def MAIN_APOLLO_HEIGHT_def)
  moreover have "total_amount one_main = 2 ^ 42"
    by (simp add: total_amount_def one_main_cells example_cell_def lessThan_nat_numeral lessThan_Suc)
  moreover have "g_xdag_testnet one_main = False" by (simp add: one_main_def example_state_def)
  ultimately have "supply_inv one_main" by (simp add: supply_inv_def one_main_cells rewards_upto_def)
  moreover have "path one_main (top_main_chain one_main) [2, 1, 0]"
    by (simp add: one_main_cells max_diff_parent_def example_cell_def pad_links_def)
  moreover have "wf_dag one_main"
    unfolding wf_dag_def one_main_cells(1) all_less_3
    by (simp add: wf_links_def one_main_cells example_cell_def pad_links_def MAX_LINKS_def max_diff_parent_def all_less_1)
  moreover have "heights_ok one_main [2, 1, 0] \<and> marks_below one_main [2, 1, 0]"
    unfolding marks_below_def one_main_cells(1) all_less_3
    by (simp add: heights_ok_def mains_def one_main_cells example_cell_def has_flag_def BI_defs heights_down_def)
  moreover have "fees_ok one_main \<and> inputs_ok one_main \<and> ap_marked one_main \<and> refs_marked one_main"
    unfolding fees_ok_def inputs_ok_def ap_marked_def refs_marked_def one_main_cells(1) all_less_3
    by (simp add: one_main_cells example_cell_def distinct_inputs_def has_flag_def BI_defs already_applied_def)
  ultimately show ?thesis
    by (auto simp: chain_inv_def in_heap_def one_main_cells(1,6) intro!: exI [of _ "[2, 1, 0]"])
qed

section \<open>Properties\<close>

text \<open>
  C18: \<open>block_by_height\<close> ends, and on a chain whose main blocks carry the
  heights nmain, ..., 1 it returns for every height from 1 to nmain the main
  block of that height.
\<close>

theorem block_by_height_correct:
  assumes "chain_inv st" "1 \<le> unat h" "h \<le> nmain (g_xdag_stats st)"
  shows "\<exists>x. block_by_height h st = Some (Some x) \<and> x < length (heap st) \<and>
    has_flag (cell st x) BI_MAIN \<and> bi_height (cell st x) = h"
proof -
  obtain xs where xs: "path st (top_main_chain st) xs" "heights_ok st xs"
    using assms(1) by (auto simp: chain_inv_def)
  have wf: "wf_dag st" "in_heap st (top_main_chain st)" using assms(1) by (simp_all add: chain_inv_def)
  show ?thesis
    using block_by_height_found [OF wf xs assms(2,3)] path_facts(1) [OF wf xs(1)] by auto
qed

theorem block_by_height_correct_witness:
  "chain_inv one_main \<and> (\<exists>x. block_by_height 1 one_main = Some (Some x) \<and> x < length (heap one_main) \<and>
    has_flag (cell one_main x) BI_MAIN \<and> bi_height (cell one_main x) = 1)"
  using one_main_inv block_by_height_correct [OF one_main_inv, of 1] by (simp add: one_main_cells(7))

lemma check_new_main_runs:
  assumes "chain_inv st" "rx_cfg st"
  shows "\<exists>st'. check_new_main env st = Some st' \<and> chain_inv st' \<and>
    (st' = st \<or>
     (nmain (g_xdag_stats st') = nmain (g_xdag_stats st) + 1 \<and>
      total_amount st' = total_amount st +
        unat (get_amount (g_xdag_testnet st) (nmain (g_xdag_stats st) + 1))))"
proof -
  obtain xs where xs: "path st (top_main_chain st) xs" "heights_ok st xs" "marks_below st xs"
    using assms(1) by (auto simp: chain_inv_def)
  have wf: "wf_dag st" "in_heap st (top_main_chain st)" using assms(1) by (simp_all add: chain_inv_def)
  note f = find_new_main_path [OF xs(1) path_length [OF wf xs(1)], of None 0]
  show ?thesis
  proof (cases "candidates st xs = []")
    case True
    then have "check_new_main env st = Some st" using f by (simp add: check_new_main_def)
    then show ?thesis using assms(1) by blast
  next
    case False
    let ?m = "last (candidates st xs)"
    have m: "?m \<in> set (candidates st xs)" using False by simp
    note pf = path_facts [OF wf xs(1)]
    have ready: "main_ready ?m st"
      using chain_inv_ready [OF assms(1)] candidate_facts(1,2) [OF pf(2) xs(3) pf(1) m] by blast
    obtain st' where st': "set_main env ?m st = Some st'" "chain_inv st'"
        "nmain (g_xdag_stats st') = nmain (g_xdag_stats st) + 1"
      using set_main_chain_inv [OF assms xs m] by blast
    have "check_new_main env st = Some st' \<or> check_new_main env st = Some st"
      using f False st'(1) by (simp add: check_new_main_def)
    then show ?thesis using st'(2,3) set_main_total_amount [OF ready st'(1)] assms(1) by blast
  qed
qed

text \<open>
  C4: \<open>check_new_main\<close> ends, keeps the chain invariant, and either changes
  nothing or makes exactly one block main: its height is nmain + 1 and the sum
  of all amounts grows by exactly the reward \<open>get_amount\<close> of that height.
\<close>

theorem check_new_main_inv:
  assumes "chain_inv st" "rx_cfg st"
  shows "\<exists>st'. check_new_main env st = Some st' \<and> chain_inv st' \<and>
    (st' = st \<or>
     (nmain (g_xdag_stats st') = nmain (g_xdag_stats st) + 1 \<and>
      total_amount st' = total_amount st +
        unat (get_amount (g_xdag_testnet st) (nmain (g_xdag_stats st) + 1))))"
  using assms by (rule check_new_main_runs)

theorem check_new_main_inv_witness:
  "chain_inv three_blocks \<and> rx_cfg three_blocks \<and>
   (\<exists>st'. check_new_main \<lparr>env_xtimestamp = 0x40000, env_stack_word = 0\<rparr> three_blocks = Some st' \<and> chain_inv st' \<and>
    (st' = three_blocks \<or>
     (nmain (g_xdag_stats st') = nmain (g_xdag_stats three_blocks) + 1 \<and>
      total_amount st' = total_amount three_blocks +
        unat (get_amount (g_xdag_testnet three_blocks) (nmain (g_xdag_stats three_blocks) + 1)))))"
proof -
  have cfg: "rx_cfg three_blocks" by (simp add: rx_cfg_def example_defs Let_def)
  show ?thesis using three_blocks_inv cfg check_new_main_inv [OF three_blocks_inv cfg] by blast
qed

end
