(* ===== verification/Ledger_Properties.thy ===== *)
theory Ledger_Properties
  imports MainChain
begin

text \<open>
  The properties of the ledger: termination and conservation of
  \<open>apply_block\<close>, and exact rollback of main blocks.
\<close>

section \<open>Conservation\<close>

text \<open>
  C1: on a well-formed block graph \<open>apply_block\<close> returns, the graph itself is
  untouched, and when no block takes two inputs from one block it neither
  creates nor destroys money: the sum of all 64-bit amounts as a natural number
  drops by exactly the fee returned to the referring block.
\<close>

theorem apply_block_conserves:
  assumes "wf_dag st" "p < length (heap st)" "inputs_ok st" "total_amount st < 2 ^ 64 - 1"
  shows "\<exists>st' r. apply_block (chain_fuel st) p st = Some (st', r) \<and> same_dag st st' \<and>
    total_amount st' + (if r = already_applied then 0 else unat r) = total_amount st"
proof -
  have r: "rank st p < chain_fuel st" by (rule chain_fuel_rank [OF assms(2)])
  obtain st' f where st': "apply_block (chain_fuel st) p st = Some (st', f)" "same_dag st st'"
    using apply_block_total [OF assms(1,2) r] by blast
  then show ?thesis
    using apply_block_total_amount [OF assms(1,2) r assms(3,4) st'(1)] by (simp add: returned_def)
qed

text \<open>Cell 0 owns 10; cell 2 spends 10 from cell 0 and gives 10 to cell 1.\<close>

definition spend_state :: "u64 list \<Rightarrow> u16 \<Rightarrow> ptr list \<Rightarrow> u64 \<Rightarrow> xdag_state" where
  "spend_state amounts in_mask links fee = example_state
     [(example_cell 0x10000 1 0x10 [])\<lparr>bi_amount := 10\<rparr>, example_cell 0x20000 1 0x10 [],
      (example_cell 0x30000 1 0x10 links)\<lparr>bi_in_mask := in_mask, bi_fee := fee,
        bi_linkamount := amounts @ replicate (15 - length amounts) 0\<rparr>] (Some 2) 0"

lemma spend_state_cells:
  "length (heap (spend_state a m l f)) = 3"
  "cell (spend_state a m l f) 0 = (example_cell 0x10000 1 0x10 [])\<lparr>bi_amount := 10\<rparr>"
  "cell (spend_state a m l f) (Suc 0) = example_cell 0x20000 1 0x10 []"
  "cell (spend_state a m l f) 2 = (example_cell 0x30000 1 0x10 l)\<lparr>bi_in_mask := m, bi_fee := f,
        bi_linkamount := a @ replicate (15 - length a) 0\<rparr>"
  by (simp_all add: spend_state_def example_state_def)

definition simple_spend :: xdag_state where
  "simple_spend = spend_state [10, 10] 1 [0, 1] 0"

lemma simple_spend_ok: "wf_dag simple_spend" "inputs_ok simple_spend" "total_amount simple_spend = 10"
proof -
  show "wf_dag simple_spend"
    unfolding wf_dag_def simple_spend_def spend_state_cells(1) all_less_3
    by (simp add: wf_links_def spend_state_cells example_cell_def pad_links_def MAX_LINKS_def max_diff_parent_def
        All_less_Suc)
  show "inputs_ok simple_spend"
    unfolding inputs_ok_def simple_spend_def spend_state_cells(1) all_less_3
    by (simp add: distinct_inputs_def spend_state_cells example_cell_def pad_links_def All_less_Suc)
  show "total_amount simple_spend = 10"
    by (simp add: total_amount_def simple_spend_def spend_state_cells example_cell_def lessThan_nat_numeral lessThan_Suc)
qed

theorem apply_block_conserves_witness:
  "wf_dag simple_spend \<and> inputs_ok simple_spend \<and>
   (\<exists>st' r. apply_block (chain_fuel simple_spend) 2 simple_spend = Some (st', r) \<and> same_dag simple_spend st' \<and>
    total_amount st' + (if r = already_applied then 0 else unat r) = total_amount simple_spend)"
  using simple_spend_ok apply_block_conserves [OF simple_spend_ok(1) _ simple_spend_ok(2), of 2]
  by (simp add: simple_spend_def spend_state_cells(1))

section \<open>Rollback\<close>

text \<open>
  C2: \<open>unset_main\<close> undoes \<open>set_main\<close>: it returns, every amount and every flag
  are what they were, and so are the statistics of the chain but for
  \<open>total_nmain\<close>, provided no block that carries a fee was rejected on the way
  (\<open>no_lost_fee\<close>).  \<open>total_nmain\<close> is the larger of itself and the new number of
  main blocks, less one: it comes back only when it was the number of main
  blocks itself, and drops by one when the peers know of more main blocks.
\<close>

theorem unset_main_undoes_set_main:
  assumes "main_ready m st" "refs_marked st" "\<not> has_flag (cell st m) BI_MAIN"
    and "set_main env m st = Some st1" "no_lost_fee st st1"
  shows "\<exists>st2. unset_main m st1 = Some st2 \<and>
    g_xdag_stats st2 = (g_xdag_stats st)\<lparr>total_nmain := max (nmain (g_xdag_stats st) + 1) (total_nmain (g_xdag_stats st)) - 1\<rparr> \<and>
    (\<forall>q < length (heap st). bi_amount (cell st2 q) = bi_amount (cell st q) \<and>
       bi_flags (cell st2 q) = bi_flags (cell st q))"
  by (rule set_main_rollback [OF assms])

definition calm_env :: xdag_env where
  "calm_env = \<lparr>env_xtimestamp = 0x40000, env_stack_word = 0\<rparr>"

theorem unset_main_undoes_set_main_witness:
  "\<exists>st1. set_main calm_env 0 three_blocks = Some st1 \<and>
    (\<exists>st2. unset_main 0 st1 = Some st2 \<and>
     g_xdag_stats st2 = (g_xdag_stats three_blocks)
       \<lparr>total_nmain := max (nmain (g_xdag_stats three_blocks) + 1) (total_nmain (g_xdag_stats three_blocks)) - 1\<rparr> \<and>
     (\<forall>q < length (heap three_blocks). bi_amount (cell st2 q) = bi_amount (cell three_blocks q) \<and>
       bi_flags (cell st2 q) = bi_flags (cell three_blocks q)))"
proof -
  have flags: "\<not> has_flag (cell three_blocks 0) BI_MAIN_REF" "\<not> has_flag (cell three_blocks 0) BI_MAIN"
    by (simp_all add: three_blocks_cells example_cell_def has_flag_def BI_defs)
  have ready: "main_ready 0 three_blocks"
    by (rule chain_inv_ready [OF three_blocks_inv]) (use flags in \<open>simp_all add: three_blocks_cells\<close>)
  have refs: "refs_marked three_blocks" using three_blocks_inv by (simp add: chain_inv_def)
  have fees: "map_option (\<lambda>st1. map bi_fee (heap st1)) (set_main calm_env 0 three_blocks) = Some [0, 0, 0]"
    by code_simp
  obtain st1 where st1: "set_main calm_env 0 three_blocks = Some st1"
    using fees by (cases "set_main calm_env 0 three_blocks") (simp_all only: option.map option.distinct)
  have st1_fees: "map bi_fee (heap st1) = [0, 0, 0]" using fees by (simp only: st1 option.map option.inject)
  have "bi_fee (cell st1 q) = 0" if "q < 3" for q
  proof -
    have "length (heap st1) = 3" using arg_cong [OF st1_fees, of length] by simp
    moreover have "map bi_fee (heap st1) ! q = 0"
      unfolding st1_fees using that by (cases q; cases "q - 1"; simp add: nth_Cons')
    ultimately show ?thesis using that by simp
  qed
  then have "no_lost_fee three_blocks st1"
    by (auto simp: no_lost_fee_def clean_def newly_def three_blocks_cells(1))
  then show ?thesis using st1 unset_main_undoes_set_main [OF ready refs flags(2) st1] by blast
qed

text \<open>Cell 0 is a block with a fee of 5 and nothing to pay it from; cell 1 links to it.\<close>

definition unpaid_fee :: xdag_state where
  "unpaid_fee = example_state
     [(example_cell 0x10000 1 0x10 [])\<lparr>bi_fee := 5\<rparr>, example_cell 0x20000 2 0x12 [0]] (Some 1) 0"

text \<open>
  the proviso is needed.  \<open>apply_block\<close> rejects the block in cell 0 and
  passes no fee on, but \<open>unapply_block\<close> takes the fee back all the same: after
  \<open>set_main\<close> and \<open>unset_main\<close> the amount of the main block has wrapped
  around to \<open>2 ^ 64 - 5\<close>.
\<close>

theorem rejected_fee_breaks_rollback:
  "map_option (\<lambda>st2. map bi_amount (heap st2)) (set_main calm_env 1 unpaid_fee \<bind> unset_main 1) =
     Some [0, - 5]"
  by code_simp

end
