(* ===== verification/Chain_Progress.thy ===== *)
theory Chain_Progress
  imports Ledger_Properties
begin

text \<open>
  Progress of the main chain: every call of \<open>check_new_main\<close> promotes the oldest
  waiting block, as long as it is referenced and old enough and another block
  waits behind it.
\<close>

lemma block_run_bit:
  assumes "block_run m u v" "q < length (heap u)" "n \<noteq> 2" "n \<noteq> 3"
  shows "bit (fl v q) n = bit (fl u q) n"
proof (cases "q \<in> newly u v")
  case True
  then have "fl v q AND NOT ledger_mask = fl u q AND NOT ledger_mask" using assms(1) by (simp add: block_run_def)
  then have "bit (fl v q AND NOT ledger_mask) n = bit (fl u q AND NOT ledger_mask) n" by simp
  then show ?thesis
    using assms(3,4) bit_imp_le_length [of "fl v q" n] bit_imp_le_length [of "fl u q" n] by (auto simp: flag_bits ledger_mask_def)
next
  case False
  then have "fl v q = fl u q" using assms(1,2) by (auto simp: block_run_def newly_def)
  then show ?thesis by simp
qed

lemma rx_set_fork_time_cfg: "rx_set_fork_time env p st = Some st' \<Longrightarrow> rx_cfg st' = rx_cfg st"
  by (auto simp: rx_set_fork_time_def Let_def bind_eq_Some_conv rx_cfg_def rx_next_seed_def rx_set_mem_def split: if_splits)

lemma set_main_cfg:
  assumes "main_ready m st" "set_main env m st = Some st'"
  shows "rx_cfg st' = rx_cfg st"
proof (rule set_main_mid [OF assms(1), of env])
  fix st3 r w
  assume "globals w = globals (st\<lparr>g_xdag_stats := counted (g_xdag_stats st)\<rparr>)" "set_main env m st = rx_set_fork_time env m w"
  then have "g_rx w = g_rx st" "rx_set_fork_time env m w = Some st'" using assms(2) globalsD(8) by (fastforce, simp)
  then show ?thesis using rx_set_fork_time_cfg [of env m w st'] by (simp add: rx_cfg_def)
qed

text \<open>Promoting a block changes no other flag that the search for candidates reads, and no time.\<close>

lemma set_main_flags:
  assumes "main_ready m st" "set_main env m st = Some st'" "m < length (heap st)" "q < length (heap st)"
  shows "is_main st' q \<longleftrightarrow> q = m \<or> is_main st q" "on_chain st' q = on_chain st q"
    "has_flag (cell st' q) BI_REF = has_flag (cell st q) BI_REF" "bi_time (cell st' q) = bi_time (cell st q)"
    "same_dag st st'" "top_main_chain st' = top_main_chain st"
proof -
  obtain st3 where e: "same_dag st st3" "block_run m (rewarded m st) st3" "same_dag st3 st'" "fl st' q = fl st3 q"
      "top_main_chain st' = top_main_chain st"
    by (rule set_main_effect [OF assms(1,2)]) (use assms(4) in blast)
  note R = rewarded_cell [OF assms(3)]
  have "bit (fl st' q) n = bit (fl (rewarded m st) q) n" if "n \<noteq> 2" "n \<noteq> 3" for n
    using block_run_bit [OF e(2) _ that, of q] e(4) assms(4) same_dag_length [OF R(4)] by simp
  from this [of 0] this [of 1] this [of 4]
  show "is_main st' q \<longleftrightarrow> q = m \<or> is_main st q" "on_chain st' q = on_chain st q"
    "has_flag (cell st' q) BI_REF = has_flag (cell st q) BI_REF"
    using R(1) [of q] by (auto simp: flag_bits)
  show d: "same_dag st st'" using e(1,3) same_dag_trans by blast
  show "bi_time (cell st' q) = bi_time (cell st q)" using static_eqD [OF same_dag_static [OF d assms(4)]] by simp
  show "top_main_chain st' = top_main_chain st" by (rule e(5))
qed

lemma candidates_promoted:
  assumes "candidates st xs \<noteq> []" "m = last (candidates st xs)" "distinct xs"
    and "\<And>q. q \<in> set xs \<Longrightarrow> is_main st' q \<longleftrightarrow> q = m \<or> is_main st q" "\<And>q. q \<in> set xs \<Longrightarrow> on_chain st' q = on_chain st q"
  shows "candidates st' xs = butlast (candidates st xs)"
proof -
  let ?t = "takeWhile (\<lambda>x. \<not> is_main st x) xs"
  have "m \<in> set ?t" "on_chain st m" using last_in_set [OF assms(1)] assms(2) by (auto simp: candidates_def)
  then obtain ys zs where t: "?t = ys @ m # zs" using split_list by fastforce
  define D where "D = dropWhile (\<lambda>x. \<not> is_main st x) xs"
  have xs: "xs = ys @ m # zs @ D" using takeWhile_dropWhile_id [of "\<lambda>x. \<not> is_main st x" xs] t by (simp add: D_def)
  have out: "filter (on_chain st) zs = []"
  proof (rule ccontr)
    assume "filter (on_chain st) zs \<noteq> []"
    then have "m \<in> set zs"
      using assms(2) \<open>on_chain st m\<close> last_in_set [of "filter (on_chain st) zs"] unfolding candidates_def t by simp
    then show False using assms(3) xs by simp
  qed
  have "\<not> is_main st' y" if "y \<in> set ys" for y
    using that assms(3,4) set_takeWhileD [of y "\<lambda>x. \<not> is_main st x" xs] xs unfolding t by auto
  moreover have "is_main st' m" using assms(4) xs by simp
  ultimately have "takeWhile (\<lambda>x. \<not> is_main st' x) xs = ys" unfolding xs by (simp add: takeWhile_append)
  moreover have "filter (on_chain st') ys = filter (on_chain st) ys" by (rule filter_cong) (use assms(5) xs in auto)
  ultimately show ?thesis unfolding candidates_def t using out \<open>on_chain st m\<close> by (simp add: butlast_append)
qed

lemma path_unique: "path st b xs \<Longrightarrow> path st b ys \<Longrightarrow> xs = ys"
proof (induction xs arbitrary: b ys)
  case Nil
  then show ?case by (cases ys) auto
next
  case (Cons x xs)
  then show ?case by (cases ys) auto
qed

text \<open>One call.\<close>

lemma check_new_main_step:
  assumes inv: "chain_inv st" "rx_cfg st" "path st (top_main_chain st) xs" and n: "1 < length (candidates st xs)"
    and ref: "\<And>m. m \<in> set (candidates st xs) \<Longrightarrow> has_flag (cell st m) BI_REF \<and> bi_time (cell st m) + 2048 \<le> env_xtimestamp env"
  shows "\<exists>st'. check_new_main env st = Some st' \<and> chain_inv st' \<and> rx_cfg st' \<and> path st' (top_main_chain st') xs \<and>
    candidates st' xs = butlast (candidates st xs) \<and> nmain (g_xdag_stats st') = nmain (g_xdag_stats st) + 1 \<and>
    is_main st' (last (candidates st xs)) \<and> (\<forall>q \<in> set xs. is_main st q \<longrightarrow> is_main st' q) \<and>
    (\<forall>q \<in> set xs. has_flag (cell st' q) BI_REF = has_flag (cell st q) BI_REF \<and> bi_time (cell st' q) = bi_time (cell st q))"
proof -
  let ?m = "last (candidates st xs)"
  have wf: "wf_dag st" "in_heap st (top_main_chain st)" using inv(1) by (simp_all add: chain_inv_def)
  obtain xs' where "path st (top_main_chain st) xs'" "heights_ok st xs'" "marks_below st xs'"
    using inv(1) by (auto simp: chain_inv_def)
  moreover have "xs' = xs" using path_unique calculation(1) inv(3) by blast
  ultimately have xs: "heights_ok st xs" "marks_below st xs" by simp_all
  have ne: "candidates st xs \<noteq> []" using n by auto
  then have m: "?m \<in> set (candidates st xs)" by simp
  note pf = path_facts [OF wf inv(3)]
  note cf = candidate_facts(1,2) [OF pf(2) xs(2) pf(1) m]
  have ready: "main_ready ?m st" by (rule chain_inv_ready [OF inv(1) cf])
  obtain st' where st': "set_main env ?m st = Some st'" "chain_inv st'" "nmain (g_xdag_stats st') = nmain (g_xdag_stats st) + 1"
    using set_main_chain_inv [OF inv xs m] by blast
  have run: "check_new_main env st = Some st'"
    using find_new_main_path [OF inv(3) path_length [OF wf inv(3)], of None 0] ne n ref [OF m] st'(1)
    by (simp add: check_new_main_def MAX_WAITING_MAIN_def)
  note fl = set_main_flags [OF ready st'(1) cf(1)]
  have sub: "q < length (heap st)" if "q \<in> set xs" for q using pf(1) that by auto
  have cands: "candidates st' xs = butlast (candidates st xs)"
    by (rule candidates_promoted [OF ne refl path_distinct [OF pf(2)]]) (use fl sub in blast)+
  have "path st' (top_main_chain st') xs"
    using path_static [OF inv(3)] same_dag_static [OF fl(5) [OF cf(1)]] pf(1) fl(6) [OF cf(1)] by auto
  then show ?thesis
    using run st'(2,3) set_main_cfg [OF ready st'(1)] inv(2) cands fl(1) [OF cf(1)] fl(1,3,4) sub by auto
qed

lemma progress_run:
  "chain_inv st \<Longrightarrow> rx_cfg st \<Longrightarrow> path st (top_main_chain st) xs \<Longrightarrow> length envs < length (candidates st xs) \<Longrightarrow>
   (\<And>m. m \<in> set (candidates st xs) \<Longrightarrow> has_flag (cell st m) BI_REF) \<Longrightarrow>
   (\<And>m env. m \<in> set (candidates st xs) \<Longrightarrow> env \<in> set envs \<Longrightarrow> bi_time (cell st m) + 2048 \<le> env_xtimestamp env) \<Longrightarrow>
   \<exists>st'. fold_opt check_new_main envs st = Some st' \<and> chain_inv st' \<and>
    nmain (g_xdag_stats st') = nmain (g_xdag_stats st) + of_nat (length envs) \<and>
    candidates st' xs = take (length (candidates st xs) - length envs) (candidates st xs) \<and>
    (\<forall>m \<in> set (drop (length (candidates st xs) - length envs) (candidates st xs)). is_main st' m) \<and>
    (\<forall>q \<in> set xs. is_main st q \<longrightarrow> is_main st' q)"
proof (induction envs arbitrary: st)
  case Nil
  then show ?case by simp
next
  case (Cons env envs)
  let ?c = "candidates st xs"
  obtain st1 where s: "check_new_main env st = Some st1" "chain_inv st1" "rx_cfg st1" "path st1 (top_main_chain st1) xs"
      "candidates st1 xs = butlast ?c" "nmain (g_xdag_stats st1) = nmain (g_xdag_stats st) + 1" "is_main st1 (last ?c)"
      "\<forall>q \<in> set xs. is_main st q \<longrightarrow> is_main st1 q"
      "\<forall>q \<in> set xs. has_flag (cell st1 q) BI_REF = has_flag (cell st q) BI_REF \<and> bi_time (cell st1 q) = bi_time (cell st q)"
    using check_new_main_step [OF Cons.prems(1-3), of env] Cons.prems(4-6) by auto
  have sub: "m \<in> set xs" if "m \<in> set ?c" for m using that by (auto simp: candidates_def dest: set_takeWhileD)
  have ne: "?c \<noteq> []" using Cons.prems(4) by auto
  have below: "length envs < length (butlast ?c)" using Cons.prems(4) by simp
  have waiting: "has_flag (cell st1 m) BI_REF" "e \<in> set envs \<Longrightarrow> bi_time (cell st1 m) + 2048 \<le> env_xtimestamp e"
    if "m \<in> set (butlast ?c)" for m e
  proof -
    have m: "m \<in> set ?c" using that by (rule in_set_butlastD)
    show "has_flag (cell st1 m) BI_REF" using Cons.prems(5) [OF m] s(9) sub [OF m] by blast
    show "bi_time (cell st1 m) + 2048 \<le> env_xtimestamp e" if "e \<in> set envs"
      using Cons.prems(6) [OF m, of e] that s(9) sub [OF m] by auto
  qed
  obtain st2 where r: "fold_opt check_new_main envs st1 = Some st2" "chain_inv st2"
      "nmain (g_xdag_stats st2) = nmain (g_xdag_stats st1) + of_nat (length envs)"
      "candidates st2 xs = take (length (butlast ?c) - length envs) (butlast ?c)"
      "\<forall>m \<in> set (drop (length (butlast ?c) - length envs) (butlast ?c)). is_main st2 m"
      "\<forall>q \<in> set xs. is_main st1 q \<longrightarrow> is_main st2 q"
    using Cons.IH [OF s(2-4), unfolded s(5), OF below waiting] by blast
  have k: "length ?c - Suc (length envs) \<le> length (butlast ?c)" using Cons.prems(4) by simp
  have "take (length ?c - Suc (length envs)) ?c = take (length ?c - Suc (length envs)) (butlast ?c)"
    "drop (length ?c - Suc (length envs)) ?c = drop (length ?c - Suc (length envs)) (butlast ?c) @ [last ?c]"
    using k append_butlast_last_id [OF ne] take_append drop_append
    by (metis append_Nil2 diff_is_0_eq take_0, metis diff_is_0_eq drop_0)
  moreover have "is_main st2 (last ?c)" using r(6) s(7) sub [OF last_in_set [OF ne]] by simp
  ultimately show ?case using s r by (auto simp: add.assoc)
qed

text \<open>
  C8: waiting blocks become main blocks.  If the blocks on the chain above the
  newest main block are referenced and old enough, each call of
  \<open>check_new_main\<close> promotes the oldest of them, in the order of the chain: after
  \<open>k\<close> calls the \<open>k\<close> oldest are main blocks and the number of main blocks has
  grown by \<open>k\<close>, until only the newest is left waiting.
\<close>

theorem waiting_blocks_become_main:
  assumes "chain_inv st" "rx_cfg st" "path st (top_main_chain st) xs"
    and "length envs < length (candidates st xs)"
    and "\<And>m. m \<in> set (candidates st xs) \<Longrightarrow> has_flag (cell st m) BI_REF"
    and "\<And>m env. m \<in> set (candidates st xs) \<Longrightarrow> env \<in> set envs \<Longrightarrow> bi_time (cell st m) + 2048 \<le> env_xtimestamp env"
  shows "\<exists>st'. fold_opt check_new_main envs st = Some st' \<and> chain_inv st' \<and>
    nmain (g_xdag_stats st') = nmain (g_xdag_stats st) + of_nat (length envs) \<and>
    candidates st' xs = take (length (candidates st xs) - length envs) (candidates st xs) \<and>
    (\<forall>m \<in> set (drop (length (candidates st xs) - length envs) (candidates st xs)). is_main st' m)"
  using progress_run [OF assms] by blast

theorem waiting_blocks_become_main_witness:
  "\<exists>st'. fold_opt check_new_main [calm_env, calm_env] three_blocks = Some st' \<and> nmain (g_xdag_stats st') = 2 \<and>
     is_main st' 1 \<and> is_main st' 0"
proof -
  have p: "path three_blocks (top_main_chain three_blocks) [2, 1, 0]"
    by (simp add: three_blocks_cells example_cell_def max_diff_parent_def pad_links_def)
  have c: "candidates three_blocks [2, 1, 0] = [2, 1, 0]"
    by (simp add: candidates_def three_blocks_cells example_cell_def has_flag_def BI_defs)
  have cfg: "rx_cfg three_blocks" by (simp add: rx_cfg_def example_defs Let_def)
  have f: "has_flag (cell three_blocks m) BI_REF" "bi_time (cell three_blocks m) + 2048 \<le> env_xtimestamp calm_env"
    if "m \<in> set [2, 1, 0]" for m
    using that by (auto simp: three_blocks_cells example_cell_def has_flag_def BI_defs calm_env_def)
  show ?thesis
    using waiting_blocks_become_main [OF three_blocks_inv cfg p, of "[calm_env, calm_env]", unfolded c] f
    by (fastforce simp: three_blocks_cells)
qed

end
