(* ===== verification/Block_Index.thy ===== *)
theory Block_Index
  imports Example_State
begin

text \<open>
  The trees keyed by hash in client/block.c.  The index of blocks is a
  red-black tree of \<open>block_internal_index\<close> nodes ordered by the first 24 bytes
  of the hash that follows the tree node in memory; the block cache is another
  tree with the same comparison.  With \<open>g_bi_index_enable\<close> off the index links
  the cells themselves instead of separate nodes; the contents compared and
  found are the same.
\<close>

section \<open>Operations\<close>

text \<open>\<open>hash_of\<close> reads the hash behind a node.\<close>

definition lessthan :: "('n \<Rightarrow> xdag_hash_t) \<Rightarrow> 'n \<Rightarrow> 'n \<Rightarrow> bool" where
  "lessthan hash_of l r \<longleftrightarrow>
     memcmp (hashlow_bytes (hashlow (hash_of l))) (hashlow_bytes (hashlow (hash_of r))) < 0"

text \<open>\<open>(struct ldus_rbtree *)hash - 1\<close>: a probe node of which only the hash is read.\<close>

fun probe_hash :: "xdag_hashlow_t \<Rightarrow> xdag_hash_t" where
  "probe_hash (a, b, c) = (a, b, c, 0)"

definition index_probe :: "xdag_hashlow_t \<Rightarrow> block_internal_index" where
  "index_probe h = \<lparr>ix_hash = probe_hash h, ix_bi = 0\<rparr>"

definition index_find :: "block_internal_index rbtree \<Rightarrow> xdag_hashlow_t \<Rightarrow> block_internal_index option" where
  "index_find t h = ldus_rbtree_find (lessthan ix_hash) t (index_probe h)"

definition block_by_hash :: "xdag_hashlow_t \<Rightarrow> xdag_state \<Rightarrow> ptr option" where
  "block_by_hash h st = map_option ix_bi (index_find (root st) h)"

definition remove_index :: "ptr \<Rightarrow> xdag_state \<Rightarrow> xdag_state" where
  "remove_index p st =
     st\<lparr>root := snd (ldus_rbtree_remove (lessthan ix_hash) (root st) (index_probe (hashlow (bi_hash (cell st p)))))\<rparr>"

text \<open>\<open>malloc_ok\<close> is whether \<open>malloc\<close> returns a node; without one the result is -1.\<close>

definition insert_index :: "bool \<Rightarrow> ptr \<Rightarrow> xdag_state \<Rightarrow> xdag_state \<times> int" where
  "insert_index malloc_ok p st =
     (if malloc_ok then
        (st\<lparr>root := snd (ldus_rbtree_insert (lessthan ix_hash) (root st)
           \<lparr>ix_hash = bi_hash (cell st p), ix_bi = p\<rparr>)\<rparr>, 0)
      else (st, - 1))"

section \<open>The order\<close>

lemma hashlow_probe [simp]: "hashlow (probe_hash h) = h" "hashlow (ix_hash (index_probe h)) = h"
  by (cases h; simp add: index_probe_def)+

interpretation hashorder: strict_weak_order "lessthan hash_of" for hash_of :: "'n \<Rightarrow> xdag_hash_t"
proof
  let ?k = "\<lambda>x. hashlow_bytes (hashlow (hash_of x))"
  show "\<not> lessthan hash_of x x" for x by (simp add: lessthan_def)
  show "lessthan hash_of x z" if "lessthan hash_of x y" "lessthan hash_of y z" for x y z
    using that memcmp_trans [of "?k x" "?k y" "?k z"] by (simp add: lessthan_def)
  show "lessthan hash_of x y \<or> lessthan hash_of y z" if "lessthan hash_of x z" for x y z
  proof (rule ccontr)
    assume n: "\<not> (lessthan hash_of x y \<or> lessthan hash_of y z)"
    then have "memcmp (?k y) (?k x) \<le> 0" "memcmp (?k z) (?k y) \<le> 0"
      using memcmp_antisym [of "?k x" "?k y"] memcmp_antisym [of "?k y" "?k z"] by (auto simp: lessthan_def)
    moreover have "memcmp (?k z) (?k x) > 0" using that memcmp_antisym [of "?k x" "?k z"] by (simp add: lessthan_def)
    ultimately show False
      using memcmp_trans [of "?k z" "?k y" "?k x"] memcmp_eq_0 [of "?k y" "?k x"] memcmp_eq_0 [of "?k z" "?k y"]
      by (cases "memcmp (?k y) (?k x) = 0"; cases "memcmp (?k z) (?k y) = 0") auto
  qed
qed

lemma same_iff: "hashorder.same hash_of x y \<longleftrightarrow> hashlow (hash_of x) = hashlow (hash_of y)"
proof -
  let ?k = "\<lambda>x. hashlow_bytes (hashlow (hash_of x))"
  have "hashorder.same hash_of x y \<longleftrightarrow> memcmp (?k x) (?k y) = 0"
    using memcmp_antisym [of "?k x" "?k y"] by (auto simp: hashorder.same_def lessthan_def)
  then show ?thesis using memcmp_eq_0 [of "?k x" "?k y"] hashlow_bytes_inj by simp
qed

section \<open>The interface the block component relies on\<close>

text \<open>
  An index of nodes by key: a lookup sees exactly the node inserted last under
  a fresh key and nothing of a removed one, and every operation keeps the
  representation valid.
\<close>

locale hash_index =
  fixes valid :: "'t \<Rightarrow> bool" and key :: "'n \<Rightarrow> 'k" and find :: "'t \<Rightarrow> 'k \<Rightarrow> 'n option"
    and ins :: "'t \<Rightarrow> 'n \<Rightarrow> 't" and del :: "'t \<Rightarrow> 'k \<Rightarrow> 't" and nil :: 't
  assumes valid_nil: "valid nil" and find_nil: "find nil k = None"
    and valid_ins: "valid t \<Longrightarrow> valid (ins t n)"
    and valid_del: "valid t \<Longrightarrow> valid (del t k)"
    and find_ins: "valid t \<Longrightarrow> find t (key n) = None \<Longrightarrow> find (ins t n) = (find t)(key n \<mapsto> n)"
    and find_del: "valid t \<Longrightarrow> find (del t k) = (find t)(k := None)"
    and find_key: "valid t \<Longrightarrow> find t k = Some n \<Longrightarrow> key n = k"
begin

text \<open>A tree represents the finite map from keys to nodes that its lookups show.\<close>

definition represents :: "'t \<Rightarrow> ('k \<rightharpoonup> 'n) \<Rightarrow> bool" where
  "represents t m \<longleftrightarrow> valid t \<and> find t = m"

lemma represents_nil: "represents nil (\<lambda>_. None)"
  by (simp add: represents_def valid_nil find_nil fun_eq_iff)

lemma represents_ins: "represents t m \<Longrightarrow> m (key n) = None \<Longrightarrow> represents (ins t n) (m(key n \<mapsto> n))"
  by (auto simp: represents_def valid_ins find_ins)

lemma represents_del: "represents t m \<Longrightarrow> represents (del t k) (m(k := None))"
  by (auto simp: represents_def valid_del find_del)

lemma reinsert:
  "represents t m \<Longrightarrow> find t k = Some n \<Longrightarrow> represents (ins (del t k) n) m"
  using represents_ins [OF represents_del, of t m k n] find_key [of t k n]
  by (auto simp: represents_def fun_upd_idem)

end

definition tree_valid :: "('n \<Rightarrow> xdag_hash_t) \<Rightarrow> 'n rbtree \<Rightarrow> bool" where
  "tree_valid hash_of t \<longleftrightarrow> hashorder.ordered hash_of t \<and> rb_inv t \<and> rbtree_color t = Black"

lemma ins_color: "rb_inv t \<Longrightarrow> rbtree_color (snd (ldus_rbtree_insert lt t n)) = rbtree_color t"
proof -
  assume "rb_inv t"
  obtain res t' where I: "ldus_rbtree_insert lt t n = (res, t')" by (cases "ldus_rbtree_insert lt t n")
  then show ?thesis using insert_post [OF \<open>rb_inv t\<close>, of lt n] by (cases t') auto
qed

lemma tree_valid_ops:
  assumes "tree_valid hash_of t"
  shows "tree_valid hash_of (snd (ldus_rbtree_insert (lessthan hash_of) t n))"
    "tree_valid hash_of (snd (ldus_rbtree_remove (lessthan hash_of) t n))"
proof -
  have t: "hashorder.ordered hash_of t" "rb_inv t" "rbtree_color t = Black" using assms by (simp_all add: tree_valid_def)
  show "tree_valid hash_of (snd (ldus_rbtree_insert (lessthan hash_of) t n))"
    using t insert_rb_inv [OF t(2), of "lessthan hash_of" n] ins_color [OF t(2), of "lessthan hash_of" n]
    by (simp add: tree_valid_def hashorder.insert_ordered)
  have "rbtree_color (snd (ldus_rbtree_remove (lessthan hash_of) t n)) = Black"
    using remove_post [OF t(2), of "lessthan hash_of" n] t(3) by (auto simp: rem_post_def split_def)
  then show "tree_valid hash_of (snd (ldus_rbtree_remove (lessthan hash_of) t n))"
    using t by (simp add: tree_valid_def hashorder.remove_ordered remove_rb_inv)
qed

text \<open>Any tree of nodes with a hash, probed through a node with the wanted hash, is such an index.\<close>

lemma tree_find_ins:
  assumes "tree_valid hash_of t" "\<And>k. hashlow (hash_of (pr k)) = k"
    and "ldus_rbtree_find (lessthan hash_of) t (pr (hashlow (hash_of n))) = None"
  shows "ldus_rbtree_find (lessthan hash_of) (snd (ldus_rbtree_insert (lessthan hash_of) t n)) (pr k) =
    (if k = hashlow (hash_of n) then Some n else ldus_rbtree_find (lessthan hash_of) t (pr k))"
proof -
  let ?t' = "snd (ldus_rbtree_insert (lessthan hash_of) t n)"
  have o: "hashorder.ordered hash_of t" using assms(1) by (simp add: tree_valid_def)
  have o': "hashorder.ordered hash_of ?t'" using o by (rule hashorder.insert_ordered)
  have fresh: "\<forall>x \<in> set (inorder t). hashlow (hash_of x) \<noteq> hashlow (hash_of n)"
    using assms(3) o by (simp add: hashorder.find_None_iff same_iff assms(2))
  have set: "set (inorder ?t') = insert n (set (inorder t))"
    using fresh hashorder.set_ins_list [of hash_of "inorder t" n] o
    by (auto simp: hashorder.inorder_insert hashorder.ordered_def same_iff)
  have "ldus_rbtree_find (lessthan hash_of) ?t' (pr k) = Some x \<longleftrightarrow>
      (if k = hashlow (hash_of n) then x = n else ldus_rbtree_find (lessthan hash_of) t (pr k) = Some x)" for x
    using fresh by (auto simp: hashorder.find_Some_iff [OF o] hashorder.find_Some_iff [OF o'] set same_iff assms(2))
  then show ?thesis by (intro option_eqI) auto
qed

lemma tree_find_del:
  assumes "tree_valid hash_of t" "\<And>k. hashlow (hash_of (pr k)) = k"
  shows "ldus_rbtree_find (lessthan hash_of) (snd (ldus_rbtree_remove (lessthan hash_of) t (pr d))) (pr k) =
    (if k = d then None else ldus_rbtree_find (lessthan hash_of) t (pr k))"
proof -
  let ?t' = "snd (ldus_rbtree_remove (lessthan hash_of) t (pr d))"
  have o: "hashorder.ordered hash_of t" using assms(1) by (simp add: tree_valid_def)
  have o': "hashorder.ordered hash_of ?t'" using o by (rule hashorder.remove_ordered)
  have set: "set (inorder ?t') = {x \<in> set (inorder t). hashlow (hash_of x) \<noteq> d}"
    using hashorder.set_del_list [of hash_of "inorder t" "pr d"] o
    by (auto simp: hashorder.inorder_remove hashorder.ordered_def same_iff assms(2))
  have "ldus_rbtree_find (lessthan hash_of) ?t' (pr k) = Some x \<longleftrightarrow>
      k \<noteq> d \<and> ldus_rbtree_find (lessthan hash_of) t (pr k) = Some x" for x
    by (auto simp: hashorder.find_Some_iff [OF o] hashorder.find_Some_iff [OF o'] set same_iff assms(2))
  then show ?thesis by (intro option_eqI) auto
qed

lemma tree_nil: "tree_valid hash_of NULL"
  by (simp add: tree_valid_def hashorder.ordered_def rb_inv_def)

interpretation bix: hash_index "tree_valid ix_hash" "\<lambda>n. hashlow (ix_hash n)" index_find
  "\<lambda>t n. snd (ldus_rbtree_insert (lessthan ix_hash) t n)"
  "\<lambda>t k. snd (ldus_rbtree_remove (lessthan ix_hash) t (index_probe k))" NULL
proof
  fix t :: "block_internal_index rbtree" and n k
  show "index_find t k = Some n \<Longrightarrow> hashlow (ix_hash n) = k" if "tree_valid ix_hash t"
    using that by (simp add: index_find_def tree_valid_def hashorder.find_Some_iff same_iff)
qed (simp_all add: index_find_def tree_nil tree_valid_ops tree_find_ins tree_find_del fun_eq_iff)

section \<open>Properties\<close>

text \<open>
  C22: refinement of the block index.  On a valid index the red-black tree code
  implements a finite map: after \<open>insert_index\<close> of a cell with a fresh hash the
  lookup \<open>block_by_hash\<close> finds that cell under its hash and every other hash as
  before, and the index stays a valid red-black tree.
\<close>

theorem insert_index_refines_map:
  assumes "tree_valid ix_hash (root st)" "block_by_hash (hashlow (bi_hash (cell st p))) st = None"
  shows "snd (insert_index True p st) = 0 \<and> tree_valid ix_hash (root (fst (insert_index True p st))) \<and>
    (\<lambda>h. block_by_hash h (fst (insert_index True p st))) =
      (\<lambda>h. block_by_hash h st)(hashlow (bi_hash (cell st p)) \<mapsto> p)"
proof -
  let ?n = "\<lparr>ix_hash = bi_hash (cell st p), ix_bi = p\<rparr>"
  have "index_find (root st) (hashlow (ix_hash ?n)) = None" using assms(2) by (simp add: block_by_hash_def)
  from bix.find_ins [OF assms(1) this] show ?thesis
    using assms(1) bix.valid_ins by (auto simp: insert_index_def block_by_hash_def)
qed

text \<open>
  C23: after \<open>remove_index\<close> of a cell its hash is no longer found, every other
  hash is found as before, and the index stays a valid red-black tree.
\<close>

theorem remove_index_refines_map:
  assumes "tree_valid ix_hash (root st)"
  shows "tree_valid ix_hash (root (remove_index p st)) \<and>
    (\<lambda>h. block_by_hash h (remove_index p st)) =
      (\<lambda>h. block_by_hash h st)(hashlow (bi_hash (cell st p)) := None)"
  using bix.find_del [OF assms, of "hashlow (bi_hash (cell st p))"] assms bix.valid_del
  by (auto simp: remove_index_def block_by_hash_def)

text \<open>A tree built from three insertions, for the witnesses.\<close>

definition example_index :: "block_internal_index rbtree" where
  "example_index = fold (\<lambda>i t. snd (ldus_rbtree_insert (lessthan ix_hash) t \<lparr>ix_hash = (of_nat i, 0, 0, 0), ix_bi = i\<rparr>))
     [1, 2, 3] NULL"

lemma example_index_valid: "tree_valid ix_hash example_index"
  by (simp add: example_index_def bix.valid_ins bix.valid_nil del: ldus_rbtree_insert.simps)

definition index_state :: "xdag_state \<Rightarrow> xdag_state" where
  "index_state st = st\<lparr>root := example_index\<rparr>"

theorem insert_index_refines_map_witness:
  "snd (insert_index True 0 (index_state three_blocks)) = 0 \<and>
   tree_valid ix_hash (root (fst (insert_index True 0 (index_state three_blocks)))) \<and>
    (\<lambda>h. block_by_hash h (fst (insert_index True 0 (index_state three_blocks)))) =
      (\<lambda>h. block_by_hash h (index_state three_blocks))
        (hashlow (bi_hash (cell (index_state three_blocks) 0)) \<mapsto> 0)"
proof (rule insert_index_refines_map)
  show "tree_valid ix_hash (root (index_state three_blocks))"
    by (simp add: index_state_def example_index_valid)
  show "block_by_hash (hashlow (bi_hash (cell (index_state three_blocks) 0))) (index_state three_blocks) = None"
    by code_simp
qed

theorem remove_index_refines_map_witness:
  "tree_valid ix_hash (root (remove_index 0 (index_state three_blocks))) \<and>
    (\<lambda>h. block_by_hash h (remove_index 0 (index_state three_blocks))) =
      (\<lambda>h. block_by_hash h (index_state three_blocks))
        (hashlow (bi_hash (cell (index_state three_blocks) 0)) := None)"
  by (rule remove_index_refines_map) (simp add: index_state_def example_index_valid)

text \<open>
  C24: after any sequence of insertions and removals from the empty tree the
  red-black invariants hold: the root is black, no red node has a red child
  (\<open>invc\<close>), all paths from a node down pass the same number of black nodes
  (\<open>invh\<close>), and the nodes are in order; hence the tree is balanced: the number
  of nodes on the longest path is at most twice the binary logarithm of the
  number of nodes plus one.
\<close>

theorem rbtree_balanced:
  fixes hash_of :: "'n \<Rightarrow> xdag_hash_t"
  defines "run \<equiv> fold (\<lambda>(add, n) t. snd ((if add then ldus_rbtree_insert else ldus_rbtree_remove) (lessthan hash_of) t n))"
  shows "rbtree_color (run ops NULL) = Black \<and> invc (run ops NULL) \<and> invh (run ops NULL) \<and>
    sorted_wrt (lessthan hash_of) (inorder (run ops NULL)) \<and>
    2 ^ (rb_height (run ops NULL) div 2) \<le> length (inorder (run ops NULL)) + 1"
proof -
  have "tree_valid hash_of (run ops t)" if "tree_valid hash_of t" for t
    using that unfolding run_def
    by (induction ops arbitrary: t) (auto simp: tree_valid_ops)
  then have v: "tree_valid hash_of (run ops NULL)" using tree_nil by blast
  then have "rb_height (run ops NULL) \<le> 2 * bheight (run ops NULL)"
    using rb_height_bheight [of "run ops NULL"] by (simp add: tree_valid_def)
  then have "(2::nat) ^ (rb_height (run ops NULL) div 2) \<le> 2 ^ bheight (run ops NULL)"
    by (intro power_increasing) auto
  also have "\<dots> \<le> length (inorder (run ops NULL)) + 1"
    using v by (intro bheight_size) (simp add: tree_valid_def rb_inv_def)
  finally show ?thesis using v by (simp add: tree_valid_def rb_inv_def hashorder.ordered_def)
qed

text \<open>
  the result codes of the tree.  \<open>ldus_rbtree_insert\<close> returns -1 exactly
  when the key is present and then leaves the contents alone;
  \<open>ldus_rbtree_remove\<close> returns -1 exactly when the key is absent.
\<close>

theorem rbtree_codes:
  "(fst (ldus_rbtree_insert lt t n) = - 1 \<longleftrightarrow> ldus_rbtree_find lt t n \<noteq> None) \<and>
   (fst (ldus_rbtree_insert lt t n) = - 1 \<longrightarrow> inorder (snd (ldus_rbtree_insert lt t n)) = inorder t) \<and>
   (fst (ldus_rbtree_remove lt t n) = - 1 \<longleftrightarrow> ldus_rbtree_find lt t n = None)"
proof -
  have "inorder (snd (ldus_rbtree_insert lt t n)) = inorder t" if "fst (ldus_rbtree_insert lt t n) = - 1"
    using that
  proof (induction t)
    case (Ptr c l x r)
    then show ?case
      by (cases "lt n x"; cases "lt x n") (simp_all add: split_def Let_def insert_balance_code)
  qed simp
  then show ?thesis using insert_code [of lt t n] remove_code [of lt t n] by simp
qed

theorem rbtree_codes_witness:
  "inorder (snd (ldus_rbtree_insert (<) (Ptr Black NULL (3::int) NULL) 3)) = [3]"
  using rbtree_codes [of "(<)" "Ptr Black NULL (3::int) NULL" 3] by simp

end
