(* ===== verification/Sha256.thy ===== *)
theory Sha256
  imports Block_Types
begin

text \<open>
  client/algorithms/sha256.c, the C code of the transform included, and the FIPS
  180-4 function it is meant to compute.  Memory is a list of bytes; a machine
  word is stored in little-endian order.  Reading a buffer past its end and a
  \<open>memset\<close> whose unsigned length wraps around are the outcome None.
\<close>

section \<open>Words in memory\<close>

definition memcpy :: "u8 list \<Rightarrow> nat \<Rightarrow> u8 list \<Rightarrow> u8 list" where
  "memcpy buf pos src = take pos buf @ src @ drop (pos + length src) buf"

definition memset :: "u8 list \<Rightarrow> nat \<Rightarrow> u8 \<Rightarrow> nat \<Rightarrow> u8 list" where
  "memset buf pos v n = memcpy buf pos (replicate n v)"

definition load32 :: "u8 list \<Rightarrow> nat \<Rightarrow> u32" where
  "load32 p i = ucast (p ! i) OR push_bit 8 (ucast (p ! (i + 1))) OR
     push_bit 16 (ucast (p ! (i + 2))) OR push_bit 24 (ucast (p ! (i + 3)))"

definition store32 :: "u32 \<Rightarrow> u8 list" where
  "store32 x = [ucast x, ucast (drop_bit 8 x), ucast (drop_bit 16 x), ucast (drop_bit 24 x)]"

definition bswap_32 :: "u32 \<Rightarrow> u32" where
  "bswap_32 x = drop_bit 24 (x AND 0xff000000) OR drop_bit 8 (x AND 0x00ff0000) OR
     push_bit 8 (x AND 0x0000ff00) OR push_bit 24 (x AND 0x000000ff)"

definition ReadBE32 :: "u8 list \<Rightarrow> nat \<Rightarrow> u32" where
  "ReadBE32 p i = bswap_32 (load32 p i)"

definition WriteBE32 :: "u32 \<Rightarrow> u8 list" where
  "WriteBE32 x = store32 (bswap_32 x)"

section \<open>The transform\<close>

definition Ch :: "u32 \<Rightarrow> u32 \<Rightarrow> u32 \<Rightarrow> u32" where "Ch x y z = z XOR (x AND (y XOR z))"
definition Maj :: "u32 \<Rightarrow> u32 \<Rightarrow> u32 \<Rightarrow> u32" where "Maj x y z = (x AND y) OR (z AND (x OR y))"
definition Sigma0 :: "u32 \<Rightarrow> u32" where
  "Sigma0 x = (drop_bit 2 x OR push_bit 30 x) XOR (drop_bit 13 x OR push_bit 19 x) XOR (drop_bit 22 x OR push_bit 10 x)"
definition Sigma1 :: "u32 \<Rightarrow> u32" where
  "Sigma1 x = (drop_bit 6 x OR push_bit 26 x) XOR (drop_bit 11 x OR push_bit 21 x) XOR (drop_bit 25 x OR push_bit 7 x)"
definition sigma0 :: "u32 \<Rightarrow> u32" where
  "sigma0 x = (drop_bit 7 x OR push_bit 25 x) XOR (drop_bit 18 x OR push_bit 14 x) XOR drop_bit 3 x"
definition sigma1 :: "u32 \<Rightarrow> u32" where
  "sigma1 x = (drop_bit 17 x OR push_bit 15 x) XOR (drop_bit 19 x OR push_bit 13 x) XOR drop_bit 10 x"

text \<open>\<open>Round\<close> returns the new values of \<open>*d\<close> and \<open>*h\<close>.\<close>

definition Round :: "u32 \<Rightarrow> u32 \<Rightarrow> u32 \<Rightarrow> u32 \<Rightarrow> u32 \<Rightarrow> u32 \<Rightarrow> u32 \<Rightarrow> u32 \<Rightarrow> u32 \<Rightarrow> u32 \<Rightarrow> u32 \<times> u32" where
  "Round a b c d e f g h k w =
     (let t1 = h + Sigma1 e + Ch e f g + k + w; t2 = Sigma0 a + Maj a b c in (d + t1, t1 + t2))"

text \<open>The constants of the 64 calls of \<open>Round\<close>, in their order, eight in a row.\<close>

definition round_constants :: "u32 list" where
  "round_constants =
     [0x428a2f98, 0x71374491, 0xb5c0fbcf, 0xe9b5dba5, 0x3956c25b, 0x59f111f1, 0x923f82a4, 0xab1c5ed5] @
     [0xd807aa98, 0x12835b01, 0x243185be, 0x550c7dc3, 0x72be5d74, 0x80deb1fe, 0x9bdc06a7, 0xc19bf174] @
     [0xe49b69c1, 0xefbe4786, 0x0fc19dc6, 0x240ca1cc, 0x2de92c6f, 0x4a7484aa, 0x5cb0a9dc, 0x76f988da] @
     [0x983e5152, 0xa831c66d, 0xb00327c8, 0xbf597fc7, 0xc6e00bf3, 0xd5a79147, 0x06ca6351, 0x14292967] @
     [0x27b70a85, 0x2e1b2138, 0x4d2c6dfc, 0x53380d13, 0x650a7354, 0x766a0abb, 0x81c2c92e, 0x92722c85] @
     [0xa2bfe8a1, 0xa81a664b, 0xc24b8b70, 0xc76c51a3, 0xd192e819, 0xd6990624, 0xf40e3585, 0x106aa070] @
     [0x19a4c116, 0x1e376c08, 0x2748774c, 0x34b0bcb5, 0x391c0cb3, 0x4ed8aa4a, 0x5b9cca4f, 0x682e6ff3] @
     [0x748f82ee, 0x78a5636f, 0x84c87814, 0x8cc70208, 0x90befffa, 0xa4506ceb, 0xbef9a3f7, 0xc67178f2]"

type_synonym sha_regs = "u32 \<times> u32 \<times> u32 \<times> u32 \<times> u32 \<times> u32 \<times> u32 \<times> u32"

text \<open>
  Eight calls of \<open>Round\<close>, after which every variable has its role again.  The
  message words are computed by the argument of the call and do not depend on
  the working variables, so a row of sixteen of them is computed first.
\<close>

fun rounds8 :: "nat \<Rightarrow> u32 list \<Rightarrow> sha_regs \<Rightarrow> sha_regs" where
  "rounds8 i w (a, b, c, d, e, f, g, h) =
     (let (d, h) = Round a b c d e f g h (round_constants ! i) (w ! (i mod 16));
          (c, g) = Round h a b c d e f g (round_constants ! (i + 1)) (w ! ((i + 1) mod 16));
          (b, f) = Round g h a b c d e f (round_constants ! (i + 2)) (w ! ((i + 2) mod 16));
          (a, e) = Round f g h a b c d e (round_constants ! (i + 3)) (w ! ((i + 3) mod 16));
          (h, d) = Round e f g h a b c d (round_constants ! (i + 4)) (w ! ((i + 4) mod 16));
          (g, c) = Round d e f g h a b c (round_constants ! (i + 5)) (w ! ((i + 5) mod 16));
          (f, b) = Round c d e f g h a b (round_constants ! (i + 6)) (w ! ((i + 6) mod 16));
          (e, a) = Round b c d e f g h a (round_constants ! (i + 7)) (w ! ((i + 7) mod 16))
      in (a, b, c, d, e, f, g, h))"

definition next_words :: "u32 list \<Rightarrow> u32 list" where
  "next_words w =
     (let w0 = w ! 0 + (sigma1 (w ! 14) + w ! 9 + sigma0 (w ! 1));
          w1 = w ! 1 + (sigma1 (w ! 15) + w ! 10 + sigma0 (w ! 2));
          w2 = w ! 2 + (sigma1 w0 + w ! 11 + sigma0 (w ! 3));
          w3 = w ! 3 + (sigma1 w1 + w ! 12 + sigma0 (w ! 4));
          w4 = w ! 4 + (sigma1 w2 + w ! 13 + sigma0 (w ! 5));
          w5 = w ! 5 + (sigma1 w3 + w ! 14 + sigma0 (w ! 6));
          w6 = w ! 6 + (sigma1 w4 + w ! 15 + sigma0 (w ! 7));
          w7 = w ! 7 + (sigma1 w5 + w0 + sigma0 (w ! 8));
          w8 = w ! 8 + (sigma1 w6 + w1 + sigma0 (w ! 9));
          w9 = w ! 9 + (sigma1 w7 + w2 + sigma0 (w ! 10));
          w10 = w ! 10 + (sigma1 w8 + w3 + sigma0 (w ! 11));
          w11 = w ! 11 + (sigma1 w9 + w4 + sigma0 (w ! 12));
          w12 = w ! 12 + (sigma1 w10 + w5 + sigma0 (w ! 13));
          w13 = w ! 13 + (sigma1 w11 + w6 + sigma0 (w ! 14));
          w14 = w ! 14 + (sigma1 w12 + w7 + sigma0 (w ! 15));
          w15 = w ! 15 + (sigma1 w13 + w8 + sigma0 w0)
      in [w0, w1, w2, w3, w4, w5, w6, w7, w8, w9, w10, w11, w12, w13, w14, w15])"

definition regs_of :: "u32 list \<Rightarrow> sha_regs" where
  "regs_of s = (s ! 0, s ! 1, s ! 2, s ! 3, s ! 4, s ! 5, s ! 6, s ! 7)"

fun add_regs :: "u32 list \<Rightarrow> sha_regs \<Rightarrow> u32 list" where
  "add_regs s (a, b, c, d, e, f, g, h) =
     [s ! 0 + a, s ! 1 + b, s ! 2 + c, s ! 3 + d, s ! 4 + e, s ! 5 + f, s ! 6 + g, s ! 7 + h]"

definition sha256_transform :: "u32 list \<Rightarrow> u8 list \<Rightarrow> u32 list" where
  "sha256_transform s chunk =
     (let w = map (\<lambda>i. ReadBE32 chunk (4 * i)) [0..<16];
          r1 = rounds8 8 w (rounds8 0 w (regs_of s));
          w1 = next_words w; r2 = rounds8 24 w1 (rounds8 16 w1 r1);
          w2 = next_words w1; r3 = rounds8 40 w2 (rounds8 32 w2 r2);
          w3 = next_words w2; r4 = rounds8 56 w3 (rounds8 48 w3 r3)
      in add_regs s r4)"

section \<open>The context\<close>

record SHA256REF_CTX =
  sha_state :: "u32 list"
  bitlen :: u32
  bitlenH :: u32
  sha_data :: "u8 list"
  datalen :: nat
  md_len :: nat

definition SHA256_BLOCK_SIZE :: nat where "SHA256_BLOCK_SIZE = 32"

definition sha256_init :: "SHA256REF_CTX \<Rightarrow> SHA256REF_CTX" where
  "sha256_init ctx = ctx
     \<lparr>datalen := 0, bitlen := 0, bitlenH := 0,
      sha_state := [0x6a09e667, 0xbb67ae85, 0x3c6ef372, 0xa54ff53a,
                    0x510e527f, 0x9b05688c, 0x1f83d9ab, 0x5be0cd19],
      md_len := SHA256_BLOCK_SIZE\<rparr>"

text \<open>
  The loop of \<open>sha256_update\<close>; \<open>off\<close> is how far the pointer \<open>data\<close> has moved
  in the caller's buffer.  It moves by 64 in every round, also when fewer bytes
  were taken.
\<close>

function sha256_update_loop :: "SHA256REF_CTX \<Rightarrow> u8 list \<Rightarrow> nat \<Rightarrow> nat \<Rightarrow> SHA256REF_CTX option" where
  "sha256_update_loop ctx data off len =
     (if len = 0 then Some ctx
      else if datalen ctx > 64 then None
      else if datalen ctx + len \<ge> 64 then
        (if off + (64 - datalen ctx) > length data then None
         else
           (let cdata = memcpy (sha_data ctx) (datalen ctx) (take (64 - datalen ctx) (drop off data)) in
            sha256_update_loop
              (ctx\<lparr>sha_data := cdata, sha_state := sha256_transform (sha_state ctx) cdata,
                   bitlen := bitlen ctx + 512, datalen := 0\<rparr>)
              data (off + 64) (len - (64 - datalen ctx))))
      else if off + len > length data then None
      else Some (ctx\<lparr>sha_data := memcpy (sha_data ctx) (datalen ctx) (take len (drop off data)),
                     datalen := datalen ctx + len\<rparr>))"
  by pat_completeness auto

termination sha256_update_loop
  by (relation "measures [\<lambda>(ctx, data, off, len). len, \<lambda>(ctx, data, off, len). datalen ctx]") auto

declare sha256_update_loop.simps [simp del]

definition sha256_update :: "SHA256REF_CTX \<Rightarrow> u8 list \<Rightarrow> nat \<Rightarrow> SHA256REF_CTX option" where
  "sha256_update ctx data len = sha256_update_loop ctx data 0 len"

text \<open>
  With 56 bytes or more in the buffer the second branch calls \<open>memset\<close> with the
  length \<open>56 - tmp_len\<close>, which is negative and wraps around to nearly
  \<open>2 ^ 32\<close>: the write runs far out of the context.
\<close>

definition sha256_final :: "SHA256REF_CTX \<Rightarrow> u8 list option" where
  "sha256_final ctx =
     (if datalen ctx < 56 then
        (let cdata = memset (memcpy (sha_data ctx) (datalen ctx) [0x80]) (datalen ctx + 1) 0 (56 - (datalen ctx + 1));
             bits = bitlen ctx + push_bit 3 (of_nat (datalen ctx));
             cdata = memcpy cdata 60 (store32 (bswap_32 bits));
             cdata = memcpy cdata 56 (store32 (bswap_32 (bitlenH ctx)));
             s = sha256_transform (sha_state ctx) cdata
         in Some (concat (map WriteBE32 (take 8 s))))
      else None)"

end
