(* ===== verification/Sha256_Spec.thy ===== *)
theory Sha256_Spec
  imports Sha256
begin

text \<open>
  The FIPS 180-4 definition of SHA-256 and the proof that the code's transform is
  its compression function and that init, update and final compute the digest of
  a padded message.
\<close>

section \<open>The standard\<close>

definition fips_Ch :: "u32 \<Rightarrow> u32 \<Rightarrow> u32 \<Rightarrow> u32" where
  "fips_Ch x y z = (x AND y) XOR (NOT x AND z)"
definition fips_Maj :: "u32 \<Rightarrow> u32 \<Rightarrow> u32 \<Rightarrow> u32" where
  "fips_Maj x y z = (x AND y) XOR (x AND z) XOR (y AND z)"
definition fips_Sigma :: "nat \<Rightarrow> nat \<Rightarrow> nat \<Rightarrow> u32 \<Rightarrow> u32" where
  "fips_Sigma i j k x = word_rotr i x XOR word_rotr j x XOR word_rotr k x"
definition fips_sigma :: "nat \<Rightarrow> nat \<Rightarrow> nat \<Rightarrow> u32 \<Rightarrow> u32" where
  "fips_sigma i j k x = word_rotr i x XOR word_rotr j x XOR drop_bit k x"

fun fips_W :: "u32 list \<Rightarrow> nat \<Rightarrow> u32" where
  "fips_W m t =
     (if t < 16 then m ! t
      else fips_sigma 17 19 10 (fips_W m (t - 2)) + fips_W m (t - 7) +
           fips_sigma 7 18 3 (fips_W m (t - 15)) + fips_W m (t - 16))"

declare fips_W.simps [simp del]

text \<open>
  The constants are the first 32 bits of the fractional parts of the cube roots of
  the first 64 primes: with the integer part of the root of p in front, k is the
  integer part of \<open>2 ^ 32\<close> times the root.
\<close>

definition primes64 :: "nat list" where
  "primes64 = [2, 3, 5, 7, 11, 13, 17, 19, 23, 29, 31, 37, 41, 43, 47, 53, 59, 61, 67, 71, 73, 79,
     83, 89, 97, 101, 103, 107, 109, 113, 127, 131, 137, 139, 149, 151, 157, 163, 167, 173, 179, 181,
     191, 193, 197, 199, 211, 223, 227, 229, 233, 239, 241, 251, 257, 263, 269, 271, 277, 281, 283,
     293, 307, 311]"

definition integer_root :: "nat \<Rightarrow> nat \<Rightarrow> nat" where
  "integer_root e p = length (takeWhile (\<lambda>n. n ^ e \<le> p) [1, 2, 3, 4, 5, 6, 7, 8, 9, 10, 11, 12, 13, 14, 15, 16, 17, 18, 19])"

definition root_fraction :: "nat \<Rightarrow> nat \<Rightarrow> nat \<Rightarrow> bool" where
  "root_fraction e p k \<longleftrightarrow>
     (let x = k + 2 ^ 32 * integer_root e p in x ^ e \<le> p * 2 ^ (32 * e) \<and> p * 2 ^ (32 * e) < (x + 1) ^ e)"

fun fips_round :: "u32 \<Rightarrow> u32 \<Rightarrow> sha_regs \<Rightarrow> sha_regs" where
  "fips_round k w (a, b, c, d, e, f, g, h) =
     (let T1 = h + fips_Sigma 6 11 25 e + fips_Ch e f g + k + w;
          T2 = fips_Sigma 2 13 22 a + fips_Maj a b c
      in (T1 + T2, a, b, c, d + T1, e, f, g))"

definition fips_compress :: "u32 list \<Rightarrow> u32 list \<Rightarrow> u32 list" where
  "fips_compress H m =
     add_regs H (fold (\<lambda>t. fips_round (round_constants ! t) (fips_W m t)) [0..<64] (regs_of H))"

definition be_word :: "u8 list \<Rightarrow> u32" where
  "be_word bs = foldl (\<lambda>n b. push_bit 8 n OR ucast b) 0 bs"

definition be_bytes :: "u32 \<Rightarrow> u8 list" where
  "be_bytes x = map (\<lambda>i. ucast (drop_bit (24 - 8 * i) x)) [0..<4]"

definition block_words :: "u8 list \<Rightarrow> u32 list" where
  "block_words chunk = map (\<lambda>i. be_word (take 4 (drop (4 * i) chunk))) [0..<16]"

function fips_digest :: "u32 list \<Rightarrow> u8 list \<Rightarrow> u32 list" where
  "fips_digest H msg =
     (if length msg < 64 then H
      else fips_digest (fips_compress H (block_words (take 64 msg))) (drop 64 msg))"
  by pat_completeness auto

termination fips_digest by (relation "measure (\<lambda>(H, msg). length msg)") auto

declare fips_digest.simps [simp del]

definition fips_pad :: "u8 list \<Rightarrow> u8 list" where
  "fips_pad msg =
     (let k = (119 - length msg mod 64) mod 64; n = 8 * length msg in
      msg @ [0x80] @ replicate k 0 @ map (\<lambda>i. of_nat (n div 256 ^ (7 - i))) [0..<8])"

definition fips_H0 :: "u32 list" where
  "fips_H0 = [0x6a09e667, 0xbb67ae85, 0x3c6ef372, 0xa54ff53a, 0x510e527f, 0x9b05688c, 0x1f83d9ab, 0x5be0cd19]"

definition sha256 :: "u8 list \<Rightarrow> u8 list" where
  "sha256 msg = concat (map be_bytes (fips_digest fips_H0 (fips_pad msg)))"

section \<open>Bitwise functions\<close>

lemma shift_rotr: "0 < n \<Longrightarrow> n < 32 \<Longrightarrow> drop_bit n (x :: u32) OR push_bit (32 - n) x = word_rotr n x"
  by (rule bit_eqI) (auto simp: bit_simps bit_word_rotr_iff mod_if add.commute [of n] dest: bit_imp_le_length)

lemma Ch_fips: "Ch x y z = fips_Ch x y z"
  by (rule bit_eqI) (auto simp: Ch_def fips_Ch_def bit_simps)

lemma Maj_fips: "Maj x y z = fips_Maj x y z"
  by (rule bit_eqI) (auto simp: Maj_def fips_Maj_def bit_simps)

lemma sigma_fips:
  "Sigma0 x = fips_Sigma 2 13 22 x" "Sigma1 x = fips_Sigma 6 11 25 x"
  "sigma0 x = fips_sigma 7 18 3 x" "sigma1 x = fips_sigma 17 19 10 x"
  using shift_rotr [of 2 x] shift_rotr [of 13 x] shift_rotr [of 22 x] shift_rotr [of 6 x]
    shift_rotr [of 11 x] shift_rotr [of 25 x] shift_rotr [of 7 x] shift_rotr [of 18 x]
    shift_rotr [of 17 x] shift_rotr [of 19 x]
  by (simp_all add: Sigma0_def Sigma1_def sigma0_def sigma1_def fips_Sigma_def fips_sigma_def)

lemmas fips_functions = Ch_fips Maj_fips sigma_fips

lemma round_constants_are_cube_roots:
  "list_all2 (\<lambda>p k. root_fraction 3 p (unat k)) primes64 round_constants"
  by (simp add: primes64_def round_constants_def root_fraction_def integer_root_def)

lemma fips_H0_square_roots:
  "list_all2 (\<lambda>p k. root_fraction 2 p (unat k)) (take 8 primes64) fips_H0"
  by (simp add: primes64_def fips_H0_def root_fraction_def integer_root_def)

section \<open>The unrolled rounds\<close>

lemma fips_round_Round:
  "fips_round k w (a, b, c, d, e, f, g, h) =
     (case Round a b c d e f g h k w of (d', h') \<Rightarrow> (h', a, b, c, d', e, f, g))"
  by (simp add: Round_def Let_def fips_functions)

lemma rounds8_fold:
  "rounds8 i w r = fold (\<lambda>t. fips_round (round_constants ! t) (w ! (t mod 16))) [i..<i + 8] r"
proof -
  have range: "[i..<i + 8] = [i, i + 1, i + 2, i + 3, i + 4, i + 5, i + 6, i + 7]"
    by (simp add: upt_rec)
  obtain a b c d e f g h where r: "r = (a, b, c, d, e, f, g, h)" by (cases r) auto
  show ?thesis
    unfolding r range
    by (simp only: rounds8.simps fold_simps fips_round_Round Let_def split: prod.split) simp
qed

lemma fold_upt_shift: "k \<le> m \<Longrightarrow> m \<le> n \<Longrightarrow> fold f [k..<n] s = fold f [m..<n] (fold f [k..<m] s)"
  by (metis comp_apply fold_append le_add_diff_inverse upt_add_eq_append)

lemma rounds16_fold:
  assumes "16 dvd i"
  shows "rounds8 (i + 8) w (rounds8 i w r) = fold (\<lambda>t. fips_round (round_constants ! t) (w ! (t - i))) [i..<i + 16] r"
proof -
  have "t mod 16 = t - i" if "t \<in> set [i..<i + 16]" for t
  proof -
    from that obtain s where "t = i + s" "s < 16" by (auto dest!: le_Suc_ex)
    then show ?thesis using assms by (auto elim!: dvdE)
  qed
  then have "fold (\<lambda>t. fips_round (round_constants ! t) (w ! (t - i))) [i..<i + 16] r =
      fold (\<lambda>t. fips_round (round_constants ! t) (w ! (t mod 16))) [i..<i + 16] r"
    by (intro fold_cong) auto
  then show ?thesis
    by (simp only: fold_upt_shift [of i "i + 8" "i + 16"] le_add1 add_le_cancel_left)
       (simp add: rounds8_fold add.assoc)
qed

section \<open>The message schedule\<close>

lemma fips_W_step:
  "fips_W m (t + 16) = fips_sigma 17 19 10 (fips_W m (t + 14)) + fips_W m (t + 9) +
     fips_sigma 7 18 3 (fips_W m (t + 1)) + fips_W m t"
  by (subst fips_W.simps) (simp add: add.commute)

definition words_from :: "u32 list \<Rightarrow> nat \<Rightarrow> u32 list" where
  "words_from m i = map (\<lambda>j. fips_W m (i + j)) [0, 1, 2, 3, 4, 5, 6, 7, 8, 9, 10, 11, 12, 13, 14, 15]"

lemma range16: "[0..<16] = [0, 1, 2, 3, 4, 5, 6, 7, 8, 9, 10, 11, 12, 13, 14, 15]"
  by code_simp

lemma next_words_from: "next_words (words_from m i) = words_from m (i + 16)"
proof -
  define V where "V = (\<lambda>j. fips_W m (i + j))"
  have step: "V j + (sigma1 (V (j + 14)) + V (j + 9) + sigma0 (V (j + 1))) = V (j + 16)" for j
    using fips_W_step [of m "i + j"] by (simp add: V_def fips_functions ac_simps)
  have step1: "V (Suc 0) + (sigma1 (V 15) + V 10 + sigma0 (V 2)) = V 17"
    using step [of 1] by (simp add: eval_nat_numeral)
  note steps = step [of 0] step [of 2] step [of 3] step [of 4] step [of 5] step [of 6] step [of 7]
    step [of 8] step [of 9] step [of 10] step [of 11] step [of 12] step [of 13] step [of 14] step [of 15]
  have words: "words_from m (i + k) = map (\<lambda>j. V (k + j)) [0, 1, 2, 3, 4, 5, 6, 7, 8, 9, 10, 11, 12, 13, 14, 15]" for k
    by (simp only: words_from_def V_def add.assoc)
  show ?thesis
    unfolding words words [of 0, simplified] next_words_def Let_def
    by (simp only: list.map nth_Cons_numeral nth_Cons_0 nth_Cons_Suc One_nat_def) (simp add: step1 steps [simplified])
qed

lemma sha256_transform_fips:
  "sha256_transform s chunk = fips_compress s (map (\<lambda>i. ReadBE32 chunk (4 * i)) [0..<16])"
proof -
  define m where "m = map (\<lambda>i. ReadBE32 chunk (4 * i)) [0..<16]"
  have "fips_W m j = m ! j" if "j < 16" for j using that by (subst fips_W.simps) simp
  then have m0: "words_from m 0 = m"
    by (intro nth_equalityI) (auto simp: words_from_def m_def nth_Cons' less_Suc_eq)
  have part: "rounds8 (i + 8) (words_from m i) (rounds8 i (words_from m i) r) =
      fold (\<lambda>t. fips_round (round_constants ! t) (fips_W m t)) [i..<i + 16] r" if "16 dvd i" for i r
  proof -
    have "words_from m i ! (t - i) = fips_W m t" if "t \<in> set [i..<i + 16]" for t
    proof -
      obtain s where "t = i + s" "s < 16" using \<open>t \<in> set [i..<i + 16]\<close> by (auto dest!: le_Suc_ex)
      then show ?thesis by (simp only: words_from_def flip: range16) simp
    qed
    then show ?thesis unfolding rounds16_fold [OF that] by (intro fold_cong) auto
  qed
  have w: "next_words m = words_from m 16" "next_words (words_from m 16) = words_from m 32"
    "next_words (words_from m 32) = words_from m 48"
    using next_words_from [of m 0] next_words_from [of m 16] next_words_from [of m 32] by (simp_all add: m0)
  have "fold f [0..<64] r = fold f [48..<64] (fold f [32..<48] (fold f [16..<32] (fold f [0..<16] r)))"
    for f :: "nat \<Rightarrow> sha_regs \<Rightarrow> sha_regs" and r
    by (simp only: fold_upt_shift [of 0 16 64 f r] fold_upt_shift [of 16 32 64 f] fold_upt_shift [of 32 48 64 f])
  moreover have "sha256_transform s chunk = add_regs s (rounds8 56 (words_from m 48) (rounds8 48 (words_from m 48)
      (rounds8 40 (words_from m 32) (rounds8 32 (words_from m 32)
      (rounds8 24 (words_from m 16) (rounds8 16 (words_from m 16)
      (rounds8 8 (words_from m 0) (rounds8 0 (words_from m 0) (regs_of s)))))))))"
    by (simp add: sha256_transform_def Let_def w m0 flip: m_def)
  ultimately show ?thesis
    using part [of 0] part [of 16] part [of 32] part [of 48] by (simp add: fips_compress_def flip: m_def)
qed

section \<open>Bytes\<close>

lemma be_word_four:
  "be_word [a, b, c, d] = push_bit 24 (ucast a) OR push_bit 16 (ucast b) OR push_bit 8 (ucast c) OR ucast d"
  by (simp add: be_word_def push_bit_or or.assoc)

lemma byte_masks:
  "(0x000000ff :: u32) = mask 8" "(0x0000ff00 :: u32) = push_bit 8 (mask 8)"
  "(0x00ff0000 :: u32) = push_bit 16 (mask 8)" "(0xff000000 :: u32) = push_bit 24 (mask 8)"
  by (simp_all add: mask_eq_exp_minus_1 push_bit_eq_mult)

lemma bit_bswap_32:
  "bit (bswap_32 x) n \<longleftrightarrow>
     (if n < 8 then bit x (n + 24) else if n < 16 then bit x (n + 8)
      else if n < 24 then bit x (n - 8) else n < 32 \<and> bit x (n - 24))"
  unfolding bswap_32_def byte_masks
  by (auto simp: bit_simps add.commute dest: bit_imp_le_length)

lemma bswap_bytes:
  fixes a b c d :: u8
  shows "bswap_32 (ucast a OR push_bit 8 (ucast b) OR push_bit 16 (ucast c) OR push_bit 24 (ucast d)) =
     push_bit 24 (ucast a) OR push_bit 16 (ucast b) OR push_bit 8 (ucast c) OR ucast d"
proof (rule bit_word_eqI)
  fix n assume "n < LENGTH(32)"
  moreover have "n < 8 \<or> (\<exists>m < 8. n = m + 8) \<or> (\<exists>m < 8. n = m + 16) \<or> (\<exists>m < 8. n = m + 24)"
    using calculation by (simp only: len_num1 len_bit0 len_bit1 ) presburger
  ultimately show "bit (bswap_32 (ucast a OR push_bit 8 (ucast b) OR push_bit 16 (ucast c) OR push_bit 24 (ucast d))) n =
     bit (push_bit 24 (ucast a) OR push_bit 16 (ucast b) OR push_bit 8 (ucast c) OR ucast d :: u32) n"
    by (elim disjE exE conjE) (auto simp: bit_bswap_32 bit_simps dest: bit_imp_le_length)
qed

lemma ReadBE32_be_word:
  assumes "i + 4 \<le> length p"
  shows "ReadBE32 p i = be_word (take 4 (drop i p))"
proof -
  have "take 4 (drop i p) = [p ! i, p ! (i + 1), p ! (i + 2), p ! (i + 3)]"
    using assms by (intro nth_equalityI) (auto simp: nth_Cons' less_Suc_eq numeral_eq_Suc)
  then show ?thesis by (simp only: be_word_four ReadBE32_def load32_def bswap_bytes)
qed

lemma WriteBE32_be_bytes: "WriteBE32 = be_bytes"
  by (rule ext)
      (simp add: WriteBE32_def store32_def be_bytes_def upt_rec,
      intro conjI; rule bit_eqI; auto simp: bit_simps bit_bswap_32 add.commute)

lemma store32_bswap: "store32 (bswap_32 x) = be_bytes x"
  by (simp flip: WriteBE32_def add: WriteBE32_be_bytes)

lemma sha256_transform_block:
  assumes "length chunk = 64"
  shows "sha256_transform s chunk = fips_compress s (block_words chunk)"
proof -
  have "map (\<lambda>i. ReadBE32 chunk (4 * i)) [0..<16] = block_words chunk"
    unfolding block_words_def using assms by (intro map_cong refl ReadBE32_be_word) auto
  then show ?thesis by (simp only: sha256_transform_fips)
qed

section \<open>Messages\<close>

lemma length_memcpy [simp]: "pos + length src \<le> length buf \<Longrightarrow> length (memcpy buf pos src) = length buf"
  by (simp add: memcpy_def)

lemma length_memset [simp]: "pos + n \<le> length buf \<Longrightarrow> length (memset buf pos v n) = length buf"
  by (simp add: memset_def)

lemma fips_digest_block:
  "length chunk = 64 \<Longrightarrow> fips_digest H (chunk @ msg) = fips_digest (fips_compress H (block_words chunk)) msg"
  by (subst fips_digest.simps) simp

lemma fips_digest_partial [simp]: "length msg < 64 \<Longrightarrow> fips_digest H msg = H"
  by (subst fips_digest.simps) simp

text \<open>The context after a message: what was digested, and the rest in the buffer.\<close>

definition holds_message :: "SHA256REF_CTX \<Rightarrow> u8 list \<Rightarrow> bool" where
  "holds_message ctx msg \<longleftrightarrow>
     (\<exists>blocks rest. msg = blocks @ rest \<and> length blocks mod 64 = 0 \<and> length rest < 64 \<and>
        sha_state ctx = fips_digest fips_H0 blocks \<and> datalen ctx = length rest \<and>
        length (sha_data ctx) = 64 \<and> take (length rest) (sha_data ctx) = rest \<and>
        bitlen ctx = of_nat (8 * length blocks) \<and> bitlenH ctx = 0)"

lemma fips_digest_append:
  "length blocks mod 64 = 0 \<Longrightarrow> fips_digest H (blocks @ msg) = fips_digest (fips_digest H blocks) msg"
proof (induction H blocks rule: fips_digest.induct)
  case (1 H blocks)
  show ?case
  proof (cases "blocks = []")
    case False
    then have "64 \<le> length blocks" using 1(2) by (metis length_0_conv mod_less not_le)
    then show ?thesis
      using 1 fips_digest_block [of "take 64 blocks" H "drop 64 blocks"]
        fips_digest_block [of "take 64 blocks" H "drop 64 blocks @ msg"]
      by (simp add: mod_if flip: append_assoc)
  qed simp
qed

lemma holds_message_init: "length (sha_data ctx) = 64 \<Longrightarrow> holds_message (sha256_init ctx) []"
  by (simp add: holds_message_def sha256_init_def fips_H0_def)

lemma holds_message_full:
  assumes "holds_message ctx msg" "datalen ctx + length src = 64"
    and "cdata = memcpy (sha_data ctx) (datalen ctx) src"
  shows "holds_message (ctx\<lparr>sha_data := cdata, sha_state := sha256_transform (sha_state ctx) cdata,
           bitlen := bitlen ctx + 512, datalen := 0\<rparr>) (msg @ src)"
proof -
  obtain blocks rest where m: "msg = blocks @ rest" "length blocks mod 64 = 0" "length rest < 64"
    "sha_state ctx = fips_digest fips_H0 blocks" "datalen ctx = length rest"
    "length (sha_data ctx) = 64" "take (length rest) (sha_data ctx) = rest"
    "bitlen ctx = of_nat (8 * length blocks)" "bitlenH ctx = 0"
    using assms(1) by (auto simp: holds_message_def)
  have c: "cdata = rest @ src" using m assms by (simp add: memcpy_def)
  have "fips_digest fips_H0 (blocks @ rest @ src) = sha256_transform (sha_state ctx) cdata"
    using m assms c fips_digest_append [of blocks fips_H0 "rest @ src"]
      fips_digest_block [of "rest @ src" _ "[]"] by (simp add: sha256_transform_block)
  moreover have "bitlen ctx + 512 = of_nat (8 * length (blocks @ rest @ src))"
    using m assms by simp
  moreover have "length (blocks @ rest @ src) mod 64 = 0"
    using m assms by (simp add: mod_add_eq [symmetric])
  ultimately show ?thesis
    using m c assms(2) unfolding holds_message_def
    by (intro exI [of _ "blocks @ rest @ src"] exI [of _ "[]"]) simp
qed

lemma holds_message_part:
  assumes "holds_message ctx msg" "datalen ctx + length src < 64"
  shows "holds_message (ctx\<lparr>sha_data := memcpy (sha_data ctx) (datalen ctx) src,
           datalen := datalen ctx + length src\<rparr>) (msg @ src)"
proof -
  obtain blocks rest where m: "msg = blocks @ rest" "length blocks mod 64 = 0" "length rest < 64"
    "sha_state ctx = fips_digest fips_H0 blocks" "datalen ctx = length rest"
    "length (sha_data ctx) = 64" "take (length rest) (sha_data ctx) = rest"
    "bitlen ctx = of_nat (8 * length blocks)" "bitlenH ctx = 0"
    using assms(1) by (auto simp: holds_message_def)
  then have "take (length (rest @ src)) (memcpy (sha_data ctx) (datalen ctx) src) = rest @ src"
    using assms(2) by (simp add: memcpy_def)
  then show ?thesis
    using m assms(2) unfolding holds_message_def
    by (intro exI [of _ blocks] exI [of _ "rest @ src"]) simp
qed

lemma sha256_update_loop_aligned:
  assumes "holds_message ctx msg" "datalen ctx = 0" "off \<le> length data"
  shows "\<exists>ctx'. sha256_update_loop ctx data off (length data - off) = Some ctx' \<and>
           holds_message ctx' (msg @ drop off data)"
  using assms
proof (induction "length data - off" arbitrary: ctx msg off rule: less_induct)
  case less
  show ?case
  proof (cases "length data - off \<ge> 64")
    case True
    let ?src = "take 64 (drop off data)"
    let ?c = "memcpy (sha_data ctx) 0 ?src"
    let ?ctx = "ctx\<lparr>sha_data := ?c, sha_state := sha256_transform (sha_state ctx) ?c, bitlen := bitlen ctx + 512, datalen := 0\<rparr>"
    have off: "off + 64 \<le> length data" "length data - (off + 64) < length data - off" using True by auto
    have "holds_message ?ctx (msg @ ?src)"
      using holds_message_full [of ctx msg ?src ?c] less.prems True by simp
    then obtain ctx' where "sha256_update_loop ?ctx data (off + 64) (length data - (off + 64)) = Some ctx'"
      "holds_message ctx' ((msg @ ?src) @ drop (off + 64) data)"
      using less.hyps [OF off(2) _ _ off(1), of ?ctx "msg @ ?src"] by auto
    moreover have "?src @ drop (off + 64) data = drop off data"
      by (metis add.commute append_take_drop_id drop_drop)
    moreover have "sha256_update_loop ctx data off (length data - off) =
        sha256_update_loop ?ctx data (off + 64) (length data - (off + 64))"
      using True less.prems off by (subst sha256_update_loop.simps) (simp add: Let_def)
    ultimately show ?thesis by simp
  next
    case False
    then show ?thesis
      using less.prems holds_message_part [of ctx msg "drop off data"]
      by (subst sha256_update_loop.simps) auto
  qed
qed

lemma sha256_update_aligned:
  assumes "holds_message ctx msg" "datalen ctx = 0"
  shows "\<exists>ctx'. sha256_update ctx data (length data) = Some ctx' \<and> holds_message ctx' (msg @ data)"
  using sha256_update_loop_aligned [OF assms, of 0 data] by (simp add: sha256_update_def)

lemma sha256_update_part:
  assumes "holds_message ctx msg" "datalen ctx + length data \<le> 64"
  shows "\<exists>ctx'. sha256_update ctx data (length data) = Some ctx' \<and> holds_message ctx' (msg @ data)"
proof (cases "datalen ctx + length data = 64")
  case True
  have "datalen ctx < 64" using assms(1) by (auto simp: holds_message_def)
  then have "data \<noteq> []" "length data = 64 - datalen ctx" "\<not> 64 \<le> datalen ctx" using True by auto
  then show ?thesis
    using holds_message_full [OF assms(1) True refl] True
    by (subst sha256_update_def, subst sha256_update_loop.simps) (simp add: Let_def sha256_update_loop.simps)
next
  case False
  then show ?thesis
    using holds_message_part [OF assms(1), of data] assms
    by (subst sha256_update_def, subst sha256_update_loop.simps) auto
qed

text \<open>After a message whose length is a multiple of the block size the buffer is empty.\<close>

lemma holds_message_datalen: "holds_message ctx msg \<Longrightarrow> datalen ctx = length msg mod 64"
  by (auto simp: holds_message_def mod_add_eq [symmetric])

lemma bit_nat_less: "bit (n :: nat) m \<Longrightarrow> n < 2 ^ k \<Longrightarrow> m < k"
  by (rule ccontr) (auto simp: bit_iff_odd not_less dest!: le_Suc_ex order.strict_trans2 [OF _ power_increasing [of k m 2]])

lemma of_nat_byte_of_word:
  "n < 2 ^ 32 \<Longrightarrow> (of_nat (n div 2 ^ k) :: u8) = ucast (drop_bit k (of_nat n :: u32))"
  by (rule bit_word_eqI) (auto simp: bit_simps dest: bit_nat_less [of _ _ 32] simp flip: drop_bit_eq_div)

lemma length_bytes_small:
  assumes "n < 2 ^ 32"
  shows "map (\<lambda>i. of_nat (n div 256 ^ (7 - i))) [0..<8] = replicate 4 0 @ be_bytes (of_nat n)"
proof -
  have r: "[0..<8] = [0, 1, 2, 3, 4, 5, 6, 7]" "[0..<4] = [0, 1, 2, 3]" by code_simp+
  have "replicate 4 (0 :: u8) = [0, 0, 0, 0]" by (simp add: numeral_eq_Suc)
  moreover have "n < 2 ^ 56" "n < 2 ^ 48" "n < 2 ^ 40" using assms by simp_all
  ultimately show ?thesis
    unfolding r be_bytes_def
    using assms of_nat_byte_of_word [OF assms, of 24] of_nat_byte_of_word [OF assms, of 16]
      of_nat_byte_of_word [OF assms, of 8] of_nat_byte_of_word [OF assms, of 0] by simp
qed

lemma length_be_bytes [simp]: "length (be_bytes x) = 4"
  by (simp add: be_bytes_def)

lemma length_add_regs: "length (add_regs s r) = 8"
  by (cases "(s, r)" rule: add_regs.cases) simp

lemma length_sha256_transform: "length (sha256_transform s c) = 8"
  by (simp only: sha256_transform_def Let_def length_add_regs)

lemma sha256_final_correct:
  assumes "holds_message ctx msg" "length msg mod 64 < 56" "8 * length msg < 2 ^ 32"
  shows "sha256_final ctx = Some (sha256 msg)"
proof -
  obtain blocks rest where m: "msg = blocks @ rest" "length blocks mod 64 = 0" "length rest < 64"
    "sha_state ctx = fips_digest fips_H0 blocks" "datalen ctx = length rest"
    "length (sha_data ctx) = 64" "take (length rest) (sha_data ctx) = rest"
    "bitlen ctx = of_nat (8 * length blocks)" "bitlenH ctx = 0"
    using assms(1) by (auto simp: holds_message_def)
  have r: "length msg mod 64 = length rest" "length rest < 56"
    using holds_message_datalen [OF assms(1)] assms(2) m by auto
  let ?tail = "rest @ [0x80] @ replicate (55 - length rest) 0 @ replicate 4 0 @ be_bytes (of_nat (8 * length msg))"
  have k: "(119 - length rest) mod 64 = 55 - length rest" using r by (simp add: mod_if)
  have pad: "fips_pad msg = blocks @ ?tail"
    by (simp only: fips_pad_def Let_def r k length_bytes_small [OF assms(3)]) (simp add: m)
  have len: "length ?tail = 64" using r by (simp add: be_bytes_def)
  have bits: "bitlen ctx + push_bit 3 (of_nat (datalen ctx)) = of_nat (8 * length msg)"
    by (simp add: m push_bit_eq_mult algebra_simps)
  have "fips_digest fips_H0 (fips_pad msg) = sha256_transform (sha_state ctx) ?tail"
    unfolding pad fips_digest_append [OF m(2)] sha256_transform_block [OF len] m(4)
    using fips_digest_block [OF len, of _ "[]"] by (simp only: append_Nil2) simp
  moreover have "memcpy (memcpy (memset (memcpy (sha_data ctx) (datalen ctx) [0x80]) (datalen ctx + 1) 0
      (56 - (datalen ctx + 1))) 60 (be_bytes (of_nat (8 * length msg)))) 56 (be_bytes 0) = ?tail"
  proof -
    have n: "56 - length rest = Suc (55 - length rest)" using r by simp
    have z: "replicate 4 0 = be_bytes 0" by (simp add: be_bytes_def map_replicate_const)
    have d: "datalen ctx = length rest" "length rest + 1 \<le> 56" using m r by auto
    obtain x where x: "sha_data ctx = rest @ x" "length x = 64 - length rest"
      using m by (metis append_take_drop_id length_drop)
    then show ?thesis
      unfolding z d using d(2) n by (simp add: memset_def memcpy_def)
  qed
  moreover have "take 8 (sha256_transform s c) = sha256_transform s c" for s c
    by (simp only: take_all_iff length_sha256_transform order_refl)
  ultimately show ?thesis
    using m r unfolding sha256_final_def Let_def bits
    by (simp add: sha256_def store32_bswap WriteBE32_be_bytes)
qed

end
