(* ===== verification/Hash.thy ===== *)
theory Hash
  imports Sha256_Spec
begin

text \<open>
  client/hash.c: the block hash (SHA-256 applied twice), the hash of a context
  extended by a nonce, and the search for the nonce with the least hash, in its
  plain form and in the form that hashes eight nonces at once.  The argument
  \<open>ctx\<close> of the functions with a local context is its uninitialised content.
\<close>

section \<open>Model\<close>

definition hash_of_bytes :: "u8 list \<Rightarrow> xdag_hash_t" where
  "hash_of_bytes bs =
     (bytes_u64 (take 8 bs), bytes_u64 (take 8 (drop 8 bs)), bytes_u64 (take 8 (drop 16 bs)), bytes_u64 (take 8 (drop 24 bs)))"

text \<open>The two digests that end every block hash, shared by the functions below.\<close>

definition hash_again :: "SHA256REF_CTX \<Rightarrow> xdag_hash_t option" where
  "hash_again ctx =
     do {
       hash \<leftarrow> sha256_final ctx;
       ctx \<leftarrow> sha256_update (sha256_init ctx) hash 32;
       hash \<leftarrow> sha256_final ctx;
       Some (hash_of_bytes hash)
     }"

definition xdag_hash :: "SHA256REF_CTX \<Rightarrow> u8 list \<Rightarrow> nat \<Rightarrow> xdag_hash_t option" where
  "xdag_hash ctx data len = do { ctx \<leftarrow> sha256_update (sha256_init ctx) data len; hash_again ctx }"

definition xdag_hash_init :: "SHA256REF_CTX \<Rightarrow> SHA256REF_CTX" where
  "xdag_hash_init ctxv = sha256_init ctxv"

definition xdag_hash_update :: "SHA256REF_CTX \<Rightarrow> u8 list \<Rightarrow> nat \<Rightarrow> SHA256REF_CTX option" where
  "xdag_hash_update ctxv data len = sha256_update ctxv data len"

definition xdag_hash_final :: "SHA256REF_CTX \<Rightarrow> u8 list \<Rightarrow> nat \<Rightarrow> xdag_hash_t option" where
  "xdag_hash_final ctxv data len = do { ctx \<leftarrow> sha256_update ctxv data len; hash_again ctx }"

text \<open>State of the search: the next nonce, the best hash and its nonce, the round.\<close>

fun final_multi_loop ::
  "SHA256REF_CTX \<Rightarrow> u64 \<Rightarrow> nat \<Rightarrow> nat \<Rightarrow> u64 \<times> xdag_hash_t \<times> u64 \<Rightarrow> (u64 \<times> xdag_hash_t \<times> u64) option" where
  "final_multi_loop ctxv step 0 i s = Some s"
| "final_multi_loop ctxv step (Suc n) i (nonce, hash, min_nonce) =
     do {
       ctx \<leftarrow> sha256_update ctxv (u64_bytes nonce) 8;
       hash0 \<leftarrow> hash_again ctx;
       final_multi_loop ctxv step n (Suc i)
         (if i = 0 \<or> xdag_cmphash hash0 hash < 0 then (nonce + step, hash0, nonce)
          else (nonce + step, hash, min_nonce))
     }"

definition xdag_hash_final_multi ::
  "SHA256REF_CTX \<Rightarrow> u64 \<Rightarrow> nat \<Rightarrow> u64 \<Rightarrow> xdag_hash_t \<Rightarrow> (u64 \<times> xdag_hash_t \<times> u64) option" where
  "xdag_hash_final_multi ctxv nonce attempts step hash =
     final_multi_loop ctxv step attempts 0 (nonce, hash, 0)"

text \<open>
  The variant with \<open>SHA256_OPENSSL_MBLOCK\<close>.  \<open>xsha256_multi_block\<close> is
  OpenSSL's: it takes the chaining state and the blocks of every lane and
  returns the states of the lanes.  A lane of \<open>array1\<close> is the end of the padded
  64-byte multiple message, a lane of \<open>array2\<close> the padded first digest.
\<close>

definition mb_array1 :: "SHA256REF_CTX \<Rightarrow> u8 list" where
  "mb_array1 ctx1 =
     (memcpy (memset (replicate 128 0) 0 0 128) 0 (take 56 (sha_data ctx1)))[64 := 0x80, 126 := 0x10]"

definition mb_array2 :: "u8 list" where
  "mb_array2 = (memset (replicate 64 0) 0 0 64)[32 := 0x80, 62 := 1]"

definition mb_nonces :: "u64 \<Rightarrow> u64 \<Rightarrow> u64 list" where
  "mb_nonces step nonce = map (\<lambda>i. nonce + of_nat i * step) [0..<8]"

definition mb_hashes ::
  "((u32 list \<times> u8 list) list \<Rightarrow> u32 list list) \<Rightarrow> SHA256REF_CTX \<Rightarrow> u64 \<Rightarrow> u64 \<Rightarrow> xdag_hash_t list" where
  "mb_hashes multi_block ctxv step nonce =
     (let first = multi_block (map (\<lambda>n. (sha_state ctxv, memcpy (mb_array1 ctxv) 56 (u64_bytes n))) (mb_nonces step nonce));
          second = multi_block (map (\<lambda>s. (sha_state (sha256_init ctxv), memcpy mb_array2 0 (concat (map WriteBE32 (take 8 s))))) first)
      in map (\<lambda>s. hash_of_bytes (concat (map WriteBE32 (take 8 s)))) second)"

fun mb_scan :: "u64 \<Rightarrow> bool \<Rightarrow> xdag_hash_t list \<Rightarrow> u64 \<times> xdag_hash_t \<times> u64 \<Rightarrow> u64 \<times> xdag_hash_t \<times> u64" where
  "mb_scan step fst_round [] s = s"
| "mb_scan step fst_round (hash0 # hs) (nonce0, hash, min_nonce) =
     mb_scan step False hs
       (if fst_round \<or> xdag_cmphash hash0 hash < 0 then (nonce0 + step, hash0, nonce0)
        else (nonce0 + step, hash, min_nonce))"

fun final_multi_mb_loop ::
  "((u32 list \<times> u8 list) list \<Rightarrow> u32 list list) \<Rightarrow> SHA256REF_CTX \<Rightarrow> u64 \<Rightarrow> nat \<Rightarrow> bool \<Rightarrow>
   u64 \<times> xdag_hash_t \<times> u64 \<Rightarrow> u64 \<times> xdag_hash_t \<times> u64" where
  "final_multi_mb_loop multi_block ctxv step 0 fst_round s = s"
| "final_multi_mb_loop multi_block ctxv step (Suc n) fst_round (nonce, hash, min_nonce) =
     final_multi_mb_loop multi_block ctxv step n False
       (mb_scan step fst_round (mb_hashes multi_block ctxv step nonce) (nonce, hash, min_nonce))"

definition xdag_hash_final_multi_mb ::
  "((u32 list \<times> u8 list) list \<Rightarrow> u32 list list) \<Rightarrow> SHA256REF_CTX \<Rightarrow> u64 \<Rightarrow> nat \<Rightarrow> u64 \<Rightarrow> xdag_hash_t \<Rightarrow>
   u64 \<times> xdag_hash_t \<times> u64" where
  "xdag_hash_final_multi_mb multi_block ctxv nonce attempts step hash =
     final_multi_mb_loop multi_block ctxv step ((attempts + 7) div 8) True (nonce, hash, 0)"

text \<open>A \<open>memcpy\<close> between the eight 32-bit state words and four 64-bit words.\<close>

definition xdag_hash_get_state :: "SHA256REF_CTX \<Rightarrow> xdag_hash_t" where
  "xdag_hash_get_state ctxv = hash_of_bytes (concat (map store32 (take 8 (sha_state ctxv))))"

definition xdag_hash_set_state :: "SHA256REF_CTX \<Rightarrow> xdag_hash_t \<Rightarrow> nat \<Rightarrow> SHA256REF_CTX" where
  "xdag_hash_set_state ctxv st len = ctxv
     \<lparr>sha_state := map (\<lambda>i. load32 (hash_bytes st) (4 * i)) [0..<8],
      datalen := 0, bitlen := of_nat (8 * len), bitlenH := 0, md_len := SHA256_BLOCK_SIZE\<rparr>"

definition xdag_rx_pre_hash :: "SHA256REF_CTX \<Rightarrow> u8 list \<Rightarrow> nat \<Rightarrow> xdag_hash_t option" where
  "xdag_rx_pre_hash ctx data len =
     do { ctx \<leftarrow> sha256_update (sha256_init ctx) data len; hash \<leftarrow> sha256_final ctx; Some (hash_of_bytes hash) }"

section \<open>The block hash\<close>

definition double_sha256 :: "u8 list \<Rightarrow> xdag_hash_t" where
  "double_sha256 msg = hash_of_bytes (sha256 (sha256 msg))"

text \<open>Messages the context can finish: no second padding block, and a length below \<open>2 ^ 32\<close> bits.\<close>

definition hashable :: "u8 list \<Rightarrow> bool" where
  "hashable msg \<longleftrightarrow> length msg mod 64 < 56 \<and> 8 * length msg < 2 ^ 32"

lemma length_fips_digest: "length H = 8 \<Longrightarrow> length (fips_digest H msg) = 8"
proof (induction H msg rule: fips_digest.induct)
  case (1 H msg)
  then show ?case
    by (subst fips_digest.simps) (simp add: fips_compress_def length_add_regs)
qed

lemma length_sha256 [simp]: "length (sha256 msg) = 32"
  by (simp add: sha256_def length_concat comp_def length_fips_digest fips_H0_def sum_list_triv)

lemma holds_message_length: "holds_message ctx msg \<Longrightarrow> length (sha_data ctx) = 64"
  by (auto simp: holds_message_def)

lemma sha256_init_datalen [simp]: "datalen (sha256_init ctx) = 0"
  by (simp add: sha256_init_def)

lemma hash_again_correct:
  assumes "holds_message ctx msg" "hashable msg"
  shows "hash_again ctx = Some (double_sha256 msg)"
proof -
  have f: "sha256_final ctx = Some (sha256 msg)"
    using sha256_final_correct assms by (simp add: hashable_def)
  obtain ctx' where c: "sha256_update (sha256_init ctx) (sha256 msg) 32 = Some ctx'" "holds_message ctx' (sha256 msg)"
    using sha256_update_aligned [OF holds_message_init [OF holds_message_length [OF assms(1)]], of "sha256 msg"] by auto
  then have "sha256_final ctx' = Some (sha256 (sha256 msg))"
    using sha256_final_correct by simp
  then show ?thesis using f c by (simp add: hash_again_def double_sha256_def)
qed

text \<open>
  C29: \<open>xdag_hash\<close> is SHA-256 as FIPS 180-4 defines it, applied twice, whatever
  the uninitialised context holds, for every message whose length is below
  \<open>2 ^ 29\<close> bytes and leaves at most 55 bytes in the last block.
\<close>

theorem xdag_hash_is_double_sha256:
  assumes "hashable msg" and "length (sha_data ctx) = 64"
  shows "xdag_hash ctx msg (length msg) = Some (hash_of_bytes (sha256 (sha256 msg)))"
  using sha256_update_aligned [OF holds_message_init [OF assms(2)], of msg] hash_again_correct assms
  by (auto simp: xdag_hash_def double_sha256_def)

definition zero_ctx :: SHA256REF_CTX where
  "zero_ctx = \<lparr>sha_state = replicate 8 0, bitlen = 0, bitlenH = 0, sha_data = replicate 64 0, datalen = 0, md_len = 0\<rparr>"

theorem xdag_hash_is_double_sha256_witness:
  "xdag_hash zero_ctx (replicate 512 1) 512 = Some (hash_of_bytes (sha256 (sha256 (replicate 512 1))))"
  using xdag_hash_is_double_sha256 [of "replicate 512 1" zero_ctx] by (simp add: hashable_def zero_ctx_def)

section \<open>The nonce search\<close>

lemma cmp_words_rev_trans:
  "length a = length b \<Longrightarrow> length b = length c \<Longrightarrow> cmp_words_rev a b < 0 \<Longrightarrow> cmp_words_rev b c < 0 \<Longrightarrow>
   cmp_words_rev a c < 0"
proof (induction a b arbitrary: c rule: cmp_words_rev.induct)
  case (1 l ls r rs)
  then obtain x xs where "c = x # xs" by (cases c) auto
  with 1 show ?case by (auto split: if_splits)
qed auto

lemma cmp_words_rev_neg_trans:
  "length a = length b \<Longrightarrow> length b = length c \<Longrightarrow> cmp_words_rev a b < 0 \<Longrightarrow> \<not> cmp_words_rev c b < 0 \<Longrightarrow>
   cmp_words_rev a c < 0"
proof (induction a b arbitrary: c rule: cmp_words_rev.induct)
  case (1 l ls r rs)
  then obtain x xs where "c = x # xs" by (cases c) auto
  with 1 show ?case by (auto split: if_splits)
qed auto

lemma length_hash_words [simp]: "length (hash_words h) = 4"
  by (cases h) simp

lemma xdag_cmphash_trans: "xdag_cmphash a b < 0 \<Longrightarrow> xdag_cmphash b c < 0 \<Longrightarrow> xdag_cmphash a c < 0"
  unfolding xdag_cmphash_def by (rule cmp_words_rev_trans [of _ "rev (hash_words b)"]) auto

lemma xdag_cmphash_neg_trans: "xdag_cmphash a b < 0 \<Longrightarrow> \<not> xdag_cmphash c b < 0 \<Longrightarrow> xdag_cmphash a c < 0"
  unfolding xdag_cmphash_def by (rule cmp_words_rev_neg_trans [of _ "rev (hash_words b)"]) auto

lemma xdag_cmphash_refl [simp]: "xdag_cmphash a a = 0"
proof -
  have "cmp_words_rev xs xs = 0" for xs by (induction xs) auto
  then show ?thesis by (simp add: xdag_cmphash_def)
qed

text \<open>The hash of a prefix with a nonce, and the step of the search on a list of hashes.\<close>

definition nonce_hash :: "u8 list \<Rightarrow> u64 \<Rightarrow> xdag_hash_t" where
  "nonce_hash msg nonce = double_sha256 (msg @ u64_bytes nonce)"

definition least_upto :: "(nat \<Rightarrow> xdag_hash_t) \<Rightarrow> nat \<Rightarrow> nat \<Rightarrow> bool" where
  "least_upto h n i \<longleftrightarrow> i < n \<and> (\<forall>j < n. \<not> xdag_cmphash (h j) (h i) < 0) \<and> (\<forall>j < i. xdag_cmphash (h i) (h j) < 0)"

lemma least_upto_Suc:
  assumes "least_upto h n i"
  shows "least_upto h (Suc n) (if xdag_cmphash (h n) (h i) < 0 then n else i)"
  using assms by (auto simp: least_upto_def less_Suc_eq dest: xdag_cmphash_trans xdag_cmphash_neg_trans)

lemma least_upto_first: "least_upto h (Suc 0) 0"
  by (simp add: least_upto_def)

lemma nonce_hash_step:
  assumes "holds_message ctxv msg" "datalen ctxv + 8 \<le> 64" "hashable (msg @ u64_bytes 0)"
  shows "do { ctx \<leftarrow> sha256_update ctxv (u64_bytes n) 8; hash_again ctx } = Some (nonce_hash msg n)"
proof -
  have "hashable (msg @ u64_bytes n)" using assms(3) by (simp add: hashable_def)
  then show ?thesis
    using sha256_update_part [OF assms(1), of "u64_bytes n"] assms(2) hash_again_correct
    by (auto simp: nonce_hash_def)
qed

lemma final_multi_loop_least:
  assumes c: "holds_message ctxv msg" "datalen ctxv + 8 \<le> 64" "hashable (msg @ u64_bytes 0)"
    and "least_upto (\<lambda>i. nonce_hash msg (nonce + of_nat i * step)) k i" "0 < k"
  shows "\<exists>m. final_multi_loop ctxv step n k
        (nonce + of_nat k * step, nonce_hash msg (nonce + of_nat i * step), nonce + of_nat i * step) =
      Some (nonce + of_nat (k + n) * step, nonce_hash msg (nonce + of_nat m * step), nonce + of_nat m * step) \<and>
      least_upto (\<lambda>i. nonce_hash msg (nonce + of_nat i * step)) (k + n) m"
  using assms(4,5)
proof (induction n arbitrary: k i)
  case (Suc n)
  let ?h = "\<lambda>i. nonce_hash msg (nonce + of_nat i * step)"
  let ?i = "if xdag_cmphash (?h k) (?h i) < 0 then k else i"
  have step: "sha256_update ctxv (u64_bytes (nonce + of_nat k * step)) 8 \<bind> hash_again = Some (?h k)"
    using nonce_hash_step [OF c, of "nonce + of_nat k * step"] by simp
  then obtain ctx where "sha256_update ctxv (u64_bytes (nonce + of_nat k * step)) 8 = Some ctx"
    "hash_again ctx = Some (?h k)"
    by (auto simp: bind_eq_Some_conv)
  then have "final_multi_loop ctxv step (Suc n) k (nonce + of_nat k * step, ?h i, nonce + of_nat i * step) =
      final_multi_loop ctxv step n (Suc k) (nonce + of_nat (Suc k) * step, ?h ?i, nonce + of_nat ?i * step)"
    using Suc.prems by (simp add: algebra_simps)
  then show ?case
    using Suc.IH [of "Suc k" ?i] least_upto_Suc [OF Suc.prems(1)] by simp
qed auto

text \<open>
  C30: for at least one attempt \<open>xdag_hash_final_multi\<close> returns the first nonce
  with the least hash: one of the nonces it tried, with the block hash of the
  message extended by it; no nonce it tried has a smaller hash, every nonce it
  tried before has a larger one, and the caller's nonce has moved on by the
  number of attempts.
\<close>

theorem xdag_hash_final_multi_least:
  assumes "sha256_update (sha256_init ctx) msg (length msg) = Some ctxv" "length (sha_data ctx) = 64"
    and "length msg mod 64 \<le> 56" "hashable (msg @ u64_bytes 0)" "0 < attempts"
  shows "\<exists>i < attempts.
      xdag_hash_final_multi ctxv nonce attempts step hash =
        Some (nonce + of_nat attempts * step, nonce_hash msg (nonce + of_nat i * step), nonce + of_nat i * step) \<and>
      (\<forall>j < attempts. \<not> xdag_cmphash (nonce_hash msg (nonce + of_nat j * step)) (nonce_hash msg (nonce + of_nat i * step)) < 0) \<and>
      (\<forall>j < i. xdag_cmphash (nonce_hash msg (nonce + of_nat i * step)) (nonce_hash msg (nonce + of_nat j * step)) < 0)"
proof -
  obtain n where n: "attempts = Suc n" using assms(5) by (cases attempts) auto
  have c: "holds_message ctxv msg"
    using sha256_update_aligned [OF holds_message_init [OF assms(2)], of msg] assms(1) by simp
  then have d: "datalen ctxv + 8 \<le> 64" using holds_message_datalen assms(3) by simp
  obtain ctx' where "sha256_update ctxv (u64_bytes nonce) 8 = Some ctx'" "hash_again ctx' = Some (nonce_hash msg nonce)"
    using nonce_hash_step [OF c d assms(4), of nonce] by (auto simp: bind_eq_Some_conv)
  then have "xdag_hash_final_multi ctxv nonce attempts step hash =
      final_multi_loop ctxv step n 1 (nonce + step, nonce_hash msg nonce, nonce)"
    by (simp add: xdag_hash_final_multi_def n)
  then show ?thesis
    using final_multi_loop_least [OF c d assms(4), of nonce step 1 0 n] least_upto_first n
    by (auto simp: least_upto_def)
qed

lemma zero_ctx_update:
  "\<exists>ctxv. sha256_update (sha256_init zero_ctx) msg (length msg) = Some ctxv"
  using sha256_update_aligned [OF holds_message_init [of zero_ctx], of msg] by (auto simp: zero_ctx_def)

theorem xdag_hash_final_multi_least_witness:
  "\<exists>ctxv. sha256_update (sha256_init zero_ctx) (replicate 504 0) 504 = Some ctxv \<and>
     (\<exists>i < 2. xdag_hash_final_multi ctxv 5 2 1 (0, 0, 0, 0) =
        Some (5 + of_nat 2 * 1, nonce_hash (replicate 504 0) (5 + of_nat i * 1), 5 + of_nat i * 1))"
proof -
  obtain ctxv where c: "sha256_update (sha256_init zero_ctx) (replicate 504 0) 504 = Some ctxv"
    using zero_ctx_update [of "replicate 504 0"] by auto
  then show ?thesis
    using xdag_hash_final_multi_least [of zero_ctx "replicate 504 0" ctxv 2 5 1 "(0, 0, 0, 0)"]
    by (simp add: zero_ctx_def hashable_def) blast
qed

section \<open>Eight nonces at once\<close>

lemma replicate_split: "replicate (m + n) x = replicate m x @ replicate n x"
  by (simp add: replicate_add)

lemma fips_pad_512:
  assumes "length x = 512"
  shows "fips_pad x = x @ [0x80] @ replicate 61 0 @ [0x10, 0]"
proof -
  have "be_bytes 4096 = [0, 0, 0x10, 0]" by code_simp
  moreover have "replicate 61 (0 :: u8) = replicate 55 0 @ replicate 4 0 @ [0, 0]" by (simp add: numeral_eq_Suc)
  ultimately show ?thesis
    using length_bytes_small [of 4096] assms by (simp add: fips_pad_def Let_def)
qed

lemma mb_lane1:
  assumes "holds_message ctxv msg" "length msg = 504"
  shows "fips_digest (sha_state ctxv) (memcpy (mb_array1 ctxv) 56 (u64_bytes n)) =
    fips_digest fips_H0 (fips_pad (msg @ u64_bytes n))"
proof -
  obtain blocks rest where m: "msg = blocks @ rest" "length blocks mod 64 = 0" "length rest < 64"
    "sha_state ctxv = fips_digest fips_H0 blocks" "datalen ctxv = length rest"
    "length (sha_data ctxv) = 64" "take (length rest) (sha_data ctxv) = rest"
    using assms(1) by (auto simp: holds_message_def)
  then have r: "length rest = 56" using holds_message_datalen [OF assms(1)] assms(2) by simp
  have zeros: "replicate 72 (0 :: u8) = replicate 8 0 @ [0] @ replicate 61 0 @ [0, 0]"
    by (simp add: numeral_eq_Suc)
  have "mb_array1 ctxv = rest @ replicate 8 0 @ [0x80] @ replicate 61 0 @ [0x10, 0]"
  proof -
    have "mb_array1 ctxv = (rest @ replicate 72 0)[64 := 0x80, 126 := 0x10]"
      using m r by (simp add: mb_array1_def memset_def memcpy_def)
    then show ?thesis unfolding zeros using r by (simp add: list_update_append)
  qed
  then have "memcpy (mb_array1 ctxv) 56 (u64_bytes n) = rest @ u64_bytes n @ [0x80] @ replicate 61 0 @ [0x10, 0]"
    using r by (simp add: memcpy_def)
  moreover have "fips_pad (msg @ u64_bytes n) = blocks @ rest @ u64_bytes n @ [0x80] @ replicate 61 0 @ [0x10, 0]"
    using fips_pad_512 [of "msg @ u64_bytes n"] assms(2) m(1) by simp
  ultimately show ?thesis by (simp only: fips_digest_append [OF m(2)] m(4))
qed

lemma mb_lane2:
  assumes "length d = 32"
  shows "memcpy mb_array2 0 d = fips_pad d"
proof -
  have "be_bytes 256 = [0, 0, 1, 0]" by code_simp
  moreover have zeros: "replicate 64 (0 :: u8) = replicate 32 0 @ [0] @ replicate 23 0 @ replicate 4 0 @ [0, 0, 0, 0]"
    by (simp add: numeral_eq_Suc)
  have array: "mb_array2 = replicate 32 0 @ [0x80] @ replicate 23 0 @ replicate 4 0 @ [0, 0, 1, 0]"
    by (simp add: mb_array2_def memset_def memcpy_def, subst zeros) (simp add: list_update_append)
  ultimately show ?thesis
    unfolding array using length_bytes_small [of 256] assms by (simp add: memcpy_def fips_pad_def Let_def)
qed

lemma sha256_state_bytes: "concat (map WriteBE32 (take 8 (fips_digest fips_H0 (fips_pad msg)))) = sha256 msg"
  by (simp add: sha256_def WriteBE32_be_bytes length_fips_digest fips_H0_def)

text \<open>What OpenSSL documents of the multi-block function: every lane is compressed on its own.\<close>

definition lanes_compressed :: "((u32 list \<times> u8 list) list \<Rightarrow> u32 list list) \<Rightarrow> bool" where
  "lanes_compressed multi_block \<longleftrightarrow> (\<forall>ls. multi_block ls = map (\<lambda>(s, blocks). fips_digest s blocks) ls)"

lemma mb_hashes_correct:
  assumes "lanes_compressed multi_block" "holds_message ctxv msg" "length msg = 504"
  shows "mb_hashes multi_block ctxv step nonce = map (nonce_hash msg) (mb_nonces step nonce)"
proof -
  have init: "sha_state (sha256_init ctxv) = fips_H0" by (simp add: sha256_init_def fips_H0_def)
  have "hash_of_bytes (concat (map WriteBE32 (take 8 (fips_digest fips_H0 (memcpy mb_array2 0 (sha256 m)))))) =
      double_sha256 m" for m
    by (simp only: mb_lane2 length_sha256 sha256_state_bytes double_sha256_def)
  then show ?thesis
    using assms(1)
    by (simp add: mb_hashes_def Let_def lanes_compressed_def init mb_lane1 [OF assms(2,3)] sha256_state_bytes
        nonce_hash_def comp_def)
qed

lemma final_multi_loop_scan:
  assumes c: "holds_message ctxv msg" "datalen ctxv + 8 \<le> 64" "hashable (msg @ u64_bytes 0)"
  shows "final_multi_loop ctxv step n i (nonce, hash, min_nonce) =
    Some (mb_scan step (i = 0) (map (\<lambda>j. nonce_hash msg (nonce + of_nat j * step)) [0..<n]) (nonce, hash, min_nonce))"
proof (induction n arbitrary: i nonce hash min_nonce)
  case (Suc n)
  obtain ctx where "sha256_update ctxv (u64_bytes nonce) 8 = Some ctx" "hash_again ctx = Some (nonce_hash msg nonce)"
    using nonce_hash_step [OF c, of nonce] by (auto simp: bind_eq_Some_conv)
  moreover have "map (\<lambda>j. nonce_hash msg (nonce + of_nat j * step)) [0..<Suc n] =
      nonce_hash msg nonce # map (\<lambda>j. nonce_hash msg (nonce + step + of_nat j * step)) [0..<n]"
    by (simp only: map_upt_Suc) (simp add: algebra_simps)
  ultimately show ?case using Suc.IH by simp
qed simp

lemma final_multi_loop_add:
  "final_multi_loop ctxv step (m + n) i s = final_multi_loop ctxv step m i s \<bind> final_multi_loop ctxv step n (i + m)"
proof (induction m arbitrary: i s)
  case (Suc m)
  then show ?case
    by (cases s) (simp only: add_Suc final_multi_loop.simps bind_assoc add_Suc_right add_Suc_shift)
qed simp

lemma mb_scan_nonce: "fst (mb_scan step b hs (nonce, r)) = nonce + of_nat (length hs) * step"
  by (induction hs arbitrary: b nonce r) (auto simp: algebra_simps split: if_splits)

text \<open>
  C31: on a context that holds the first 504 bytes of a block and for a number of
  attempts divisible by eight, the search that hashes eight nonces at once
  returns the same nonce, hash and next nonce as the plain search, provided the
  OpenSSL function compresses every lane on its own.
\<close>

theorem final_multi_mb_equiv:
  assumes "lanes_compressed multi_block"
    and "sha256_update (sha256_init ctx) msg 504 = Some ctxv" "length msg = 504" "length (sha_data ctx) = 64"
    and "8 dvd attempts"
  shows "xdag_hash_final_multi ctxv nonce attempts step hash =
    Some (xdag_hash_final_multi_mb multi_block ctxv nonce attempts step hash)"
proof -
  have c: "holds_message ctxv msg"
    using sha256_update_aligned [OF holds_message_init [OF assms(4)], of msg] assms(2,3) by simp
  have d: "datalen ctxv + 8 \<le> 64" "hashable (msg @ u64_bytes 0)"
    using holds_message_datalen [OF c] assms(3) by (simp_all add: hashable_def)
  obtain k where k: "attempts = 8 * k" using assms(5) by blast
  have "final_multi_loop ctxv step (8 * k) i (nonce, r) = Some (final_multi_mb_loop multi_block ctxv step k (i = 0) (nonce, r))"
    for i nonce r
  proof (induction k arbitrary: i nonce r)
    case (Suc k)
    obtain hash m where r: "r = (hash, m)" by (cases r)
    let ?s = "mb_scan step (i = 0) (mb_hashes multi_block ctxv step nonce) (nonce, r)"
    have "final_multi_loop ctxv step 8 i (nonce, r) = Some ?s"
      unfolding r final_multi_loop_scan [OF c d] mb_hashes_correct [OF assms(1) c assms(3)]
      by (simp add: mb_nonces_def comp_def)
    then have "final_multi_loop ctxv step (8 * Suc k) i (nonce, r) = final_multi_loop ctxv step (8 * k) (i + 8) ?s"
      using final_multi_loop_add [of ctxv step 8 "8 * k" i "(nonce, r)"] by simp
    also have "\<dots> = Some (final_multi_mb_loop multi_block ctxv step k False ?s)"
      using Suc.IH [of "i + 8" "fst ?s" "snd ?s"] by simp
    finally show ?case by (simp add: r)
  qed simp
  then show ?thesis
    by (simp add: xdag_hash_final_multi_def xdag_hash_final_multi_mb_def k)
qed

theorem final_multi_mb_equiv_witness:
  "\<exists>ctxv. sha256_update (sha256_init zero_ctx) (replicate 504 0) 504 = Some ctxv \<and>
     xdag_hash_final_multi ctxv 3 16 2 (0, 0, 0, 0) =
       Some (xdag_hash_final_multi_mb (\<lambda>ls. map (\<lambda>(s, blocks). fips_digest s blocks) ls) ctxv 3 16 2 (0, 0, 0, 0))"
proof -
  obtain ctxv where c: "sha256_update (sha256_init zero_ctx) (replicate 504 0) 504 = Some ctxv"
    using zero_ctx_update [of "replicate 504 0"] by auto
  then show ?thesis
    using final_multi_mb_equiv [of "\<lambda>ls. map (\<lambda>(s, blocks). fips_digest s blocks) ls" zero_ctx "replicate 504 0" ctxv 16]
    by (simp add: zero_ctx_def lanes_compressed_def)
qed

end
