(* ===== verification/Address.thy ===== *)
theory Address
  imports Hash
begin

text \<open>
  Text encodings: client/address.c (24 bytes of a hash as 32 characters) and
  client/utils/base64.c.  Characters are bytes; the terminating zero of a C
  string is the end of the list.
\<close>

section \<open>Tables\<close>

definition bits2mime :: "u8 list" where
  "bits2mime = map (\<lambda>c. of_char c) ''ABCDEFGHIJKLMNOPQRSTUVWXYZabcdefghijklmnopqrstuvwxyz0123456789+/''"

text \<open>\<open>xdag_address_init\<close> fills the inverse table; \<open>base64.c\<close> has it as a literal.\<close>

definition xdag_address_init :: "u8 list" where
  "xdag_address_init =
     fold (\<lambda>i t. t[unat (bits2mime ! i) := of_nat i]) [0..<64] (replicate 256 0xff)"

definition mime2bits :: "u8 list" where
  "mime2bits = replicate 43 0xff @ [0x3e, 0xff, 0xff, 0xff, 0x3f,
     0x34, 0x35, 0x36, 0x37, 0x38, 0x39, 0x3a, 0x3b, 0x3c, 0x3d, 0xff, 0xff, 0xff, 0xff, 0xff, 0xff,
     0xff, 0x00, 0x01, 0x02, 0x03, 0x04, 0x05, 0x06, 0x07, 0x08, 0x09, 0x0a, 0x0b, 0x0c, 0x0d, 0x0e,
     0x0f, 0x10, 0x11, 0x12, 0x13, 0x14, 0x15, 0x16, 0x17, 0x18, 0x19, 0xff, 0xff, 0xff, 0xff, 0xff,
     0xff, 0x1a, 0x1b, 0x1c, 0x1d, 0x1e, 0x1f, 0x20, 0x21, 0x22, 0x23, 0x24, 0x25, 0x26, 0x27, 0x28,
     0x29, 0x2a, 0x2b, 0x2c, 0x2d, 0x2e, 0x2f, 0x30, 0x31, 0x32, 0x33] @ replicate 133 0xff"

section \<open>Addresses\<close>

text \<open>The do-while loop that skips characters outside the alphabet.\<close>

fun next_digit :: "u8 list \<Rightarrow> (u8 \<times> u8 list) option" where
  "next_digit [] = None"
| "next_digit (c # address) =
     (if xdag_address_init ! unat c AND 0xC0 \<noteq> 0 then next_digit address
      else Some (xdag_address_init ! unat c, address))"

fun address2hash_loop :: "nat \<Rightarrow> u32 \<Rightarrow> nat \<Rightarrow> u8 list \<Rightarrow> u8 list option" where
  "address2hash_loop 0 e n address = Some []"
| "address2hash_loop (Suc i) e n address =
     do {
       (d, address) \<leftarrow> next_digit address;
       (let e = push_bit 6 e OR ucast d in
        if n + 6 \<ge> 8 then
          do { fld \<leftarrow> address2hash_loop i e (n + 6 - 8) address;
               Some (ucast (drop_bit (n + 6 - 8) e) # fld) }
        else address2hash_loop i e (n + 6) address)
     }"

definition xdag_address2hash :: "u8 list \<Rightarrow> xdag_hash_t option" where
  "xdag_address2hash address =
     do { fld \<leftarrow> address2hash_loop 32 0 0 address; Some (hash_of_bytes (fld @ replicate 8 0)) }"

fun hash2address_loop :: "nat \<Rightarrow> u32 \<Rightarrow> nat \<Rightarrow> u8 list \<Rightarrow> u8 list" where
  "hash2address_loop 0 c d fld = []"
| "hash2address_loop (Suc i) c d fld =
     (if d < 6 then
        (let c = push_bit 8 c OR ucast (hd fld); d = d + 8 - 6 in
         bits2mime ! unat (drop_bit d c AND 0x3F) # hash2address_loop i c d (tl fld))
      else
        (let d = d - 6 in bits2mime ! unat (drop_bit d c AND 0x3F) # hash2address_loop i c d fld))"

definition xdag_hash2address :: "xdag_hash_t \<Rightarrow> u8 list" where
  "xdag_hash2address hash = hash2address_loop 32 0 0 (hash_bytes hash)"

section \<open>Base64\<close>

fun encode :: "u8 list \<Rightarrow> u8 list" where
  "encode [] = []"
| "encode [a] = [bits2mime ! unat (drop_bit 2 a), bits2mime ! unat (push_bit 4 a AND 0x3f), 0x3d, 0x3d]"
| "encode [a, b] =
     [bits2mime ! unat (drop_bit 2 a), bits2mime ! unat ((push_bit 4 a AND 0x3f) OR drop_bit 4 b),
      bits2mime ! unat (push_bit 2 b AND 0x3f), 0x3d]"
| "encode (a # b # c # rest) =
     [bits2mime ! unat (drop_bit 2 a), bits2mime ! unat ((push_bit 4 a AND 0x3f) OR drop_bit 4 b),
      bits2mime ! unat ((push_bit 2 b AND 0x3f) OR drop_bit 6 c), bits2mime ! unat (c AND 0x3f)] @ encode rest"

text \<open>The length is a multiple of four, so a round always reads four characters.\<close>

fun decode :: "u8 list \<Rightarrow> u8 list option" where
  "decode (p # q # r # s # rest) =
     (let a = mime2bits ! unat p; b = mime2bits ! unat q; c = mime2bits ! unat r; d = mime2bits ! unat s in
      if a = 0xff \<or> b = 0xff then None
      else if r = 0x3d then Some [push_bit 2 a OR drop_bit 4 b]
      else if s = 0x3d then Some [push_bit 2 a OR drop_bit 4 b, push_bit 4 b OR drop_bit 2 c]
      else do { out \<leftarrow> decode rest;
                Some ([push_bit 2 a OR drop_bit 4 b, push_bit 4 b OR drop_bit 2 c, push_bit 6 c OR d] @ out) })"
| "decode _ = Some []"

definition base64_encode :: "u8 list \<Rightarrow> u8 list \<times> nat" where
  "base64_encode inp = (encode inp, (length inp + 2) div 3 * 4 + 1)"

definition base64_decode :: "u8 list \<Rightarrow> u8 list option" where
  "base64_decode inp = (if length inp mod 4 \<noteq> 0 then None else decode inp)"

section \<open>Round trips\<close>

lemma bits2mime_codes: "bits2mime = [65, 66, 67, 68, 69, 70, 71, 72, 73, 74, 75, 76, 77, 78, 79, 80, 81, 82, 83, 84, 85, 86, 87, 88, 89, 90, 97, 98, 99, 100, 101, 102, 103, 104, 105, 106, 107, 108, 109, 110, 111, 112, 113, 114, 115, 116, 117, 118, 119, 120, 121, 122, 48, 49, 50, 51, 52, 53, 54, 55, 56, 57, 43, 47]"
  by (simp add: bits2mime_def of_char_def)

lemma length_bits2mime [simp]: "length bits2mime = 64"
  by (simp add: bits2mime_def)

lemma map_mime2bits: "map (\<lambda>c. mime2bits ! unat c) bits2mime = [0, 1, 2, 3, 4, 5, 6, 7, 8, 9, 10, 11, 12, 13, 14, 15, 16, 17, 18, 19, 20, 21, 22, 23, 24, 25, 26, 27, 28, 29, 30, 31, 32, 33, 34, 35, 36, 37, 38, 39, 40, 41, 42, 43, 44, 45, 46, 47, 48, 49, 50, 51, 52, 53, 54, 55, 56, 57, 58, 59, 60, 61, 62, 63]"
  by (simp add: bits2mime_codes mime2bits_def nth_append)

lemma distinct_bits2mime: "distinct bits2mime"
  by (simp add: bits2mime_codes)

lemma fold_list_update_nth:
  assumes "\<And>i. i < n \<Longrightarrow> f i < length t" "inj_on f {0..<n}" "k < n"
  shows "fold (\<lambda>i t. t[f i := g i]) [0..<n] t ! f k = g k"
  using assms
proof (induction n)
  case (Suc n)
  have len: "length (fold (\<lambda>i t. t[f i := g i]) xs t) = length t" for xs
    by (induction xs arbitrary: t) auto
  show ?case
  proof (cases "k = n")
    case False
    then have "f n \<noteq> f k" using Suc.prems by (auto dest: inj_onD)
    then show ?thesis using Suc False by (simp add: len inj_on_def)
  qed (use Suc.prems len in simp)
qed simp

lemma range64: "[0..<64] = [0, 1, 2, 3, 4, 5, 6, 7, 8, 9, 10, 11, 12, 13, 14, 15, 16, 17, 18, 19, 20, 21, 22, 23, 24, 25, 26, 27, 28, 29, 30, 31, 32, 33, 34, 35, 36, 37, 38, 39, 40, 41, 42, 43, 44, 45, 46, 47, 48, 49, 50, 51, 52, 53, 54, 55, 56, 57, 58, 59, 60, 61, 62, 63]"
  by code_simp

lemma mime2bits_inverse: "i < 64 \<Longrightarrow> mime2bits ! unat (bits2mime ! i) = of_nat i"
proof -
  assume i: "i < 64"
  have "map (\<lambda>c. mime2bits ! unat c) bits2mime = map of_nat [0..<64]"
    unfolding map_mime2bits range64 by simp
  then have "map (\<lambda>c. mime2bits ! unat c) bits2mime ! i = map of_nat [0..<64] ! i" by simp
  then show ?thesis using i by simp
qed

lemma unat_u8_less_256: "unat (x :: u8) < 256"
  using unsigned_less [of x] by simp

lemma address_table_inverse: "i < 64 \<Longrightarrow> xdag_address_init ! unat (bits2mime ! i) = of_nat i"
  unfolding xdag_address_init_def
  using fold_list_update_nth [of 64 "\<lambda>i. unat (bits2mime ! i)" "replicate 256 0xff" i of_nat]
  by (simp add: unat_u8_less_256 inj_on_def nth_eq_iff_index_eq distinct_bits2mime word_unat_eq_iff [symmetric])

text \<open>A digit is a byte below 64; the character of a digit is never the padding character.\<close>

lemma digit_inverse:
  fixes x :: u8
  assumes "x < 64"
  shows "mime2bits ! unat (bits2mime ! unat x) = x" "xdag_address_init ! unat (bits2mime ! unat x) = x"
  using assms mime2bits_inverse [of "unat x"] address_table_inverse [of "unat x"]
  by (simp_all add: word_less_nat_alt)

lemma digit_not_padding:
  fixes x :: u8
  assumes "x < 64"
  shows "bits2mime ! unat x \<noteq> 0x3d"
proof -
  have "bits2mime ! unat x \<in> set bits2mime" using assms by (intro nth_mem) (simp add: word_less_nat_alt)
  moreover have "0x3d \<notin> set bits2mime" by (simp add: bits2mime_codes)
  ultimately show ?thesis by metis
qed

lemma digit_not_ff: "(x :: u8) < 64 \<Longrightarrow> x \<noteq> 0xff"
  by (auto simp: word_less_nat_alt)

lemma u8_bit_bound: "bit (x :: u8) n \<Longrightarrow> n < 8"
  using bit_imp_le_length [of x n] by simp

lemma less_64_bits: "(x :: u8) < 64 \<longleftrightarrow> (\<forall>n \<ge> 6. \<not> bit x n)"
proof -
  have "x < 64 \<longleftrightarrow> take_bit 6 x = x"
    using less_mask_eq [of x 6] by (auto simp: take_bit_eq_mask and_mask_less' [of 6 x, simplified]) (metis and_mask_less' [of 6 x, simplified])
  also have "\<dots> \<longleftrightarrow> (\<forall>n \<ge> 6. \<not> bit x n)"
  proof
    assume t: "take_bit 6 x = x"
    show "\<forall>n \<ge> 6. \<not> bit x n" by (subst t [symmetric]) (simp add: bit_take_bit_iff)
  next
    assume "\<forall>n \<ge> 6. \<not> bit x n"
    then show "take_bit 6 x = x" by (intro bit_word_eqI) (metis bit_take_bit_iff not_less)
  qed
  finally show ?thesis .
qed

lemma mask6: "(0x3f :: u8) = mask 6" "(0x3f :: u32) = mask 6"
  by (simp_all add: mask_eq_exp_minus_1)

lemma base64_digits_less:
  fixes a b c :: u8
  shows "drop_bit 2 a < 64" "push_bit 4 a AND 0x3f < 64" "(push_bit 4 a AND 0x3f) OR drop_bit 4 b < 64"
    "push_bit 2 b AND 0x3f < 64" "(push_bit 2 b AND 0x3f) OR drop_bit 6 c < 64" "c AND 0x3f < 64"
  unfolding less_64_bits mask6 by (auto simp: bit_simps dest: bit_imp_le_length)

lemma two_back: "2 \<le> n \<Longrightarrow> Suc (Suc (n - 2)) = n"
  by simp

lemma base64_group:
  fixes a b c :: u8
  shows "push_bit 2 (drop_bit 2 a) OR drop_bit 4 ((push_bit 4 a AND 0x3f) OR drop_bit 4 b) = a"
    "push_bit 2 (drop_bit 2 a) OR drop_bit 4 (push_bit 4 a AND 0x3f) = a"
    "push_bit 4 ((push_bit 4 a AND 0x3f) OR drop_bit 4 b) OR drop_bit 2 ((push_bit 2 b AND 0x3f) OR drop_bit 6 c) = b"
    "push_bit 4 ((push_bit 4 a AND 0x3f) OR drop_bit 4 b) OR drop_bit 2 (push_bit 2 b AND 0x3f) = b"
    "push_bit 6 ((push_bit 2 b AND 0x3f) OR drop_bit 6 c) OR (c AND 0x3f) = c"
  unfolding mask6 by (auto simp: bit_simps two_back intro!: bit_word_eqI dest: bit_imp_le_length)

lemmas base64_facts = base64_digits_less [THEN digit_inverse(1)] base64_digits_less [THEN digit_not_padding]
  base64_digits_less [THEN digit_not_ff] base64_group

text \<open>decoding an encoded byte sequence gives the sequence back, and the encoding has the length that is allocated for it.\<close>

theorem base64_roundtrip:
  "base64_decode (fst (base64_encode bs)) = Some bs \<and>
   length (fst (base64_encode bs)) + 1 = snd (base64_encode bs)"
proof -
  have "decode (encode bs) = Some bs"
    by (induction bs rule: encode.induct)
       (simp_all only: encode.simps decode.simps append_Cons append_Nil Let_def base64_facts simp_thms if_True if_False
         bind.bind_lunit)
  moreover have "length (encode bs) = (length bs + 2) div 3 * 4"
  proof (induction bs rule: encode.induct)
    case (4 a b c rest)
    then show ?case by simp presburger
  qed simp_all
  ultimately show ?thesis by (simp add: base64_decode_def base64_encode_def)
qed

lemma digit_accepted: "(x :: u8) < 64 \<Longrightarrow> x AND 0xC0 = 0"
proof -
  assume "x < 64"
  then have "\<not> bit x 6" "\<not> bit x 7" by (auto simp: less_64_bits)
  moreover have "(0xC0 :: u8) = push_bit 6 (mask 2)" by (simp add: mask_eq_exp_minus_1 push_bit_eq_mult)
  ultimately show ?thesis
    by (auto simp: bit_simps less_Suc_eq numeral_eq_Suc intro!: bit_word_eqI)
qed

lemma next_digit_char: "(x :: u8) < 64 \<Longrightarrow> next_digit (bits2mime ! unat x # cs) = Some (x, cs)"
  by (simp add: digit_inverse digit_accepted)

text \<open>The digits of three bytes, however much the accumulators have collected before.\<close>

definition digits3 :: "u8 \<Rightarrow> u8 \<Rightarrow> u8 \<Rightarrow> u8 list" where
  "digits3 a b c = [drop_bit 2 a, (push_bit 4 a AND 0x3f) OR drop_bit 4 b,
     (push_bit 2 b AND 0x3f) OR drop_bit 6 c, c AND 0x3f]"

lemma unat_digit: "unat (w AND 0x3F) = unat (ucast (w AND 0x3F) :: u8)" for w :: u32
proof -
  have "w AND 0x3F \<le> 0x3F" by (rule word_and_le1)
  then have "unat (w AND 0x3F) < 256" by (simp add: word_le_nat_alt)
  then show ?thesis by (simp add: unsigned_ucast_eq take_bit_nat_eq_self)
qed

lemma hash2address_digits:
  fixes c :: u32 and x y z :: u8
  shows "ucast (drop_bit 2 (push_bit 8 c OR ucast x) AND 0x3F) = drop_bit 2 x"
    "ucast (drop_bit 4 (push_bit 8 (push_bit 8 c OR ucast x) OR ucast y) AND 0x3F) = (push_bit 4 x AND 0x3f) OR drop_bit 4 y"
    "ucast (drop_bit 6 (push_bit 8 (push_bit 8 (push_bit 8 c OR ucast x) OR ucast y) OR ucast z) AND 0x3F) =
       (push_bit 2 y AND 0x3f) OR drop_bit 6 z"
    "ucast ((push_bit 8 (push_bit 8 (push_bit 8 c OR ucast x) OR ucast y) OR ucast z) AND 0x3F) = z AND 0x3f"
  unfolding mask6
  by (auto simp: bit_simps intro!: bit_word_eqI) (auto dest!: u8_bit_bound)

lemma hash2address_steps:
  "hash2address_loop (Suc i) c 0 (x # fld) =
     bits2mime ! unat (drop_bit 2 (push_bit 8 c OR ucast x) AND 0x3F) # hash2address_loop i (push_bit 8 c OR ucast x) 2 fld"
  "hash2address_loop (Suc i) c 2 (x # fld) =
     bits2mime ! unat (drop_bit 4 (push_bit 8 c OR ucast x) AND 0x3F) # hash2address_loop i (push_bit 8 c OR ucast x) 4 fld"
  "hash2address_loop (Suc i) c 4 (x # fld) =
     bits2mime ! unat (drop_bit 6 (push_bit 8 c OR ucast x) AND 0x3F) # hash2address_loop i (push_bit 8 c OR ucast x) 6 fld"
  "hash2address_loop (Suc i) c 6 fld = bits2mime ! unat (c AND 0x3F) # hash2address_loop i c 0 fld"
  by (simp_all add: Let_def)

lemma hash2address_group:
  "\<exists>c'. hash2address_loop (Suc (Suc (Suc (Suc i)))) c 0 (x # y # z # fld) =
     map (\<lambda>d. bits2mime ! unat d) (digits3 x y z) @ hash2address_loop i c' 0 fld"
  by (rule exI [of _ "push_bit 8 (push_bit 8 (push_bit 8 c OR ucast x) OR ucast y) OR ucast z"])
     (simp only: hash2address_steps unat_digit hash2address_digits digits3_def list.map append_Cons append_Nil)

lemma address2hash_steps:
  assumes "(d :: u8) < 64"
  shows "address2hash_loop (Suc i) e 0 (bits2mime ! unat d # cs) = address2hash_loop i (push_bit 6 e OR ucast d) 6 cs"
    "address2hash_loop (Suc i) e 6 (bits2mime ! unat d # cs) =
       map_option ((#) (ucast (drop_bit 4 (push_bit 6 e OR ucast d)))) (address2hash_loop i (push_bit 6 e OR ucast d) 4 cs)"
    "address2hash_loop (Suc i) e 4 (bits2mime ! unat d # cs) =
       map_option ((#) (ucast (drop_bit 2 (push_bit 6 e OR ucast d)))) (address2hash_loop i (push_bit 6 e OR ucast d) 2 cs)"
    "address2hash_loop (Suc i) e 2 (bits2mime ! unat d # cs) =
       map_option ((#) (ucast (push_bit 6 e OR ucast d))) (address2hash_loop i (push_bit 6 e OR ucast d) 0 cs)"
  using next_digit_char [OF assms, of cs]
  by (simp_all add: Let_def map_conv_bind_option comp_def del: next_digit.simps)

lemma digits_of_bytes:
  fixes e :: u32 and x y z :: u8
  defines "p \<equiv> drop_bit 2 x" and "q \<equiv> (push_bit 4 x AND 0x3f) OR drop_bit 4 y"
    and "r \<equiv> (push_bit 2 y AND 0x3f) OR drop_bit 6 z" and "s \<equiv> z AND 0x3f"
  shows "ucast (drop_bit 4 (push_bit 6 (push_bit 6 e OR ucast p) OR ucast q)) = x"
    "ucast (drop_bit 2 (push_bit 6 (push_bit 6 (push_bit 6 e OR ucast p) OR ucast q) OR ucast r)) = y"
    "ucast (push_bit 6 (push_bit 6 (push_bit 6 (push_bit 6 e OR ucast p) OR ucast q) OR ucast r) OR ucast s) = z"
  unfolding assms mask6
  by (auto simp: bit_simps intro!: bit_word_eqI) (auto dest!: u8_bit_bound simp: two_back)

lemma address2hash_group:
  "\<exists>e'. address2hash_loop (Suc (Suc (Suc (Suc i)))) e 0 (map (\<lambda>d. bits2mime ! unat d) (digits3 x y z) @ cs) =
     map_option (\<lambda>fld. x # y # z # fld) (address2hash_loop i e' 0 cs)"
  by (rule exI)
     (simp only: digits3_def list.map append_Cons append_Nil address2hash_steps base64_digits_less
        digits_of_bytes option.map_comp comp_def)

lemma address_loop_roundtrip:
  "3 * k \<le> length fld \<Longrightarrow>
   address2hash_loop (4 * k) e 0 (hash2address_loop (4 * k) c 0 fld) = Some (take (3 * k) fld) \<and>
   length (hash2address_loop (4 * k) c 0 fld) = 4 * k"
proof (induction k arbitrary: e c fld)
  case (Suc k)
  then obtain x y z rest where fld: "fld = x # y # z # rest" "3 * k \<le> length rest"
    by (cases fld; cases "tl fld"; cases "tl (tl fld)") auto
  have n: "4 * Suc k = Suc (Suc (Suc (Suc (4 * k))))" "3 * Suc k = Suc (Suc (Suc (3 * k)))" by simp_all
  obtain c' where c: "hash2address_loop (4 * Suc k) c 0 fld =
      map (\<lambda>d. bits2mime ! unat d) (digits3 x y z) @ hash2address_loop (4 * k) c' 0 rest"
    using hash2address_group [of "4 * k" c x y z rest] unfolding n fld by blast
  obtain e' where "address2hash_loop (4 * Suc k) e 0 (hash2address_loop (4 * Suc k) c 0 fld) =
      map_option (\<lambda>fld. x # y # z # fld) (address2hash_loop (4 * k) e' 0 (hash2address_loop (4 * k) c' 0 rest))"
    using address2hash_group [of "4 * k" e x y z] unfolding c unfolding n by blast
  then show ?case
    using Suc.IH [OF fld(2), of e' c'] c by (simp add: n(2) fld digits3_def del: mult_Suc_right) simp
qed simp

lemma hash_of_hash_bytes [simp]: "hash_of_bytes (hash_bytes h) = h"
  by (cases h) (simp add: hash_of_bytes_def)

text \<open>
  C36: the address of a hash has 32 characters, and reading it back gives the
  hash with its most significant word cleared, which is the part of a hash that
  identifies a block.
\<close>

theorem address_roundtrip:
  "xdag_address2hash (xdag_hash2address (a, b, c, d)) = Some (a, b, c, 0) \<and>
   length (xdag_hash2address (a, b, c, d)) = 32"
proof -
  have "take 24 (hash_bytes (a, b, c, d)) @ replicate 8 0 = hash_bytes (a, b, c, 0)"
    by (simp add: u64_bytes_def numeral_eq_Suc)
  then show ?thesis
    using address_loop_roundtrip [of 8 "hash_bytes (a, b, c, d)" 0 0]
    by (simp add: xdag_address2hash_def xdag_hash2address_def del: hash_bytes.simps)
       (simp only: hash_bytes.simps length_append length_u64_bytes, simp add: hash_of_bytes_def)
qed

end
