(* ===== verification/Checksum.thy ===== *)
theory Checksum
  imports Hash
begin

text \<open>
  client/algorithms/crc.c, the table driven CRC-32, and the difficulty functions
  of client/math.c and client/time.c.
\<close>

section \<open>CRC-32\<close>

definition crc_bit :: "u32 \<Rightarrow> u32" where
  "crc_bit crc = drop_bit 1 crc XOR (if crc AND 1 \<noteq> 0 then 0xEDB88320 else 0)"

definition crc_makeTable :: "u32 list" where
  "crc_makeTable = map (\<lambda>i. (crc_bit ^^ 8) (of_nat i)) [0..<256]"

text \<open>\<open>crc_init\<close> makes the table once; it fails when no memory is left.\<close>

definition crc_init :: "bool \<Rightarrow> u32 list option \<Rightarrow> u32 list option \<times> int" where
  "crc_init malloc_ok crc_table =
     (case crc_table of
        Some t \<Rightarrow> (Some t, 0)
      | None \<Rightarrow> if malloc_ok then (Some crc_makeTable, 0) else (None, 1))"

definition crc_addChar :: "u32 list \<Rightarrow> u32 \<Rightarrow> u8 \<Rightarrow> u32" where
  "crc_addChar table crc c = table ! unat ((ucast crc :: u8) XOR c) XOR drop_bit 8 crc"

definition crc_addArray :: "u32 list \<Rightarrow> u8 list \<Rightarrow> u32 \<Rightarrow> u32" where
  "crc_addArray table buf crc = NOT (foldl (crc_addChar table) (NOT crc) buf)"

text \<open>\<open>crc_addFile\<close> reads at most len characters, fewer at the end of the file.\<close>

definition crc_addFile :: "u32 list \<Rightarrow> u8 list \<Rightarrow> nat \<Rightarrow> u32 \<Rightarrow> u32" where
  "crc_addFile table f len crc = NOT (foldl (crc_addChar table) (NOT crc) (take len f))"

subsection \<open>The polynomial division, bit by bit\<close>

definition crc_byte_ref :: "u32 \<Rightarrow> u8 \<Rightarrow> u32" where
  "crc_byte_ref crc c = (crc_bit ^^ 8) (crc XOR ucast c)"

definition crc_ref :: "u8 list \<Rightarrow> u32 \<Rightarrow> u32" where
  "crc_ref buf crc = NOT (foldl crc_byte_ref (NOT crc) buf)"

lemma crc_bit_odd: "crc_bit x = drop_bit 1 x XOR (if bit x 0 then 0xEDB88320 else 0)"
  by (simp add: crc_bit_def and_one_eq bit_0 odd_iff_mod_2_eq_one)

lemma crc_bit_xor: "crc_bit (x XOR y) = crc_bit x XOR crc_bit y"
proof -
  have "drop_bit 1 (x XOR y) = drop_bit 1 x XOR drop_bit 1 y"
    by (rule bit_word_eqI) (auto simp: bit_simps)
  moreover have "p XOR q XOR k XOR k = p XOR q" for p q k :: u32 by (simp add: xor.assoc)
  ultimately show ?thesis
    by (auto simp: crc_bit_odd bit_xor_iff ac_simps)
qed

lemma crc_bits_xor: "(crc_bit ^^ n) (x XOR y) = (crc_bit ^^ n) x XOR (crc_bit ^^ n) y"
  by (induction n) (simp_all add: crc_bit_xor)

lemma crc_bits_high:
  "(\<forall>i < n. \<not> bit x i) \<Longrightarrow> (crc_bit ^^ n) x = drop_bit n x"
proof (induction n arbitrary: x)
  case (Suc n)
  have "crc_bit x = drop_bit 1 x" using Suc.prems by (simp add: crc_bit_odd)
  moreover have "\<forall>i < n. \<not> bit (drop_bit 1 x) i" using Suc.prems by (simp add: bit_simps)
  ultimately show ?case using Suc.IH [of "drop_bit 1 x"] by (simp add: funpow_swap1 drop_bit_drop_bit)
qed simp

lemma crc_addChar_ref: "crc_addChar crc_makeTable crc c = crc_byte_ref crc c"
proof -
  define b where "b = (ucast crc :: u8) XOR c"
  have less: "unat b < 256" using unsigned_less [of b] by simp
  have split: "crc XOR ucast c = ucast b XOR push_bit 8 (drop_bit 8 crc)"
    by (rule bit_word_eqI) (auto simp: b_def bit_simps)
  have "(crc_bit ^^ 8) (push_bit 8 (drop_bit 8 crc)) = drop_bit 8 (push_bit 8 (drop_bit 8 crc))"
    by (rule crc_bits_high) (simp add: bit_simps)
  also have "\<dots> = drop_bit 8 crc" by (rule bit_word_eqI) (auto simp: bit_simps dest: bit_imp_le_length)
  finally show ?thesis
    using less by (simp add: crc_addChar_def crc_byte_ref_def split crc_bits_xor crc_makeTable_def flip: b_def)
qed

text \<open>
  C39: the table driven CRC-32 of \<open>crc_addArray\<close> and \<open>crc_addFile\<close>, on the
  table that \<open>crc_init\<close> makes, is the bit by bit division by the reflected
  polynomial, for every buffer and start value.
\<close>

theorem crc_table_equiv:
  "crc_init True None = (Some crc_makeTable, 0) \<and>
   crc_addArray crc_makeTable buf crc = crc_ref buf crc \<and>
   crc_addFile crc_makeTable f len crc = crc_ref (take len f) crc"
proof -
  have "crc_addChar crc_makeTable = crc_byte_ref" by (intro ext) (rule crc_addChar_ref)
  then show ?thesis by (simp add: crc_init_def crc_addArray_def crc_addFile_def crc_ref_def)
qed

section \<open>Difficulty\<close>

text \<open>The upper half of the hash, without its lowest 32 bits.\<close>

fun hash_top :: "xdag_hash_t \<Rightarrow> u128" where
  "hash_top (a, b, c, d) = drop_bit 32 (ucast c OR push_bit 64 (ucast d))"

definition xdag_diff_max :: u128 where "xdag_diff_max = - 1"

definition xdag_hash_difficulty :: "xdag_hash_t \<Rightarrow> u128" where
  "xdag_hash_difficulty hash =
     (let res = hash_top hash in if res = 0 then xdag_diff_max else xdag_diff_max div res)"

lemma u64_bit_bound: "bit (x :: u64) n \<Longrightarrow> n < 64"
  using bit_imp_le_length [of x n] by simp

lemma unat_hash_top: "unat (hash_top (a, b, c, d)) = (unat c + 2 ^ 64 * unat d) div 2 ^ 32"
proof -
  have "ucast c OR push_bit 64 (ucast d) = (ucast c + push_bit 64 (ucast d) :: u128)"
    by (rule disjunctive_add [symmetric]) (auto simp: bit_simps dest: u64_bit_bound)
  moreover have "unat (ucast c + push_bit 64 (ucast d) :: u128) = unat c + 2 ^ 64 * unat d"
  proof -
    have "unat c < 2 ^ 64" "unat d < 2 ^ 64" using unsigned_less [of c] unsigned_less [of d] by simp_all
    then show ?thesis by (simp add: push_bit_eq_mult unat_word_ariths unsigned_ucast_eq take_bit_nat_eq_self)
  qed
  ultimately show ?thesis by (simp add: unat_drop_bit)
qed

lemma hash_top_mono:
  assumes "xdag_cmphash g h \<le> 0"
  shows "hash_top g \<le> hash_top h"
proof -
  obtain a b c d where g: "g = (a, b, c, d)" by (cases g)
  obtain a' b' c' d' where h: "h = (a', b', c', d')" by (cases h)
  have "d < d' \<or> d = d' \<and> c \<le> c'"
    using assms by (auto simp: g h xdag_cmphash_def split: if_splits)
  moreover have "unat c < 2 ^ 64" using unsigned_less [of c] by simp
  ultimately have "unat c + 2 ^ 64 * unat d \<le> unat c' + 2 ^ 64 * unat d'"
    by (auto simp: word_less_nat_alt word_le_nat_alt)
  then show ?thesis
    by (simp only: g h word_le_nat_alt unat_hash_top div_le_mono)
qed

text \<open>
  a smaller hash never has a smaller difficulty: the order in which
  \<open>xdag_cmphash\<close> puts hashes is reversed by \<open>xdag_hash_difficulty\<close>, the hash
  whose upper part is zero included.
\<close>

theorem xdag_hash_difficulty_antimono:
  assumes "xdag_cmphash g h \<le> 0"
  shows "xdag_hash_difficulty h \<le> xdag_hash_difficulty g"
proof -
  have top: "hash_top g \<le> hash_top h" using hash_top_mono [OF assms] .
  have "x \<le> xdag_diff_max" for x by (simp add: xdag_diff_max_def)
  moreover have "hash_top g \<noteq> 0 \<Longrightarrow> xdag_diff_max div hash_top h \<le> xdag_diff_max div hash_top g"
    using top by (simp add: word_le_nat_alt unat_div unat_gt_0 div_le_mono2)
  moreover have "hash_top h = 0 \<Longrightarrow> hash_top g = 0" using top by (simp add: word_le_0_iff)
  ultimately show ?thesis by (auto simp: xdag_hash_difficulty_def Let_def)
qed

theorem xdag_hash_difficulty_antimono_witness:
  "xdag_cmphash (9, 9, 0, 1) (1, 1, 5, 1) \<le> 0 \<and>
   xdag_hash_difficulty (1, 1, 5, 1) \<le> xdag_hash_difficulty (9, 9, 0, 1)"
  using xdag_hash_difficulty_antimono [of "(9, 9, 0, 1)" "(1, 1, 5, 1)"] by (simp add: xdag_cmphash_def)

section \<open>Time\<close>

definition XDAG_TEST_ERA :: u64 where "XDAG_TEST_ERA = 0x16900000000"
definition XDAG_MAIN_ERA :: u64 where "XDAG_MAIN_ERA = 0x16940000000"

text \<open>\<open>gettimeofday\<close> gives seconds and microseconds; a time unit is 1/1024 second, a frame 64 seconds.\<close>

definition xdag_get_xtimestamp :: "u64 \<Rightarrow> u64 \<Rightarrow> u64" where
  "xdag_get_xtimestamp tv_sec tv_usec = push_bit 10 tv_sec OR (push_bit 10 tv_usec div 1000000)"

definition xdag_get_time_ms :: "u64 \<Rightarrow> u64 \<Rightarrow> u64" where
  "xdag_get_time_ms tv_sec tv_usec = tv_sec * 1000 + tv_usec div 1000"

definition xdag_get_frame :: "u64 \<Rightarrow> u64 \<Rightarrow> u64" where
  "xdag_get_frame tv_sec tv_usec = drop_bit 16 (xdag_get_xtimestamp tv_sec tv_usec)"

definition xdag_get_start_frame :: "u64 \<Rightarrow> u64" where
  "xdag_get_start_frame era = drop_bit 16 era"

definition xdag_time_init :: "bool \<Rightarrow> u64 \<Rightarrow> u64 \<times> int" where
  "xdag_time_init testnet era = (if testnet then XDAG_TEST_ERA else era, 1)"

lemma small_word_bits: "unat w < 2 ^ k \<Longrightarrow> n \<ge> k \<Longrightarrow> \<not> bit w n"
  using bit_nat_less [of "unat w" n k] by (auto simp: bit_unsigned_iff)

text \<open>
  for times of up to 2 ^ 54 seconds and with
  microseconds below a million, \<open>xdag_get_xtimestamp\<close> counts whole seconds in
  its upper 54 bits without carry from the fraction, and a frame is 64 seconds.
\<close>

theorem xdag_time_exact:
  assumes "unat tv_usec < 1000000" "unat tv_sec < 2 ^ 54"
  shows "unat (xdag_get_xtimestamp tv_sec tv_usec) = 1024 * unat tv_sec + 1024 * unat tv_usec div 1000000 \<and>
    unat (xdag_get_frame tv_sec tv_usec) = unat tv_sec div 64"
proof -
  let ?f = "push_bit 10 tv_usec div 1000000"
  have u: "unat (push_bit 10 tv_usec) = 1024 * unat tv_usec"
    using assms(1) by (simp add: push_bit_eq_mult unat_word_ariths)
  have f: "unat ?f = 1024 * unat tv_usec div 1000000"
    by (simp only: unat_div u) simp
  then have f_less: "unat ?f < 2 ^ 10" using assms(1) by simp
  then have bits: "\<not> bit ?f n" if "n \<ge> 10" for n
    using small_word_bits [OF f_less] that by blast
  have s: "unat (push_bit 10 tv_sec) = 1024 * unat tv_sec"
    using assms(2) by (simp add: push_bit_eq_mult unat_word_ariths)
  have "xdag_get_xtimestamp tv_sec tv_usec = push_bit 10 tv_sec + ?f"
    unfolding xdag_get_xtimestamp_def
    by (rule disjunctive_add [symmetric]) (use bits in \<open>auto simp: bit_push_bit_iff\<close>)
  then have t: "unat (xdag_get_xtimestamp tv_sec tv_usec) = 1024 * unat tv_sec + 1024 * unat tv_usec div 1000000"
    using s f f_less assms(2) by (simp add: unat_word_ariths)
  moreover have "(1024 * unat tv_sec + 1024 * unat tv_usec div 1000000) div 65536 = unat tv_sec div 64"
    using f f_less by simp
  ultimately show ?thesis by (simp add: xdag_get_frame_def unat_drop_bit)
qed

theorem xdag_time_exact_witness:
  "unat (xdag_get_xtimestamp 1600000000 999999) = 1024 * 1600000000 + 1023 \<and>
   unat (xdag_get_frame 1600000000 999999) = 25000000"
  using xdag_time_exact [of 999999 1600000000] by simp

end
