(* ===== verification/Dfs_String.thy ===== *)
theory Dfs_String
  imports Prelude
begin

text \<open>
  dfslib/dfslib_string.c: strings of UTF-8 bytes or of 16-bit characters.  A
  pointer and a length are the list of the characters from the pointer on; a
  negative result of the C functions is Inl with the error code.
\<close>

section \<open>Model\<close>

definition DFSLIB_INVALID_NAME :: int where "DFSLIB_INVALID_NAME = - 11"
definition DFSLIB_NAME_TOO_LONG :: int where "DFSLIB_NAME_TOO_LONG = - 12"

datatype dfslib_string = String_none | Utf8 "u8 list" | Unicode "u16 list"

fun string_len :: "dfslib_string \<Rightarrow> nat" where
  "string_len String_none = 0"
| "string_len (Utf8 s) = length s"
| "string_len (Unicode s) = length s"

text \<open>The bytes written to the buffer, and the room left in it.\<close>

definition dfslib_unicode_to_utf8 :: "u16 \<Rightarrow> nat \<Rightarrow> int + (u8 list \<times> nat)" where
  "dfslib_unicode_to_utf8 uni psize =
     (if uni AND NOT 0x7F = 0 then
        (if psize = 0 then Inl DFSLIB_NAME_TOO_LONG else Inr ([ucast uni], psize - 1))
      else if uni AND NOT 0x7FF = 0 then
        (if psize < 2 then Inl DFSLIB_NAME_TOO_LONG
         else Inr ([ucast (drop_bit 6 uni OR 0xC0), ucast ((uni AND 0x3F) OR 0x80)], psize - 2))
      else
        (if psize < 3 then Inl DFSLIB_NAME_TOO_LONG
         else Inr ([ucast (drop_bit 12 uni OR 0xE0), ucast ((drop_bit 6 uni AND 0x3F) OR 0x80),
                    ucast ((uni AND 0x3F) OR 0x80)], psize - 3)))"

definition continuation :: "u8 \<Rightarrow> bool" where
  "continuation d \<longleftrightarrow> \<not> (d < 0x80 \<or> d \<ge> 0xC0)"

text \<open>The character read and the bytes after it; the pointer also moves on an error.\<close>

fun dfslib_utf8_to_unicode :: "u8 list \<Rightarrow> (int + u32) \<times> u8 list" where
  "dfslib_utf8_to_unicode [] = (Inl DFSLIB_NAME_TOO_LONG, [])"
| "dfslib_utf8_to_unicode (c # utf) =
     (if c < 0x80 then (Inr (ucast c), utf)
      else if c < 0xC0 then (Inl DFSLIB_INVALID_NAME, utf)
      else if c < 0xE0 then
        (case utf of
           [] \<Rightarrow> (Inl DFSLIB_INVALID_NAME, utf)
         | d # utf \<Rightarrow>
             if \<not> continuation d then (Inl DFSLIB_INVALID_NAME, utf)
             else (Inr (push_bit 6 (ucast c AND 0x1F) OR (ucast d AND 0x3F)), utf))
      else if c < 0xF0 then
        (case utf of
           d # d2 # utf \<Rightarrow>
             if \<not> continuation d then (Inl DFSLIB_INVALID_NAME, d2 # utf)
             else if \<not> continuation d2 then (Inl DFSLIB_INVALID_NAME, utf)
             else (Inr (push_bit 12 (ucast c AND 0xF) OR push_bit 6 (ucast d AND 0x3F) OR (ucast d2 AND 0x3F)), utf)
         | _ \<Rightarrow> (Inl DFSLIB_INVALID_NAME, utf))
      else (Inl DFSLIB_INVALID_NAME, utf))"

fun dfslib_unicode_read :: "dfslib_string \<Rightarrow> nat \<Rightarrow> (int + u32) \<times> nat" where
  "dfslib_unicode_read (Utf8 s) ptr =
     (let (unicode, utf) = dfslib_utf8_to_unicode (drop ptr s) in (unicode, max ptr (length s) - length utf))"
| "dfslib_unicode_read (Unicode s) ptr =
     (if ptr < length s then (Inr (ucast (s ! ptr)), ptr + 1) else (Inl DFSLIB_NAME_TOO_LONG, ptr))"
| "dfslib_unicode_read String_none ptr = (Inl DFSLIB_INVALID_NAME, ptr)"

fun res_int :: "int + u32 \<Rightarrow> int" where
  "res_int (Inl e) = e"
| "res_int (Inr u) = uint u"

definition dfslib_unicode_cmp :: "dfslib_string \<Rightarrow> nat \<Rightarrow> int \<Rightarrow> int \<times> nat" where
  "dfslib_unicode_cmp str ptr unicode =
     (let (res, ptr') = dfslib_unicode_read str ptr in
      if res_int res < 0 \<and> res_int res \<noteq> DFSLIB_NAME_TOO_LONG then (res_int res, ptr')
      else ((if res_int res > unicode then 1 else 0) - (if res_int res < unicode then 1 else 0), ptr'))"

text \<open>A successful read moves the pointer on, within the string.\<close>

lemma utf8_to_unicode_shorter:
  "dfslib_utf8_to_unicode s = (Inr u, rest) \<Longrightarrow> length rest < length s"
  by (cases s) (auto split: if_splits list.splits)

lemma utf8_to_unicode_length: "length (snd (dfslib_utf8_to_unicode s)) \<le> length s"
  by (cases s) (auto split: list.splits)

lemma unicode_read_moves:
  "dfslib_unicode_read str ptr = (Inr u, ptr') \<Longrightarrow> ptr < ptr' \<and> ptr' \<le> string_len str"
proof (cases str)
  case (Utf8 s)
  assume "dfslib_unicode_read str ptr = (Inr u, ptr')"
  then obtain rest where "dfslib_utf8_to_unicode (drop ptr s) = (Inr u, rest)" "ptr' = max ptr (length s) - length rest"
    by (auto simp: Utf8 split: prod.splits)
  then show ?thesis using utf8_to_unicode_shorter [of "drop ptr s" u rest] by (auto simp: Utf8)
qed (auto split: if_splits)

text \<open>The characters from a position on, and the error that ends the reading.\<close>

function read_all :: "dfslib_string \<Rightarrow> nat \<Rightarrow> u32 list \<times> int" where
  "read_all str ptr =
     (case dfslib_unicode_read str ptr of
        (Inl err, _) \<Rightarrow> ([], err)
      | (Inr u, ptr') \<Rightarrow> let (us, err) = read_all str ptr' in (u # us, err))"
  by pat_completeness auto

termination read_all
  by (relation "measure (\<lambda>(str, ptr). string_len str - ptr)") (auto dest!: sym [of _ "dfslib_unicode_read _ _"] unicode_read_moves)

declare read_all.simps [simp del]

definition dfslib_unicode_strlen :: "dfslib_string \<Rightarrow> int" where
  "dfslib_unicode_strlen str =
     (case str of
        Unicode s \<Rightarrow> int (length s)
      | _ \<Rightarrow> let (us, err) = read_all str 0 in
             if err \<noteq> DFSLIB_NAME_TOO_LONG then err else int (length us))"

text \<open>On success the string becomes the 16-bit characters in the caller's buffer of size len.\<close>

definition dfslib_string_to_unicode :: "dfslib_string \<Rightarrow> nat \<Rightarrow> dfslib_string \<times> int" where
  "dfslib_string_to_unicode str len =
     (case str of
        Unicode s \<Rightarrow> (str, int (length s))
      | _ \<Rightarrow> let (us, err) = read_all str 0; buf = map ucast (take len us) in
             if length buf = len then (str, DFSLIB_NAME_TOO_LONG)
             else if err \<noteq> DFSLIB_NAME_TOO_LONG then (str, err)
             else (Unicode buf, int (length buf)))"

fun encode_utf8 :: "u16 list \<Rightarrow> nat \<Rightarrow> int + u8 list" where
  "encode_utf8 [] len = Inr []"
| "encode_utf8 (u # us) len =
     (case dfslib_unicode_to_utf8 u len of
        Inl e \<Rightarrow> Inl e
      | Inr (bs, len') \<Rightarrow> (case encode_utf8 us len' of Inl e \<Rightarrow> Inl e | Inr rest \<Rightarrow> Inr (bs @ rest)))"

fun dfslib_string_to_utf8 :: "dfslib_string \<Rightarrow> nat \<Rightarrow> dfslib_string \<times> int" where
  "dfslib_string_to_utf8 (Utf8 s) len = (Utf8 s, int (length s))"
| "dfslib_string_to_utf8 (Unicode s) len =
     (case encode_utf8 s len of Inl e \<Rightarrow> (Unicode s, e) | Inr buf \<Rightarrow> (Utf8 buf, int (length buf)))"
| "dfslib_string_to_utf8 String_none len = (String_none, DFSLIB_INVALID_NAME)"

fun dfslib_substring :: "dfslib_string \<Rightarrow> nat \<Rightarrow> nat \<Rightarrow> dfslib_string \<times> int" where
  "dfslib_substring (Utf8 s) beg fin = (Utf8 (take (fin - beg) (drop beg s)), 0)"
| "dfslib_substring (Unicode s) beg fin = (Unicode (take (fin - beg) (drop beg s)), 0)"
| "dfslib_substring String_none beg fin = (String_none, DFSLIB_INVALID_NAME)"

function strchr_from :: "dfslib_string \<Rightarrow> u32 \<Rightarrow> nat \<Rightarrow> int" where
  "strchr_from str unicode ptr =
     (case dfslib_unicode_read str ptr of
        (Inl err, _) \<Rightarrow> err
      | (Inr u, ptr') \<Rightarrow> if u = unicode then int ptr else strchr_from str unicode ptr')"
  by pat_completeness auto

termination strchr_from
  by (relation "measure (\<lambda>(str, u, ptr). string_len str - ptr)") (auto dest!: sym [of _ "dfslib_unicode_read _ _"] unicode_read_moves)

declare strchr_from.simps [simp del]

definition dfslib_unicode_strchr :: "dfslib_string \<Rightarrow> u32 \<Rightarrow> int" where
  "dfslib_unicode_strchr str unicode = strchr_from str unicode 0"

text \<open>Skip characters while the test holds: the position before and after the character that fails it, and the last result.\<close>

function skip_while :: "(u32 \<Rightarrow> bool) \<Rightarrow> dfslib_string \<Rightarrow> nat \<Rightarrow> nat \<times> nat \<times> (int + u32)" where
  "skip_while P str ptr =
     (case dfslib_unicode_read str ptr of
        (Inl err, ptr') \<Rightarrow> (ptr, ptr', Inl err)
      | (Inr u, ptr') \<Rightarrow> if P u then skip_while P str ptr' else (ptr, ptr', Inr u))"
  by pat_completeness auto

termination skip_while
  by (relation "measure (\<lambda>(P, str, ptr). string_len str - ptr)") (auto dest!: sym [of _ "dfslib_unicode_read _ _"] unicode_read_moves)

declare skip_while.simps [simp del]

definition dfslib_unicode_strtok :: "dfslib_string \<Rightarrow> dfslib_string \<Rightarrow> nat \<Rightarrow> (int + dfslib_string) \<times> nat" where
  "dfslib_unicode_strtok str limits ptr =
     (case skip_while (\<lambda>u. dfslib_unicode_strchr limits u \<ge> 0) str ptr of
        (beg, ptr1, Inl err) \<Rightarrow> (Inl err, ptr1)
      | (beg, ptr1, Inr _) \<Rightarrow>
          (case skip_while (\<lambda>u. dfslib_unicode_strchr limits u < 0) str ptr1 of
             (fin, ptr2, res) \<Rightarrow>
               if res_int res < 0 \<and> res_int res \<noteq> DFSLIB_NAME_TOO_LONG then (Inl (res_int res), ptr2)
               else (Inr (fst (dfslib_substring str beg fin)), ptr2)))"

section \<open>UTF-8 round trip\<close>

lemma unat_bound: "unat (w :: 'a::len word) < 2 ^ LENGTH('a)"
  by (rule unsigned_less)

lemma u16_masks: "(0x7F :: u16) = mask 7" "(0x7FF :: u16) = mask 11" "(0x3F :: u16) = mask 6"
  "(0xC0 :: u16) = push_bit 6 (mask 2)" "(0x80 :: u16) = push_bit 7 (mask 1)" "(0xE0 :: u16) = push_bit 5 (mask 3)"
  by (simp_all add: mask_eq_exp_minus_1 push_bit_eq_mult)

lemma u32_masks: "(0x1F :: u32) = mask 5" "(0xF :: u32) = mask 4" "(0x3F :: u32) = mask 6"
  by (simp_all add: mask_eq_exp_minus_1)

lemma u16_bit_bound: "bit (x :: u16) n \<Longrightarrow> n < 16"
  using bit_imp_le_length [of x n] by simp

lemma fits_iff: "uni AND NOT (mask k) = 0 \<longleftrightarrow> (\<forall>n \<ge> k. \<not> bit (uni :: u16) n)"
  by (auto simp: bit_eq_iff bit_simps dest: u16_bit_bound) (metis not_le u16_bit_bound)

lemma byte_less_iff_bits:
  fixes b :: u8
  shows "b < 0x80 \<longleftrightarrow> \<not> bit b 7" "b < 0xC0 \<longleftrightarrow> \<not> (bit b 7 \<and> bit b 6)"
    "b < 0xE0 \<longleftrightarrow> \<not> (bit b 7 \<and> bit b 6 \<and> bit b 5)" "b < 0xF0 \<longleftrightarrow> \<not> (bit b 7 \<and> bit b 6 \<and> bit b 5 \<and> bit b 4)"
proof -
  define q where "q = unat b div 16"
  have "unat b < 256" using unsigned_less [of b] by simp
  then have q: "q < 16" by (simp add: q_def)
  have bit: "bit b k \<longleftrightarrow> odd (unat b div 2 ^ k)" for k
    using bit_iff_odd [of "unat b" k] by (simp add: bit_unsigned_iff)
  have bits: "bit b 7 \<longleftrightarrow> odd (q div 8)" "bit b 6 \<longleftrightarrow> odd (q div 4)" "bit b 5 \<longleftrightarrow> odd (q div 2)" "bit b 4 \<longleftrightarrow> odd q"
    using bit [of 7] bit [of 6] bit [of 5] bit [of 4] by (simp_all add: q_def flip: div_mult2_eq)
  have less: "unat b < 128 \<longleftrightarrow> q < 8" "unat b < 192 \<longleftrightarrow> q < 12" "unat b < 224 \<longleftrightarrow> q < 14" "unat b < 240 \<longleftrightarrow> q < 15"
    unfolding q_def by auto
  have "q \<in> {0, 1, 2, 3, 4, 5, 6, 7, 8, 9, 10, 11, 12, 13, 14, 15}"
    using q by (simp only: insert_iff empty_iff) presburger
  then show "b < 0x80 \<longleftrightarrow> \<not> bit b 7" "b < 0xC0 \<longleftrightarrow> \<not> (bit b 7 \<and> bit b 6)"
    "b < 0xE0 \<longleftrightarrow> \<not> (bit b 7 \<and> bit b 6 \<and> bit b 5)" "b < 0xF0 \<longleftrightarrow> \<not> (bit b 7 \<and> bit b 6 \<and> bit b 5 \<and> bit b 4)"
    unfolding bits word_less_nat_alt by (auto simp: less)
qed

lemma bit_lead_bytes:
  fixes uni :: u16
  shows "bit (ucast (drop_bit 6 uni OR 0xC0) :: u8) n \<longleftrightarrow> n < 8 \<and> (bit uni (n + 6) \<or> n = 6 \<or> n = 7)"
    and "bit (ucast (drop_bit 12 uni OR 0xE0) :: u8) n \<longleftrightarrow> n < 8 \<and> (bit uni (n + 12) \<or> n = 5 \<or> n = 6 \<or> n = 7)"
  unfolding u16_masks by (auto simp: bit_simps ac_simps)

lemma bit_continuation:
  fixes w :: u16
  shows "bit (ucast ((w AND 0x3F) OR 0x80) :: u8) n \<longleftrightarrow> n < 8 \<and> (n < 6 \<and> bit w n \<or> n = 7)"
proof -
  have "(0x80 :: u16) = 2 ^ 7" by simp
  then show ?thesis
    unfolding u16_masks(3)
    by (simp only: bit_ucast_iff bit_or_iff bit_and_iff bit_mask_iff bit_exp_iff possible_bit_word) auto
qed

lemmas byte_bits = bit_lead_bytes bit_continuation

lemma utf8_two_bytes:
  fixes uni :: u16
  assumes "\<And>n. bit uni n \<Longrightarrow> n < 11"
  defines "c \<equiv> ucast (drop_bit 6 uni OR 0xC0) :: u8" and "d \<equiv> ucast ((uni AND 0x3F) OR 0x80) :: u8"
  shows "\<not> c < 0x80" "\<not> c < 0xC0" "c < 0xE0" "continuation d"
    "push_bit 6 (ucast c AND 0x1F) OR (ucast d AND 0x3F) = (ucast uni :: u32)"
proof -
  show "\<not> c < 0x80" "\<not> c < 0xC0" "c < 0xE0" "continuation d"
    unfolding c_def d_def continuation_def not_less [symmetric] byte_less_iff_bits byte_bits
    using assms(1) [of 11] by auto
  note c = bit_lead_bytes(1) [of uni, folded c_def] and d = bit_continuation [of uni, folded d_def]
  show "push_bit 6 (ucast c AND 0x1F) OR (ucast d AND 0x3F) = (ucast uni :: u32)"
  proof (rule bit_word_eqI)
    fix n
    show "bit (push_bit 6 (ucast c AND 0x1F) OR (ucast d AND 0x3F) :: u32) n = bit (ucast uni :: u32) n"
      unfolding u32_masks using assms(1) [of n] by (cases "n < 6") (auto simp: bit_simps c d)
  qed
qed

lemma utf8_three_bytes:
  fixes uni :: u16
  defines "c \<equiv> ucast (drop_bit 12 uni OR 0xE0) :: u8" and "d \<equiv> ucast ((drop_bit 6 uni AND 0x3F) OR 0x80) :: u8"
    and "e \<equiv> ucast ((uni AND 0x3F) OR 0x80) :: u8"
  shows "\<not> c < 0x80" "\<not> c < 0xC0" "\<not> c < 0xE0" "c < 0xF0" "continuation d" "continuation e"
    "push_bit 12 (ucast c AND 0xF) OR push_bit 6 (ucast d AND 0x3F) OR (ucast e AND 0x3F) = (ucast uni :: u32)"
proof -
  show "\<not> c < 0x80" "\<not> c < 0xC0" "\<not> c < 0xE0" "c < 0xF0" "continuation d" "continuation e"
    unfolding c_def d_def e_def continuation_def not_less [symmetric] byte_less_iff_bits byte_bits
    using u16_bit_bound [of uni 16] by auto
  note c = bit_lead_bytes(2) [of uni, folded c_def] and d = bit_continuation [of "drop_bit 6 uni", folded d_def]
    and e = bit_continuation [of uni, folded e_def]
  show "push_bit 12 (ucast c AND 0xF) OR push_bit 6 (ucast d AND 0x3F) OR (ucast e AND 0x3F) = (ucast uni :: u32)"
  proof (rule bit_word_eqI)
    fix n :: nat
    consider "n < 6" | "6 \<le> n" "n < 12" | "12 \<le> n" by linarith
    then show "bit (push_bit 12 (ucast c AND 0xF) OR push_bit 6 (ucast d AND 0x3F) OR (ucast e AND 0x3F) :: u32) n =
        bit (ucast uni :: u32) n"
      unfolding u32_masks using u16_bit_bound [of uni n] by cases (auto simp: bit_simps c d e)
  qed
qed

lemma utf8_char_roundtrip:
  assumes "dfslib_unicode_to_utf8 uni n = Inr (bs, n')"
  shows "dfslib_utf8_to_unicode (bs @ rest) = (Inr (ucast uni), rest) \<and> n = n' + length bs"
proof -
  consider "\<forall>n \<ge> 7. \<not> bit uni n" | "\<not> (\<forall>n \<ge> 7. \<not> bit uni n)" "\<forall>n \<ge> 11. \<not> bit uni n"
    | "\<not> (\<forall>n \<ge> 7. \<not> bit uni n)" "\<not> (\<forall>n \<ge> 11. \<not> bit uni n)" by blast
  then show ?thesis
  proof cases
    case 1
    then have "bs = [ucast uni]" "n = n' + 1"
      using assms unfolding dfslib_unicode_to_utf8_def u16_masks fits_iff by (auto split: if_splits)
    moreover have "(ucast uni :: u8) < 0x80"
      unfolding byte_less_iff_bits using 1 by (simp add: bit_simps)
    moreover have "ucast (ucast uni :: u8) = (ucast uni :: u32)"
    proof (rule bit_word_eqI)
      fix n
      have "bit uni n \<Longrightarrow> \<not> 7 \<le> n" using 1 by blast
      then show "bit (ucast (ucast uni :: u8) :: u32) n = bit (ucast uni :: u32) n" by (auto simp: bit_simps)
    qed
    ultimately show ?thesis by simp
  next
    case 2
    then have "bs = [ucast (drop_bit 6 uni OR 0xC0), ucast ((uni AND 0x3F) OR 0x80)]" "n = n' + 2"
      using assms unfolding dfslib_unicode_to_utf8_def u16_masks(1,2) fits_iff by (auto split: if_splits)
    moreover have "\<And>n. bit uni n \<Longrightarrow> n < 11" using 2(2) by (metis not_le)
    note utf8_two_bytes [OF this]
    ultimately show ?thesis
      by (simp only: append_Cons append_Nil dfslib_utf8_to_unicode.simps list.case if_True if_False not_True_eq_False) simp
  next
    case 3
    then have "bs = [ucast (drop_bit 12 uni OR 0xE0), ucast ((drop_bit 6 uni AND 0x3F) OR 0x80),
        ucast ((uni AND 0x3F) OR 0x80)]" "n = n' + 3"
      using assms unfolding dfslib_unicode_to_utf8_def u16_masks(1,2) fits_iff by (auto split: if_splits)
    then show ?thesis
      by (simp only: append_Cons append_Nil dfslib_utf8_to_unicode.simps list.case if_True if_False not_True_eq_False
          utf8_three_bytes) simp
  qed
qed

lemma read_all_encoded:
  assumes "encode_utf8 us n = Inr bs"
  shows "read_all (Utf8 (pre @ bs)) (length pre) = (map ucast us, DFSLIB_NAME_TOO_LONG)"
  using assms
proof (induction us arbitrary: pre n bs)
  case Nil
  then show ?case by (simp add: read_all.simps)
next
  case (Cons u us)
  obtain cs n' rest where c: "dfslib_unicode_to_utf8 u n = Inr (cs, n')" "encode_utf8 us n' = Inr rest" "bs = cs @ rest"
    using Cons.prems by (auto split: sum.splits prod.splits)
  have "dfslib_unicode_read (Utf8 (pre @ bs)) (length pre) = (Inr (ucast u), length (pre @ cs))"
    using utf8_char_roundtrip [OF c(1), of rest] by (simp add: c(3))
  then show ?case
    using Cons.IH [OF c(2), of "pre @ cs"] by (subst read_all.simps) (simp add: c(3))
qed

text \<open>
  C38: converting a string of 16-bit characters to UTF-8 and back into a large
  enough buffer gives the same string, and a successful conversion never writes
  more bytes than the buffer has.
\<close>

theorem dfslib_utf8_roundtrip:
  assumes "dfslib_string_to_utf8 (Unicode us) len = (Utf8 bs, r)" "length us < len'"
  shows "dfslib_string_to_unicode (Utf8 bs) len' = (Unicode us, int (length us)) \<and> length bs \<le> len"
proof -
  have e: "encode_utf8 us len = Inr bs" using assms(1) by (auto split: sum.splits)
  have "length bs \<le> len" using e
  proof (induction us arbitrary: len bs)
    case (Cons u us)
    then obtain cs n' rest where "dfslib_unicode_to_utf8 u len = Inr (cs, n')" "encode_utf8 us n' = Inr rest" "bs = cs @ rest"
      by (auto split: sum.splits prod.splits)
    then show ?case using utf8_char_roundtrip Cons.IH by fastforce
  qed simp
  moreover have "map (\<lambda>x. ucast (ucast x :: u32)) us = us"
    by (rule map_idI) (auto simp: bit_simps intro!: bit_word_eqI)
  ultimately show ?thesis
    using read_all_encoded [OF e, of "[]"] assms(2)
    by (simp add: dfslib_string_to_unicode_def comp_def)
qed

theorem dfslib_utf8_roundtrip_witness:
  "dfslib_string_to_unicode (fst (dfslib_string_to_utf8 (Unicode [0x41, 0x416, 0x20AC]) 6)) 4 =
     (Unicode [0x41, 0x416, 0x20AC], 3)"
proof -
  have "dfslib_string_to_utf8 (Unicode [0x41, 0x416, 0x20AC]) 6 = (Utf8 [0x41, 0xD0, 0x96, 0xE2, 0x82, 0xAC], 6)"
    by code_simp
  from dfslib_utf8_roundtrip [OF this, of 4] this show ?thesis by simp
qed

end
