(* ===== verification/Dfs_Crypt.thy ===== *)
theory Dfs_Crypt
  imports Dfs_String Block_Types
begin

text \<open>
  dfslib/dfslib_crypt.c: the stream cipher that protects the fields pools and
  miners exchange.  \<open>regs\<close> is the table of 65536 words, \<open>pwd\<close> the hashed
  password; the four working words rotate through the macros of the source.
\<close>

section \<open>Model\<close>

definition DFS_MAGIC0 :: u32 where "DFS_MAGIC0 = 572035291"
definition DFS_MAGIC1 :: u32 where "DFS_MAGIC1 = 2626708081"
definition DFS_MAGIC2 :: u32 where "DFS_MAGIC2 = 2471573851"
definition DFS_MAGIC3 :: u32 where "DFS_MAGIC3 = 3569250857"
definition DFS_MAGIC4 :: u64 where "DFS_MAGIC4 = 1971772241"
definition DFS_MAGIC5 :: u32 where "DFS_MAGIC5 = 1615037507"
definition DFS_MAGIC6 :: u32 where "DFS_MAGIC6 = 43385317"
definition DFS_MAGIC7 :: u64 where "DFS_MAGIC7 = 1229426917"
definition DFS_MAGIC8 :: u64 where "DFS_MAGIC8 = 3433359571"

record dfslib_crypt =
  regs :: "u32 list"
  pwd :: "u32 list"
  ispwd :: bool

text \<open>One character: the password, a number of four 32-bit digits, is multiplied and the character added.\<close>

fun pwd_step :: "u64 \<Rightarrow> u32 list \<Rightarrow> u32 list" where
  "pwd_step res [] = []"
| "pwd_step res (p # ps) =
     (let res = res + ucast p * DFS_MAGIC4 in ucast res # pwd_step (drop_bit 32 res) ps)"

text \<open>The password is given, or NULL; the result is \<open>ispwd\<close> or an error code.\<close>

definition dfslib_crypt_set_password :: "dfslib_crypt \<Rightarrow> dfslib_string option \<Rightarrow> dfslib_crypt \<times> int" where
  "dfslib_crypt_set_password dfsc password =
     (let dfsc = dfsc\<lparr>ispwd := False, pwd := [DFS_MAGIC0, DFS_MAGIC1, DFS_MAGIC2, DFS_MAGIC3]\<rparr> in
      case password of
        None \<Rightarrow> (dfsc, 0)
      | Some str \<Rightarrow>
          (let (us, err) = read_all str 0;
               dfsc = dfsc\<lparr>pwd := fold (\<lambda>u. pwd_step (ucast u)) us (pwd dfsc)\<rparr> in
           if err \<noteq> DFSLIB_NAME_TOO_LONG then (dfsc, err)
           else (dfsc\<lparr>ispwd := us \<noteq> []\<rparr>, if us \<noteq> [] then 1 else 0)))"

definition dfslib_crypt_copy_password :: "dfslib_crypt \<Rightarrow> dfslib_crypt \<Rightarrow> dfslib_crypt" where
  "dfslib_crypt_copy_password to from = to\<lparr>pwd := pwd from, ispwd := ispwd from\<rparr>"

definition dfslib_crypt_is_password :: "dfslib_crypt \<Rightarrow> bool" where
  "dfslib_crypt_is_password dfsc = ispwd dfsc"

text \<open>Mixing runs from the last word to the first: the list is reversed.\<close>

fun enmix_rev :: "u32 \<Rightarrow> u32 list \<Rightarrow> u32 list" where
  "enmix_rev c [] = []"
| "enmix_rev c (d # ds) = (let d = d XOR c * DFS_MAGIC6 in d # enmix_rev d ds)"

definition dfs_enmixArray :: "u32 list \<Rightarrow> u32 list" where
  "dfs_enmixArray d = rev (enmix_rev DFS_MAGIC5 (rev d))"

fun unmix_rev :: "u32 \<Rightarrow> u32 list \<Rightarrow> u32 list" where
  "unmix_rev c [] = []"
| "unmix_rev c (d # ds) =
     (let c = c * DFS_MAGIC6; d = d XOR c; c = c XOR d in d # unmix_rev c ds)"

definition dfs_unmixArray :: "u32 list \<Rightarrow> u32 list" where
  "dfs_unmixArray d = rev (unmix_rev DFS_MAGIC5 (rev d))"

type_synonym quad = "u32 \<times> u32 \<times> u32 \<times> u32"

definition dfs_crypt0 :: "u32 list \<Rightarrow> u32 \<Rightarrow> u32 \<Rightarrow> u32 \<Rightarrow> u32 \<Rightarrow> u32" where
  "dfs_crypt0 r x y z t =
     ucast (drop_bit 16 ((ucast y :: u64) * ucast (z + r ! unat (drop_bit 16 x)))) XOR r ! unat (ucast t :: u16)"

fun dfs_crypt2 :: "u32 list \<Rightarrow> quad \<Rightarrow> quad" where
  "dfs_crypt2 r (x, y, z, t) =
     (dfs_crypt0 r x y z t, dfs_crypt0 r y z t x, dfs_crypt0 r z t x y, dfs_crypt0 r t x y z)"

definition dfs_crypt3 :: "u32 list \<Rightarrow> quad \<Rightarrow> quad" where
  "dfs_crypt3 r q = dfs_crypt2 r (dfs_crypt2 r q)"

definition dfs_crypt6 :: "u32 list \<Rightarrow> quad \<Rightarrow> quad" where
  "dfs_crypt6 r q = (dfs_crypt3 r ^^ 8) q"

text \<open>The two branches of \<open>dfs_mod\<close>: with a 64-bit and with a 32-bit \<open>unsigned long\<close>.\<close>

definition dfs_mod :: "u64 \<Rightarrow> u16 \<Rightarrow> u16" where
  "dfs_mod big small = ucast (big mod ucast small)"

definition dfs_mod32 :: "u64 \<Rightarrow> u16 \<Rightarrow> u16" where
  "dfs_mod32 big small =
     (if ucast (ucast big :: u32) = big then ucast ((ucast big :: u32) mod ucast small)
      else
        (let tmp = (ucast (drop_bit 32 big) :: u32) mod ucast small;
             tmp = (push_bit 16 tmp OR drop_bit 16 (ucast big)) mod ucast small;
             tmp = push_bit 16 tmp OR ucast (ucast big :: u16)
         in ucast (tmp mod ucast small)))"

definition dfs_prepare :: "dfslib_crypt \<Rightarrow> u64 \<Rightarrow> quad" where
  "dfs_prepare dfsc sectorNo =
     (let sectorNo = sectorNo * (push_bit 32 DFS_MAGIC7 OR DFS_MAGIC8);
          x = pwd dfsc ! 0 XOR regs dfsc ! (unat (dfs_mod sectorNo 65479) + 31);
          y = pwd dfsc ! 1 XOR regs dfsc ! (unat (dfs_mod sectorNo 65497) + 11);
          z = pwd dfsc ! 2 XOR regs dfsc ! (unat (dfs_mod sectorNo 65519) + 5);
          t = pwd dfsc ! 3 XOR regs dfsc ! (unat (dfs_mod sectorNo 65521) + 3)
      in dfs_crypt6 (regs dfsc) (x, y, z, t))"

text \<open>One word: the new working words and the encrypted (decrypted) word.\<close>

fun dfs_encrypt2 :: "u32 list \<Rightarrow> quad \<Rightarrow> u32 \<Rightarrow> quad \<times> u32" where
  "dfs_encrypt2 r (x, y, z, t) data =
     (let a = dfs_crypt0 r x y z t XOR NOT data; b = dfs_crypt0 r y z t x;
          c = dfs_crypt0 r z t x y; d = dfs_crypt0 r t x y z
      in ((a, b, c, d), data - d))"

fun dfs_uncrypt2 :: "u32 list \<Rightarrow> quad \<Rightarrow> u32 \<Rightarrow> quad \<times> u32" where
  "dfs_uncrypt2 r (x, y, z, t) data =
     (let c = dfs_crypt0 r z t x y; d = dfs_crypt0 r t x y z; data = data + d;
          a = dfs_crypt0 r x y z t XOR NOT data; b = dfs_crypt0 r y z t x
      in ((a, b, c, d), data))"

fun crypt_words :: "(quad \<Rightarrow> u32 \<Rightarrow> quad \<times> u32) \<Rightarrow> quad \<Rightarrow> u32 list \<Rightarrow> quad \<times> u32 list" where
  "crypt_words f q [] = (q, [])"
| "crypt_words f q (w # ws) =
     (let (q, w) = f q w; (q, ws) = crypt_words f q ws in (q, w # ws))"

text \<open>\<open>dfs_encrypt3\<close> handles two words; an array has an even number of them.\<close>

definition dfslib_encrypt_array :: "dfslib_crypt \<Rightarrow> u32 list \<Rightarrow> u64 \<Rightarrow> u32 list \<times> int" where
  "dfslib_encrypt_array dfsc data sectorNo =
     (if \<not> ispwd dfsc \<or> odd (length data) then (data, 0)
      else (snd (crypt_words (dfs_encrypt2 (regs dfsc)) (dfs_prepare dfsc sectorNo) (dfs_enmixArray data)), 1))"

definition dfslib_uncrypt_array :: "dfslib_crypt \<Rightarrow> u32 list \<Rightarrow> u64 \<Rightarrow> u32 list \<times> int" where
  "dfslib_uncrypt_array dfsc data sectorNo =
     (if \<not> ispwd dfsc \<or> odd (length data) then (data, 0)
      else (dfs_unmixArray (snd (crypt_words (dfs_uncrypt2 (regs dfsc)) (dfs_prepare dfsc sectorNo) data)), 1))"

text \<open>A sector is 128 words: eight rounds of sixteen words, mixed as an array of 128.\<close>

definition dfslib_encrypt_sector :: "dfslib_crypt \<Rightarrow> u32 list \<Rightarrow> u64 \<Rightarrow> u32 list \<times> int" where
  "dfslib_encrypt_sector dfsc sector sectorNo =
     (if \<not> ispwd dfsc then (sector, 0)
      else (snd (crypt_words (dfs_encrypt2 (regs dfsc)) (dfs_prepare dfsc sectorNo)
                   (dfs_enmixArray (take 128 sector))) @ drop 128 sector, 1))"

definition dfslib_uncrypt_sector :: "dfslib_crypt \<Rightarrow> u32 list \<Rightarrow> u64 \<Rightarrow> u32 list \<times> int" where
  "dfslib_uncrypt_sector dfsc sector sectorNo =
     (if \<not> ispwd dfsc then (sector, 0)
      else (dfs_unmixArray (snd (crypt_words (dfs_uncrypt2 (regs dfsc)) (dfs_prepare dfsc sectorNo)
                   (take 128 sector))) @ drop 128 sector, 1))"

text \<open>
  \<open>dfslib_crypt_set_sector0\<close> writes 512 rotations of the sector into the table
  and then encrypts each row in place, so that the table changes under the
  cipher: a row is the 128 words from \<open>pos\<close> on.
\<close>

fun encrypt_in_table :: "nat \<Rightarrow> nat \<Rightarrow> quad \<Rightarrow> u32 list \<Rightarrow> u32 list" where
  "encrypt_in_table 0 pos q r = r"
| "encrypt_in_table (Suc n) pos q r =
     (let (q, w) = dfs_encrypt2 r q (r ! pos) in encrypt_in_table n (Suc pos) q (r[pos := w]))"

definition encrypt_row :: "nat \<Rightarrow> dfslib_crypt \<Rightarrow> dfslib_crypt" where
  "encrypt_row i dfsc =
     (let pos = 128 * i; q = dfs_prepare dfsc (of_nat i); r = regs dfsc;
          r1 = take pos r @ dfs_enmixArray (take 128 (drop pos r)) @ drop (pos + 128) r
      in dfsc\<lparr>regs := encrypt_in_table 128 pos q r1\<rparr>)"

definition word_of_bytes :: "u8 list \<Rightarrow> nat \<Rightarrow> u32" where
  "word_of_bytes bs i = ucast (bs ! (4 * i)) OR push_bit 8 (ucast (bs ! (4 * i + 1))) OR
     push_bit 16 (ucast (bs ! (4 * i + 2))) OR push_bit 24 (ucast (bs ! (4 * i + 3)))"

definition dfslib_crypt_set_sector0 :: "dfslib_crypt \<Rightarrow> u8 list \<Rightarrow> dfslib_crypt \<times> int" where
  "dfslib_crypt_set_sector0 dfsc sector =
     (if \<not> ispwd dfsc then (dfsc, 0)
      else
        (let rows = concat (map (\<lambda>i. drop i sector @ take i sector) [0..<512]) in
         (fold encrypt_row [0..<512] (dfsc\<lparr>regs := map (word_of_bytes rows) [0..<65536]\<rparr>), 1)))"

section \<open>Decryption undoes encryption\<close>

lemma unmix_enmix: "unmix_rev c (enmix_rev c ds) = ds"
proof (induction ds arbitrary: c)
  case (Cons d ds)
  have "(d XOR k) XOR k = d" "k XOR (d XOR k) XOR k = d XOR k" for k :: u32
    by (simp_all add: xor.assoc xor.left_commute xor.commute)
  then show ?case using Cons by (simp add: Let_def)
qed simp

lemma length_enmix [simp]: "length (dfs_enmixArray d) = length d"
proof -
  have "length (enmix_rev c xs) = length xs" for c xs by (induction xs arbitrary: c) (auto simp: Let_def)
  then show ?thesis by (simp add: dfs_enmixArray_def)
qed

lemma unmixArray_enmixArray: "dfs_unmixArray (dfs_enmixArray d) = d"
  by (simp add: dfs_unmixArray_def dfs_enmixArray_def unmix_enmix)

lemma uncrypt2_encrypt2: "dfs_encrypt2 r q w = (q', v) \<Longrightarrow> dfs_uncrypt2 r q v = (q', w)"
  by (cases q) (auto simp: Let_def)

lemma length_crypt_words [simp]: "length (snd (crypt_words f q ws)) = length ws"
proof (induction ws arbitrary: q)
  case (Cons w ws)
  obtain q' v where e: "f q w = (q', v)" by fastforce
  then show ?case using Cons [of q'] by (simp add: case_prod_beta)
qed simp

lemma uncrypt_encrypt_words:
  "snd (crypt_words (dfs_uncrypt2 r) q (snd (crypt_words (dfs_encrypt2 r) q ws))) = ws"
proof (induction ws arbitrary: q)
  case (Cons w ws)
  obtain q' v where e: "dfs_encrypt2 r q w = (q', v)" by fastforce
  then show ?case
    using Cons.IH [of q'] uncrypt2_encrypt2 [OF e] by (simp add: case_prod_beta)
qed simp

text \<open>
  C37: what \<open>dfslib_encrypt_array\<close> and \<open>dfslib_encrypt_sector\<close> encrypt under a
  password and sector number, the uncrypt functions decrypt under the same; and
  with no password (or an odd array length) nothing is changed and 0 is
  returned.
\<close>

theorem dfs_uncrypt_encrypt:
  "fst (dfslib_uncrypt_array dfsc (fst (dfslib_encrypt_array dfsc data n)) n) = data \<and>
   fst (dfslib_uncrypt_sector dfsc (fst (dfslib_encrypt_sector dfsc data n)) n) = data \<and>
   (snd (dfslib_encrypt_array dfsc data n) = 1 \<longleftrightarrow> ispwd dfsc \<and> even (length data))"
proof -
  let ?e = "snd (crypt_words (dfs_encrypt2 (regs dfsc)) (dfs_prepare dfsc n) (dfs_enmixArray (take 128 data)))"
  have "length ?e = min 128 (length data)" by simp
  then have "take 128 (?e @ drop 128 data) = ?e" "drop 128 (?e @ drop 128 data) = drop 128 data"
    by (cases "length data < 128"; simp)+
  then have "fst (dfslib_uncrypt_sector dfsc (fst (dfslib_encrypt_sector dfsc data n)) n) = data"
    by (simp only: dfslib_encrypt_sector_def dfslib_uncrypt_sector_def uncrypt_encrypt_words unmixArray_enmixArray
        fst_conv append_take_drop_id split: if_split) simp
  then show ?thesis
    by (simp add: dfslib_encrypt_array_def dfslib_uncrypt_array_def uncrypt_encrypt_words unmixArray_enmixArray)
qed

section \<open>The password and the sector number\<close>

text \<open>A list of 32-bit digits, least significant first, as a number.\<close>

fun digits_value :: "u32 list \<Rightarrow> nat" where
  "digits_value [] = 0"
| "digits_value (d # ds) = unat d + 2 ^ 32 * digits_value ds"

lemma pwd_step_value:
  assumes "unat res < 2 ^ 32"
  shows "digits_value (pwd_step res ps) =
    (digits_value ps * unat DFS_MAGIC4 + unat res) mod 2 ^ (32 * length ps)"
  using assms
proof (induction ps arbitrary: res)
  case (Cons p ps)
  let ?x = "unat res + unat p * unat DFS_MAGIC4"
  let ?r = "res + ucast p * DFS_MAGIC4"
  have p: "unat p < 2 ^ 32" using unat_bound [of p] by simp
  have "?x < 2 ^ 64"
  proof -
    have "unat p * unat DFS_MAGIC4 \<le> (2 ^ 32 - 1) * 1971772241"
      using p by (intro mult_mono) (auto simp: DFS_MAGIC4_def)
    then show ?thesis using Cons.prems by simp
  qed
  then have x: "unat ?r = ?x"
    using p by (simp add: unat_word_ariths unsigned_ucast_eq take_bit_nat_eq_self)
  have lo: "unat (ucast ?r :: u32) = ?x mod 2 ^ 32"
    using x by (simp add: unsigned_ucast_eq take_bit_eq_mod)
  have hi: "unat (drop_bit 32 ?r) = ?x div 2 ^ 32" using x by (simp add: unat_drop_bit)
  then have "unat (drop_bit 32 ?r) < 2 ^ 32" using \<open>?x < 2 ^ 64\<close> by (simp add: less_mult_imp_div_less)
  then have "digits_value (pwd_step res (p # ps)) =
      ?x mod 2 ^ 32 + 2 ^ 32 * ((digits_value ps * unat DFS_MAGIC4 + ?x div 2 ^ 32) mod 2 ^ (32 * length ps))"
    using Cons.IH [of "drop_bit 32 ?r"] lo hi by (simp add: Let_def)
  also have "\<dots> = (?x + 2 ^ 32 * (digits_value ps * unat DFS_MAGIC4)) mod 2 ^ (32 * length (p # ps))"
  proof -
    have "(?x + 2 ^ 32 * v) mod (2 ^ 32 * 2 ^ k) = ?x mod 2 ^ 32 + 2 ^ 32 * ((v + ?x div 2 ^ 32) mod 2 ^ k)" for v k
      using mod_mult2_eq [of "?x + 2 ^ 32 * v" "2 ^ 32" "2 ^ k"] by (simp add: add.commute)
    then show ?thesis by (simp only: length_Cons mult_Suc_right power_add)
  qed
  finally show ?case by (simp add: algebra_simps)
qed simp

lemma length_pwd_step [simp]: "length (pwd_step res ps) = length ps"
  by (induction ps arbitrary: res) (auto simp: Let_def)

text \<open>
  \<open>dfslib_crypt_set_password\<close> with a non-empty well-formed password sets the
  password flag, and the password words are the characters folded by Horner's
  rule modulo \<open>2 ^ 128\<close>: each one is added to \<open>DFS_MAGIC4\<close> times the number
  before.
\<close>

theorem set_password_horner:
  assumes "read_all str 0 = (us, DFSLIB_NAME_TOO_LONG)" "us \<noteq> []"
  shows "snd (dfslib_crypt_set_password dfsc (Some str)) = 1 \<and>
    dfslib_crypt_is_password (fst (dfslib_crypt_set_password dfsc (Some str))) \<and>
    digits_value (pwd (fst (dfslib_crypt_set_password dfsc (Some str)))) =
      foldl (\<lambda>v u. (v * unat DFS_MAGIC4 + unat u) mod 2 ^ 128)
        (digits_value [DFS_MAGIC0, DFS_MAGIC1, DFS_MAGIC2, DFS_MAGIC3]) us"
proof -
  have fold: "length ps = 4 \<Longrightarrow>
      digits_value (fold (\<lambda>u. pwd_step (ucast u)) us ps) =
      foldl (\<lambda>v u. (v * unat DFS_MAGIC4 + unat u) mod 2 ^ 128) (digits_value ps) us" for ps and us :: "u32 list"
  proof (induction us arbitrary: ps)
    case (Cons u us)
    have "unat (ucast u :: u64) = unat u" "unat u < 2 ^ 32"
      using unat_bound [of u] by (simp_all add: unsigned_ucast_eq take_bit_nat_eq_self)
    then have "digits_value (pwd_step (ucast u) ps) = (digits_value ps * unat DFS_MAGIC4 + unat u) mod 2 ^ 128"
      using pwd_step_value [of "ucast u" ps] Cons.prems by simp
    then show ?case using Cons by simp
  qed simp
  show ?thesis
    using assms fold [of "[DFS_MAGIC0, DFS_MAGIC1, DFS_MAGIC2, DFS_MAGIC3]" us]
    by (simp add: dfslib_crypt_set_password_def dfslib_crypt_is_password_def Let_def)
qed

definition empty_crypt :: dfslib_crypt where
  "empty_crypt = \<lparr>regs = [], pwd = [], ispwd = False\<rparr>"

theorem set_password_horner_witness:
  "snd (dfslib_crypt_set_password empty_crypt (Some (Utf8 [0x6d]))) = 1"
proof -
  have "read_all (Utf8 [0x6d]) 0 = ([0x6d], DFSLIB_NAME_TOO_LONG)" by code_simp
  from set_password_horner [OF this, of empty_crypt] show ?thesis by simp
qed

lemma push_or_eq_add:
  fixes hi lo :: u32
  assumes "unat hi < 2 ^ 16" "unat lo < 2 ^ 16"
  shows "unat (push_bit 16 hi OR lo) = unat hi * 2 ^ 16 + unat lo"
proof -
  have "\<not> bit lo n" if "n \<ge> 16" for n
  proof
    assume "bit lo n"
    then have "bit (unat lo) n" by (simp add: bit_unsigned_iff)
    then have "2 ^ n \<le> unat lo" by (metis bit_iff_odd div_less even_zero not_le)
    then show False using assms(2) that power_increasing [of 16 n "2 :: nat"] by simp
  qed
  then have "push_bit 16 hi OR lo = push_bit 16 hi + lo"
    by (intro disjunctive_add [symmetric]) (auto simp: bit_push_bit_iff)
  moreover have "unat (push_bit 16 hi) = unat hi * 2 ^ 16"
    using assms(1) by (simp add: push_bit_eq_mult unat_word_ariths)
  ultimately show ?thesis using assms by (simp add: unat_word_ariths)
qed

lemma mod_digit: "((a mod k) * c + b) mod k = (a * c + b) mod (k :: nat)"
  by (metis mod_add_left_eq mod_mult_left_eq)

text \<open>
  the branch of \<open>dfs_mod\<close> for a 32-bit \<open>unsigned long\<close>, which divides in
  three steps of 16 bits, computes the same remainder as the 64-bit branch.
\<close>

theorem dfs_mod_branches_agree:
  assumes "small \<noteq> 0"
  shows "dfs_mod32 big small = dfs_mod big small"
proof -
  let ?m = "unat small"
  have m: "0 < ?m" "?m < 2 ^ 16" using assms unat_bound [of small] by (simp_all add: unat_gt_0)
  have mod16: "unat (a mod ucast small) = unat a mod ?m" "unat (a mod ucast small) < 2 ^ 16" for a :: u32
    using m by (simp_all add: unat_mod unsigned_ucast_eq take_bit_nat_eq_self) (meson mod_less_divisor order_less_trans)
  define h where "h = unat big div 2 ^ 32"
  define l where "l = unat big mod 2 ^ 32"
  have hl: "unat big = h * 2 ^ 32 + l" "h < 2 ^ 32" "l < 2 ^ 32"
    using unat_bound [of big] by (simp_all add: h_def l_def less_mult_imp_div_less)
  have lo: "unat (ucast big :: u32) = l" by (simp add: unsigned_ucast_eq take_bit_eq_mod l_def)
  have hi: "unat (ucast (drop_bit 32 big) :: u32) = h"
    using hl(2) by (simp add: unsigned_ucast_eq unat_drop_bit h_def take_bit_nat_eq_self)
  have l1: "unat (drop_bit 16 (ucast big :: u32)) = l div 2 ^ 16" by (simp only: unat_drop_bit lo)
  have l0: "unat (ucast (ucast big :: u16) :: u32) = l mod 2 ^ 16"
  proof -
    have "unat (ucast w :: u32) = unat w" for w :: u16
      using unat_bound [of w] by (simp only: unsigned_ucast_eq) (simp add: take_bit_nat_eq_self)
    moreover have "unat (ucast big :: u16) = unat big mod 2 ^ 16"
      by (simp add: unsigned_ucast_eq take_bit_eq_mod)
    ultimately have "unat (ucast (ucast big :: u16) :: u32) = unat big mod 2 ^ 16" by (simp only:)
    then show ?thesis by (simp only: l_def) (simp add: mod_mod_cancel)
  qed
  define t1 where "t1 = (ucast (drop_bit 32 big) :: u32) mod ucast small"
  define t2 where "t2 = (push_bit 16 t1 OR drop_bit 16 (ucast big :: u32)) mod ucast small"
  have t1: "unat t1 = h mod ?m" "unat t1 < 2 ^ 16" 
    unfolding t1_def using mod16(2) by (simp only: mod16(1) hi, blast)
  have "unat (push_bit 16 t1 OR drop_bit 16 (ucast big)) = (h mod ?m) * 2 ^ 16 + l div 2 ^ 16"
    using push_or_eq_add [of t1 "drop_bit 16 (ucast big)"] t1 l1 hl(3) by (simp add: less_mult_imp_div_less)
  then have "unat t2 = (h mod ?m * 2 ^ 16 + l div 2 ^ 16) mod ?m" by (simp only: t2_def mod16(1))
  then have t2: "unat t2 = (h * 2 ^ 16 + l div 2 ^ 16) mod ?m" by (simp only: mod_digit)
  have t2_less: "unat t2 < 2 ^ 16" unfolding t2_def by (rule mod16(2))
  have "unat (push_bit 16 t2 OR ucast (ucast big :: u16)) = unat t2 * 2 ^ 16 + l mod 2 ^ 16"
    using push_or_eq_add [of t2 "ucast (ucast big :: u16)"] t2_less l0 by simp
  then have "unat ((push_bit 16 t2 OR ucast (ucast big :: u16)) mod ucast small) =
      (((h * 2 ^ 16 + l div 2 ^ 16) mod ?m) * 2 ^ 16 + l mod 2 ^ 16) mod ?m"
    by (simp only: mod16 t2)
  also have "\<dots> = ((h * 2 ^ 16 + l div 2 ^ 16) * 2 ^ 16 + l mod 2 ^ 16) mod ?m" by (simp only: mod_digit)
  also have "(h * 2 ^ 16 + l div 2 ^ 16) * 2 ^ 16 + l mod 2 ^ 16 = unat big"
    using hl(1) div_mult_mod_eq [of l "2 ^ 16"] by (simp add: algebra_simps)
  finally have "unat ((push_bit 16 t2 OR ucast (ucast big :: u16)) mod ucast small) = unat big mod ?m" .
  moreover have "unat (big mod ucast small) = unat big mod ?m"
    using m by (simp add: unat_mod unsigned_ucast_eq take_bit_nat_eq_self)
  moreover have "ucast (ucast big :: u32) = big \<Longrightarrow> unat ((ucast big :: u32) mod ucast small) = unat big mod ?m"
  proof -
    assume "ucast (ucast big :: u32) = big"
    then have "unat big = unat (ucast (ucast big :: u32) :: u64)" by simp
    also have "unat (ucast w :: u64) = unat w" for w :: u32
      using unat_bound [of w] by (simp only: unsigned_ucast_eq) (simp add: take_bit_nat_eq_self)
    from this [of "ucast big"] have "unat (ucast (ucast big :: u32) :: u64) = l" by (simp only: lo)
    finally show ?thesis by (simp only: mod16(1) lo)
  qed
  ultimately show ?thesis
    unfolding dfs_mod32_def dfs_mod_def Let_def t1_def [symmetric] t2_def [symmetric]
    by (auto simp: word_unat_eq_iff unsigned_ucast_eq)
qed

theorem dfs_mod_branches_agree_witness: "dfs_mod32 (0x123456789abcdef0) 65479 = dfs_mod 0x123456789abcdef0 65479"
  using dfs_mod_branches_agree [of 65479 "0x123456789abcdef0"] by simp

end
