(* ===== verification/Text_Utils.thy ===== *)
theory Text_Utils
  imports Prelude
begin

text \<open>
  The string checks of client/utils/utils.c and the trimming of
  client/utils/string_utils.c.  A string is the list of its bytes without the
  terminating zero; \<open>char\<close> is signed, so a byte of 128 or more is negative.
\<close>

section \<open>Model\<close>

definition char_less :: "u8 \<Rightarrow> int \<Rightarrow> bool" where "char_less c n \<longleftrightarrow> sint c < n"
definition char_greater :: "u8 \<Rightarrow> int \<Rightarrow> bool" where "char_greater c n \<longleftrightarrow> sint c > n"

text \<open>The memory from the pointer on; reading past it does not happen when it has a zero byte in range.\<close>

fun ascii_safe_loop :: "u8 list \<Rightarrow> nat \<Rightarrow> nat \<Rightarrow> nat" where
  "ascii_safe_loop mem pos 0 = 0"
| "ascii_safe_loop mem pos (Suc n) =
     (let c = mem ! pos in
      if char_less c 32 \<or> char_greater c 126 then (if c = 0 then pos else 0)
      else ascii_safe_loop mem (Suc pos) n)"

definition validate_ascii_safe :: "u8 list \<Rightarrow> nat \<Rightarrow> nat" where
  "validate_ascii_safe mem maxsize = ascii_safe_loop mem 0 maxsize"

definition validate_remark :: "u8 list \<Rightarrow> nat" where
  "validate_remark mem = validate_ascii_safe mem 33"

fun replace_all_nonprintable_characters :: "u8 list \<Rightarrow> nat option \<Rightarrow> u8 \<Rightarrow> u8 list" where
  "replace_all_nonprintable_characters [] len symbol = []"
| "replace_all_nonprintable_characters (c # cs) len symbol =
     (if len = Some 0 then c # cs
      else (if char_less c 33 \<or> char_greater c 126 then symbol else c) #
           replace_all_nonprintable_characters cs (map_option (\<lambda>n. n - 1) len) symbol)"

text \<open>\<open>isspace\<close> and the case conversions in the C locale.\<close>

definition isspace :: "u8 \<Rightarrow> bool" where
  "isspace c \<longleftrightarrow> c = 32 \<or> 9 \<le> c \<and> c \<le> 13"

definition rtrim :: "u8 list \<Rightarrow> u8 list" where
  "rtrim str = rev (dropWhile isspace (rev str))"

definition ltrim :: "u8 list \<Rightarrow> u8 list" where
  "ltrim str = dropWhile isspace str"

definition string_trim :: "u8 list \<Rightarrow> u8 list" where
  "string_trim str = ltrim (rtrim str)"

definition xdag_str_toupper :: "u8 list \<Rightarrow> u8 list" where
  "xdag_str_toupper str = map (\<lambda>c. if 97 \<le> c \<and> c \<le> 122 then c - 32 else c) str"

definition xdag_str_tolower :: "u8 list \<Rightarrow> u8 list" where
  "xdag_str_tolower str = map (\<lambda>c. if 65 \<le> c \<and> c \<le> 90 then c + 32 else c) str"

text \<open>
  The checks on numbers read by \<open>sscanf\<close>: how many conversions succeeded, and
  the numbers.
\<close>

definition validate_ipv4 :: "nat \<Rightarrow> int list \<Rightarrow> bool" where
  "validate_ipv4 converted ns \<longleftrightarrow> converted = 4 \<and> (\<forall>n \<in> set (take 4 ns). 0 \<le> n \<and> n \<le> 255)"

definition validate_ipv4_port :: "nat \<Rightarrow> int list \<Rightarrow> bool" where
  "validate_ipv4_port converted ns \<longleftrightarrow>
     converted = 5 \<and> (\<forall>n \<in> set (take 4 ns). 0 \<le> n \<and> n \<le> 255) \<and> (0 \<le> ns ! 4 \<and> ns ! 4 \<le> 65535)"

section \<open>Remarks\<close>

definition printable :: "u8 \<Rightarrow> bool" where "printable c \<longleftrightarrow> 32 \<le> c \<and> c \<le> 126"

lemma not_printable: "char_less c 32 \<or> char_greater c 126 \<longleftrightarrow> \<not> printable c"
proof -
  have "uint c = sint c mod 256" using uint_sint [of c] by (simp add: take_bit_eq_mod)
  moreover have "- 128 \<le> sint c" "sint c < 128" using sint_ge [of c] sint_lt [of c] by simp_all
  moreover have "sint c mod 256 = (if 0 \<le> sint c then sint c else sint c + 256)"
    using mod_pos_pos_trivial [of "sint c" 256] mod_pos_pos_trivial [of "sint c + 256" 256] calculation(2,3)
    by (simp del: mod_pos_pos_trivial)
  ultimately have "sint c < 32 \<or> sint c > 126 \<longleftrightarrow> \<not> (32 \<le> uint c \<and> uint c \<le> 126)"
    by (simp only: split: if_split) linarith
  then show ?thesis by (simp add: char_less_def char_greater_def printable_def word_le_def)
qed

lemma ascii_safe_loop_prefix:
  assumes "pos + n \<le> length mem" "\<forall>i < pos. printable (mem ! i)" "0 \<in> set (take n (drop pos mem))"
  shows "ascii_safe_loop mem pos n =
    (if \<forall>c \<in> set (takeWhile (\<lambda>c. c \<noteq> 0) mem). printable c then length (takeWhile (\<lambda>c. c \<noteq> 0) mem) else 0)"
  using assms
proof (induction n arbitrary: pos)
  case (Suc n)
  have nz: "\<not> printable 0" by (simp add: printable_def)
  have d: "drop pos mem = mem ! pos # drop (Suc pos) mem" using Suc.prems(1) by (simp add: Cons_nth_drop_Suc)
  have split: "mem = take pos mem @ mem ! pos # drop (Suc pos) mem"
    using Suc.prems(1) by (simp add: id_take_nth_drop)
  have pre: "c \<in> set (take pos mem) \<Longrightarrow> printable c" for c
    using Suc.prems(1,2) by (auto simp: in_set_conv_nth)
  have tw: "takeWhile (\<lambda>c. c \<noteq> 0) mem = take pos mem @ takeWhile (\<lambda>c. c \<noteq> 0) (mem ! pos # drop (Suc pos) mem)"
    by (subst split, rule takeWhile_append2) (use pre nz in auto)
  consider "mem ! pos = 0" | "mem ! pos \<noteq> 0" "\<not> printable (mem ! pos)" | "printable (mem ! pos)" "mem ! pos \<noteq> 0"
    using nz by metis
  then show ?case
  proof cases
    case 1
    then show ?thesis using tw pre Suc.prems(1) nz by (simp add: not_printable Let_def)
  next
    case 2
    then show ?thesis using tw by (simp add: not_printable Let_def)
  next
    case 3
    have "\<forall>i < Suc pos. printable (mem ! i)" using Suc.prems(2) 3 by (simp add: less_Suc_eq)
    moreover have "0 \<in> set (take n (drop (Suc pos) mem))" using Suc.prems(3) 3 by (simp add: d)
    ultimately show ?thesis using Suc.IH [of "Suc pos"] Suc.prems(1) 3 by (simp add: not_printable Let_def)
  qed
qed simp

text \<open>
  A remark is accepted exactly when the text before its first zero byte is
  non-empty and printable, and the result is the length of that text.
\<close>

lemma validate_remark_text:
  assumes "length mem = 33" "mem ! 32 = 0"
  shows "validate_remark mem =
    (if \<forall>c \<in> set (takeWhile (\<lambda>c. c \<noteq> 0) mem). printable c then length (takeWhile (\<lambda>c. c \<noteq> 0) mem) else 0)"
proof -
  have "0 \<in> set mem" using assms by (metis lessI nth_mem numeral_eq_Suc pred_numeral_simps(3))
  then show ?thesis
    using ascii_safe_loop_prefix [of 0 33 mem] assms by (simp add: validate_remark_def validate_ascii_safe_def)
qed

text \<open>
  \<open>string_trim\<close> returns a text that neither starts nor ends with white
  space, it is a contiguous part of the argument, and trimming twice is trimming
  once.
\<close>

theorem string_trim_correct:
  "(string_trim s \<noteq> [] \<longrightarrow> \<not> isspace (hd (string_trim s)) \<and> \<not> isspace (last (string_trim s))) \<and>
   (\<exists>pre post. s = pre @ string_trim s @ post \<and> (\<forall>c \<in> set (pre @ post). isspace c)) \<and>
   string_trim (string_trim s) = string_trim s"
proof -
  define r where "r = rtrim s"
  define post where "post = rev (takeWhile isspace (rev s))"
  define pre where "pre = takeWhile isspace r"
  define t where "t = string_trim s"
  have t: "t = dropWhile isspace r" by (simp add: t_def string_trim_def ltrim_def r_def)
  have s: "s = r @ post"
    unfolding r_def post_def rtrim_def by (metis rev_append rev_rev_ident takeWhile_dropWhile_id)
  have r: "r = pre @ t" by (simp add: pre_def t)
  have spaces: "\<forall>c \<in> set (pre @ post). isspace c" by (auto simp: pre_def post_def dest: set_takeWhileD)
  have last_r: "r \<noteq> [] \<Longrightarrow> \<not> isspace (last r)"
    unfolding r_def rtrim_def last_rev by (rule hd_dropWhile) simp
  have ends: "t \<noteq> [] \<Longrightarrow> \<not> isspace (hd t) \<and> \<not> isspace (last t)"
    using hd_dropWhile [of isspace r, folded t] last_r r by (auto simp: last_append)
  moreover have "string_trim t = t"
  proof (cases "t = []")
    case False
    then have "dropWhile isspace (rev t) = rev t"
      using ends [OF False] by (simp add: dropWhile_eq_self_iff hd_rev)
    then have "rtrim t = t" by (simp add: rtrim_def)
    then show ?thesis using ends [OF False] by (cases t) (auto simp: string_trim_def ltrim_def)
  qed (simp add: string_trim_def ltrim_def rtrim_def)
  ultimately show ?thesis using s r spaces unfolding t_def [symmetric] by (metis append_assoc)
qed

theorem string_trim_correct_witness: "string_trim [32, 9, 65, 32, 66, 10] = [65, 32, 66]"
  using string_trim_correct [of "[32, 9, 65, 32, 66, 10]"]
  by (simp add: string_trim_def ltrim_def rtrim_def isspace_def)

end
