(* ===== verification/Orphans.thy ===== *)
theory Orphans
  imports MainChain Text_Utils Checksum Example_State
begin

text \<open>
  The part of client/block.c that keeps the blocks nobody references yet: the two
  lists of orphans (ordinary and extra blocks), the references back from a
  block, and the remark of a block.  An argument of type bool is the outcome of
  the \<open>malloc\<close> in the function.
\<close>

section \<open>Model\<close>

datatype orphan_remove_actions = ORPHAN_REMOVE_NORMAL | ORPHAN_REMOVE_REUSE | ORPHAN_REMOVE_EXTRA

definition upd_extstats :: "(xdag_ext_stats \<Rightarrow> xdag_ext_stats) \<Rightarrow> xdag_state \<Rightarrow> xdag_state" where
  "upd_extstats f st = st\<lparr>g_xdag_extstats := f (g_xdag_extstats st)\<rparr>"

definition orphan_block_of :: "ptr \<Rightarrow> orphan_block list \<Rightarrow> xdag_block" where
  "orphan_block_of bi os = (case filter (\<lambda>ob. orphan_bi ob = bi) os of [] \<Rightarrow> [] | ob # _ \<Rightarrow> orphan_data ob)"

definition unlink_orphan :: "ptr \<Rightarrow> orphan_block list \<Rightarrow> orphan_block list" where
  "unlink_orphan bi os = filter (\<lambda>ob. orphan_bi ob \<noteq> bi) os"

text \<open>The end of \<open>remove_orphan\<close>: the block now counts as referenced.\<close>

definition orphan_referenced :: "ptr \<Rightarrow> xdag_state \<Rightarrow> xdag_state" where
  "orphan_referenced bi st = upd_cell bi (\<lambda>b. set_flag BI_REF (b\<lparr>bi_ref := NoRef\<rparr>)) st"

text \<open>
  \<open>save\<close> is \<open>xdag_storage_save\<close>, which returns the position of the block in
  the storage.  The log message for a block whose \<open>oref\<close> does not name it leaves
  the state as it is.
\<close>

fun remove_orphan :: "(xdag_block \<Rightarrow> u64) \<Rightarrow> nat \<Rightarrow> orphan_remove_actions \<Rightarrow> ptr \<Rightarrow> xdag_state \<Rightarrow> xdag_state option" where
  "remove_orphan save 0 act bi st = None"
| "remove_orphan save (Suc fuel) act bi st =
     (let b = cell st bi in
      if \<not> has_flag b BI_REF \<and> (act \<noteq> ORPHAN_REMOVE_EXTRA \<or> has_flag b BI_EXTRA) \<and> bi_ref b = ORef then
        (if has_flag b BI_EXTRA then
           (let st1 = st\<lparr>extras := unlink_orphan bi (extras st)\<rparr> in
            do {
              st2 \<leftarrow> (if act \<noteq> ORPHAN_REMOVE_REUSE then
                        fold_opt (\<lambda>i s. remove_orphan save fuel ORPHAN_REMOVE_NORMAL (link_of s bi i) s) [0..<bi_nlinks b]
                          (upd_cell bi (\<lambda>b. b\<lparr>bi_storage_pos := save (orphan_block_of bi (extras st))\<rparr>) st1)
                      else Some st1);
              Some (orphan_referenced bi
                (upd_extstats (\<lambda>x. x\<lparr>nextra := nextra x - 1\<rparr>) (upd_cell bi (clear_flag BI_EXTRA) st2)))
            })
         else
           Some (orphan_referenced bi
             (upd_extstats (\<lambda>x. x\<lparr>nnoref := nnoref x - 1\<rparr>) (st\<lparr>orphans := unlink_orphan bi (orphans st)\<rparr>))))
      else Some st)"

definition add_orphan :: "bool \<Rightarrow> ptr \<Rightarrow> xdag_block \<Rightarrow> xdag_state \<Rightarrow> xdag_state" where
  "add_orphan malloc_ok bi block st =
     (if \<not> malloc_ok then st
      else
        (let st1 = upd_cell bi (\<lambda>b. b\<lparr>bi_ref := ORef\<rparr>) st in
         if has_flag (cell st bi) BI_EXTRA then
           upd_extstats (\<lambda>x. x\<lparr>nextra := nextra x + 1\<rparr>)
             (st1\<lparr>extras := extras st @ [\<lparr>orphan_bi = bi, orphan_data = block\<rparr>]\<rparr>)
         else
           upd_extstats (\<lambda>x. x\<lparr>nnoref := nnoref x + 1\<rparr>)
             (st1\<lparr>orphans := orphans st @ [\<lparr>orphan_bi = bi, orphan_data = []\<rparr>]\<rparr>)))"

text \<open>A structure of back references holds as many pointers as fit into a block structure, less one.\<close>

definition N_BACKREFS :: nat where "N_BACKREFS = 384 div 8 - 1"

definition add_backref :: "bool \<Rightarrow> ptr \<Rightarrow> ptr \<Rightarrow> xdag_state \<Rightarrow> xdag_state" where
  "add_backref malloc_ok blockRef nodeBlock st =
     upd_cell blockRef (\<lambda>b. b\<lparr>bi_backrefs :=
       (case bi_backrefs b of
          c # cs \<Rightarrow> if length c < N_BACKREFS then (c @ [nodeBlock]) # cs
                    else if malloc_ok then [nodeBlock] # c # cs else c # cs
        | [] \<Rightarrow> if malloc_ok then [[nodeBlock]] else [])\<rparr>) st"

definition remark_acceptance :: "xdag_field \<Rightarrow> nat" where
  "remark_acceptance origin = validate_remark (hash_bytes origin @ [0])"

definition add_remark_bi :: "bool \<Rightarrow> ptr \<Rightarrow> xdag_field \<Rightarrow> xdag_state \<Rightarrow> xdag_state \<times> bool" where
  "add_remark_bi malloc_ok bi strbuf st =
     (if \<not> malloc_ok then (st, False)
      else
        (upd_cell bi (\<lambda>b. if bi_remark b = None
                           then b\<lparr>bi_remark := Some (take (remark_acceptance strbuf) (hash_bytes strbuf))\<rparr> else b) st,
         True))"

definition get_nfield :: "xdag_block \<Rightarrow> xdag_field_type \<Rightarrow> nat option" where
  "get_nfield bref t = List.find (\<lambda>i. field_type bref i = t) [0..<XDAG_BLOCK_FIELDS]"

definition load_remark ::
  "(xdag_hash_t \<Rightarrow> u64 \<Rightarrow> u64 \<Rightarrow> xdag_block option) \<Rightarrow> bool \<Rightarrow> ptr \<Rightarrow> xdag_state \<Rightarrow> xdag_state \<times> bool" where
  "load_remark storage_load malloc_ok bi st =
     (let b = cell st bi in
      case storage_load (bi_hash b) (bi_time b) (bi_storage_pos b) of
        None \<Rightarrow> (st, False)
      | Some bref \<Rightarrow>
          (case get_nfield bref XDAG_FIELD_REMARK of
             None \<Rightarrow> (upd_cell bi (clear_flag BI_REMARK) st, False)
           | Some i \<Rightarrow> add_remark_bi malloc_ok bi (bref ! i) st))"

text \<open>\<open>(flags & BI_REMARK) & ~BI_EXTRA\<close> is the remark flag, also for an extra block.\<close>

definition get_remark ::
  "(xdag_hash_t \<Rightarrow> u64 \<Rightarrow> u64 \<Rightarrow> xdag_block option) \<Rightarrow> bool \<Rightarrow> ptr \<Rightarrow> xdag_state \<Rightarrow> xdag_state \<times> u8 list" where
  "get_remark storage_load malloc_ok bi st =
     (if (bi_flags (cell st bi) AND BI_REMARK) AND NOT BI_EXTRA \<noteq> 0 then
        (case bi_remark (cell st bi) of
           Some r \<Rightarrow> (st, r)
         | None \<Rightarrow>
             (let (st', ok) = load_remark storage_load malloc_ok bi st in
              if ok then (st', case bi_remark (cell st' bi) of Some r \<Rightarrow> r | None \<Rightarrow> []) else (st', [])))
      else (st, []))"

section \<open>The orphan lists\<close>

definition is_orphan :: "block_internal \<Rightarrow> bool" where
  "is_orphan b \<longleftrightarrow> \<not> has_flag b BI_REF \<and> bi_ref b = ORef"

text \<open>
  The lists hold exactly the unreferenced blocks, each once and on the list of its
  kind, and the counters are their lengths; X are the extra blocks whose
  removal is under way, unlinked but not yet counted off.
\<close>

definition orphan_inv_ex :: "ptr list \<Rightarrow> xdag_state \<Rightarrow> bool" where
  "orphan_inv_ex X st \<longleftrightarrow>
     distinct (map orphan_bi (orphans st)) \<and> distinct (map orphan_bi (extras st)) \<and>
     (\<forall>p. p \<in> orphan_bi ` set (orphans st) \<longleftrightarrow>
        p < length (heap st) \<and> is_orphan (cell st p) \<and> \<not> has_flag (cell st p) BI_EXTRA) \<and>
     (\<forall>p. p \<in> orphan_bi ` set (extras st) \<longleftrightarrow>
        p < length (heap st) \<and> is_orphan (cell st p) \<and> has_flag (cell st p) BI_EXTRA \<and> p \<notin> set X) \<and>
     nnoref (g_xdag_extstats st) = of_nat (length (orphans st)) \<and>
     nextra (g_xdag_extstats st) = of_nat (length (extras st) + length X)"

definition orphan_inv :: "xdag_state \<Rightarrow> bool" where
  "orphan_inv st \<longleftrightarrow> orphan_inv_ex [] st"

lemma set_unlink: "orphan_bi ` set (unlink_orphan bi os) = orphan_bi ` set os - {bi}"
  by (auto simp: unlink_orphan_def)

lemma distinct_unlink: "distinct (map orphan_bi os) \<Longrightarrow> distinct (map orphan_bi (unlink_orphan bi os))"
  by (induction os) (auto simp: unlink_orphan_def)

lemma length_unlink:
  "distinct (map orphan_bi os) \<Longrightarrow> bi \<in> orphan_bi ` set os \<Longrightarrow> length os = Suc (length (unlink_orphan bi os))"
proof (induction os)
  case (Cons x os)
  show ?case
  proof (cases "orphan_bi x = bi")
    case True
    then have "unlink_orphan bi os = os" using Cons.prems by (auto simp: unlink_orphan_def filter_id_conv) (metis imageI)
    then show ?thesis using True by (simp add: unlink_orphan_def)
  qed (use Cons in \<open>auto simp: unlink_orphan_def\<close>)
qed simp

lemma same_dag_lists [simp]:
  "same_dag st (st'\<lparr>orphans := x\<rparr>) = same_dag st st'" "same_dag st (st'\<lparr>extras := y\<rparr>) = same_dag st st'"
  "same_dag st (upd_extstats f st') = same_dag st st'"
  by (simp_all add: same_dag_def upd_extstats_def)

lemma upd_extstats_simps [simp]:
  "heap (upd_extstats f st) = heap st" "orphans (upd_extstats f st) = orphans st"
  "extras (upd_extstats f st) = extras st" "g_xdag_extstats (upd_extstats f st) = f (g_xdag_extstats st)"
  by (simp_all add: upd_extstats_def)

lemma same_dag_referenced [simp]: "same_dag st (orphan_referenced bi st') = same_dag st st'"
proof -
  have "same_dag st' (orphan_referenced bi st')"
    unfolding orphan_referenced_def by (rule same_dag_upd_cell) (simp add: set_flag_def static_def)
  then show ?thesis by (meson same_dag_sym same_dag_trans)
qed

lemma cell_referenced:
  "cell (orphan_referenced bi st) q =
     (if q = bi \<and> bi < length (heap st) then set_flag BI_REF ((cell st q)\<lparr>bi_ref := NoRef\<rparr>) else cell st q)"
  by (auto simp: orphan_referenced_def cell_upd_cell)

lemma referenced_simps [simp]:
  "orphans (orphan_referenced bi st) = orphans st" "extras (orphan_referenced bi st) = extras st"
  "g_xdag_extstats (orphan_referenced bi st) = g_xdag_extstats st"
  "length (heap (orphan_referenced bi st)) = length (heap st)"
  by (simp_all add: orphan_referenced_def upd_cell_def)

lemma not_orphan_referenced: "\<not> is_orphan (set_flag BI_REF b)"
  by (simp add: is_orphan_def flag_bits set_flag_def)

text \<open>What a removal leaves alone: every other block that is not older than the removed one, and the rest of the state.\<close>

definition removal_frame :: "ptr \<Rightarrow> xdag_state \<Rightarrow> xdag_state \<Rightarrow> bool" where
  "removal_frame bi st st' \<longleftrightarrow>
     same_dag st st' \<and>
     (\<forall>q < length (heap st). q \<noteq> bi \<and> \<not> bi_time (cell st q) < bi_time (cell st bi) \<longrightarrow> cell st' q = cell st q) \<and>
     (root st', top_main_chain st', pretop_main_chain st', ours st', g_balance st', g_xdag_stats st', g_rx st') =
       (root st, top_main_chain st, pretop_main_chain st, ours st, g_balance st, g_xdag_stats st, g_rx st)"

lemma orphan_inv_normal:
  assumes inv: "orphan_inv_ex X st" and bi: "bi < length (heap st)" "is_orphan (cell st bi)" "\<not> has_flag (cell st bi) BI_EXTRA"
  shows "orphan_inv_ex X (orphan_referenced bi
    (upd_extstats (\<lambda>x. x\<lparr>nnoref := nnoref x - 1\<rparr>) (st\<lparr>orphans := unlink_orphan bi (orphans st)\<rparr>)))"
proof -
  have mem: "bi \<in> orphan_bi ` set (orphans st)" using inv bi unfolding orphan_inv_ex_def by blast
  have len: "length (orphans st) = Suc (length (unlink_orphan bi (orphans st)))"
    using inv mem length_unlink unfolding orphan_inv_ex_def by blast
  have extra: "has_flag (set_flag BI_REF (b\<lparr>bi_ref := NoRef\<rparr>)) BI_EXTRA = has_flag b BI_EXTRA" for b
    by (simp add: flag_bits set_flag_def)
  show ?thesis
    using inv len bi unfolding orphan_inv_ex_def
    by (auto simp: set_unlink distinct_unlink cell_referenced not_orphan_referenced extra)
qed

lemma orphan_inv_extra_start:
  assumes inv: "orphan_inv_ex X st" and bi: "bi < length (heap st)" "is_orphan (cell st bi)" "has_flag (cell st bi) BI_EXTRA" "bi \<notin> set X"
  shows "orphan_inv_ex (bi # X) (st\<lparr>extras := unlink_orphan bi (extras st)\<rparr>)"
proof -
  have mem: "bi \<in> orphan_bi ` set (extras st)" using inv bi unfolding orphan_inv_ex_def by blast
  have "length (extras st) = Suc (length (unlink_orphan bi (extras st)))"
    using inv mem length_unlink unfolding orphan_inv_ex_def by blast
  then show ?thesis using inv unfolding orphan_inv_ex_def by (auto simp: set_unlink distinct_unlink)
qed

lemma orphan_inv_storage_pos:
  assumes "orphan_inv_ex X st"
  shows "orphan_inv_ex X (upd_cell bi (\<lambda>b. b\<lparr>bi_storage_pos := v\<rparr>) st)"
proof -
  have f: "is_orphan (b\<lparr>bi_storage_pos := v\<rparr>) = is_orphan b" "has_flag (b\<lparr>bi_storage_pos := v\<rparr>) m = has_flag b m" for b m
    by (simp_all add: is_orphan_def has_flag_def)
  have "is_orphan (cell (upd_cell bi (\<lambda>b. b\<lparr>bi_storage_pos := v\<rparr>) st) p) = is_orphan (cell st p)"
    "has_flag (cell (upd_cell bi (\<lambda>b. b\<lparr>bi_storage_pos := v\<rparr>) st) p) m = has_flag (cell st p) m" for p m
    by (auto simp: cell_upd_cell f)
  then show ?thesis using assms unfolding orphan_inv_ex_def by simp
qed

lemma orphan_inv_extra_end:
  assumes inv: "orphan_inv_ex (bi # X) st"
    and bi: "bi < length (heap st)" "bi \<notin> set X" "has_flag (cell st bi) BI_EXTRA"
  shows "orphan_inv_ex X (orphan_referenced bi
    (upd_extstats (\<lambda>x. x\<lparr>nextra := nextra x - 1\<rparr>) (upd_cell bi (clear_flag BI_EXTRA) st)))"
proof -
  let ?st = "orphan_referenced bi (upd_extstats (\<lambda>x. x\<lparr>nextra := nextra x - 1\<rparr>) (upd_cell bi (clear_flag BI_EXTRA) st))"
  have other: "cell ?st p = cell st p" if "p \<noteq> bi" for p using that by (simp add: cell_referenced cell_upd_cell)
  have self: "\<not> is_orphan (cell ?st bi)"
    using bi by (simp add: cell_referenced not_orphan_referenced)
  have len: "length (heap ?st) = length (heap st)" by simp
  have lists: "orphans ?st = orphans st" "extras ?st = extras st" by simp_all
  have "bi \<notin> orphan_bi ` set (extras st)" "bi \<notin> orphan_bi ` set (orphans st)"
    using inv bi unfolding orphan_inv_ex_def by auto
  then have p: "(p \<in> orphan_bi ` set (orphans st) \<longleftrightarrow>
        p < length (heap st) \<and> is_orphan (cell ?st p) \<and> \<not> has_flag (cell ?st p) BI_EXTRA)"
    "(p \<in> orphan_bi ` set (extras st) \<longleftrightarrow>
        p < length (heap st) \<and> is_orphan (cell ?st p) \<and> has_flag (cell ?st p) BI_EXTRA \<and> p \<notin> set X)" for p
    using inv self other [of p] unfolding orphan_inv_ex_def by (cases "p = bi"; simp)+
  have "nextra (g_xdag_extstats ?st) = nextra (g_xdag_extstats st) - 1" "nnoref (g_xdag_extstats ?st) = nnoref (g_xdag_extstats st)"
    by simp_all
  then show ?thesis
    using inv p unfolding orphan_inv_ex_def lists len by simp
qed

lemma removal_frame_refl [simp]: "removal_frame bi st st"
  by (simp add: removal_frame_def)

lemma removal_frame_step:
  assumes "removal_frame bi st s" "bi < length (heap st)" "q < length (heap st)"
    and "bi_time (cell st q) < bi_time (cell st bi)" "removal_frame q s s'"
  shows "removal_frame bi st s'"
proof -
  have same: "same_dag st s" using assms(1) by (simp add: removal_frame_def)
  have time: "bi_time (cell s r) = bi_time (cell st r)" if "r < length (heap st)" for r
    using same_dag_static [OF same that] by blast
  have "cell s' r = cell s r" if "r < length (heap st)" "\<not> bi_time (cell st r) < bi_time (cell st bi)" for r
  proof -
    have "r \<noteq> q" using assms(4) that by auto
    moreover have "\<not> bi_time (cell s r) < bi_time (cell s q)"
      using time that assms(3,4) by (auto dest: less_trans)
    ultimately show ?thesis
      using assms(5) that same_dag_length [OF same] by (simp add: removal_frame_def)
  qed
  then show ?thesis
    using assms(1,5) same_dag_trans unfolding removal_frame_def by auto
qed

lemma removal_frame_self:
  assumes "same_dag st st'" "\<And>q. q \<noteq> bi \<Longrightarrow> cell st' q = cell st q"
    "(root st', top_main_chain st', pretop_main_chain st', ours st', g_balance st', g_xdag_stats st', g_rx st') =
       (root st, top_main_chain st, pretop_main_chain st, ours st, g_balance st, g_xdag_stats st, g_rx st)"
  shows "removal_frame bi st st'"
  using assms by (simp add: removal_frame_def)

text \<open>The loop over the links of an extra block, given that the recursive call is correct on older blocks.\<close>

lemma remove_links:
  assumes wf: "wf_dag st" and bi: "bi < length (heap st)"
    and X: "\<forall>x \<in> set X. x < length (heap st) \<and> bi_time (cell st bi) < bi_time (cell st x)"
    and start: "orphan_inv_ex (bi # X) st2" "removal_frame bi st st2"
    and rec: "\<And>s X q. wf_dag s \<Longrightarrow> orphan_inv_ex X s \<Longrightarrow> q < length (heap s) \<Longrightarrow> rank s q < rank st bi \<Longrightarrow>
      (\<forall>x \<in> set X. x < length (heap s) \<and> bi_time (cell s q) < bi_time (cell s x)) \<Longrightarrow>
      \<exists>s'. f q s = Some s' \<and> orphan_inv_ex X s' \<and> removal_frame q s s'"
  shows "\<exists>s. fold_opt (\<lambda>i s. f (link_of s bi i) s) [0..<bi_nlinks (cell st bi)] st2 = Some s \<and>
      orphan_inv_ex (bi # X) s \<and> removal_frame bi st s \<and> cell s bi = cell st2 bi"
proof (rule fold_opt_total)
  show "orphan_inv_ex (bi # X) st2 \<and> removal_frame bi st st2 \<and> cell st2 bi = cell st2 bi" using start by simp
next
  fix i s
  assume "i \<in> set [0..<bi_nlinks (cell st bi)]"
    and s: "orphan_inv_ex (bi # X) s \<and> removal_frame bi st s \<and> cell s bi = cell st2 bi"
  then have same: "same_dag st s" and i: "i < bi_nlinks (cell st bi)" by (auto simp: removal_frame_def)
  let ?q = "link_of st bi i"
  have "static (cell s bi) = static (cell st bi)" using same bi by (rule same_dag_static)
  then have link: "link_of s bi i = ?q" by (auto dest: static_eqD)
  note q = wf_link [OF wf bi i]
  have len: "length (heap s) = length (heap st)" using same by (rule same_dag_length)
  have time: "bi_time (cell s r) = bi_time (cell st r)" if "r < length (heap st)" for r
    using same_dag_static [OF same that] by blast
  have "wf_dag s" using same wf wf_dag_same by blast
  moreover have "?q < length (heap s)" using q len by simp
  moreover have "rank s ?q < rank st bi" using rank_same [OF same q(1)] rank_mono [OF q(2,1)] by simp
  moreover have "\<forall>x \<in> set (bi # X). x < length (heap s) \<and> bi_time (cell s ?q) < bi_time (cell s x)"
    using X q bi time len by (auto dest: less_trans)
  ultimately obtain s' where s': "f ?q s = Some s'" "orphan_inv_ex (bi # X) s'" "removal_frame ?q s s'"
    using rec [of s "bi # X" ?q] s by blast
  have "removal_frame bi st s'" using removal_frame_step [OF _ bi q(1,2) s'(3)] s by blast
  moreover have "cell s' bi = cell s bi"
  proof -
    have "\<not> bi_time (cell s bi) < bi_time (cell s ?q)" "bi \<noteq> ?q" using q time bi by auto
    then show ?thesis using s'(3) bi len by (auto simp: removal_frame_def)
  qed
  ultimately show "\<exists>u. f (link_of s bi i) s = Some u \<and>
      (orphan_inv_ex (bi # X) u \<and> removal_frame bi st u \<and> cell u bi = cell st2 bi)"
    using s' s link by auto
qed

lemma remove_orphan_correct:
  assumes "wf_dag st" "orphan_inv_ex X st" "bi < length (heap st)" "rank st bi < fuel"
    and "\<forall>x \<in> set X. x < length (heap st) \<and> bi_time (cell st bi) < bi_time (cell st x)"
  shows "\<exists>st'. remove_orphan save fuel act bi st = Some st' \<and> orphan_inv_ex X st' \<and> removal_frame bi st st' \<and>
    (act \<noteq> ORPHAN_REMOVE_EXTRA \<or> has_flag (cell st bi) BI_EXTRA \<longrightarrow> \<not> is_orphan (cell st' bi)) \<and>
    (has_flag (cell st' bi) BI_REF \<or> cell st' bi = cell st bi)"
  using assms
proof (induction fuel arbitrary: act bi X st)
  case (Suc fuel)
  note inv = Suc.prems(2) and bi = Suc.prems(3)
  have notX: "bi \<notin> set X" using Suc.prems(5) by auto
  let ?b = "cell st bi"
  consider (none) "\<not> (is_orphan ?b \<and> (act \<noteq> ORPHAN_REMOVE_EXTRA \<or> has_flag ?b BI_EXTRA))"
    | (normal) "is_orphan ?b" "act \<noteq> ORPHAN_REMOVE_EXTRA" "\<not> has_flag ?b BI_EXTRA"
    | (extra) "is_orphan ?b" "has_flag ?b BI_EXTRA" by blast
  then show ?case
  proof cases
    case none
    then have "remove_orphan save (Suc fuel) act bi st = Some st" by (auto simp: Let_def is_orphan_def)
    then show ?thesis using inv none by auto
  next
    case normal
    let ?st = "orphan_referenced bi
      (upd_extstats (\<lambda>x. x\<lparr>nnoref := nnoref x - 1\<rparr>) (st\<lparr>orphans := unlink_orphan bi (orphans st)\<rparr>))"
    have "remove_orphan save (Suc fuel) act bi st = Some ?st"
      using normal by (simp add: Let_def is_orphan_def)
    moreover have "removal_frame bi st ?st"
      by (rule removal_frame_self) (simp_all add: cell_referenced, simp add: orphan_referenced_def upd_extstats_def upd_cell_def)
    moreover have "\<not> is_orphan (cell ?st bi)" "has_flag (cell ?st bi) BI_REF"
      using bi by (simp_all add: cell_referenced not_orphan_referenced) (simp add: flag_bits set_flag_def)
    ultimately show ?thesis using orphan_inv_normal [OF inv bi normal(1,3)] by auto
  next
    case extra
    define st1 where "st1 = st\<lparr>extras := unlink_orphan bi (extras st)\<rparr>"
    define st2 where "st2 = upd_cell bi (\<lambda>b. b\<lparr>bi_storage_pos := save (orphan_block_of bi (extras st))\<rparr>) st1"
    have inv1: "orphan_inv_ex (bi # X) st1" unfolding st1_def by (rule orphan_inv_extra_start [OF inv bi extra notX])
    have inv2: "orphan_inv_ex (bi # X) st2" unfolding st2_def by (rule orphan_inv_storage_pos [OF inv1])
    have frame1: "removal_frame bi st st1"
      by (rule removal_frame_self) (simp_all add: st1_def)
    have "same_dag st st2"
      unfolding st2_def by (rule same_dag_trans [of _ st1]) (simp_all add: st1_def same_dag_upd_cell static_def)
    then have frame2: "removal_frame bi st st2"
      by (rule removal_frame_self) (simp_all add: st2_def st1_def cell_upd_cell)
    have loop: "\<exists>s. fold_opt (\<lambda>i s. remove_orphan save fuel ORPHAN_REMOVE_NORMAL (link_of s bi i) s) [0..<bi_nlinks ?b] st2 = Some s \<and>
        orphan_inv_ex (bi # X) s \<and> removal_frame bi st s \<and> cell s bi = cell st2 bi"
    proof (rule remove_links [OF Suc.prems(1) bi Suc.prems(5) inv2 frame2])
      fix s X q
      assume a: "wf_dag s" "orphan_inv_ex X s" "q < length (heap s)" "rank s q < rank st bi"
        "\<forall>x \<in> set X. x < length (heap s) \<and> bi_time (cell s q) < bi_time (cell s x)"
      have "rank s q < fuel" using a(4) Suc.prems(4) by simp
      from Suc.IH [OF a(1-3) this a(5), of ORPHAN_REMOVE_NORMAL]
      show "\<exists>s'. remove_orphan save fuel ORPHAN_REMOVE_NORMAL q s = Some s' \<and> orphan_inv_ex X s' \<and> removal_frame q s s'"
        by blast
    qed
    have "\<exists>s. (if act \<noteq> ORPHAN_REMOVE_REUSE then
          fold_opt (\<lambda>i s. remove_orphan save fuel ORPHAN_REMOVE_NORMAL (link_of s bi i) s) [0..<bi_nlinks ?b] st2 else Some st1) = Some s \<and>
        orphan_inv_ex (bi # X) s \<and> removal_frame bi st s \<and> has_flag (cell s bi) BI_EXTRA"
    proof (cases "act = ORPHAN_REMOVE_REUSE")
      case True
      then show ?thesis using inv1 frame1 extra by (simp add: st1_def)
    next
      case False
      have "has_flag (cell st2 bi) BI_EXTRA" using extra(2) bi by (simp add: st2_def st1_def cell_upd_cell has_flag_def)
      then show ?thesis using False loop by auto
    qed
    then obtain s where s: "(if act \<noteq> ORPHAN_REMOVE_REUSE then
          fold_opt (\<lambda>i s. remove_orphan save fuel ORPHAN_REMOVE_NORMAL (link_of s bi i) s) [0..<bi_nlinks ?b] st2 else Some st1) = Some s"
      "orphan_inv_ex (bi # X) s" "removal_frame bi st s" "has_flag (cell s bi) BI_EXTRA" by blast
    let ?st = "orphan_referenced bi (upd_extstats (\<lambda>x. x\<lparr>nextra := nextra x - 1\<rparr>) (upd_cell bi (clear_flag BI_EXTRA) s))"
    have same: "same_dag st s" using s(3) by (simp add: removal_frame_def)
    have len: "length (heap s) = length (heap st)" using same by (rule same_dag_length)
    have "remove_orphan save (Suc fuel) act bi st = Some ?st"
      using extra s(1) unfolding st2_def st1_def by (simp add: Let_def is_orphan_def)
    moreover have "removal_frame bi st ?st"
    proof -
      have "same_dag s ?st" by (simp add: same_dag_upd_cell clear_flag_def static_def)
      then have "same_dag st ?st" using same same_dag_trans by blast
      moreover have "cell ?st q = cell s q" if "q \<noteq> bi" for q using that by (simp add: cell_referenced cell_upd_cell)
      ultimately show ?thesis
        using s(3) unfolding removal_frame_def
        by (simp add: orphan_referenced_def upd_extstats_def)
    qed
    moreover have "\<not> is_orphan (cell ?st bi)" "has_flag (cell ?st bi) BI_REF"
      using bi len by (simp_all add: cell_referenced not_orphan_referenced) (simp add: flag_bits set_flag_def)
    ultimately show ?thesis using orphan_inv_extra_end [OF s(2)] bi len notX s(4) by auto
  qed
qed simp

section \<open>Properties\<close>

text \<open>
  C28: \<open>remove_orphan\<close> ends for every block of a well-formed graph, however deep
  the chain of extra blocks below it is; the two lists still hold exactly the
  unreferenced blocks with the counters equal to their lengths, and the block is
  off its list whenever the action asks for its removal.
\<close>

theorem remove_orphan_keeps_lists:
  assumes "wf_dag st" "orphan_inv st" "bi < length (heap st)"
  shows "\<exists>st'. remove_orphan save (chain_fuel st) act bi st = Some st' \<and> orphan_inv st' \<and> wf_dag st' \<and>
    (act \<noteq> ORPHAN_REMOVE_EXTRA \<or> has_flag (cell st bi) BI_EXTRA \<longrightarrow>
       bi \<notin> orphan_bi ` set (orphans st' @ extras st')) \<and>
    nnoref (g_xdag_extstats st') = of_nat (length (orphans st')) \<and>
    nextra (g_xdag_extstats st') = of_nat (length (extras st'))"
proof -
  have "rank st bi < chain_fuel st" using rank_bound [OF assms(3)] by (simp add: chain_fuel_def)
  then obtain st' where "remove_orphan save (chain_fuel st) act bi st = Some st'" "orphan_inv st'" "removal_frame bi st st'"
    "act \<noteq> ORPHAN_REMOVE_EXTRA \<or> has_flag (cell st bi) BI_EXTRA \<longrightarrow> \<not> is_orphan (cell st' bi)"
    using remove_orphan_correct [of st "[]" bi "chain_fuel st" save act] assms by (auto simp: orphan_inv_def)
  moreover from this have "wf_dag st'" using assms(1) wf_dag_same by (auto simp: removal_frame_def)
  moreover from calculation have "bi \<in> orphan_bi ` set (orphans st' @ extras st') \<Longrightarrow> is_orphan (cell st' bi)"
    unfolding orphan_inv_def orphan_inv_ex_def image_Un set_append by blast
  ultimately show ?thesis unfolding orphan_inv_def orphan_inv_ex_def by auto
qed

definition orphan_state :: xdag_state where
  "orphan_state = (upd_cell 2 (\<lambda>b. b\<lparr>bi_ref := ORef, bi_flags := 0x02\<rparr>) three_blocks)
     \<lparr>orphans := [\<lparr>orphan_bi = 2, orphan_data = []\<rparr>], extras := [],
      g_xdag_extstats := (g_xdag_extstats three_blocks)\<lparr>nnoref := 1, nextra := 0\<rparr>\<rparr>"

lemma orphan_state_cells:
  "length (heap orphan_state) = 3"
  "cell orphan_state 0 = example_cell 0x10000 1 0x12 []"
  "cell orphan_state 1 = example_cell 0x20000 2 0x12 [0]" "cell orphan_state (Suc 0) = example_cell 0x20000 2 0x12 [0]"
  "cell orphan_state 2 = (example_cell 0x30000 3 0x02 [1])\<lparr>bi_ref := ORef\<rparr>"
  by (simp_all add: orphan_state_def cell_upd_cell three_blocks_cells)
    (simp add: example_cell_def)

lemma orphan_state_inv: "wf_dag orphan_state" "orphan_inv orphan_state"
proof -
  show "wf_dag orphan_state"
    unfolding wf_dag_def orphan_state_cells(1) all_less_3
    by (simp add: wf_links_def orphan_state_cells example_cell_def pad_links_def MAX_LINKS_def max_diff_parent_def all_less_1)
  have "p < 3 \<Longrightarrow> is_orphan (cell orphan_state p) \<longleftrightarrow> p = 2" "p < 3 \<Longrightarrow> \<not> has_flag (cell orphan_state p) BI_EXTRA" for p
    by (auto simp: less_Suc_eq numeral_3_eq_3 numeral_2_eq_2 orphan_state_cells [unfolded numeral_2_eq_2]
        example_cell_def is_orphan_def has_flag_def BI_defs)
  then show "orphan_inv orphan_state"
    unfolding orphan_inv_def orphan_inv_ex_def orphan_state_cells(1)
    by (auto simp: orphan_state_def)
qed

theorem remove_orphan_keeps_lists_witness:
  "\<exists>st'. remove_orphan (\<lambda>b. 512) (chain_fuel orphan_state) ORPHAN_REMOVE_NORMAL 2 orphan_state = Some st' \<and>
     2 \<notin> orphan_bi ` set (orphans st' @ extras st')"
  using remove_orphan_keeps_lists [OF orphan_state_inv, of 2 "\<lambda>b. 512" ORPHAN_REMOVE_NORMAL]
  by (auto simp: orphan_state_cells(1))

end
