(* ===== verification/Crypt.thy ===== *)
theory Crypt
  imports Address
begin

text \<open>
  client/crypt.c: signatures.  OpenSSL and libsecp256k1 do the arithmetic on the
  curve and are parameters; the code around them converts between the pair of
  256-bit numbers a block stores and the DER encoding the libraries use.
  Numbers are stored big-endian, so \<open>hash_bytes\<close> lists their most significant
  byte first.
\<close>

section \<open>Model\<close>

text \<open>A number of a DER signature at position \<open>p\<close>: its 32 bytes and the position behind it.\<close>

definition sign_number :: "u8 list \<Rightarrow> nat \<Rightarrow> xdag_hash_t \<times> nat" where
  "sign_number buf p =
     (let s = unat (buf ! p); q = p + 1 in
      (hash_of_bytes (if s \<ge> 32 then take 32 (drop (q + s - 32) buf) else replicate (32 - s) 0 @ take s (drop q buf)),
       q + s))"

text \<open>\<open>ECDSA_sign\<close> of OpenSSL takes the key and the bytes to sign and gives the signature, if any.\<close>

definition xdag_sign ::
  "('key \<Rightarrow> u8 list \<Rightarrow> u8 list option) \<Rightarrow> 'key \<Rightarrow> xdag_hash_t \<Rightarrow> (xdag_hash_t \<times> xdag_hash_t) option" where
  "xdag_sign ecdsa_sign key hash =
     do {
       buf \<leftarrow> ecdsa_sign key (hash_bytes hash);
       let (sign_r, p) = sign_number buf 3;
       let (sign_s, p) = sign_number buf (p + 1);
       Some (sign_r, sign_s)
     }"

definition add_number_to_sign :: "xdag_hash_t \<Rightarrow> u8 list" where
  "add_number_to_sign num =
     (let n = dropWhile (\<lambda>b. b = 0) (hash_bytes num);
          leadzero = (n \<noteq> [] \<and> hd n AND 0x80 \<noteq> 0);
          len = length n + (if leadzero then 1 else 0)
      in [0x02, of_nat len] @ (if leadzero then [0] else []) @ n)"

definition xdag_verify_signature ::
  "('key \<Rightarrow> u8 list \<Rightarrow> u8 list \<Rightarrow> int) \<Rightarrow> 'key \<Rightarrow> xdag_hash_t \<Rightarrow> xdag_hash_t \<Rightarrow> xdag_hash_t \<Rightarrow> bool" where
  "xdag_verify_signature ecdsa_verify key hash sign_r sign_s =
     (let body = add_number_to_sign sign_r @ add_number_to_sign sign_s;
          buf = [0x30, of_nat (length body)] @ body
      in ecdsa_verify key (hash_bytes hash) buf \<noteq> 1)"

definition add_number_to_sign_optimized_ec :: "xdag_hash_t \<Rightarrow> u8 list" where
  "add_number_to_sign_optimized_ec num =
     (let n = dropWhile (\<lambda>b. b = 0) (hash_bytes num);
          leadzero = (n \<noteq> [] \<and> hd n AND 0x80 \<noteq> 0);
          len = length n + (if leadzero then 1 else 0)
      in if len \<noteq> 0 then [0x02, of_nat len] @ (if leadzero then [0] else []) @ n
         else [0x02, 1, 0])"

text \<open>
  The calls of libsecp256k1: parsing a compressed public key (what the variable
  holds afterwards, whether parsing succeeded or not), parsing a DER signature,
  normalising a signature and verifying one.
\<close>

record ('pk, 'sig) secp256k1 =
  ec_pubkey_parse :: "u8 list \<Rightarrow> 'pk"
  ecdsa_signature_parse_der :: "u8 list \<Rightarrow> 'sig option"
  ecdsa_signature_normalize :: "'sig \<Rightarrow> 'sig"
  ecdsa_verify :: "'sig \<Rightarrow> u8 list \<Rightarrow> 'pk \<Rightarrow> bool"

text \<open>A public key: the 32 bytes of its coordinate and the parity kept in the low bit of the pointer.\<close>

type_synonym pubkey = "xdag_hash_t \<times> bool"

text \<open>The result is the \<open>int\<close> of the code as a truth value: false (zero) on success.\<close>

definition xdag_verify_signature_optimized_ec ::
  "('pk, 'sig) secp256k1 \<Rightarrow> pubkey \<Rightarrow> xdag_hash_t \<Rightarrow> xdag_hash_t \<Rightarrow> xdag_hash_t \<Rightarrow> bool" where
  "xdag_verify_signature_optimized_ec lib key hash sign_r sign_s =
     (let buf_pubkey = (2 + (if snd key then 1 else 0)) # hash_bytes (fst key);
          pubkey = ec_pubkey_parse lib buf_pubkey;
          body = add_number_to_sign_optimized_ec sign_r @ add_number_to_sign_optimized_ec sign_s;
          sign_buf = [0x30, of_nat (length body)] @ body
      in case ecdsa_signature_parse_der lib sign_buf of
           None \<Rightarrow> True
         | Some sig \<Rightarrow> \<not> ecdsa_verify lib (ecdsa_signature_normalize lib sig) (hash_bytes hash) pubkey)"

section \<open>DER as the standard has it\<close>

text \<open>The big-endian value of a byte string and the minimal base-256 digits of a number.\<close>

definition be_value :: "u8 list \<Rightarrow> nat" where
  "be_value bs = foldl (\<lambda>v b. 256 * v + unat b) 0 bs"

fun be_digits :: "nat \<Rightarrow> u8 list" where
  "be_digits n = (if n = 0 then [] else be_digits (n div 256) @ [of_nat (n mod 256)])"

declare be_digits.simps [simp del]

definition hash_value :: "xdag_hash_t \<Rightarrow> nat" where "hash_value h = be_value (hash_bytes h)"

text \<open>
  X.690: an INTEGER is its shortest two's complement representation, at least
  one byte; a signature is the SEQUENCE of its two numbers.
\<close>

definition der_content :: "nat \<Rightarrow> u8 list" where
  "der_content n = (if n = 0 then [0] else if unat (hd (be_digits n)) \<ge> 128 then 0 # be_digits n else be_digits n)"

definition der_integer :: "nat \<Rightarrow> u8 list" where
  "der_integer n = 0x02 # of_nat (length (der_content n)) # der_content n"

definition der_signature :: "nat \<Rightarrow> nat \<Rightarrow> u8 list" where
  "der_signature r s =
     0x30 # of_nat (length (der_integer r @ der_integer s)) # der_integer r @ der_integer s"

lemma be_value_snoc [simp]: "be_value (bs @ [b]) = 256 * be_value bs + unat b"
  by (simp add: be_value_def)

lemma be_value_Nil [simp]: "be_value [] = 0"
  by (simp add: be_value_def)

lemma unat_u8: "unat (b :: u8) < 256"
  using unsigned_less [of b] by simp

lemma be_value_0_iff: "be_value bs = 0 \<longleftrightarrow> (\<forall>b \<in> set bs. b = 0)"
  by (induction bs rule: rev_induct) (auto simp: unat_eq_0)

lemma strip_be_digits: "dropWhile (\<lambda>b. b = 0) bs = be_digits (be_value bs)"
proof (induction bs rule: rev_induct)
  case (snoc b bs)
  have div: "(256 * v + unat b) div 256 = v" "of_nat ((256 * v + unat b) mod 256) = b" for v
    using unat_u8 [of b] by simp_all
  show ?case
  proof (cases "\<forall>b \<in> set bs. b = 0")
    case True
    then have "be_value bs = 0" by (simp add: be_value_0_iff)
    then show ?thesis using True div [of 0]
      by (subst be_digits.simps) (auto simp: dropWhile_append unat_eq_0 be_digits.simps [of 0])
  next
    case False
    then have "be_value bs \<noteq> 0" by (simp add: be_value_0_iff)
    moreover have "dropWhile (\<lambda>b. b = 0) (bs @ [b]) = dropWhile (\<lambda>b. b = 0) bs @ [b]"
      using False by (auto simp: dropWhile_append)
    ultimately show ?thesis using snoc div [of "be_value bs"] by (subst be_digits.simps) simp
  qed
qed (simp add: be_digits.simps)

lemma be_value_digits [simp]: "be_value (be_digits n) = n"
proof (induction n rule: be_digits.induct)
  case (1 n)
  then show ?case by (subst be_digits.simps) (auto simp: unat_of_nat)
qed

lemma be_digits_length: "be_value bs = n \<Longrightarrow> length (be_digits n) \<le> length bs"
  using strip_be_digits [of bs] length_dropWhile_le [of "\<lambda>b. b = 0" bs] by simp

lemma be_digits_exists: "n < 256 ^ k \<Longrightarrow> \<exists>bs. length bs = k \<and> be_value bs = n"
proof (induction k arbitrary: n)
  case (Suc k)
  then have "n div 256 < 256 ^ k" by (simp add: less_mult_imp_div_less ac_simps)
  then obtain bs where "length bs = k" "be_value bs = n div 256" using Suc.IH by blast
  then show ?case by (intro exI [of _ "bs @ [of_nat (n mod 256)]"]) (simp add: unat_of_nat)
qed simp

lemma high_bit: "hd n AND 0x80 \<noteq> 0 \<longleftrightarrow> unat (hd n :: u8) \<ge> 128"
proof -
  have "b AND 0x80 \<noteq> 0 \<longleftrightarrow> bit b 7" for b :: u8
    using and_exp_eq_0_iff_not_bit [of b 7] by simp
  moreover have "bit b 7 \<longleftrightarrow> unat b \<ge> 128" for b :: u8
  proof -
    have "bit b 7 = odd (unat b div 2 ^ 7)" using bit_iff_odd [of "unat b" 7] by (simp add: bit_unsigned_iff)
    moreover have "unat b div 2 ^ 7 \<in> {0, 1}" using unat_u8 [of b] by auto
    ultimately show ?thesis by (auto simp: div_eq_0_iff)
  qed
  ultimately show ?thesis by blast
qed

lemma be_digits_eq_Nil [simp]: "be_digits n = [] \<longleftrightarrow> n = 0"
  by (subst be_digits.simps) auto

lemma add_number_optimized_is_der: "add_number_to_sign_optimized_ec num = der_integer (hash_value num)"
  using strip_be_digits [of "hash_bytes num"]
  by (simp add: add_number_to_sign_optimized_ec_def der_integer_def der_content_def high_bit hash_value_def Let_def)

lemma add_number_is_der: "hash_value num \<noteq> 0 \<Longrightarrow> add_number_to_sign num = der_integer (hash_value num)"
  using strip_be_digits [of "hash_bytes num"]
  by (simp add: add_number_to_sign_def der_integer_def der_content_def high_bit hash_value_def Let_def)

section \<open>Reading a signature\<close>

lemma be_value_pad [simp]: "be_value (replicate k 0 @ bs) = be_value bs"
proof (induction bs rule: rev_induct)
  case Nil
  then show ?case by (simp add: be_value_0_iff)
next
  case (snoc b bs)
  then show ?case using be_value_snoc [of "replicate k 0 @ bs" b] by simp
qed

lemma be_value_Cons_0 [simp]: "be_value (0 # bs) = be_value bs"
  using be_value_pad [of 1 bs] by simp

lemma bit_bytes_u64:
  "bit (bytes_u64 bs) n \<longleftrightarrow> n < 64 \<and> n div 8 < length bs \<and> bit (bs ! (n div 8)) (n mod 8)"
proof (induction bs arbitrary: n)
  case (Cons b bs)
  have step: "bytes_u64 (b # bs) = ucast b OR push_bit 8 (bytes_u64 bs)" by (simp add: bytes_u64_def)
  show ?case
  proof (cases "n < 8")
    case True
    then show ?thesis by (simp add: step bit_simps)
  next
    case False
    then have "n div 8 = Suc ((n - 8) div 8)" "n mod 8 = (n - 8) mod 8" by (simp_all add: div_if mod_if)
    moreover have "\<not> bit b n" using False bit_imp_le_length [of b n] by auto
    ultimately show ?thesis using False Cons.IH [of "n - 8"] by (auto simp: step bit_simps)
  qed
qed (simp add: bytes_u64_def)

lemma u64_bytes_of_bytes:
  assumes "length bs = 8"
  shows "u64_bytes (bytes_u64 bs) = bs"
proof (rule nth_equalityI)
  fix i assume "i < length (u64_bytes (bytes_u64 bs))"
  then have i: "i < 8" by simp
  moreover have "[0, 1, 2, 3, 4, 5, 6, 7] = [0..<8::nat]" by (simp add: upt_rec)
  ultimately have nth: "u64_bytes (bytes_u64 bs) ! i = ucast (drop_bit (8 * i) (bytes_u64 bs))"
    unfolding u64_bytes_def by simp
  show "u64_bytes (bytes_u64 bs) ! i = bs ! i"
  proof (rule bit_word_eqI)
    fix k assume "k < LENGTH(8)"
    then show "bit (u64_bytes (bytes_u64 bs) ! i) k = bit (bs ! i) k"
      unfolding nth using i assms by (simp add: bit_simps bit_bytes_u64 ac_simps)
  qed
qed (use assms in simp)

lemma hash_bytes_of_bytes: "length bs = 32 \<Longrightarrow> hash_bytes (hash_of_bytes bs) = bs"
proof -
  assume "length bs = 32"
  moreover have "bs = take 8 bs @ take 8 (drop 8 bs) @ take 8 (drop 16 bs) @ drop 24 bs"
    using append_take_drop_id [of 8 bs] append_take_drop_id [of 8 "drop 8 bs"] append_take_drop_id [of 8 "drop 16 bs"]
    by (simp add: drop_drop)
  ultimately show ?thesis by (simp add: hash_of_bytes_def u64_bytes_of_bytes)
qed

lemma der_content_facts:
  assumes "n < 2 ^ 256"
  shows "length (der_content n) \<le> 33" "be_value (der_content n) = n"
    "length (der_content n) = 33 \<Longrightarrow> hd (der_content n) = 0" "der_content n \<noteq> []"
proof -
  obtain bs where "length bs = 32" "be_value bs = n" using be_digits_exists [of n 32] assms by auto
  then have "length (be_digits n) \<le> 32" using be_digits_length [of bs n] by simp
  then show "length (der_content n) \<le> 33" "be_value (der_content n) = n"
    "length (der_content n) = 33 \<Longrightarrow> hd (der_content n) = 0" "der_content n \<noteq> []"
    by (auto simp: der_content_def split: if_splits)
qed

lemma sign_number_der:
  assumes "n < 2 ^ 256" and buf: "buf = pre @ of_nat (length (der_content n)) # der_content n @ post"
  shows "snd (sign_number buf (length pre)) = length pre + 1 + length (der_content n)"
    "hash_value (fst (sign_number buf (length pre))) = n"
proof -
  let ?c = "der_content n"
  note f = der_content_facts [OF assms(1)]
  have len: "unat (of_nat (length ?c) :: u8) = length ?c" using f(1) by (simp add: unat_of_nat)
  have at: "buf ! length pre = of_nat (length ?c)" "drop (length pre + 1 + k) buf = drop k (?c @ post)" for k
    using buf by (simp_all add: nth_append)
  show "snd (sign_number buf (length pre)) = length pre + 1 + length ?c"
    by (simp add: sign_number_def at(1) len Let_def)
  consider (long) "length ?c = 33" | (full) "length ?c = 32" | (short) "length ?c < 32" using f(1) by linarith
  then show "hash_value (fst (sign_number buf (length pre))) = n"
  proof cases
    case long
    then obtain d where "?c = 0 # d" "length d = 32" using f(3) by (cases ?c) auto
    then show ?thesis using at(2) [of 1] f(2)
      by (simp add: sign_number_def at(1) len long hash_value_def hash_bytes_of_bytes)
  next
    case full
    then show ?thesis using at(2) [of 0] f(2)
      by (simp add: sign_number_def at(1) len hash_value_def hash_bytes_of_bytes)
  next
    case short
    then show ?thesis using at(2) [of 0] f(2)
      by (simp add: sign_number_def at(1) len Let_def hash_value_def hash_bytes_of_bytes)
  qed
qed

lemma xdag_sign_der:
  assumes "ecdsa_sign key (hash_bytes h) = Some (der_signature r s)" "r < 2 ^ 256" "s < 2 ^ 256"
  shows "\<exists>sr ss. xdag_sign ecdsa_sign key h = Some (sr, ss) \<and> hash_value sr = r \<and> hash_value ss = s"
proof -
  let ?buf = "der_signature r s"
  let ?pre = "[0x30, of_nat (length (der_integer r @ der_integer s)), 0x02]"
  let ?pre2 = "?pre @ of_nat (length (der_content r)) # der_content r @ [0x02]"
  have 1: "?buf = ?pre @ of_nat (length (der_content r)) # der_content r @ der_integer s"
    and 2: "?buf = ?pre2 @ of_nat (length (der_content s)) # der_content s @ []"
    by (simp_all add: der_signature_def der_integer_def)
  note r = sign_number_der [OF assms(2) 1] and s = sign_number_der [OF assms(3) 2]
  have p: "length ?pre = 3" "snd (sign_number ?buf 3) + 1 = length ?pre2" using r(1) by (simp_all add: numeral_3_eq_3)
  have "xdag_sign ecdsa_sign key h =
      Some (fst (sign_number ?buf 3), fst (sign_number ?buf (snd (sign_number ?buf 3) + 1)))"
    by (simp add: xdag_sign_def assms(1) case_prod_beta Let_def)
  then show ?thesis using r(2) s(2) unfolding p by simp
qed

text \<open>
  C32: the two numbers \<open>xdag_sign\<close> extracts from the signature OpenSSL returns are
  those of the signature, and verification rebuilds from them the bytes of that
  same signature: when libsecp256k1 parses it and verifies it under the public
  key, \<open>xdag_verify_signature_optimized_ec\<close> accepts what \<open>xdag_sign\<close> produced.
\<close>

theorem sign_verify_roundtrip:
  assumes "ecdsa_sign key (hash_bytes h) = Some (der_signature r s)" "r < 2 ^ 256" "s < 2 ^ 256"
    and "ecdsa_signature_parse_der lib (der_signature r s) = Some sg"
    and "ecdsa_verify lib (ecdsa_signature_normalize lib sg) (hash_bytes h)
           (ec_pubkey_parse lib ((if parity then 3 else 2) # hash_bytes pub))"
  shows "\<exists>sr ss. xdag_sign ecdsa_sign key h = Some (sr, ss) \<and> hash_value sr = r \<and> hash_value ss = s \<and>
    \<not> xdag_verify_signature_optimized_ec lib (pub, parity) h sr ss"
proof -
  obtain sr ss where n: "xdag_sign ecdsa_sign key h = Some (sr, ss)" "hash_value sr = r" "hash_value ss = s"
    using xdag_sign_der [of ecdsa_sign key h r s, OF assms(1-3)] by (elim exE conjE) (rule that)
  then have buf: "[0x30, of_nat (length (add_number_to_sign_optimized_ec sr @ add_number_to_sign_optimized_ec ss))] @
      add_number_to_sign_optimized_ec sr @ add_number_to_sign_optimized_ec ss = der_signature r s"
    by (simp add: add_number_optimized_is_der der_signature_def)
  have "\<not> xdag_verify_signature_optimized_ec lib (pub, parity) h sr ss"
    unfolding xdag_verify_signature_optimized_ec_def Let_def buf assms(4) using assms(5)
    by (cases parity) simp_all
  with n show ?thesis by blast
qed

text \<open>A library with one key that accepts exactly the signature with r = 300 and s = 5.\<close>

definition toy_secp :: "(unit, u8 list) secp256k1" where
  "toy_secp = \<lparr>ec_pubkey_parse = (\<lambda>_. ()), ecdsa_signature_parse_der = (\<lambda>b. if b = der_signature 300 5 then Some b else None),
     ecdsa_signature_normalize = (\<lambda>s. s), ecdsa_verify = (\<lambda>s h k. s = der_signature 300 5)\<rparr>"

theorem sign_verify_roundtrip_witness:
  "\<exists>sr ss. xdag_sign (\<lambda>k m. Some (der_signature 300 5)) () (1, 2, 3, 4) = Some (sr, ss) \<and> hash_value sr = 300 \<and>
     \<not> xdag_verify_signature_optimized_ec toy_secp ((0, 0, 0, 7), True) (1, 2, 3, 4) sr ss"
  using sign_verify_roundtrip [of "\<lambda>k m. Some (der_signature 300 5)" "()" "(1, 2, 3, 4)" 300 5 toy_secp "der_signature 300 5" True "(0, 0, 0, 7)"]
  by (auto simp: toy_secp_def)

text \<open>
  the encoder for OpenSSL agrees with the one for libsecp256k1 on every
  number but zero, where it emits an INTEGER without content, which is not DER.
\<close>

theorem add_number_encoders_differ_at_zero:
  "add_number_to_sign num = add_number_to_sign_optimized_ec num \<longleftrightarrow> num \<noteq> (0, 0, 0, 0)"
proof -
  have zero: "hash_bytes (0, 0, 0, 0) = replicate 32 0" by code_simp
  have len: "length (hash_bytes num) = 32" by (cases num) simp
  have "dropWhile (\<lambda>b. b = 0) (hash_bytes num) = [] \<longleftrightarrow> hash_bytes num = replicate 32 0"
    using replicate_length_same [of "hash_bytes num" 0] len by (auto simp: dropWhile_eq_Nil_conv)
  also have "\<dots> \<longleftrightarrow> num = (0, 0, 0, 0)"
    by (metis zero hash_of_hash_bytes)
  finally have strip: "dropWhile (\<lambda>b. b = 0) (hash_bytes num) = [] \<longleftrightarrow> num = (0, 0, 0, 0)" .
  show ?thesis
    unfolding strip [symmetric] add_number_to_sign_def add_number_to_sign_optimized_ec_def Let_def
    by (cases "dropWhile (\<lambda>b. b = 0) (hash_bytes num)") (simp_all del: dropWhile_eq_Nil_conv)
qed

end
