(* ===== verification/Block_Cache.thy ===== *)
theory Block_Cache
  imports Orphans Block_Index Crypt
begin

text \<open>
  client/block.c: checking the signatures of a block, and the cache of recently
  added blocks from which the output signature of a referenced block is checked
  without reading the storage.  Verification itself is the parameter \<open>verify\<close>,
  in the client \<open>xdag_verify_signature_optimized_ec\<close> of a library; like that
  function it is false (zero) for a valid signature.
\<close>

section \<open>Signatures\<close>

text \<open>A key: the handle of the allocated OpenSSL key and the public key with its parity.\<close>

record xdag_public_key =
  pk_key :: nat
  pk_pub :: pubkey

type_synonym verifier = "pubkey \<Rightarrow> xdag_hash_t \<Rightarrow> xdag_hash_t \<Rightarrow> xdag_hash_t \<Rightarrow> bool"

text \<open>
  The hash of data whose length the digest can finish, which blocks and blocks
  with a key are (\<open>hash_data_block\<close> below); the uninitialised context is irrelevant.
\<close>

definition hash_data :: "u8 list \<Rightarrow> xdag_hash_t" where
  "hash_data bs = (case xdag_hash zero_ctx bs (length bs) of Some h \<Rightarrow> h | None \<Rightarrow> (0, 0, 0, 0))"

definition hash_for_signature :: "xdag_block \<Rightarrow> pubkey \<Rightarrow> xdag_hash_t" where
  "hash_for_signature b key =
     hash_data (block_bytes b @ ((if snd key then 1 else 0) OR 0x02) # hash_bytes (fst key))"

definition is_sign :: "xdag_field_type \<Rightarrow> bool" where
  "is_sign t \<longleftrightarrow> t = XDAG_FIELD_SIGN_IN \<or> t = XDAG_FIELD_SIGN_OUT"

text \<open>The copy of the block without the signatures from \<open>signo_r\<close> on, and the field of the second half.\<close>

definition unsigned_copy :: "xdag_block \<Rightarrow> nat \<Rightarrow> xdag_block" where
  "unsigned_copy b signo_r =
     map (\<lambda>i. if i \<ge> signo_r \<and> is_sign (field_type b i) then (0, 0, 0, 0) else b ! i) [0..<XDAG_BLOCK_FIELDS]"

definition find_signo_s :: "xdag_block \<Rightarrow> nat \<Rightarrow> nat option" where
  "find_signo_s b signo_r =
     List.find (\<lambda>i. is_sign (field_type b i) \<and> xdag_type b i = xdag_type b signo_r) [Suc signo_r..<XDAG_BLOCK_FIELDS]"

definition valid_signature :: "verifier \<Rightarrow> xdag_block \<Rightarrow> nat \<Rightarrow> xdag_public_key list \<Rightarrow> nat option" where
  "valid_signature verify b signo_r keys =
     (case find_signo_s b signo_r of
        None \<Rightarrow> None
      | Some signo_s \<Rightarrow>
          List.find (\<lambda>i. let key = pk_pub (keys ! i) in
                         \<not> verify key (hash_for_signature (unsigned_copy b signo_r) key) (b ! signo_r) (b ! signo_s))
            [0..<length keys])"

text \<open>The search for an output signature by one of the keys: \<open>k\<close> counts the output signature fields seen.\<close>

fun find_signature_out :: "verifier \<Rightarrow> xdag_block \<Rightarrow> xdag_public_key list \<Rightarrow> nat list \<Rightarrow> nat \<Rightarrow> bool" where
  "find_signature_out verify b keys [] k = False"
| "find_signature_out verify b keys (j # js) k =
     (if field_type b j = XDAG_FIELD_SIGN_OUT then
        (odd (Suc k) \<and> valid_signature verify b j keys \<noteq> None) \<or> find_signature_out verify b keys js (Suc k)
      else find_signature_out verify b keys js k)"

definition find_and_verify_signature_out :: "verifier \<Rightarrow> xdag_block \<Rightarrow> xdag_public_key list \<Rightarrow> int" where
  "find_and_verify_signature_out verify bref keys =
     (if find_signature_out verify bref keys [0..<XDAG_BLOCK_FIELDS] 0 then 0 else 9)"

type_synonym storage_load = "xdag_hash_t \<Rightarrow> u64 \<Rightarrow> u64 \<Rightarrow> xdag_block option"

definition check_signature_out :: "verifier \<Rightarrow> storage_load \<Rightarrow> block_internal \<Rightarrow> xdag_public_key list \<Rightarrow> int" where
  "check_signature_out verify load blockRef keys =
     (case load (bi_hash blockRef) (bi_time blockRef) (bi_storage_pos blockRef) of
        None \<Rightarrow> 8
      | Some bref \<Rightarrow> find_and_verify_signature_out verify bref keys)"

section \<open>The cache\<close>

record cache_block =
  cb_hash :: xdag_hash_t
  cb_block :: xdag_block

text \<open>
  The search tree, the queue from \<open>cache_first\<close> to \<open>cache_last\<close>, and the counters.
  The hit rate is a floating-point average that is only compared with two
  constants; the results of the comparisons are arguments of \<open>cache_retarget\<close>.
\<close>

record block_cache =
  cache_root :: "cache_block rbtree"
  cache_queue :: "cache_block list"
  cache_usage :: u32
  cache_size :: u32
  cache_bounded_counter :: u32

definition CACHE_MAX_SIZE :: u32 where "CACHE_MAX_SIZE = 600000"
definition CACHE_MAX_SAMPLES :: u32 where "CACHE_MAX_SAMPLES = 100"

definition cache_probe :: "xdag_hashlow_t \<Rightarrow> cache_block" where
  "cache_probe h = \<lparr>cb_hash = probe_hash h, cb_block = []\<rparr>"

definition cache_find :: "cache_block rbtree \<Rightarrow> xdag_hashlow_t \<Rightarrow> cache_block option" where
  "cache_find t h = ldus_rbtree_find (lessthan cb_hash) t (cache_probe h)"

definition cache_block_by_hash :: "xdag_hashlow_t \<Rightarrow> block_cache \<Rightarrow> cache_block option" where
  "cache_block_by_hash h c = cache_find (cache_root c) h"

text \<open>The loop that drops the oldest blocks: one per unit of usage above the size, while there are any.\<close>

fun cache_evict :: "nat \<Rightarrow> block_cache \<Rightarrow> block_cache" where
  "cache_evict 0 c = c"
| "cache_evict (Suc n) c =
     (case cache_queue c of
        [] \<Rightarrow> c
      | to_free # rest \<Rightarrow>
          cache_evict n
            (c\<lparr>cache_queue := rest,
               cache_root := snd (ldus_rbtree_remove (lessthan cb_hash) (cache_root c) to_free),
               cache_usage := cache_usage c - 1\<rparr>))"

text \<open>
  \<open>low\<close>: the hit rate is below 0.94; \<open>high\<close>: above 0.98; \<open>rnd\<close>: the random number
  allows a decrement.  \<open>cache_size / 0.9\<close> exceeds the maximum 600000 from
  540001 on.
\<close>

definition cache_shrinks :: "bool \<Rightarrow> bool \<Rightarrow> nat \<Rightarrow> block_cache \<Rightarrow> bool" where
  "cache_shrinks high rnd miss c \<longleftrightarrow> high \<and> miss = 0 \<and> cache_size c \<noteq> 0 \<and> rnd"

definition cache_retarget :: "bool \<Rightarrow> bool \<Rightarrow> bool \<Rightarrow> nat \<Rightarrow> nat \<Rightarrow> block_cache \<Rightarrow> block_cache" where
  "cache_retarget low high rnd hit miss c =
     (let c1 =
        (if cache_usage c \<ge> cache_size c then
           (let c0 = (if low \<and> cache_size c < CACHE_MAX_SIZE then c\<lparr>cache_size := cache_size c + 1\<rparr>
                      else if cache_shrinks high rnd miss c then c\<lparr>cache_size := cache_size c - 1\<rparr> else c)
            in cache_evict (unat (cache_usage c0) - unat (cache_size c0)) c0)
         else if cache_shrinks high rnd miss c then c\<lparr>cache_size := cache_size c - 1\<rparr> else c);
          c2 = (if cache_size c1 \<ge> 540001 then c1\<lparr>cache_size := of_nat (unat (cache_size c1) * 9 div 10)\<rparr> else c1)
      in if hit + miss > 0 \<and> cache_bounded_counter c2 < CACHE_MAX_SAMPLES
         then c2\<lparr>cache_bounded_counter := cache_bounded_counter c2 + 1\<rparr> else c2)"

definition cache_add :: "bool \<Rightarrow> xdag_block \<Rightarrow> xdag_hash_t \<Rightarrow> block_cache \<Rightarrow> block_cache" where
  "cache_add malloc_ok block hash c =
     (if cache_usage c \<le> CACHE_MAX_SIZE \<and> malloc_ok then
        (let cb = \<lparr>cb_hash = hash, cb_block = block\<rparr> in
         c\<lparr>cache_queue := cache_queue c @ [cb],
           cache_root := snd (ldus_rbtree_insert (lessthan cb_hash) (cache_root c) cb),
           cache_usage := cache_usage c + 1\<rparr>)
      else c)"

text \<open>The result, and whether the block was in the cache (one more hit) or not (one more miss).\<close>

definition check_signature_out_cached ::
  "verifier \<Rightarrow> storage_load \<Rightarrow> block_cache \<Rightarrow> block_internal \<Rightarrow> xdag_public_key list \<Rightarrow> int \<times> bool" where
  "check_signature_out_cached verify load c blockRef keys =
     (case cache_block_by_hash (hashlow (bi_hash blockRef)) c of
        Some bref \<Rightarrow> (find_and_verify_signature_out verify (cb_block bref) keys, True)
      | None \<Rightarrow> (check_signature_out verify load blockRef keys, False))"

section \<open>Hashing blocks\<close>

lemma length_hash_bytes [simp]: "length (hash_bytes h) = 32"
  by (cases h) simp

lemma hash_data_hashable: "hashable bs \<Longrightarrow> hash_data bs = double_sha256 bs"
  using sha256_update_aligned [OF holds_message_init, of zero_ctx bs] hash_again_correct [of _ bs]
  by (auto simp: hash_data_def xdag_hash_def zero_ctx_def)

lemma hash_data_block: "length b = 16 \<Longrightarrow> hash_data (block_bytes b) = double_sha256 (block_bytes b)"
  by (simp add: hash_data_hashable hashable_def length_block_bytes)

lemma hash_for_signature_eq:
  "length b = 16 \<Longrightarrow> hash_for_signature b key =
     double_sha256 (block_bytes b @ (if snd key then 3 else 2) # hash_bytes (fst key))"
  by (cases "snd key") (simp_all add: hash_for_signature_def hash_data_hashable hashable_def length_block_bytes)

section \<open>The cache tree is an index\<close>

lemma hashlow_cache_probe [simp]: "hashlow (cb_hash (cache_probe h)) = h"
  by (simp add: cache_probe_def)

interpretation cix: hash_index "tree_valid cb_hash" "\<lambda>n. hashlow (cb_hash n)" cache_find
  "\<lambda>t n. snd (ldus_rbtree_insert (lessthan cb_hash) t n)"
  "\<lambda>t k. snd (ldus_rbtree_remove (lessthan cb_hash) t (cache_probe k))" NULL
proof
  fix t :: "cache_block rbtree" and n k
  show "cache_find t k = Some n \<Longrightarrow> hashlow (cb_hash n) = k" if "tree_valid cb_hash t"
    using that by (simp add: cache_find_def tree_valid_def hashorder.find_Some_iff same_iff)
qed (simp_all add: cache_find_def tree_nil tree_valid_ops tree_find_ins tree_find_del fun_eq_iff)

lemma find_same_key:
  "hashlow (hash_of a) = hashlow (hash_of b) \<Longrightarrow>
   ldus_rbtree_find (lessthan hash_of) t a = ldus_rbtree_find (lessthan hash_of) t b"
  by (induction t) (simp_all only: ldus_rbtree_find.simps lessthan_def)

lemma cache_find_del:
  assumes "tree_valid cb_hash t"
  shows "cache_find (snd (ldus_rbtree_remove (lessthan cb_hash) t n)) k =
    (if k = hashlow (cb_hash n) then None else cache_find t k)"
proof -
  let ?pr = "\<lambda>k. if k = hashlow (cb_hash n) then n else cache_probe k"
  have "ldus_rbtree_find (lessthan cb_hash) u (cache_probe k) = ldus_rbtree_find (lessthan cb_hash) u (?pr k)" for u
    by (rule find_same_key) simp
  then show ?thesis
    using tree_find_del [OF assms, of ?pr "hashlow (cb_hash n)" k]
    by (cases "k = hashlow (cb_hash n)") (simp_all add: cache_find_def)
qed

lemma cache_find_ins:
  assumes "tree_valid cb_hash t"
  shows "cache_find (snd (ldus_rbtree_insert (lessthan cb_hash) t n)) k = Some m \<Longrightarrow> m = n \<or> cache_find t k = Some m"
proof -
  assume *: "cache_find (snd (ldus_rbtree_insert (lessthan cb_hash) t n)) k = Some m"
  have o: "hashorder.ordered cb_hash t" using assms by (simp add: tree_valid_def)
  have o': "hashorder.ordered cb_hash (snd (ldus_rbtree_insert (lessthan cb_hash) t n))"
    using o by (rule hashorder.insert_ordered)
  have "m \<in> set (inorder (snd (ldus_rbtree_insert (lessthan cb_hash) t n)))" "hashlow (cb_hash m) = k"
    using * by (auto simp: cache_find_def hashorder.find_Some_iff [OF o'] same_iff)
  moreover have "set (inorder (snd (ldus_rbtree_insert (lessthan cb_hash) t n))) \<subseteq> insert n (set (inorder t))"
    using hashorder.set_ins_list [of cb_hash "inorder t" n] o
    by (auto simp: hashorder.inorder_insert hashorder.ordered_def)
  ultimately show ?thesis using o by (auto simp: cache_find_def hashorder.find_Some_iff same_iff)
qed

section \<open>Consistency of the cache\<close>

text \<open>Tree and queue fit together: what the tree finds is queued, and the usage counts the queue.\<close>

definition cache_inv :: "block_cache \<Rightarrow> bool" where
  "cache_inv c \<longleftrightarrow> tree_valid cb_hash (cache_root c) \<and> unat (cache_usage c) = length (cache_queue c) \<and>
     (\<forall>h cb. cache_find (cache_root c) h = Some cb \<longrightarrow> cb \<in> set (cache_queue c))"

lemma cache_evict_inv:
  "cache_inv c \<Longrightarrow> cache_inv (cache_evict n c) \<and> cache_queue (cache_evict n c) = drop n (cache_queue c) \<and>
     cache_size (cache_evict n c) = cache_size c"
proof (induction n arbitrary: c)
  case (Suc n)
  show ?case
  proof (cases "cache_queue c")
    case (Cons x rest)
    let ?c = "c\<lparr>cache_queue := rest, cache_root := snd (ldus_rbtree_remove (lessthan cb_hash) (cache_root c) x),
      cache_usage := cache_usage c - 1\<rparr>"
    have inv: "tree_valid cb_hash (cache_root c)" "unat (cache_usage c) = Suc (length rest)"
      "\<And>h cb. cache_find (cache_root c) h = Some cb \<Longrightarrow> cb = x \<or> cb \<in> set rest"
      using Suc.prems Cons by (auto simp: cache_inv_def)
    have key: "cache_find (cache_root c) h = Some cb \<Longrightarrow> hashlow (cb_hash cb) = h" for h cb
      using cix.find_key inv(1) by blast
    have u: "unat (cache_usage c - 1) = length rest"
      using inv(2) by (subst unat_sub) (auto simp: word_le_nat_alt)
    have "cache_inv ?c"
      using inv tree_valid_ops(2) [OF inv(1), of x] key
      unfolding cache_inv_def by (simp add: u cache_find_del split: if_splits del: split_paired_All) metis
    from Suc.IH [OF this] show ?thesis using Cons by simp
  qed (use Suc.prems in simp)
qed simp

lemma cache_counter_inv [simp]:
  "cache_inv (c\<lparr>cache_size := k\<rparr>) = cache_inv c" "cache_inv (c\<lparr>cache_bounded_counter := k\<rparr>) = cache_inv c"
  by (simp_all add: cache_inv_def)

lemma cache_retarget_inv:
  assumes "cache_inv c"
  shows "cache_inv (cache_retarget low high rnd hit miss c)"
    "set (cache_queue (cache_retarget low high rnd hit miss c)) \<subseteq> set (cache_queue c)"
proof -
  have e: "cache_inv (cache_evict n (c\<lparr>cache_size := k\<rparr>))" "cache_inv (cache_evict n c)"
    "set (cache_queue (cache_evict n (c\<lparr>cache_size := k\<rparr>))) \<subseteq> set (cache_queue c)"
    "set (cache_queue (cache_evict n c)) \<subseteq> set (cache_queue c)" for n k
    using assms cache_evict_inv [of "c\<lparr>cache_size := k\<rparr>" n] cache_evict_inv [of c n] by (auto dest: in_set_dropD)
  show "cache_inv (cache_retarget low high rnd hit miss c)"
    using assms e(1,2) by (auto simp: cache_retarget_def Let_def)
  show "set (cache_queue (cache_retarget low high rnd hit miss c)) \<subseteq> set (cache_queue c)"
    using e(3,4) by (auto simp: cache_retarget_def Let_def)
qed

lemma cache_add_inv:
  assumes "cache_inv c"
  shows "cache_inv (cache_add ok b h c)"
    "set (cache_queue (cache_add ok b h c)) \<subseteq> insert \<lparr>cb_hash = h, cb_block = b\<rparr> (set (cache_queue c))"
proof -
  have u: "unat (cache_usage c + 1) = Suc (unat (cache_usage c))" if "cache_usage c \<le> CACHE_MAX_SIZE"
    using that by (subst unat_add_no_overflow) (auto simp: CACHE_MAX_SIZE_def word_le_nat_alt word_less_nat_alt unat_word_ariths)
  show "cache_inv (cache_add ok b h c)"
    using assms tree_valid_ops(1) [of cb_hash "cache_root c" "\<lparr>cb_hash = h, cb_block = b\<rparr>"] u
      cache_find_ins [of "cache_root c" "\<lparr>cb_hash = h, cb_block = b\<rparr>"]
    by (auto simp: cache_inv_def cache_add_def Let_def) blast
  show "set (cache_queue (cache_add ok b h c)) \<subseteq> insert \<lparr>cb_hash = h, cb_block = b\<rparr> (set (cache_queue c))"
    by (auto simp: cache_add_def Let_def)
qed

definition empty_cache :: block_cache where
  "empty_cache = \<lparr>cache_root = NULL, cache_queue = [], cache_usage = 0, cache_size = 10, cache_bounded_counter = 0\<rparr>"

lemma empty_cache_inv: "cache_inv empty_cache"
  by (simp add: cache_inv_def empty_cache_def tree_nil cix.find_nil)

end
