(* ===== verification/Add_Block.thy ===== *)
theory Add_Block
  imports Block_Cache Ledger_Properties
begin

text \<open>
  client/block.c: \<open>add_block_nolock\<close>, which checks a block, links it into the
  graph, reorganises the main chain and keeps the orphan lists.  The phases of
  the function are separate definitions, composed in the order of the code; the
  labels of its error codes are kept.  Everything the function asks of other
  modules is in the environment: the clock, OpenSSL and libsecp256k1, the
  wallet, the storage, the RandomX machines and the allocator.
\<close>

section \<open>Environment\<close>

record add_env =
  env_timestamp :: u64
  env_check_main :: xdag_env
  env_public_to_key :: "xdag_hash_t \<Rightarrow> bool \<Rightarrow> bool"
  env_verify :: verifier
  env_our_keys :: "xdag_public_key list"
  env_storage_save :: "xdag_block \<Rightarrow> u64"
  env_storage_load :: storage_load
  env_randomx :: "xdag_hash_t option \<Rightarrow> u8 list \<Rightarrow> xdag_hash_t"
  env_malloc_block :: bool
  env_malloc_index :: bool
  env_malloc_orphan :: bool
  env_malloc_backref :: bool
  env_malloc_cache :: bool
  env_hitrate_low :: bool
  env_hitrate_high :: bool
  env_rand_shrinks :: bool

text \<open>
  \<open>env_timestamp\<close> is the time stamp read on entry, \<open>env_check_main\<close> the environment
  of \<open>check_new_main\<close>.  \<open>env_public_to_key\<close> tells whether OpenSSL makes a key of a
  coordinate and a parity; the handle of the key is the number of its field.
  \<open>env_randomx\<close> is \<open>randomx_calculate_hash\<close> of a machine with a seed.
\<close>

definition MAIN_CHAIN_PERIOD :: u64 where "MAIN_CHAIN_PERIOD = push_bit 10 64"
definition MAX_ALLOWED_EXTRA :: u64 where "MAX_ALLOWED_EXTRA = 0x10000"
definition HASHRATE_LAST_MAX_TIME :: u64 where "HASHRATE_LAST_MAX_TIME = 64 * 4"
definition SYNC_FIX_HEIGHT :: u64 where "SYNC_FIX_HEIGHT = 1851869"
definition SYNC_FIX_TESTNET_HEIGHT :: u64 where "SYNC_FIX_TESTNET_HEIGHT = 0"

section \<open>Reading the fields\<close>

record block_scan =
  sc_inmask :: u32
  sc_outmask :: u32
  sc_signinmask :: u32
  sc_signoutmask :: u32
  sc_signInCount :: nat
  sc_signOutCount :: nat
  sc_keys :: "xdag_public_key list"
  sc_flags :: u16
  sc_remark_index :: nat

definition empty_scan :: block_scan where
  "empty_scan = \<lparr>sc_inmask = 0, sc_outmask = 0, sc_signinmask = 0, sc_signoutmask = 0, sc_signInCount = 0,
     sc_signOutCount = 0, sc_keys = [], sc_flags = 0, sc_remark_index = 0\<rparr>"

definition scan_key :: "add_env \<Rightarrow> xdag_block \<Rightarrow> nat \<Rightarrow> bool \<Rightarrow> block_scan \<Rightarrow> block_scan" where
  "scan_key env b i parity sc =
     (if env_public_to_key env (b ! i) parity
      then sc\<lparr>sc_keys := sc_keys sc @ [\<lparr>pk_key = i, pk_pub = (b ! i, parity)\<rparr>]\<rparr> else sc)"

text \<open>One round of the loop over the fields; None is the default case of the switch.\<close>

definition scan_field :: "add_env \<Rightarrow> xdag_block \<Rightarrow> nat \<Rightarrow> block_scan \<Rightarrow> block_scan option" where
  "scan_field env b i sc =
     (case field_type b i of
        XDAG_FIELD_NONCE \<Rightarrow> Some sc
      | XDAG_FIELD_IN \<Rightarrow> Some (sc\<lparr>sc_inmask := sc_inmask sc OR push_bit i 1\<rparr>)
      | XDAG_FIELD_OUT \<Rightarrow> Some (sc\<lparr>sc_outmask := sc_outmask sc OR push_bit i 1\<rparr>)
      | XDAG_FIELD_SIGN_IN \<Rightarrow>
          (let n = Suc (sc_signInCount sc) in
           Some (sc\<lparr>sc_signInCount := n,
             sc_signinmask := (if odd n then sc_signinmask sc OR push_bit i 1 else sc_signinmask sc)\<rparr>))
      | XDAG_FIELD_SIGN_OUT \<Rightarrow>
          (let n = Suc (sc_signOutCount sc) in
           Some (sc\<lparr>sc_signOutCount := n,
             sc_signoutmask := (if odd n then sc_signoutmask sc OR push_bit i 1 else sc_signoutmask sc)\<rparr>))
      | XDAG_FIELD_PUBLIC_KEY_0 \<Rightarrow> Some (scan_key env b i False sc)
      | XDAG_FIELD_PUBLIC_KEY_1 \<Rightarrow> Some (scan_key env b i True sc)
      | XDAG_FIELD_REMARK \<Rightarrow> Some (sc\<lparr>sc_flags := sc_flags sc OR BI_REMARK, sc_remark_index := i\<rparr>)
      | XDAG_FIELD_HEAD \<Rightarrow> None
      | XDAG_FIELD_HEAD_TEST \<Rightarrow> None
      | _ \<Rightarrow> Some sc)"

text \<open>The scan up to the first bad field: its number, if any, and what was read.\<close>

fun scan_fields :: "add_env \<Rightarrow> xdag_block \<Rightarrow> nat list \<Rightarrow> block_scan \<Rightarrow> nat option \<times> block_scan" where
  "scan_fields env b [] sc = (None, sc)"
| "scan_fields env b (i # is) sc =
     (case scan_field env b i sc of
        None \<Rightarrow> (Some i, sc)
      | Some sc' \<Rightarrow> scan_fields env b is sc')"

definition field_numbers :: "nat list" where "field_numbers = [1..<XDAG_BLOCK_FIELDS]"

definition links_mask :: "block_scan \<Rightarrow> u32" where "links_mask sc = sc_inmask sc OR sc_outmask sc"

text \<open>The wallet ignores outputs; an extra block was not read from storage and carries a nonce in its last field.\<close>

definition scan_block :: "add_env \<Rightarrow> xdag_block \<Rightarrow> xdag_state \<Rightarrow> nat option \<times> block_scan" where
  "scan_block env b st =
     (let (bad, sc) = scan_fields env b field_numbers empty_scan in
      (bad, if bad = None \<and> is_wallet st then sc\<lparr>sc_outmask := 0\<rparr> else sc))"

definition extra_flag :: "u64 \<Rightarrow> u64 \<Rightarrow> block_scan \<Rightarrow> xdag_state \<Rightarrow> u16" where
  "extra_flag transportHeader t sc st =
     (if is_pool st \<and> transportHeader AND 511 \<noteq> 0 \<and> t AND (MAIN_CHAIN_PERIOD - 1) = MAIN_CHAIN_PERIOD - 1 \<and>
         bit (sc_signinmask sc) (XDAG_BLOCK_FIELDS - 1)
      then BI_EXTRA else 0)"

text \<open>
  The loop that looks up the referenced blocks.  It runs before any link is
  entered, so \<open>tmpNodeBlock.nlinks\<close> is still the argument \<open>nlinks\<close> = 0 in the
  test for error 7.
\<close>

fun resolve_links :: "xdag_block \<Rightarrow> u64 \<Rightarrow> u32 \<Rightarrow> nat \<Rightarrow> nat list \<Rightarrow> xdag_state \<Rightarrow> nat \<times> nat + (nat \<times> ptr) list" where
  "resolve_links b t msk nlinks [] st = Inr []"
| "resolve_links b t msk nlinks (i # is) st =
     (if bit msk i then
        (case block_by_hash (f_hash (b ! i)) st of
           None \<Rightarrow> Inl (5, i)
         | Some p \<Rightarrow>
             if bi_time (cell st p) \<ge> t then Inl (6, i)
             else if nlinks \<ge> MAX_LINKS then Inl (7, i)
             else (case resolve_links b t msk nlinks is st of Inl e \<Rightarrow> Inl e | Inr ps \<Rightarrow> Inr ((i, p) # ps)))
      else resolve_links b t msk nlinks is st)"

section \<open>Signatures and keys\<close>

text \<open>One round over the signature fields: the mask of verified keys, the flags and the number of our key.\<close>

definition sign_field ::
  "add_env \<Rightarrow> xdag_block \<Rightarrow> block_scan \<Rightarrow> nat \<Rightarrow> u32 \<times> u16 \<times> u16 \<Rightarrow> u32 \<times> u16 \<times> u16" where
  "sign_field env b sc i = (\<lambda>(verified, flags, nkey).
     if bit (sc_signinmask sc OR sc_signoutmask sc) i then
       (let verified' = (case valid_signature (env_verify env) b i (sc_keys sc) of
                           Some k \<Rightarrow> verified OR push_bit k 1 | None \<Rightarrow> verified);
            ours = (if bit (sc_signoutmask sc) i \<and> flags AND BI_OURS = 0
                    then valid_signature (env_verify env) b i (if sc_signOutCount sc > 0 then env_our_keys env else []) else None)
        in case ours of
             Some k \<Rightarrow> (verified', flags OR BI_OURS, of_nat k)
           | None \<Rightarrow> (verified', flags, nkey))
     else (verified, flags, nkey))"

definition sign_fields :: "add_env \<Rightarrow> xdag_block \<Rightarrow> block_scan \<Rightarrow> u16 \<Rightarrow> u32 \<times> u16 \<times> u16" where
  "sign_fields env b sc flags = fold (sign_field env b sc) field_numbers (0, flags, 0)"

text \<open>
  The compaction of the key array.  Besides the array it gives the handles that
  \<open>xdag_free_key\<close> is called on; the array keeps its length, \<open>j\<close> of its entries count.
\<close>

fun compress_keys ::
  "u32 \<Rightarrow> nat list \<Rightarrow> nat \<Rightarrow> xdag_public_key list \<Rightarrow> nat list \<Rightarrow> nat \<times> xdag_public_key list \<times> nat list" where
  "compress_keys verified [] j keys freed = (j, keys, freed)"
| "compress_keys verified (i # is) j keys freed =
     (if bit verified i then
        compress_keys verified is (Suc j) (keys[j := keys ! i]) (if i \<noteq> j then freed @ [pk_key (keys ! j)] else freed)
      else compress_keys verified is j keys freed)"

definition verified_keys :: "u32 \<Rightarrow> xdag_public_key list \<Rightarrow> xdag_public_key list \<times> nat list" where
  "verified_keys verified keys =
     (let (j, arr, freed) = compress_keys verified [0..<length keys] 0 keys [] in (take j arr, freed))"

section \<open>Difficulty\<close>

text \<open>The seed slot whose machine hashes a block: the current one, or the previous before its switch time.\<close>

definition rx_block_slot :: "u64 \<Rightarrow> rx_globals \<Rightarrow> rx_pool_mem option" where
  "rx_block_slot block_time g =
     (let i = g_rx_hash_epoch_index g; m = rx_mem g i in
      if i = 0 then None
      else if i = 1 then (if block_time < rx_switch_time m then None else Some m)
      else if block_time < rx_switch_time m then Some (rx_mem g (i - 1)) else Some m)"

definition rx_block_hash :: "add_env \<Rightarrow> u8 list \<Rightarrow> u64 \<Rightarrow> rx_globals \<Rightarrow> xdag_hash_t option" where
  "rx_block_hash env data block_time g =
     map_option (\<lambda>m. env_randomx env (rx_block_vm m) data) (rx_block_slot block_time g)"

definition rx_hash_difficulty :: "add_env \<Rightarrow> xdag_block \<Rightarrow> u64 \<Rightarrow> xdag_hash_t \<Rightarrow> xdag_state \<Rightarrow> u128 option" where
  "rx_hash_difficulty env b t sha_hash st =
     do {
       pre \<leftarrow> xdag_rx_pre_hash zero_ctx (take 480 (block_bytes b)) 480;
       Some (case rx_block_hash env (hash_bytes pre @ hash_bytes (b ! (XDAG_BLOCK_FIELDS - 1))) t (g_rx st) of
               Some rx_hash \<Rightarrow> xdag_hash_difficulty rx_hash
             | None \<Rightarrow> xdag_hash_difficulty sha_hash)
     }"

definition block_difficulty :: "add_env \<Rightarrow> xdag_block \<Rightarrow> xdag_hash_t \<Rightarrow> u64 \<Rightarrow> xdag_state \<Rightarrow> u128 option" where
  "block_difficulty env b h t st =
     (if is_randomx_fork (MAIN_TIME t) st \<and> t AND 0xffff = 0xffff
      then rx_hash_difficulty env b (MAIN_TIME t) h st else Some (xdag_hash_difficulty h))"

section \<open>Links\<close>

text \<open>\<open>memset\<close> and the first assignments: the new block before its links.\<close>

definition tmp_block :: "xdag_hash_t \<Rightarrow> u64 \<Rightarrow> u128 \<Rightarrow> u64 \<Rightarrow> u16 \<Rightarrow> u16 \<Rightarrow> block_internal" where
  "tmp_block h t diff0 fee flags nkey =
     \<lparr>bi_hash = h, bi_difficulty = diff0, bi_amount = 0, bi_linkamount = replicate MAX_LINKS 0, bi_fee = fee, bi_time = t,
      bi_storage_pos = 0, bi_ref = NoRef, bi_link = replicate MAX_LINKS None, bi_height = 0, bi_backrefs = [],
      bi_remark = None, bi_flags = flags, bi_in_mask = 0, bi_n_our_key = nkey, bi_nlinks = 0, bi_max_diff_link = 0\<rparr>"

fun skip_epoch :: "nat \<Rightarrow> u64 \<Rightarrow> ptr option \<Rightarrow> xdag_state \<Rightarrow> ptr option option" where
  "skip_epoch 0 t blockRef st = None"
| "skip_epoch (Suc fuel) t blockRef st =
     (case blockRef of
        None \<Rightarrow> Some None
      | Some p \<Rightarrow>
          if MAIN_TIME (bi_time (cell st p)) = MAIN_TIME t
          then skip_epoch fuel t (max_diff_parent (cell st p)) st else Some (Some p))"

text \<open>The difficulty a link offers: the own difficulty counts once per time period.\<close>

definition link_difficulty :: "u128 \<Rightarrow> u64 \<Rightarrow> ptr \<Rightarrow> xdag_state \<Rightarrow> u128 option" where
  "link_difficulty diff0 t p st =
     (let d = bi_difficulty (cell st p) in
      if MAIN_TIME (bi_time (cell st p)) < MAIN_TIME t then Some (diff0 + d)
      else do {
        q \<leftarrow> skip_epoch (chain_fuel st) t (Some p) st;
        Some (case q of
                Some r \<Rightarrow> (if diff0 + bi_difficulty (cell st r) > d then diff0 + bi_difficulty (cell st r) else d)
              | None \<Rightarrow> d)
      })"

record link_acc =
  la_tmp :: block_internal
  la_sum_in :: u64
  la_sum_out :: u64
  la_hit :: nat
  la_miss :: nat

text \<open>The check of the signature of an input that spends something, with its effect on the cache counters.\<close>

definition input_check ::
  "add_env \<Rightarrow> block_cache \<Rightarrow> xdag_public_key list \<Rightarrow> bool \<Rightarrow> u64 \<Rightarrow> ptr \<Rightarrow> link_acc \<Rightarrow> xdag_state \<Rightarrow> nat \<times> link_acc" where
  "input_check env c keys is_input amount p acc st =
     (if is_input \<and> amount \<noteq> 0 then
        (let (res, hit) = check_signature_out_cached (env_verify env) (env_storage_load env) c (cell st p) keys
         in (nat res, if hit then acc\<lparr>la_hit := Suc (la_hit acc)\<rparr> else acc\<lparr>la_miss := Suc (la_miss acc)\<rparr>))
      else (0, acc))"

text \<open>The assignments to \<open>tmpNodeBlock\<close> in one round of the loop.\<close>

definition enter_link :: "bool \<Rightarrow> u64 \<Rightarrow> ptr \<Rightarrow> u128 \<Rightarrow> block_internal \<Rightarrow> block_internal" where
  "enter_link is_input amount p diff b =
     (let n = bi_nlinks b;
          b1 = b\<lparr>bi_in_mask := (if is_input then bi_in_mask b OR push_bit n 1 else bi_in_mask b),
                 bi_flags := (if amount \<noteq> 0 then bi_flags b AND NOT BI_EXTRA else bi_flags b),
                 bi_link := (bi_link b)[n := Some p], bi_linkamount := (bi_linkamount b)[n := amount]\<rparr>;
          b2 = (if diff > bi_difficulty b then b1\<lparr>bi_difficulty := diff, bi_max_diff_link := n\<rparr> else b1)
      in b2\<lparr>bi_nlinks := Suc n\<rparr>)"

definition add_link ::
  "add_env \<Rightarrow> block_cache \<Rightarrow> xdag_public_key list \<Rightarrow> u32 \<Rightarrow> xdag_block \<Rightarrow> u128 \<Rightarrow> nat \<times> ptr \<Rightarrow> link_acc \<Rightarrow> xdag_state
   \<Rightarrow> (nat \<times> nat + link_acc) option" where
  "add_link env c keys inmask b diff0 = (\<lambda>(i, p) acc st.
     let amount = f_amount (b ! i); is_input = bit inmask i;
         (res, acc1) = input_check env c keys is_input amount p acc st;
         psum = (if is_input then la_sum_in acc1 else la_sum_out acc1)
     in if res \<noteq> 0 then Some (Inl (res, i))
        else if psum + amount < psum then Some (Inl (0xA, i))
        else do {
          diff \<leftarrow> link_difficulty diff0 (bi_time (la_tmp acc1)) p st;
          let acc2 = (if is_input then acc1\<lparr>la_sum_in := psum + amount\<rparr> else acc1\<lparr>la_sum_out := psum + amount\<rparr>);
          Some (Inr (acc2\<lparr>la_tmp := enter_link is_input amount p diff (la_tmp acc2)\<rparr>))
        })"

fun add_links ::
  "add_env \<Rightarrow> block_cache \<Rightarrow> xdag_public_key list \<Rightarrow> u32 \<Rightarrow> xdag_block \<Rightarrow> u128 \<Rightarrow> (nat \<times> ptr) list \<Rightarrow> link_acc \<Rightarrow> xdag_state
   \<Rightarrow> (nat \<times> nat + link_acc) option" where
  "add_links env c keys inmask b diff0 [] acc st = Some (Inr acc)"
| "add_links env c keys inmask b diff0 (r # rs) acc st =
     do {
       s \<leftarrow> add_link env c keys inmask b diff0 r acc st;
       case s of Inl e \<Rightarrow> Some (Inl e) | Inr acc' \<Rightarrow> add_links env c keys inmask b diff0 rs acc' st
     }"

definition balanced :: "link_acc \<Rightarrow> u64 \<Rightarrow> bool" where
  "balanced acc fee \<longleftrightarrow>
     \<not> (if bi_in_mask (la_tmp acc) \<noteq> 0 then la_sum_in acc < la_sum_out acc else la_sum_out acc \<noteq> fee)"

section \<open>Storing the block\<close>

definition upd_stats :: "(xdag_stats \<Rightarrow> xdag_stats) \<Rightarrow> xdag_state \<Rightarrow> xdag_state" where
  "upd_stats f st = st\<lparr>g_xdag_stats := f (g_xdag_stats st)\<rparr>"

text \<open>
  A cell for the block: with too many extra blocks the oldest of them is taken
  out of all structures and reused, otherwise a new one is allocated (the inner
  None is a failed allocation).
\<close>

definition alloc_block :: "add_env \<Rightarrow> xdag_state \<Rightarrow> (ptr option \<times> xdag_state) option" where
  "alloc_block env st =
     (if nextra (g_xdag_extstats st) > MAX_ALLOWED_EXTRA \<and>
         (g_xdag_state st = XDAG_STATE_SYNC \<or> g_xdag_state st = XDAG_STATE_STST) then
        (case extras st of
           [] \<Rightarrow> None
         | ob # _ \<Rightarrow>
             (let p = orphan_bi ob in
              do {
                st1 \<leftarrow> remove_orphan (env_storage_save env) (chain_fuel st) ORPHAN_REMOVE_REUSE p st;
                let st2 = upd_stats (\<lambda>s. let s' = s\<lparr>nblocks := nblocks s - 1\<rparr> in
                    if nblocks s = total_nblocks s then s'\<lparr>total_nblocks := total_nblocks s - 1\<rparr> else s') (remove_index p st1);
                Some (Some p, if has_flag (cell st2 p) BI_OURS then remove_ourblock p st2 else st2)
              }))
      else if env_malloc_block env
      then Some (Some (length (heap st)), st\<lparr>heap := heap st @ [tmp_block (0, 0, 0, 0) 0 0 0 0 0]\<rparr>)
      else Some (None, st))"

definition storage_pos_of :: "add_env \<Rightarrow> u64 \<Rightarrow> xdag_block \<Rightarrow> u16 \<Rightarrow> u64" where
  "storage_pos_of env transportHeader b flags =
     (if transportHeader AND 511 = 0 then transportHeader
      else if flags AND BI_EXTRA = 0 then env_storage_save env b
      else - 2)"

definition count_block :: "xdag_state \<Rightarrow> xdag_state" where
  "count_block = upd_stats (\<lambda>s. let s' = s\<lparr>nblocks := nblocks s + 1\<rparr> in
     if nblocks s' > total_nblocks s' then s'\<lparr>total_nblocks := nblocks s'\<rparr> else s')"

definition set_pretop :: "u64 \<Rightarrow> ptr option \<Rightarrow> xdag_state \<Rightarrow> xdag_state" where
  "set_pretop timestamp b st =
     (case b of
        None \<Rightarrow> st
      | Some p \<Rightarrow>
          if MAIN_TIME (bi_time (cell st p)) < MAIN_TIME timestamp \<and>
             (case pretop_main_chain st of None \<Rightarrow> True
              | Some q \<Rightarrow> bi_difficulty (cell st p) > bi_difficulty (cell st q))
          then st\<lparr>pretop_main_chain := Some p\<rparr> else st)"

section \<open>Reorganisation\<close>

text \<open>
  The walk down from the new block to the main chain: where it ends, and the
  last candidate passed.  With \<open>mark\<close> the candidates get \<open>BI_MAIN_CHAIN\<close>.
\<close>

definition chain_candidate :: "ptr \<Rightarrow> ptr option \<Rightarrow> xdag_state \<Rightarrow> bool" where
  "chain_candidate p blockRef0 st \<longleftrightarrow>
     (case max_diff_parent (cell st p) of None \<Rightarrow> True | Some q \<Rightarrow> bi_difficulty (cell st p) > bi_difficulty (cell st q)) \<and>
     (case blockRef0 of None \<Rightarrow> True | Some q \<Rightarrow> MAIN_TIME (bi_time (cell st q)) > MAIN_TIME (bi_time (cell st p)))"

fun mark_chain :: "nat \<Rightarrow> bool \<Rightarrow> ptr option \<Rightarrow> ptr option \<Rightarrow> xdag_state \<Rightarrow> (ptr option \<times> ptr option \<times> xdag_state) option" where
  "mark_chain 0 mark blockRef blockRef0 st = None"
| "mark_chain (Suc fuel) mark blockRef blockRef0 st =
     (case blockRef of
        None \<Rightarrow> Some (None, blockRef0, st)
      | Some p \<Rightarrow>
          if has_flag (cell st p) BI_MAIN_CHAIN then Some (Some p, blockRef0, st)
          else if chain_candidate p blockRef0 st then
            mark_chain fuel mark (max_diff_parent (cell st p)) (Some p)
              (if mark then upd_cell p (set_flag BI_MAIN_CHAIN) st else st)
          else mark_chain fuel mark (max_diff_parent (cell st p)) blockRef0 st)"

definition sync_fork_height :: "xdag_state \<Rightarrow> u64" where
  "sync_fork_height st = (if g_xdag_testnet st then SYNC_FIX_TESTNET_HEIGHT else SYNC_FIX_HEIGHT)"

text \<open>The block down to which the main chain is unwound.\<close>

definition common_ancestor :: "ptr option \<Rightarrow> ptr option \<Rightarrow> xdag_state \<Rightarrow> ptr option" where
  "common_ancestor blockRef blockRef0 st =
     (case (blockRef, blockRef0) of
        (Some p, Some q) \<Rightarrow>
          if p \<noteq> q \<and> MAIN_TIME (bi_time (cell st p)) = MAIN_TIME (bi_time (cell st q))
          then max_diff_parent (cell st p) else Some p
      | _ \<Rightarrow> blockRef)"

definition new_top :: "ptr \<Rightarrow> u128 \<Rightarrow> xdag_state \<Rightarrow> xdag_state" where
  "new_top p diff st =
     (upd_stats (\<lambda>s. let s' = s\<lparr>difficulty := diff\<rparr> in
        if diff > max_difficulty s then s'\<lparr>max_difficulty := diff\<rparr> else s') st)\<lparr>top_main_chain := Some p\<rparr>"

definition reorganise :: "ptr \<Rightarrow> u128 \<Rightarrow> xdag_state \<Rightarrow> xdag_state option" where
  "reorganise p diff st =
     do {
       (blockRef, blockRef0, st1) \<leftarrow>
         mark_chain (chain_fuel st) (nmain (g_xdag_stats st) < sync_fork_height st) (Some p) None st;
       st2 \<leftarrow> unwind_main (common_ancestor blockRef blockRef0 st1) st1;
       (_, _, st3) \<leftarrow>
         (if nmain (g_xdag_stats st2) \<ge> sync_fork_height st
          then mark_chain (chain_fuel st2) True (Some p) None st2 else Some (None, None, st2));
       Some (new_top p diff st3)
     }"

section \<open>Orphans, back references and the hash rate\<close>

definition link_orphans :: "add_env \<Rightarrow> ptr \<Rightarrow> block_internal \<Rightarrow> xdag_state \<Rightarrow> xdag_state option" where
  "link_orphans env p tmp st =
     fold_opt (\<lambda>i s. do {
         let q = the (bi_link tmp ! i);
         s1 \<leftarrow> remove_orphan (env_storage_save env) (chain_fuel s)
           (if bi_flags tmp AND BI_EXTRA \<noteq> 0 then ORPHAN_REMOVE_EXTRA else ORPHAN_REMOVE_NORMAL) q s;
         Some (if bi_linkamount tmp ! i \<noteq> 0 then add_backref (env_malloc_backref env) q p s1 else s1)
       }) [0..<bi_nlinks tmp] st"

definition update_hashrate :: "u64 \<Rightarrow> bool \<Rightarrow> u128 \<Rightarrow> xdag_ext_stats \<Rightarrow> xdag_ext_stats" where
  "update_hashrate t is_ours diff0 x =
     (let i = unat (MAIN_TIME t AND (HASHRATE_LAST_MAX_TIME - 1));
          x1 = (if MAIN_TIME t > MAIN_TIME (hashrate_last_time x)
                then x\<lparr>hashrate_total := (hashrate_total x)[i := 0], hashrate_ours := (hashrate_ours x)[i := 0],
                       hashrate_last_time := t\<rparr> else x);
          x2 = (if diff0 > hashrate_total x1 ! i then x1\<lparr>hashrate_total := (hashrate_total x1)[i := diff0]\<rparr> else x1)
      in if is_ours \<and> diff0 > hashrate_ours x2 ! i then x2\<lparr>hashrate_ours := (hashrate_ours x2)[i := diff0]\<rparr> else x2)"

section \<open>Adding a block\<close>

text \<open>
  Result: the returned number, the state, the cache, and the handles of the keys
  freed, in order.  None marks runs outside the model (fuel, or a NULL pointer
  dereferenced).  Error codes are below 16, so \<open>err | i << 4\<close> is \<open>err + 16 * i\<close>.
\<close>

type_synonym add_result = "int \<times> xdag_state \<times> block_cache \<times> nat list"

definition add_fail :: "nat \<Rightarrow> nat \<Rightarrow> xdag_public_key list \<Rightarrow> nat list \<Rightarrow> xdag_state \<Rightarrow> block_cache \<Rightarrow> add_result option" where
  "add_fail err i keys freed st c = Some (- int (err + 16 * i), st, c, freed @ map pk_key keys)"

text \<open>Everything after the cell is in the index: the chain, the own blocks, the orphans and the hash rate.\<close>

definition finish_block ::
  "add_env \<Rightarrow> xdag_block \<Rightarrow> u128 \<Rightarrow> nat list \<Rightarrow> ptr \<Rightarrow> block_internal \<Rightarrow> xdag_state \<Rightarrow> block_cache \<Rightarrow> add_result option" where
  "finish_block env b diff0 freed p tmp st3 c =
     do {
       let st4 = set_pretop (env_timestamp env) (Some p) (count_block st3);
       let st5 = set_pretop (env_timestamp env) (top_main_chain st4) st4;
       let better = bi_difficulty tmp > difficulty (g_xdag_stats st5);
       st6 \<leftarrow> (if better then reorganise p (bi_difficulty tmp) st5 else Some st5);
       let err = (if better \<or> bi_flags tmp AND BI_EXTRA = 0 then 1 else 0);
       let st7 = (if bi_flags tmp AND BI_OURS \<noteq> 0 then add_ourblock p st6 else st6);
       st8 \<leftarrow> link_orphans env p tmp st7;
       let st9 = add_orphan (env_malloc_orphan env) p b st8;
       Some (err, upd_extstats (update_hashrate (bi_time (cell st9 p)) (bi_flags tmp AND BI_OURS \<noteq> 0) diff0) st9, c, freed)
     }"

text \<open>Everything after the block is known to be valid: its cell, the cache, the storage and the index.\<close>

definition store_block ::
  "add_env \<Rightarrow> u64 \<Rightarrow> xdag_block \<Rightarrow> bool \<Rightarrow> u128 \<Rightarrow> xdag_public_key list \<Rightarrow> nat list \<Rightarrow> block_internal \<Rightarrow> xdag_state \<Rightarrow> block_cache
   \<Rightarrow> add_result option" where
  "store_block env transportHeader b is_signed diff0 keys freed tmp0 st c =
     do {
       (cellp, st1) \<leftarrow> alloc_block env st;
       case cellp of
         None \<Rightarrow> add_fail 0xC XDAG_BLOCK_FIELDS keys freed st1 c
       | Some p \<Rightarrow>
           (let c1 = (if is_signed then cache_add (env_malloc_cache env) b (bi_hash tmp0) c else c);
                tmp = tmp0\<lparr>bi_storage_pos := storage_pos_of env transportHeader b (bi_flags tmp0)\<rparr>;
                (st3, res) = insert_index (env_malloc_index env) p (upd_cell p (\<lambda>_. tmp) st1)
            in if res \<noteq> 0 then add_fail 0xD XDAG_BLOCK_FIELDS keys freed st3 c1
               else finish_block env b diff0 (freed @ map pk_key keys) p tmp st3 c1)
     }"

text \<open>The part from the signatures to the balance, on a block whose links are resolved.\<close>

definition check_and_store ::
  "add_env \<Rightarrow> u64 \<Rightarrow> xdag_block \<Rightarrow> xdag_hash_t \<Rightarrow> u16 \<Rightarrow> block_scan \<Rightarrow> (nat \<times> ptr) list \<Rightarrow> xdag_state \<Rightarrow> block_cache
   \<Rightarrow> add_result option" where
  "check_and_store env transportHeader b h flags sc refs st c =
     (let t = f_time (b ! 0); fee = f_amount (b ! 0);
          (verified, flags1, nkey) = sign_fields env b sc flags;
          (keys, freed) = verified_keys verified (sc_keys sc);
          flags2 = (if fee \<noteq> 0 then flags1 AND NOT BI_EXTRA else flags1)
      in do {
        diff0 \<leftarrow> block_difficulty env b h t st;
        s \<leftarrow> add_links env c keys (sc_inmask sc) b diff0 refs
          \<lparr>la_tmp = tmp_block h t diff0 fee flags2 nkey, la_sum_in = 0, la_sum_out = fee, la_hit = 0, la_miss = 0\<rparr> st;
        case s of
          Inl (err, i) \<Rightarrow> add_fail err i keys freed st c
        | Inr acc \<Rightarrow>
            (let c1 = cache_retarget (env_hitrate_low env) (env_hitrate_high env) (env_rand_shrinks env) (la_hit acc) (la_miss acc) c
             in if \<not> balanced acc fee then add_fail 0xB XDAG_BLOCK_FIELDS keys freed st c1
                else store_block env transportHeader b (sc_signOutCount sc > 0) diff0 keys freed (la_tmp acc) st c1)
      })"

definition bad_time :: "add_env \<Rightarrow> u64 \<Rightarrow> u64 \<Rightarrow> xdag_state \<Rightarrow> bool" where
  "bad_time env limit t st \<longleftrightarrow>
     t > env_timestamp env + MAIN_CHAIN_PERIOD div 4 \<or> t < g_xdag_era st \<or> (limit \<noteq> 0 \<and> env_timestamp env - t > limit)"

definition add_block_nolock :: "add_env \<Rightarrow> xdag_block \<Rightarrow> u64 \<Rightarrow> xdag_state \<Rightarrow> block_cache \<Rightarrow> add_result option" where
  "add_block_nolock env newBlock limit st c =
     (let transportHeader = f_transport_header (newBlock ! 0);
          b = newBlock[0 := f_set_transport_header 0 (newBlock ! 0)];
          h = hash_data (block_bytes b); t = f_time (b ! 0)
      in if block_by_hash (hashlow h) st \<noteq> None then Some (0, st, c, [])
         else if xdag_type b 0 \<noteq> g_block_header_type st then add_fail 1 (xdag_type b 0) [] [] st c
         else if bad_time env limit t st then add_fail 2 0 [] [] st c
         else
           (let (bad, sc) = scan_block env b st;
                keys = sc_keys sc;
                flags = sc_flags sc OR extra_flag transportHeader t sc st
            in case bad of
                 Some i \<Rightarrow> add_fail 3 i keys [] st c
               | None \<Rightarrow>
                   if odd (sc_signOutCount sc) then add_fail 4 (sc_signOutCount sc) keys [] st c
                   else if sc_flags sc AND BI_REMARK \<noteq> 0 \<and> remark_acceptance (b ! sc_remark_index sc) = 0
                   then add_fail 0xE XDAG_BLOCK_FIELDS keys [] st c
                   else
                     (case resolve_links b t (links_mask sc) 0 field_numbers st of
                        Inl (err, i) \<Rightarrow> add_fail err i keys [] st c
                      | Inr refs \<Rightarrow> do {
                          st1 \<leftarrow> (if is_pool st then check_new_main (env_check_main env) st else Some st);
                          check_and_store env transportHeader b h flags sc refs st1 c
                        })))"

text \<open>The callers: \<open>g_time_limit\<close> is 0 unless set; the callback also moves the time of the latest block.\<close>

definition xdag_add_block :: "add_env \<Rightarrow> u64 \<Rightarrow> xdag_block \<Rightarrow> xdag_state \<Rightarrow> block_cache \<Rightarrow> add_result option" where
  "xdag_add_block env g_time_limit b st c = add_block_nolock env b g_time_limit st c"

definition add_block_callback_sync ::
  "add_env \<Rightarrow> xdag_block \<Rightarrow> u64 \<Rightarrow> xdag_state \<Rightarrow> block_cache \<Rightarrow> (add_result \<times> u64 \<times> bool) option" where
  "add_block_callback_sync env b t st c =
     do {
       (res, r) \<leftarrow> add_block_nolock env b (if t < g_xdag_era st then t else 0) st c;
       Some ((res, r),
             if \<not> t < g_xdag_era st \<and> res \<ge> 0 \<and> f_time (b ! 0) > t then f_time (b ! 0) else t,
             res \<ge> 0 \<and> is_pool st)
     }"

end
