(* ===== verification/Add_Block_Inv.thy ===== *)
theory Add_Block_Inv
  imports Add_Block
begin

text \<open>
  Adding a block ends, keeps the structure of the graph and the index, and
  admits only blocks that do not spend more than they take.
\<close>

section \<open>What the steps leave alone\<close>

definition config where
  "config st = ((root st, top_main_chain st, pretop_main_chain st),
     (g_xdag_state st, g_xdag_testnet st, g_xdag_type st, g_xdag_mine_type st, g_block_header_type st, g_xdag_era st))"

definition keeps :: "xdag_state \<Rightarrow> xdag_state \<Rightarrow> bool" where
  "keeps st st' \<longleftrightarrow> same_dag st st' \<and> config st' = config st"

lemma keepsD:
  assumes "keeps st st'"
  shows "root st' = root st" "top_main_chain st' = top_main_chain st" "pretop_main_chain st' = pretop_main_chain st"
    "length (heap st') = length (heap st)" "same_dag st st'" "g_xdag_testnet st' = g_xdag_testnet st"
  using assms same_dag_length by (auto simp: keeps_def config_def)

lemma keeps_refl [simp]: "keeps st st"
  by (simp add: keeps_def)

lemma keeps_trans [trans]: "keeps st st' \<Longrightarrow> keeps st' st'' \<Longrightarrow> keeps st st''"
  using same_dag_trans by (auto simp: keeps_def)

lemma keeps_globals: "same_dag st st' \<Longrightarrow> globals st' = globals st \<Longrightarrow> keeps st st'"
  by (simp add: keeps_def config_def globals_def)

lemma keeps_upd_cell: "(\<And>b. static (f b) = static b) \<Longrightarrow> keeps st (upd_cell p f st)"
  by (rule keeps_globals) (simp_all add: same_dag_upd_cell)

lemma keeps_fields [simp]:
  "keeps st (st'\<lparr>g_xdag_stats := s\<rparr>) = keeps st st'" "keeps st (st'\<lparr>g_rx := r\<rparr>) = keeps st st'"
  "keeps st (st'\<lparr>ours := o'\<rparr>) = keeps st st'" "keeps st (st'\<lparr>g_xdag_extstats := x\<rparr>) = keeps st st'"
  "keeps st (st'\<lparr>orphans := y\<rparr>) = keeps st st'" "keeps st (st'\<lparr>extras := z\<rparr>) = keeps st st'"
  by (simp_all add: keeps_def config_def same_dag_def)

lemma keeps_accept [simp]: "keeps st (accept_amount p a st)"
  by (rule keeps_globals) simp_all

lemma keeps_wf: "keeps st st' \<Longrightarrow> wf_dag st' = wf_dag st"
  by (auto simp: keeps_def wf_dag_same)

lemma keeps_apply:
  assumes "wf_dag st" "p < length (heap st)" "apply_block fuel p st = Some (st', r)"
  shows "keeps st st'"
  using glob.apply_block [of st p "globals st" fuel st' r] assms by (auto intro: keeps_globals)

lemma keeps_unapply:
  assumes "wf_dag st" "p < length (heap st)" "unapply_block fuel p st = Some (st', r)"
  shows "keeps st st'"
  using glob.unapply_block [of st p "globals st" fuel st' r] assms by (auto intro: keeps_globals)

lemma keeps_rx_set: "rx_set_fork_time env p st = Some st' \<Longrightarrow> keeps st st'"
  using rx_set_fork_time_frame [of env p st st'] by auto

lemma keeps_rx_unset [simp]: "keeps st (rx_unset_fork_time p st)"
proof -
  obtain w where "rx_unset_fork_time p st = st\<lparr>g_rx := w\<rparr>" using rx_unset_fork_time_frame by blast
  then show ?thesis by simp
qed

lemma keeps_rewarded: "keeps st (rewarded m st)"
proof -
  have "keeps st (upd_cell m (\<lambda>b. set_flag BI_MAIN (b\<lparr>bi_height := nmain (g_xdag_stats st) + 1\<rparr>)) st)"
    by (rule keeps_upd_cell) simp
  then show ?thesis unfolding rewarded_def by (rule keeps_trans) simp
qed

lemma keeps_set_main:
  assumes "wf_dag st" "m < length (heap st)" "set_main env m st = Some st'"
  shows "keeps st st'"
proof -
  let ?u = "(rewarded m st)\<lparr>g_xdag_stats := counted (g_xdag_stats st)\<rparr>"
  have u: "keeps st ?u" by (simp add: keeps_rewarded)
  obtain st3 fee where a: "apply_block (chain_fuel st) m ?u = Some (st3, fee)"
    "rx_set_fork_time env m (upd_cell m (\<lambda>b. b\<lparr>bi_ref := Ref m\<rparr>) (accept_amount m fee st3)) = Some st'"
    using assms(3) unfolding set_main_unfold by (auto simp: bind_eq_Some_conv)
  have "keeps ?u st3" using keeps_apply [OF _ _ a(1)] assms(1,2) keeps_wf [OF u] keepsD(4) [OF u] by metis
  also have "keeps st3 (accept_amount m fee st3)" by simp
  also have "keeps \<dots> (upd_cell m (\<lambda>b. b\<lparr>bi_ref := Ref m\<rparr>) (accept_amount m fee st3))" by (rule keeps_upd_cell) simp
  also have "keeps \<dots> st'" by (rule keeps_rx_set [OF a(2)])
  finally show ?thesis using keeps_trans [OF u] by blast
qed

lemma unset_main_total:
  assumes "wf_dag st" "m < length (heap st)"
  shows "\<exists>st'. unset_main m st = Some st' \<and> keeps st st'"
proof -
  let ?u = "unrewarded m st"
  let ?v = "st\<lparr>g_xdag_stats := (g_xdag_stats st)
    \<lparr>total_nmain := total_nmain (g_xdag_stats st) - 1, nmain := nmain (g_xdag_stats st) - 1\<rparr>\<rparr>"
  have "keeps st ?v" by simp
  also have "keeps ?v (upd_cell m (clear_flag BI_MAIN) ?v)" by (rule keeps_upd_cell) simp
  also have "keeps \<dots> ?u" unfolding unrewarded_def by simp
  finally have u: "keeps st ?u" .
  have wu: "wf_dag ?u" "m < length (heap ?u)" "rank ?u m < chain_fuel st"
    using assms keeps_wf [OF u] keepsD(4) [OF u] rank_same [OF keepsD(5) [OF u] assms(2)] chain_fuel_rank [OF assms(2)]
    by simp_all
  obtain st3 fee where a: "unapply_block (chain_fuel st) m ?u = Some (st3, fee)"
    using unapply_block_total [OF wu] by blast
  note u
  also have "keeps ?u st3" by (rule keeps_unapply [OF wu(1,2) a])
  also have "keeps st3 (accept_amount m fee st3)" by simp
  also have "keeps \<dots> (rx_unset_fork_time m (accept_amount m fee st3))" by simp
  finally show ?thesis using a by (simp add: unset_main_unfold)
qed

lemma keeps_find_new_main:
  "wf_dag st \<Longrightarrow> in_heap st b \<Longrightarrow> in_heap st p \<Longrightarrow> find_new_main fuel b p i st = Some (q, n) \<Longrightarrow> in_heap st q"
proof (induction fuel arbitrary: b p i)
  case (Suc fuel)
  show ?case
  proof (cases b)
    case (Some r)
    then have r: "in_heap st (max_diff_parent (cell st r))" "in_heap st (Some r)"
      using wf_parent(1) [OF Suc.prems(1), of r] Suc.prems(2) by (simp_all add: in_heap_def)
    show ?thesis
      using Suc.prems Suc.IH [OF Suc.prems(1) r(1) r(2)] Suc.IH [OF Suc.prems(1) r(1) Suc.prems(3)] Some
      by (simp split: if_splits)
  qed (use Suc.prems in simp)
qed simp

lemma keeps_check_new_main:
  assumes "wf_dag st" "in_heap st (top_main_chain st)" "check_new_main env st = Some st'"
  shows "keeps st st'"
proof -
  obtain cand i where f: "find_new_main (chain_fuel st) (top_main_chain st) None 0 st = Some (cand, i)"
    using assms(3) by (auto simp: check_new_main_def bind_eq_Some_conv)
  then have "in_heap st cand" using keeps_find_new_main [OF assms(1,2) _ f] by (simp add: in_heap_def)
  then show ?thesis
    using assms(3) f keeps_set_main [OF assms(1)]
    by (auto simp: check_new_main_def in_heap_def split: option.splits if_splits)
qed

section \<open>Walks down a chain end\<close>

text \<open>Enough fuel for a walk that starts at a block.\<close>

definition walk_fuel :: "xdag_state \<Rightarrow> ptr option \<Rightarrow> nat \<Rightarrow> bool" where
  "walk_fuel st b fuel \<longleftrightarrow> in_heap st b \<and> 0 < fuel \<and> (\<forall>q. b = Some q \<longrightarrow> Suc (rank st q) < fuel)"

lemma walk_fuel_chain: "in_heap st b \<Longrightarrow> walk_fuel st b (chain_fuel st)"
  using rank_bound by (auto simp: walk_fuel_def in_heap_def chain_fuel_def)

lemma walk_fuel_step:
  assumes "wf_dag st" "walk_fuel st (Some p) (Suc fuel)" "keeps st st'"
  shows "walk_fuel st' (max_diff_parent (cell st' p)) fuel"
proof -
  have p: "p < length (heap st)" "rank st p < fuel" using assms(2) by (simp_all add: walk_fuel_def in_heap_def)
  have eq: "max_diff_parent (cell st' p) = max_diff_parent (cell st p)"
    using static_eqD(6,9) [OF same_dag_static [OF keepsD(5) [OF assms(3)] p(1)]] by (simp add: max_diff_parent_def)
  have "q < length (heap st) \<and> rank st q < rank st p" if "max_diff_parent (cell st p) = Some q" for q
    using wf_parent [OF assms(1) p(1) that] rank_mono by blast
  then show ?thesis
    using p eq rank_same [OF keepsD(5) [OF assms(3)]] keepsD(4) [OF assms(3)]
    by (auto simp: walk_fuel_def in_heap_def)
qed

lemma skip_epoch_total:
  "wf_dag st \<Longrightarrow> walk_fuel st b fuel \<Longrightarrow> \<exists>q. skip_epoch fuel t b st = Some q \<and> in_heap st q"
proof (induction fuel arbitrary: b)
  case (Suc fuel)
  show ?case
  proof (cases b)
    case (Some p)
    then show ?thesis
      using Suc.IH [OF Suc.prems(1) walk_fuel_step [OF Suc.prems(1) _ keeps_refl]] Suc.prems(2)
      by (auto simp: walk_fuel_def)
  qed (simp add: in_heap_def)
qed (simp add: walk_fuel_def)

lemma unwind_main_loop_total:
  "wf_dag st \<Longrightarrow> walk_fuel st t fuel \<Longrightarrow> \<exists>st'. unwind_main_loop fuel t b st = Some st' \<and> keeps st st'"
proof (induction fuel arbitrary: t st)
  case (Suc fuel)
  show ?case
  proof (cases t)
    case (Some q)
    let ?st1 = "upd_cell q (clear_flag BI_MAIN_CHAIN) st"
    have q: "q < length (heap st)" using Suc.prems(2) Some by (simp add: walk_fuel_def in_heap_def)
    have 1: "keeps st ?st1" by (rule keeps_upd_cell) simp
    obtain st2 where 2: "(if has_flag (cell ?st1 q) BI_MAIN then unset_main q ?st1 else Some ?st1) = Some st2" "keeps ?st1 st2"
      using unset_main_total [of ?st1 q] keeps_wf [OF 1] Suc.prems(1) q by (cases "has_flag (cell ?st1 q) BI_MAIN") auto
    have k: "keeps st st2" by (rule keeps_trans [OF 1 2(2)])
    then obtain st' where "unwind_main_loop fuel (max_diff_parent (cell st2 q)) b st2 = Some st'" "keeps st2 st'"
      using Suc.IH [of st2] keeps_wf [OF k] walk_fuel_step [OF Suc.prems(1) _ k] Suc.prems Some by blast
    then show ?thesis using 2(1) Some keeps_trans [OF k] by (cases "t = b") auto
  qed simp
qed (simp add: walk_fuel_def)

lemma unwind_main_total:
  "wf_dag st \<Longrightarrow> in_heap st (top_main_chain st) \<Longrightarrow> \<exists>st'. unwind_main b st = Some st' \<and> keeps st st'"
  unfolding unwind_main_def by (rule unwind_main_loop_total) (simp_all add: walk_fuel_chain)

lemma mark_chain_total:
  "wf_dag st \<Longrightarrow> walk_fuel st b fuel \<Longrightarrow> \<exists>x y st'. mark_chain fuel mark b b0 st = Some (x, y, st') \<and> keeps st st'"
proof (induction fuel arbitrary: b b0 st)
  case (Suc fuel)
  show ?case
  proof (cases b)
    case (Some p)
    let ?st1 = "if mark then upd_cell p (set_flag BI_MAIN_CHAIN) st else st"
    have 1: "keeps st ?st1" using keeps_upd_cell [of "set_flag BI_MAIN_CHAIN" st p] by simp
    have "max_diff_parent (cell ?st1 p) = max_diff_parent (cell st p)"
      by (simp add: cell_upd_cell max_diff_parent_def set_flag_def)
    then have "\<exists>x y st'. mark_chain fuel mark (max_diff_parent (cell st p)) (Some p) ?st1 = Some (x, y, st') \<and> keeps ?st1 st'"
      using Suc.IH [of ?st1 "max_diff_parent (cell st p)" "Some p"] keeps_wf [OF 1] walk_fuel_step [OF Suc.prems(1) _ 1, of p]
        Suc.prems Some by simp
    moreover have "\<exists>x y st'. mark_chain fuel mark (max_diff_parent (cell st p)) b0 st = Some (x, y, st') \<and> keeps st st'"
      using Suc.IH [of st "max_diff_parent (cell st p)" b0] walk_fuel_step [OF Suc.prems(1) _ keeps_refl, of p] Suc.prems Some
      by simp
    ultimately show ?thesis using Some keeps_trans [OF 1] by auto
  qed simp
qed (simp add: walk_fuel_def)

lemma reorganise_total:
  assumes "wf_dag st" "in_heap st (top_main_chain st)" "p < length (heap st)"
  shows "\<exists>st'. reorganise p d st = Some st' \<and> same_dag st st' \<and> root st' = root st \<and>
    top_main_chain st' = Some p \<and> pretop_main_chain st' = pretop_main_chain st"
proof -
  have p: "in_heap st (Some p)" using assms(3) by (simp add: in_heap_def)
  obtain x y st1 where 1: "mark_chain (chain_fuel st) (nmain (g_xdag_stats st) < sync_fork_height st) (Some p) None st =
      Some (x, y, st1)" "keeps st st1"
    using mark_chain_total [OF assms(1) walk_fuel_chain [OF p]] by blast
  have w1: "wf_dag st1" "in_heap st1 (top_main_chain st1)"
    using assms(1,2) keeps_wf [OF 1(2)] keepsD(2,4) [OF 1(2)] by (simp_all add: in_heap_def)
  obtain st2 where 2: "unwind_main (common_ancestor x y st1) st1 = Some st2" "keeps st1 st2"
    using unwind_main_total [OF w1] by blast
  have k2: "keeps st st2" by (rule keeps_trans [OF 1(2) 2(2)])
  have w2: "wf_dag st2" "in_heap st2 (Some p)"
    using assms(1,3) keeps_wf [OF k2] keepsD(4) [OF k2] by (simp_all add: in_heap_def)
  obtain x' y' st3 where 3: "(if nmain (g_xdag_stats st2) \<ge> sync_fork_height st
          then mark_chain (chain_fuel st2) True (Some p) None st2 else Some (None, None, st2)) = Some (x', y', st3)" "keeps st2 st3"
    using mark_chain_total [OF w2(1) walk_fuel_chain [OF w2(2)], of True None] by (cases "nmain (g_xdag_stats st2) \<ge> sync_fork_height st") auto
  have "reorganise p d st = Some (new_top p d st3)"
    by (simp add: reorganise_def 1(1) 2(1) 3(1))
  moreover have "same_dag st (new_top p d st3)" "root (new_top p d st3) = root st"
    "pretop_main_chain (new_top p d st3) = pretop_main_chain st" "top_main_chain (new_top p d st3) = Some p"
    using keepsD(1,3,5) [OF keeps_trans [OF k2 3(2)]] by (simp_all add: new_top_def upd_stats_def same_dag_def)
  ultimately show ?thesis by blast
qed

section \<open>The orphan updates end\<close>

lemma keeps_referenced: "keeps st (orphan_referenced p st)"
  unfolding orphan_referenced_def by (rule keeps_upd_cell) (simp add: set_flag_def static_def)

lemma keeps_extstats [simp]: "keeps st (upd_extstats f st') = keeps st st'"
  by (simp add: upd_extstats_def)

lemma remove_orphan_total:
  "wf_dag st \<Longrightarrow> p < length (heap st) \<Longrightarrow> rank st p < fuel \<Longrightarrow>
   \<exists>st'. remove_orphan save fuel act p st = Some st' \<and> keeps st st'"
proof (induction fuel arbitrary: act p st)
  case (Suc fuel)
  let ?st1 = "upd_cell p (\<lambda>b. b\<lparr>bi_storage_pos := save (orphan_block_of p (extras st))\<rparr>) (st\<lparr>extras := unlink_orphan p (extras st)\<rparr>)"
  have "keeps st (st\<lparr>extras := unlink_orphan p (extras st)\<rparr>)" by simp
  also have "keeps \<dots> ?st1" by (rule keeps_upd_cell) (simp add: static_def)
  finally have 1: "keeps st ?st1" .
  have "\<exists>u'. remove_orphan save fuel ORPHAN_REMOVE_NORMAL (link_of u p i) u = Some u' \<and> keeps st u'"
    if "i \<in> set [0..<bi_nlinks (cell st p)]" "keeps st u" for i u
  proof -
    have i: "i < bi_nlinks (cell st p)" using that by simp
    note c = link_call [OF Suc.prems(1) keepsD(5) [OF that(2)] Suc.prems(2) i]
    obtain u1 where "remove_orphan save fuel ORPHAN_REMOVE_NORMAL (link_of u p i) u = Some u1" "keeps u u1"
      using Suc.IH [OF c(3,2)] c(4) Suc.prems(3) by fastforce
    then show ?thesis using keeps_trans that(2) by blast
  qed
  then obtain st2 where 2: "fold_opt (\<lambda>i s. remove_orphan save fuel ORPHAN_REMOVE_NORMAL (link_of s p i) s)
      [0..<bi_nlinks (cell st p)] ?st1 = Some st2" "keeps st st2"
    using fold_opt_total [of "keeps st" ?st1 "[0..<bi_nlinks (cell st p)]"
        "\<lambda>i s. remove_orphan save fuel ORPHAN_REMOVE_NORMAL (link_of s p i) s"] 1 by blast
  have step: "keeps st (orphan_referenced p (upd_extstats f u))" if "keeps st u" for f u
    using keeps_trans [OF _ keeps_referenced] that by simp
  have clear: "keeps st (upd_cell p (clear_flag BI_EXTRA) u)" if "keeps st u" for u
    using keeps_trans [OF that keeps_upd_cell] by simp
  show ?case
    using 2 by (auto simp: Let_def intro!: step clear)
qed simp

lemma remove_orphan_chain_fuel:
  "wf_dag st \<Longrightarrow> p < length (heap st) \<Longrightarrow> \<exists>st'. remove_orphan save (chain_fuel st) act p st = Some st' \<and> keeps st st'"
  by (rule remove_orphan_total) (simp_all add: chain_fuel_rank)

lemma keeps_add_backref: "keeps st (add_backref ok q p st)"
  unfolding add_backref_def by (rule keeps_upd_cell) (simp add: static_def)

lemma keeps_add_orphan: "keeps st (add_orphan ok p b st)"
  using keeps_upd_cell [of "\<lambda>b. b\<lparr>bi_ref := ORef\<rparr>" st p] by (simp add: add_orphan_def Let_def)

lemma link_orphans_total:
  assumes "wf_dag st" "\<forall>i < bi_nlinks tmp. the (bi_link tmp ! i) < length (heap st)"
  shows "\<exists>st'. link_orphans env p tmp st = Some st' \<and> keeps st st'"
  unfolding link_orphans_def
proof (rule fold_opt_total)
  fix i u assume i: "i \<in> set [0..<bi_nlinks tmp]" and k: "keeps st u"
  let ?q = "the (bi_link tmp ! i)"
  obtain u1 where u1: "remove_orphan (env_storage_save env) (chain_fuel u)
      (if bi_flags tmp AND BI_EXTRA \<noteq> 0 then ORPHAN_REMOVE_EXTRA else ORPHAN_REMOVE_NORMAL) ?q u = Some u1" "keeps u u1"
    using remove_orphan_chain_fuel [of u ?q "env_storage_save env"] keeps_wf [OF k] keepsD(4) [OF k] assms i by fastforce
  have "keeps st u1" "keeps st (add_backref (env_malloc_backref env) ?q p u1)"
    using keeps_trans [OF k u1(2)] keeps_trans [OF _ keeps_add_backref] by blast+
  then show "\<exists>u'. do { let q = the (bi_link tmp ! i);
         s1 \<leftarrow> remove_orphan (env_storage_save env) (chain_fuel u)
           (if bi_flags tmp AND BI_EXTRA \<noteq> 0 then ORPHAN_REMOVE_EXTRA else ORPHAN_REMOVE_NORMAL) q u;
         Some (if bi_linkamount tmp ! i \<noteq> 0 then add_backref (env_malloc_backref env) q p s1 else s1) } = Some u' \<and> keeps st u'"
    using u1(1) by (simp add: Let_def)
qed simp

end
