(* ===== verification/Add_Block_Correct.thy ===== *)
theory Add_Block_Correct
  imports Add_Block_Inv
begin

text \<open>
  Correctness of adding a block: the loops over the links build a well-formed
  and balanced cell, and the cell enters the graph and the index.
\<close>

section \<open>Balanced cells\<close>

definition inputs_of :: "block_internal \<Rightarrow> nat" where
  "inputs_of b = (\<Sum>i<bi_nlinks b. if is_in b i then lamt b i else 0)"

definition outputs_of :: "block_internal \<Rightarrow> nat" where
  "outputs_of b = (\<Sum>i<bi_nlinks b. if is_in b i then 0 else lamt b i)"

text \<open>
  Nothing overflows, a block with inputs pays its outputs and its fee from them,
  and a block without inputs has no outputs.
\<close>

definition cell_balanced :: "block_internal \<Rightarrow> bool" where
  "cell_balanced b \<longleftrightarrow> inputs_of b < 2 ^ 64 \<and> unat (bi_fee b) + outputs_of b < 2 ^ 64 \<and>
     (if bi_in_mask b \<noteq> 0 then unat (bi_fee b) + outputs_of b \<le> inputs_of b else outputs_of b = 0)"

lemma cell_balanced_static:
  assumes "static b = static c"
  shows "cell_balanced b = cell_balanced c"
  by (simp only: cell_balanced_def inputs_of_def outputs_of_def static_eqD [OF assms])

section \<open>The loop over the links\<close>

definition links_inv :: "xdag_state \<Rightarrow> u64 \<Rightarrow> u64 \<Rightarrow> link_acc \<Rightarrow> bool" where
  "links_inv st t fee acc \<longleftrightarrow>
     (let b = la_tmp acc; n = bi_nlinks b in
      length (bi_link b) = MAX_LINKS \<and> length (bi_linkamount b) = MAX_LINKS \<and> n \<le> MAX_LINKS \<and> bi_time b = t \<and> bi_fee b = fee \<and>
      (\<forall>j < n. \<exists>q < length (heap st). bi_link b ! j = Some q \<and> bi_time (cell st q) < t) \<and>
      (\<forall>j < MAX_LINKS. n \<le> j \<longrightarrow> bi_link b ! j = None) \<and>
      (bi_max_diff_link b < n \<or> bi_max_diff_link b = 0) \<and> (\<forall>j. is_in b j \<longrightarrow> j < n) \<and>
      unat (la_sum_in acc) = inputs_of b \<and> unat (la_sum_out acc) = unat fee + outputs_of b)"

lemma links_inv_start:
  "links_inv st t fee \<lparr>la_tmp = tmp_block h t d fee flags nk, la_sum_in = 0, la_sum_out = fee, la_hit = 0, la_miss = 0\<rparr>"
  by (simp add: links_inv_def tmp_block_def inputs_of_def outputs_of_def Let_def MAX_LINKS_def)

lemma links_inv_counters [simp]:
  "links_inv st t fee (acc\<lparr>la_hit := h\<rparr>) = links_inv st t fee acc"
  "links_inv st t fee (acc\<lparr>la_miss := m\<rparr>) = links_inv st t fee acc"
  by (simp_all add: links_inv_def)

lemma enter_link_fields:
  assumes "bi_nlinks b < MAX_LINKS"
  shows "bi_nlinks (enter_link inp a p d b) = Suc (bi_nlinks b)"
    "bi_link (enter_link inp a p d b) = (bi_link b)[bi_nlinks b := Some p]"
    "bi_linkamount (enter_link inp a p d b) = (bi_linkamount b)[bi_nlinks b := a]"
    "is_in (enter_link inp a p d b) j \<longleftrightarrow> is_in b j \<or> inp \<and> j = bi_nlinks b"
    "bi_time (enter_link inp a p d b) = bi_time b" "bi_fee (enter_link inp a p d b) = bi_fee b"
    "bi_hash (enter_link inp a p d b) = bi_hash b"
    "bi_max_diff_link (enter_link inp a p d b) \<in> {bi_nlinks b, bi_max_diff_link b}"
  using assms by (auto simp: enter_link_def Let_def bit_simps MAX_LINKS_def)

lemma enter_link_sums:
  assumes "bi_nlinks b < MAX_LINKS" "length (bi_linkamount b) = MAX_LINKS" "\<forall>j. is_in b j \<longrightarrow> j < bi_nlinks b"
  shows "inputs_of (enter_link inp a p d b) = inputs_of b + (if inp then unat a else 0)"
    "outputs_of (enter_link inp a p d b) = outputs_of b + (if inp then 0 else unat a)"
proof -
  let ?b = "enter_link inp a p d b"
  note f = enter_link_fields [OF assms(1), of inp a p d]
  have old: "is_in ?b i = is_in b i \<and> lamt ?b i = lamt b i" if "i < bi_nlinks b" for i
    using that f(4) [of i] by (simp add: f(3))
  have new: "is_in ?b (bi_nlinks b) = inp \<and> lamt ?b (bi_nlinks b) = unat a"
    using f(4) [of "bi_nlinks b"] assms by (auto simp: f(3))
  have "(\<Sum>i<bi_nlinks b. if is_in ?b i then lamt ?b i else 0) = inputs_of b"
    "(\<Sum>i<bi_nlinks b. if is_in ?b i then 0 else lamt ?b i) = outputs_of b"
    unfolding inputs_of_def outputs_of_def using old by (intro sum.cong; simp)+
  then show "inputs_of ?b = inputs_of b + (if inp then unat a else 0)"
    "outputs_of ?b = outputs_of b + (if inp then 0 else unat a)"
    using new unfolding inputs_of_def [of ?b] outputs_of_def [of ?b] f(1) sum.lessThan_Suc by (simp_all only: if_True if_False simp_thms split: if_split)
qed

lemma links_inv_enter:
  assumes inv: "links_inv st t fee acc" and n: "bi_nlinks (la_tmp acc) < MAX_LINKS"
    and p: "p < length (heap st)" "bi_time (cell st p) < t"
    and s: "psum = (if inp then la_sum_in acc else la_sum_out acc)" "\<not> psum + a < psum"
    and acc': "acc' = (if inp then acc\<lparr>la_sum_in := psum + a\<rparr> else acc\<lparr>la_sum_out := psum + a\<rparr>)"
  shows "links_inv st t fee (acc'\<lparr>la_tmp := enter_link inp a p d (la_tmp acc')\<rparr>)"
proof -
  define b where "b = la_tmp acc"
  have tmp: "la_tmp acc' = b" using acc' by (simp add: b_def)
  note I = inv [unfolded links_inv_def Let_def, folded b_def]
  have nb: "bi_nlinks b < MAX_LINKS" using n by (simp add: b_def)
  note f = enter_link_fields [OF nb, of inp a p d]
  have sums: "inputs_of (enter_link inp a p d b) = inputs_of b + (if inp then unat a else 0)"
    "outputs_of (enter_link inp a p d b) = outputs_of b + (if inp then 0 else unat a)"
    using enter_link_sums [OF nb] I by blast+
  have u: "unat (psum + a) = unat psum + unat a" using s(2) by (rule unat_add_no_overflow)
  have sum: "unat (la_sum_in acc') = inputs_of (enter_link inp a p d b)"
    "unat (la_sum_out acc') = unat fee + outputs_of (enter_link inp a p d b)"
    using I s(1) u by (auto simp: acc' sums)
  have links: "\<exists>q < length (heap st). bi_link (enter_link inp a p d b) ! j = Some q \<and> bi_time (cell st q) < t"
    if "j < Suc (bi_nlinks b)" for j
    using that I p nb by (cases "j = bi_nlinks b") (auto simp: f(2))
  have max: "bi_max_diff_link (enter_link inp a p d b) < Suc (bi_nlinks b) \<or> bi_max_diff_link (enter_link inp a p d b) = 0"
    using f(8) I by auto
  have mask: "is_in (enter_link inp a p d b) j \<longrightarrow> j < Suc (bi_nlinks b)" for j
    using f(4) [of j] I by (auto simp: less_Suc_eq)
  show ?thesis
    using I nb links max mask sum by (simp add: links_inv_def Let_def tmp f(1-3,5,6))
qed

lemma input_check_inv:
  assumes "links_inv st t fee acc" "input_check env c keys inp a p acc st = (res, acc1)"
  shows "links_inv st t fee acc1" "la_tmp acc1 = la_tmp acc"
  using assms by (auto simp: input_check_def split: if_splits prod.splits)

lemma link_difficulty_total:
  assumes "wf_dag st" "p < length (heap st)"
  shows "\<exists>d. link_difficulty diff0 t p st = Some d"
  using skip_epoch_total [OF assms(1) walk_fuel_chain, of "Some p" t] assms(2)
  by (auto simp: link_difficulty_def in_heap_def Let_def)

lemma add_link_inv:
  assumes "wf_dag st" "links_inv st t fee acc" "bi_nlinks (la_tmp acc) < MAX_LINKS"
    and "p < length (heap st)" "bi_time (cell st p) < t"
  shows "\<exists>s. add_link env c keys inmask b diff0 (i, p) acc st = Some s \<and>
    (\<forall>acc'. s = Inr acc' \<longrightarrow> links_inv st t fee acc' \<and> bi_nlinks (la_tmp acc') = Suc (bi_nlinks (la_tmp acc)) \<and>
       bi_hash (la_tmp acc') = bi_hash (la_tmp acc)) \<and>
    (\<forall>err j. s = Inl (err, j) \<longrightarrow> err \<in> {8, 9, 0xA} \<and> j = i)"
proof -
  define inp a where "inp = bit inmask i" and "a = f_amount (b ! i)"
  obtain res acc1 where ic: "input_check env c keys inp a p acc st = (res, acc1)" by fastforce
  note i = input_check_inv [OF assms(2) ic]
  have res: "res \<in> {0, 8, 9}"
    using ic by (auto simp: input_check_def check_signature_out_cached_def check_signature_out_def
        find_and_verify_signature_out_def split: if_splits option.splits)
  define psum where "psum = (if inp then la_sum_in acc1 else la_sum_out acc1)"
  obtain d where d: "link_difficulty diff0 (bi_time (la_tmp acc1)) p st = Some d"
    using link_difficulty_total [OF assms(1,4)] by blast
  define acc2 where "acc2 = (if inp then acc1\<lparr>la_sum_in := psum + a\<rparr> else acc1\<lparr>la_sum_out := psum + a\<rparr>)"
  have eq: "add_link env c keys inmask b diff0 (i, p) acc st =
      (if res \<noteq> 0 then Some (Inl (res, i)) else if psum + a < psum then Some (Inl (0xA, i))
       else Some (Inr (acc2\<lparr>la_tmp := enter_link inp a p d (la_tmp acc2)\<rparr>)))"
    using ic d unfolding add_link_def inp_def a_def psum_def acc2_def by (simp add: Let_def)
  have ok: "links_inv st t fee (acc2\<lparr>la_tmp := enter_link inp a p d (la_tmp acc2)\<rparr>)" if "\<not> psum + a < psum"
    by (rule links_inv_enter [OF i(1) _ assms(4,5) psum_def that acc2_def]) (simp add: i(2) assms(3))
  have "la_tmp acc2 = la_tmp acc" by (simp add: acc2_def i(2))
  then show ?thesis using ok res enter_link_fields(1,7) [OF assms(3), of inp a p d] by (auto simp: eq)
qed

lemma add_links_inv:
  "wf_dag st \<Longrightarrow> links_inv st t fee acc \<Longrightarrow> bi_nlinks (la_tmp acc) + length rs \<le> MAX_LINKS \<Longrightarrow>
   \<forall>(i, p) \<in> set rs. p < length (heap st) \<and> bi_time (cell st p) < t \<Longrightarrow>
   \<exists>s. add_links env c keys inmask b diff0 rs acc st = Some s \<and>
     (\<forall>acc'. s = Inr acc' \<longrightarrow> links_inv st t fee acc' \<and> bi_nlinks (la_tmp acc') = bi_nlinks (la_tmp acc) + length rs \<and>
        bi_hash (la_tmp acc') = bi_hash (la_tmp acc)) \<and>
     (\<forall>err j. s = Inl (err, j) \<longrightarrow> err \<in> {8, 9, 0xA} \<and> j \<in> fst ` set rs)"
proof (induction rs arbitrary: acc)
  case (Cons r rs)
  obtain i p where r: "r = (i, p)" by fastforce
  have p: "p < length (heap st)" "bi_time (cell st p) < t" using Cons.prems(4) r by auto
  have n: "bi_nlinks (la_tmp acc) < MAX_LINKS" using Cons.prems(3) by simp
  obtain s where s: "add_link env c keys inmask b diff0 (i, p) acc st = Some s"
    "\<And>acc'. s = Inr acc' \<Longrightarrow> links_inv st t fee acc' \<and> bi_nlinks (la_tmp acc') = Suc (bi_nlinks (la_tmp acc)) \<and>
       bi_hash (la_tmp acc') = bi_hash (la_tmp acc)"
    "\<And>err j. s = Inl (err, j) \<Longrightarrow> err \<in> {8, 9, 0xA} \<and> j = i"
    using add_link_inv [OF Cons.prems(1,2) n p] by blast
  show ?case
  proof (cases s)
    case (Inl e)
    then show ?thesis using s(1,3) r by (cases e) auto
  next
    case (Inr acc')
    note a = s(2) [OF Inr]
    obtain s' where s': "add_links env c keys inmask b diff0 rs acc' st = Some s'"
      "\<And>acc''. s' = Inr acc'' \<Longrightarrow> links_inv st t fee acc'' \<and> bi_nlinks (la_tmp acc'') = bi_nlinks (la_tmp acc') + length rs \<and>
        bi_hash (la_tmp acc'') = bi_hash (la_tmp acc')"
      "\<And>err j. s' = Inl (err, j) \<Longrightarrow> err \<in> {8, 9, 0xA} \<and> j \<in> fst ` set rs"
      using Cons.IH [of acc'] Cons.prems a by auto
    have "add_links env c keys inmask b diff0 (r # rs) acc st = Some s'" using s(1) s'(1) Inr r by simp
    moreover have "links_inv st t fee acc'' \<and> bi_nlinks (la_tmp acc'') = bi_nlinks (la_tmp acc) + length (r # rs) \<and>
        bi_hash (la_tmp acc'') = bi_hash (la_tmp acc)" if "s' = Inr acc''" for acc''
      using s'(2) [OF that] a by simp
    moreover have "err \<in> {8, 9, 0xA} \<and> j \<in> fst ` set (r # rs)" if "s' = Inl (err, j)" for err j
      using s'(3) [OF that] by simp
    ultimately show ?thesis by blast
  qed
qed (simp add: links_inv_def)

lemma resolve_links_found:
  "resolve_links b t msk n is st = Inr rs \<Longrightarrow> length rs \<le> length is \<and>
   (\<forall>(i, p) \<in> set rs. i \<in> set is \<and> bit msk i \<and> block_by_hash (f_hash (b ! i)) st = Some p \<and> bi_time (cell st p) < t)"
proof (induction "is" arbitrary: rs)
  case (Cons i "is")
  show ?case
  proof (cases "bit msk i")
    case True
    then obtain p rs' where "block_by_hash (f_hash (b ! i)) st = Some p" "bi_time (cell st p) < t"
        "resolve_links b t msk n is st = Inr rs'" "rs = (i, p) # rs'"
      using Cons.prems by (auto split: if_splits option.splits sum.splits simp: not_le)
    then show ?thesis using Cons.IH [of rs'] True by auto
  next
    case False
    then show ?thesis using Cons by auto
  qed
qed simp

lemma resolve_links_error:
  "n < MAX_LINKS \<Longrightarrow> resolve_links b t msk n is st = Inl (err, i) \<Longrightarrow>
   err \<in> {5, 6} \<and> i \<in> set is \<and> (err = 5 \<longrightarrow> block_by_hash (f_hash (b ! i)) st = None)"
  by (induction "is") (auto split: if_splits option.splits sum.splits)

section \<open>The invariant\<close>

text \<open>
  Links point to older blocks, the index is a valid tree whose entries name the
  cell with that hash, the tops are cells, and every cell is balanced.
\<close>

definition index_sound :: "xdag_state \<Rightarrow> bool" where
  "index_sound st \<longleftrightarrow> tree_valid ix_hash (root st) \<and>
     (\<forall>h p. block_by_hash h st = Some p \<longrightarrow> p < length (heap st) \<and> hashlow (bi_hash (cell st p)) = h)"

definition block_inv :: "xdag_state \<Rightarrow> bool" where
  "block_inv st \<longleftrightarrow> wf_dag st \<and> index_sound st \<and> in_heap st (top_main_chain st) \<and> in_heap st (pretop_main_chain st) \<and>
     (\<forall>p < length (heap st). cell_balanced (cell st p))"

text \<open>A step that changes no links, no hashes and no index entry.\<close>

definition structural :: "xdag_state \<Rightarrow> xdag_state \<Rightarrow> bool" where
  "structural st st' \<longleftrightarrow> same_dag st st' \<and> root st' = root st \<and>
     in_heap st (top_main_chain st') \<and> in_heap st (pretop_main_chain st')"

lemma structural_inv:
  assumes "block_inv st" "structural st st'"
  shows "block_inv st'"
proof -
  have d: "same_dag st st'" "root st' = root st" using assms(2) by (simp_all add: structural_def)
  have len: "length (heap st') = length (heap st)" by (rule same_dag_length [OF d(1)])
  have cell: "static (cell st' p) = static (cell st p)" if "p < length (heap st)" for p
    by (rule same_dag_static [OF d(1) that])
  have by_hash: "block_by_hash h st' = block_by_hash h st" for h using d(2) by (simp add: block_by_hash_def)
  have "index_sound st'"
    using assms(1) static_eqD(1) [OF cell] unfolding block_inv_def index_sound_def by_hash len d(2) by metis
  moreover have "\<forall>p < length (heap st'). cell_balanced (cell st' p)"
    using assms(1) cell_balanced_static [OF cell] unfolding block_inv_def len by blast
  ultimately show ?thesis
    using assms wf_dag_same [OF d(1)] by (simp add: block_inv_def structural_def in_heap_def len)
qed

lemma structural_trans: "structural st st' \<Longrightarrow> structural st' st'' \<Longrightarrow> structural st st''"
  using same_dag_length by (auto simp: structural_def in_heap_def intro: same_dag_trans)

lemma structural_keeps:
  "keeps st st' \<Longrightarrow> in_heap st (top_main_chain st) \<Longrightarrow> in_heap st (pretop_main_chain st) \<Longrightarrow> structural st st'"
  using keepsD by (simp add: structural_def)

lemma block_invD:
  assumes "block_inv st"
  shows "wf_dag st" "in_heap st (top_main_chain st)" "in_heap st (pretop_main_chain st)" "index_sound st"
  using assms by (simp_all add: block_inv_def)

section \<open>Entering the cell\<close>

lemma new_cell_wf:
  assumes "wf_dag st" "links_inv st t fee acc" "static b = static ((la_tmp acc)\<lparr>bi_storage_pos := x\<rparr>)"
  shows "wf_dag (st\<lparr>heap := heap st @ [b]\<rparr>)"
  unfolding wf_dag_def
proof (intro allI impI)
  let ?st = "st\<lparr>heap := heap st @ [b]\<rparr>"
  note I = assms(2) [unfolded links_inv_def Let_def]
  have b: "bi_link b = bi_link (la_tmp acc)" "bi_linkamount b = bi_linkamount (la_tmp acc)" "bi_nlinks b = bi_nlinks (la_tmp acc)"
    "bi_max_diff_link b = bi_max_diff_link (la_tmp acc)" "bi_time b = t"
    using assms(3) I by (simp_all add: static_def)
  have old: "cell ?st q = cell st q" if "q < length (heap st)" for q using that by (simp add: nth_append)
  fix p assume p: "p < length (heap ?st)"
  show "wf_links ?st p"
  proof (cases "p < length (heap st)")
    case True
    then have "wf_links st p" using assms(1) by (simp add: wf_dag_def)
    have ex: "\<exists>q < length (heap ?st). bi_link (cell st p) ! i = Some q \<and> bi_time (cell ?st q) < bi_time (cell st p)"
      if i: "i < bi_nlinks (cell st p)" for i
      using wf_link(1-3) [OF assms(1) True i] old [of "link_of st p i"] by (intro exI [of _ "link_of st p i"]) simp
    have up: "q < length (heap ?st) \<and> bi_time (cell ?st q) < bi_time (cell st p)" if "max_diff_parent (cell st p) = Some q" for q
      using wf_parent [OF assms(1) True that] old [of q] by simp
    show ?thesis using \<open>wf_links st p\<close> ex up unfolding wf_links_def Let_def old [OF True] by blast
  next
    case False
    then have new: "cell ?st p = b" using p by (simp add: nth_append)
    have parent: "q < length (heap st) \<and> bi_time (cell st q) < t" if "max_diff_parent b = Some q" for q
    proof (cases "bi_max_diff_link b < bi_nlinks b")
      case True
      then show ?thesis using I that by (auto simp: max_diff_parent_def b)
    next
      case False
      then have "bi_max_diff_link b = 0" "bi_nlinks b = 0" using I b by auto
      then have "max_diff_parent b = None" using I b by (simp add: max_diff_parent_def MAX_LINKS_def)
      then show ?thesis using that by simp
    qed
    have links: "\<exists>q < length (heap ?st). bi_link b ! i = Some q \<and> bi_time (cell ?st q) < bi_time b" if "i < bi_nlinks b" for i
    proof -
      obtain q where "q < length (heap st)" "bi_link b ! i = Some q" "bi_time (cell st q) < t"
        using I \<open>i < bi_nlinks b\<close> unfolding b by blast
      then show ?thesis using old [of q] b(5) by (intro exI [of _ q]) simp
    qed
    have "bi_max_diff_link b < MAX_LINKS" using I b by (auto simp: MAX_LINKS_def)
    then show ?thesis
      unfolding wf_links_def Let_def new using I b links parent old by (simp add: less_SucI)
  qed
qed

lemma balanced_cell:
  assumes "links_inv st t fee acc" "balanced acc fee"
  shows "cell_balanced ((la_tmp acc)\<lparr>bi_storage_pos := x\<rparr>)"
proof -
  let ?b = "la_tmp acc"
  have s: "unat (la_sum_in acc) = inputs_of ?b" "unat (la_sum_out acc) = unat fee + outputs_of ?b" "bi_fee ?b = fee"
    using assms(1) by (simp_all add: links_inv_def Let_def)
  have b: "inputs_of ?b < 2 ^ 64" "unat fee + outputs_of ?b < 2 ^ 64"
    using unsigned_less [of "la_sum_in acc", where ?'a = nat] unsigned_less [of "la_sum_out acc", where ?'a = nat] s by simp_all
  have "inputs_of (?b\<lparr>bi_storage_pos := x\<rparr>) = inputs_of ?b" "outputs_of (?b\<lparr>bi_storage_pos := x\<rparr>) = outputs_of ?b"
    by (simp_all add: inputs_of_def outputs_of_def cong: if_cong)
  moreover have "if bi_in_mask ?b \<noteq> 0 then unat fee + outputs_of ?b \<le> inputs_of ?b else outputs_of ?b = 0"
    using assms(2) s by (auto simp: balanced_def word_less_nat_alt word_unat_eq_iff split: if_splits)
  ultimately show ?thesis using b s(3) by (simp add: cell_balanced_def)
qed

lemma append_cell_inv:
  assumes "block_inv st" "links_inv st t fee acc" "balanced acc fee" "b = (la_tmp acc)\<lparr>bi_storage_pos := x\<rparr>"
  shows "block_inv (st\<lparr>heap := heap st @ [b]\<rparr>)"
proof -
  let ?st = "st\<lparr>heap := heap st @ [b]\<rparr>"
  have "index_sound ?st"
    unfolding index_sound_def
  proof (intro conjI allI impI)
    fix h p assume "block_by_hash h ?st = Some p"
    then have "block_by_hash h st = Some p" by (simp add: block_by_hash_def)
    then have "p < length (heap st) \<and> hashlow (bi_hash (cell st p)) = h"
      using block_invD(4) [OF assms(1)] unfolding index_sound_def by blast
    then show "p < length (heap ?st)" "hashlow (bi_hash (cell ?st p)) = h" by (simp_all add: nth_append)
  qed (use block_invD(4) [OF assms(1)] in \<open>simp add: index_sound_def\<close>)
  moreover have "\<forall>p < length (heap ?st). cell_balanced (cell ?st p)"
    using assms(1) balanced_cell [OF assms(2,3)] by (auto simp: block_inv_def nth_append assms(4) less_Suc_eq)
  moreover have "wf_dag ?st" using new_cell_wf [OF block_invD(1) [OF assms(1)] assms(2)] assms(4) by blast
  ultimately show ?thesis using assms(1) by (auto simp: block_inv_def in_heap_def)
qed

lemma insert_index_inv:
  assumes "block_inv st" "p < length (heap st)" "block_by_hash (hashlow (bi_hash (cell st p))) st = None"
  shows "block_inv (fst (insert_index True p st))"
    "block_by_hash h (fst (insert_index True p st)) =
       (if h = hashlow (bi_hash (cell st p)) then Some p else block_by_hash h st)"
proof -
  let ?n = "\<lparr>ix_hash = bi_hash (cell st p), ix_bi = p\<rparr>"
  have v: "tree_valid ix_hash (root st)" using block_invD(4) [OF assms(1)] by (simp add: index_sound_def)
  have fresh: "index_find (root st) (hashlow (ix_hash ?n)) = None" using assms(3) by (simp add: block_by_hash_def)
  have find: "block_by_hash h (fst (insert_index True p st)) =
      (if h = hashlow (bi_hash (cell st p)) then Some p else block_by_hash h st)" for h
    using bix.find_ins [OF v fresh] by (simp add: block_by_hash_def insert_index_def)
  then show "block_by_hash h (fst (insert_index True p st)) =
      (if h = hashlow (bi_hash (cell st p)) then Some p else block_by_hash h st)" .
  have "index_sound (fst (insert_index True p st))"
    using block_invD(4) [OF assms(1)] assms(2) tree_valid_ops(1) [OF v] unfolding index_sound_def find
    by (auto simp: insert_index_def)
  then show "block_inv (fst (insert_index True p st))"
    using assms(1) by (simp add: block_inv_def insert_index_def in_heap_def wf_dag_def wf_links_def)
qed

lemma structural_pretop:
  assumes "in_heap st (top_main_chain st)" "in_heap st (pretop_main_chain st)" "in_heap st b"
  shows "structural st (set_pretop ts b st)"
  using assms by (auto simp: structural_def set_pretop_def in_heap_def same_dag_def split: option.splits)

lemma structural_count:
  assumes "in_heap st (top_main_chain st)" "in_heap st (pretop_main_chain st)"
  shows "structural st (count_block st)"
  using assms by (simp add: structural_def count_block_def upd_stats_def in_heap_def same_dag_def)

lemma structural_reorganise:
  assumes "block_inv st" "p < length (heap st)"
  shows "\<exists>st'. reorganise p d st = Some st' \<and> structural st st'"
proof -
  note inv = block_invD [OF assms(1)]
  obtain st' where "reorganise p d st = Some st'" "same_dag st st'" "root st' = root st"
    "top_main_chain st' = Some p" "pretop_main_chain st' = pretop_main_chain st"
    using reorganise_total [OF inv(1,2) assms(2)] by blast
  then show ?thesis using inv(3) assms(2) by (auto simp: structural_def in_heap_def)
qed

text \<open>The steps after the cell is in the graph: all of them end and none touches the structure.\<close>

lemma finish_block_total:
  assumes inv: "block_inv st3" and p: "p < length (heap st3)"
    and tmp: "static (cell st3 p) = static tmp"
  shows "\<exists>res st'. finish_block env b diff0 fr p tmp st3 c = Some (res, st', c, fr) \<and> res \<in> {0, 1} \<and> structural st3 st'"
proof -
  define st4 where "st4 = set_pretop (env_timestamp env) (Some p) (count_block st3)"
  define st5 where "st5 = set_pretop (env_timestamp env) (top_main_chain st4) st4"
  define better where "better \<longleftrightarrow> bi_difficulty tmp > difficulty (g_xdag_stats st5)"
  have c: "structural st3 (count_block st3)" by (rule structural_count [OF block_invD(2,3) [OF inv]])
  note ic = structural_inv [OF inv c]
  have len: "length (heap st') = length (heap st3)" if "structural st3 st'" for st'
    using that same_dag_length by (auto simp: structural_def)
  have "structural (count_block st3) st4"
    unfolding st4_def by (rule structural_pretop [OF block_invD(2,3) [OF ic]]) (simp add: in_heap_def len [OF c] p)
  then have s4: "structural st3 st4" by (rule structural_trans [OF c])
  note i4 = structural_inv [OF inv s4]
  have "structural st4 st5" unfolding st5_def by (rule structural_pretop [OF block_invD(2,3,2) [OF i4]])
  then have s5: "structural st3 st5" by (rule structural_trans [OF s4])
  note i5 = structural_inv [OF inv s5]
  obtain st6 where 6: "(if better then reorganise p (bi_difficulty tmp) st5 else Some st5) = Some st6" "structural st3 st6"
    using structural_reorganise [OF i5, of p "bi_difficulty tmp"] len [OF s5] p structural_trans [OF s5] s5
    by (cases better) auto
  define st7 where "st7 = (if bi_flags tmp AND BI_OURS \<noteq> 0 then add_ourblock p st6 else st6)"
  have "structural st6 st7"
    using block_invD(2,3) [OF structural_inv [OF inv 6(2)]] by (simp add: st7_def add_ourblock_def structural_def same_dag_def in_heap_def)
  then have s7: "structural st3 st7" by (rule structural_trans [OF 6(2)])
  note i7 = structural_inv [OF inv s7]
  have links: "\<forall>i < bi_nlinks tmp. the (bi_link tmp ! i) < length (heap st7)"
    using wf_link(1) [OF block_invD(1) [OF inv] p] static_eqD(6,8) [OF tmp] len [OF s7] by simp
  obtain st8 where 8: "link_orphans env p tmp st7 = Some st8" "keeps st7 st8"
    using link_orphans_total [OF block_invD(1) [OF i7] links] by blast
  define st9 where "st9 = add_orphan (env_malloc_orphan env) p b st8"
  let ?st' = "upd_extstats (update_hashrate (bi_time (cell st9 p)) (bi_flags tmp AND BI_OURS \<noteq> 0) diff0) st9"
  have "keeps st7 ?st'" using keeps_trans [OF 8(2) keeps_add_orphan] by (simp add: st9_def)
  then have "structural st3 ?st'"
    using structural_trans [OF s7 structural_keeps [OF _ block_invD(2,3) [OF i7]]] by blast
  then show ?thesis
    using 6(1) 8(1) unfolding finish_block_def st4_def [symmetric] st5_def [symmetric] better_def [symmetric] Let_def st7_def [symmetric]
      st9_def [symmetric] by (simp add: st7_def [symmetric] st9_def [symmetric])
qed

text \<open>What a stored block leaves: the cell at the end of the heap, found under its hash.\<close>

definition stored :: "xdag_state \<Rightarrow> block_internal \<Rightarrow> xdag_state \<Rightarrow> bool" where
  "stored st tmp st' \<longleftrightarrow> block_inv st' \<and> length (heap st') = Suc (length (heap st)) \<and>
     bi_link (cell st' (length (heap st))) = bi_link tmp \<and> bi_linkamount (cell st' (length (heap st))) = bi_linkamount tmp \<and>
     (\<forall>h. block_by_hash h st' = (if h = hashlow (bi_hash tmp) then Some (length (heap st)) else block_by_hash h st))"

definition unchanged_cells :: "xdag_state \<Rightarrow> xdag_state \<Rightarrow> bool" where
  "unchanged_cells st st' \<longleftrightarrow> length (heap st) \<le> length (heap st') \<and>
     (\<forall>q < length (heap st). static (cell st' q) = static (cell st q))"

lemma unchanged_structural: "structural st st' \<Longrightarrow> unchanged_cells st st'"
  using same_dag_length same_dag_static by (auto simp: structural_def unchanged_cells_def)

lemma unchanged_trans: "unchanged_cells st st' \<Longrightarrow> unchanged_cells st' st'' \<Longrightarrow> unchanged_cells st st''"
  by (auto simp: unchanged_cells_def)

lemma store_block_inv:
  assumes inv: "block_inv st" and links: "links_inv st t fee acc" "balanced acc fee"
    and fresh: "block_by_hash (hashlow (bi_hash (la_tmp acc))) st = None"
    and room: "\<not> nextra (g_xdag_extstats st) > MAX_ALLOWED_EXTRA"
  shows "\<exists>res st' c' freed'. store_block env th b sg diff0 keys freed (la_tmp acc) st c = Some (res, st', c', freed') \<and>
    block_inv st' \<and> unchanged_cells st st' \<and>
    (res \<in> {0, 1} \<and> stored st (la_tmp acc) st' \<or> (root st' = root st \<and> (\<exists>err \<in> {0xC, 0xD}. res = - int (err + 16 * 16))))"
proof (cases "env_malloc_block env")
  case False
  then show ?thesis
    using room inv by (simp add: store_block_def alloc_block_def add_fail_def unchanged_cells_def XDAG_BLOCK_FIELDS_def)
next
  case True
  define p where "p = length (heap st)"
  define tmp where "tmp = (la_tmp acc)\<lparr>bi_storage_pos := storage_pos_of env th b (bi_flags (la_tmp acc))\<rparr>"
  define st2 where "st2 = st\<lparr>heap := heap st @ [tmp]\<rparr>"
  have alloc: "alloc_block env st = Some (Some p, st\<lparr>heap := heap st @ [tmp_block (0, 0, 0, 0) 0 0 0 0 0]\<rparr>)"
    using True room by (simp add: alloc_block_def p_def)
  have upd: "upd_cell p (\<lambda>_. tmp) (st\<lparr>heap := heap st @ [tmp_block (0, 0, 0, 0) 0 0 0 0 0]\<rparr>) = st2"
    by (simp add: upd_cell_def st2_def p_def)
  have i2: "block_inv st2" unfolding st2_def by (rule append_cell_inv [OF inv links tmp_def])
  have c2: "cell st2 p = tmp" "p < length (heap st2)" by (simp_all add: st2_def p_def)
  have u2: "unchanged_cells st st2" by (simp add: unchanged_cells_def st2_def nth_append)
  show ?thesis
  proof (cases "env_malloc_index env")
    case False
    then have "store_block env th b sg diff0 keys freed (la_tmp acc) st c =
        add_fail 0xD XDAG_BLOCK_FIELDS keys freed st2 (if sg then cache_add (env_malloc_cache env) b (bi_hash (la_tmp acc)) c else c)"
      using alloc upd unfolding store_block_def tmp_def [symmetric] by (simp add: insert_index_def Let_def tmp_def)
    then show ?thesis using i2 u2 by (simp add: add_fail_def XDAG_BLOCK_FIELDS_def st2_def)
  next
    case True
    define st3 where "st3 = fst (insert_index True p st2)"
    have free: "block_by_hash (hashlow (bi_hash (cell st2 p))) st2 = None"
      using fresh unfolding c2(1) by (simp add: tmp_def block_by_hash_def st2_def)
    note i3 = insert_index_inv [OF i2 c2(2) free]
    have h3: "heap st3 = heap st2" by (simp add: st3_def insert_index_def)
    have ins: "insert_index (env_malloc_index env) p st2 = (st3, 0)"
      using True by (simp add: st3_def insert_index_def)
    have inv3: "block_inv st3" using i3(1) by (simp add: st3_def)
    define c1 where "c1 = (if sg then cache_add (env_malloc_cache env) b (bi_hash (la_tmp acc)) c else c)"
    have "store_block env th b sg diff0 keys freed (la_tmp acc) st c =
        finish_block env b diff0 (freed @ map pk_key keys) p tmp st3 c1"
      unfolding store_block_def alloc using ins upd by (simp add: tmp_def [symmetric] c1_def [symmetric] Let_def)
    moreover obtain res st' where "finish_block env b diff0 (freed @ map pk_key keys) p tmp st3 c1 =
        Some (res, st', c1, freed @ map pk_key keys)" "res \<in> {0, 1}" "structural st3 st'"
      using finish_block_total [OF inv3, of p tmp env b diff0 "freed @ map pk_key keys" c1] c2 h3 by auto
    ultimately have run: "store_block env th b sg diff0 keys freed (la_tmp acc) st c =
        Some (res, st', c1, freed @ map pk_key keys)" "res \<in> {0, 1}" "structural st3 st'" by simp_all
    have u3: "unchanged_cells st2 st3" by (simp add: unchanged_cells_def h3)
    have "block_by_hash h st' = (if h = hashlow (bi_hash (la_tmp acc)) then Some p else block_by_hash h st)" for h
    proof -
      have "block_by_hash h st' = block_by_hash h st3" using run(3) by (simp add: structural_def block_by_hash_def)
      also have "\<dots> = (if h = hashlow (bi_hash (cell st2 p)) then Some p else block_by_hash h st2)"
        using i3(2) [of h] by (simp add: st3_def)
      finally show ?thesis unfolding c2(1) by (simp add: tmp_def block_by_hash_def st2_def)
    qed
    moreover have "length (heap st') = Suc (length (heap st))" "static (cell st' p) = static (cell st3 p)"
      using run(3) same_dag_length same_dag_static c2(2) h3 by (auto simp: structural_def st2_def)
    ultimately have "stored st (la_tmp acc) st'"
      using structural_inv [OF inv3 run(3)] static_eqD(3,6) [of "cell st' p" "cell st3 p"] c2(1)
      by (simp add: stored_def p_def h3 tmp_def)
    then show ?thesis
      using run unchanged_trans [OF unchanged_trans [OF u2 u3] unchanged_structural [OF run(3)]] structural_inv [OF inv3 run(3)]
      by blast
  qed
qed

section \<open>The whole function\<close>

lemma rx_pre_hash_total: "hashable msg \<Longrightarrow> xdag_rx_pre_hash zero_ctx msg (length msg) \<noteq> None"
  using sha256_update_aligned [OF holds_message_init, of zero_ctx msg] sha256_final_correct [of _ msg]
  by (auto simp: xdag_rx_pre_hash_def hashable_def zero_ctx_def hash_of_bytes_def)

lemma block_difficulty_total:
  assumes "length b = 16"
  shows "\<exists>d. block_difficulty env b h t st = Some d"
proof -
  have "length (take 480 (block_bytes b)) = 480" using assms by (simp add: length_block_bytes)
  then show ?thesis
    using rx_pre_hash_total [of "take 480 (block_bytes b)"]
    by (auto simp: block_difficulty_def rx_hash_difficulty_def hashable_def)
qed

text \<open>The error codes that leave the state of the start (after \<open>check_new_main\<close> for the last four).\<close>

definition early_codes :: "nat set" where "early_codes = {1, 2, 3, 4, 5, 6, 0xE}"
definition late_codes :: "nat set" where "late_codes = {8, 9, 0xA, 0xB}"

lemma check_and_store_inv:
  assumes inv: "block_inv st" and b: "length b = 16"
    and refs: "\<forall>(i, p) \<in> set refs. i < 16 \<and> p < length (heap st) \<and> bi_time (cell st p) < f_time (b ! 0)"
      "length refs \<le> MAX_LINKS"
    and fresh: "block_by_hash (hashlow h) st = None"
    and room: "\<not> nextra (g_xdag_extstats st) > MAX_ALLOWED_EXTRA"
  shows "\<exists>res st' c' freed. check_and_store env th b h flags sc refs st c = Some (res, st', c', freed) \<and>
    block_inv st' \<and> unchanged_cells st st' \<and>
    (res \<in> {0, 1} \<and> (\<exists>tmp. bi_hash tmp = h \<and> stored st tmp st') \<or>
     (\<exists>err i. res = - int (err + 16 * i) \<and> i \<le> 16 \<and> (err \<in> late_codes \<and> st' = st \<or> err \<in> {0xC, 0xD} \<and> root st' = root st)))"
proof -
  define t fee where "t = f_time (b ! 0)" and "fee = f_amount (b ! 0)"
  obtain verified flags1 nkey where sf: "sign_fields env b sc flags = (verified, flags1, nkey)" by (rule prod_cases3)
  obtain keys freed where vk: "verified_keys verified (sc_keys sc) = (keys, freed)" by fastforce
  obtain diff0 where d: "block_difficulty env b h t st = Some diff0" using block_difficulty_total [OF b] by blast
  define flags2 where "flags2 = (if fee \<noteq> 0 then flags1 AND NOT BI_EXTRA else flags1)"
  define acc0 where "acc0 = \<lparr>la_tmp = tmp_block h t diff0 fee flags2 nkey, la_sum_in = 0, la_sum_out = fee, la_hit = 0, la_miss = 0\<rparr>"
  have i0: "links_inv st t fee acc0" unfolding acc0_def by (rule links_inv_start)
  have acc0: "bi_nlinks (la_tmp acc0) = 0" "bi_hash (la_tmp acc0) = h" by (simp_all add: acc0_def tmp_block_def)
  have refs': "\<forall>(i, p) \<in> set refs. p < length (heap st) \<and> bi_time (cell st p) < t" using refs(1) by (auto simp: t_def)
  obtain s where s: "add_links env c keys (sc_inmask sc) b diff0 refs acc0 st = Some s"
      "\<And>acc'. s = Inr acc' \<Longrightarrow> links_inv st t fee acc' \<and> bi_hash (la_tmp acc') = h"
      "\<And>err j. s = Inl (err, j) \<Longrightarrow> err \<in> {8, 9, 0xA} \<and> j \<in> fst ` set refs"
    using add_links_inv [OF block_invD(1) [OF inv] i0 _ refs', of env c keys "sc_inmask sc" b diff0] refs(2) acc0 by auto
  have run: "check_and_store env th b h flags sc refs st c =
      (case s of
         Inl (err, i) \<Rightarrow> add_fail err i keys freed st c
       | Inr acc \<Rightarrow>
           (let c1 = cache_retarget (env_hitrate_low env) (env_hitrate_high env) (env_rand_shrinks env) (la_hit acc) (la_miss acc) c
            in if \<not> balanced acc fee then add_fail 0xB XDAG_BLOCK_FIELDS keys freed st c1
               else store_block env th b (sc_signOutCount sc > 0) diff0 keys freed (la_tmp acc) st c1))"
    unfolding check_and_store_def t_def [symmetric] fee_def [symmetric]
    by (simp add: sf vk d flags2_def [symmetric] acc0_def [symmetric] s(1))
  have u: "unchanged_cells st st" by (simp add: unchanged_cells_def)
  show ?thesis
  proof (cases s)
    case (Inl e)
    obtain err j where e: "e = (err, j)" by fastforce
    have ej: "err \<in> late_codes \<and> j \<le> 16" using s(3) [of err j] Inl e refs(1) by (auto simp: late_codes_def)
    have "check_and_store env th b h flags sc refs st c = Some (- int (err + 16 * j), st, c, freed @ map pk_key keys)"
      using run Inl e by (simp add: add_fail_def)
    then show ?thesis using inv u ej by blast
  next
    case (Inr acc)
    define c1 where "c1 = cache_retarget (env_hitrate_low env) (env_hitrate_high env) (env_rand_shrinks env) (la_hit acc) (la_miss acc) c"
    note a = s(2) [OF Inr]
    show ?thesis
    proof (cases "balanced acc fee")
      case False
      then have "check_and_store env th b h flags sc refs st c = Some (- int (0xB + 16 * 16), st, c1, freed @ map pk_key keys)"
        using run Inr by (simp add: add_fail_def Let_def c1_def [symmetric] XDAG_BLOCK_FIELDS_def)
      moreover have "0xB \<in> late_codes \<and> (16 :: nat) \<le> 16" by (simp add: late_codes_def)
      ultimately show ?thesis using inv u by blast
    next
      case True
      then have "check_and_store env th b h flags sc refs st c =
          store_block env th b (sc_signOutCount sc > 0) diff0 keys freed (la_tmp acc) st c1"
        using run Inr by (simp add: Let_def c1_def [symmetric])
      moreover obtain res st' c' freed' where R:
        "store_block env th b (sc_signOutCount sc > 0) diff0 keys freed (la_tmp acc) st c1 = Some (res, st', c', freed')"
        "block_inv st'" "unchanged_cells st st'"
        "res \<in> {0, 1} \<and> stored st (la_tmp acc) st' \<or> root st' = root st \<and> (\<exists>err \<in> {0xC, 0xD}. res = - int (err + 16 * 16))"
        using store_block_inv [OF inv _ True _ room, of t env th b "sc_signOutCount sc > 0" diff0 keys freed c1] a fresh by auto
      moreover have "res \<in> {0, 1} \<and> (\<exists>tmp. bi_hash tmp = h \<and> stored st tmp st') \<or>
          (\<exists>err i. res = - int (err + 16 * i) \<and> i \<le> 16 \<and> (err \<in> late_codes \<and> st' = st \<or> err \<in> {0xC, 0xD} \<and> root st' = root st))"
        using R(4)
      proof
        assume "root st' = root st \<and> (\<exists>err \<in> {0xC, 0xD}. res = - int (err + 16 * 16))"
        then obtain err where "root st' = root st" "err \<in> {0xC, 0xD}" "res = - int (err + 16 * 16)" by blast
        then show ?thesis by (intro disjI2 exI [of _ err] exI [of _ 16]) simp
      qed (use a in blast)
      ultimately show ?thesis using R(2,3) by auto
    qed
  qed
qed

end
