(* ===== verification/Add_Block_Keys.thy ===== *)
theory Add_Block_Keys
  imports Add_Block
begin

text \<open>
  Two parts of adding a block that concern its memory: the compaction of the key
  array with the keys it frees, and the two link slots that the list of own
  blocks uses.
\<close>

section \<open>Keys\<close>

lemma compress_keys_take:
  assumes "sorted_wrt (<) is" "\<forall>i \<in> set is. j \<le> i \<and> i < length arr"
    and "compress_keys v is j arr freed = (j', arr', freed')"
  shows "take j' arr' = take j arr @ map ((!) arr) (filter (bit v) is)"
  using assms
proof (induction "is" arbitrary: j arr freed)
  case (Cons i "is")
  have i: "j \<le> i" "i < length arr" using Cons.prems(2) by auto
  have later: "\<forall>k \<in> set is. i < k \<and> k < length arr" using Cons.prems(1,2) by auto
  show ?case
  proof (cases "bit v i")
    case True
    let ?arr = "arr[j := arr ! i]"
    have "take j' arr' = take (Suc j) ?arr @ map ((!) ?arr) (filter (bit v) is)"
    proof (rule Cons.IH)
      show "\<forall>k \<in> set is. Suc j \<le> k \<and> k < length ?arr" using i later by fastforce
      show "compress_keys v is (Suc j) ?arr (if i \<noteq> j then freed @ [pk_key (arr ! j)] else freed) = (j', arr', freed')"
        using Cons.prems(3) True by simp
    qed (use Cons.prems(1) in simp)
    also have "take (Suc j) ?arr = take j arr @ [arr ! i]" using i by (simp add: take_Suc_conv_app_nth)
    also have "map ((!) ?arr) (filter (bit v) is) = map ((!) arr) (filter (bit v) is)"
      using i later by (auto simp: nth_list_update)
    finally show ?thesis using True by simp
  next
    case False
    then show ?thesis using Cons by auto
  qed
qed simp

text \<open>
  after the compaction the key array holds exactly the keys that verified
  some signature of the block, in their order.
\<close>

theorem verified_keys_filter:
  "fst (verified_keys v keys) = map ((!) keys) (filter (bit v) [0..<length keys])"
proof -
  obtain j arr freed where c: "compress_keys v [0..<length keys] 0 keys [] = (j, arr, freed)" by (rule prod_cases3)
  have "take j arr = take 0 keys @ map ((!) keys) (filter (bit v) [0..<length keys])"
    by (rule compress_keys_take [OF _ _ c]) (simp_all add: sorted_wrt_upt)
  then show ?thesis using c by (simp add: verified_keys_def)
qed

text \<open>
  The slot a key moves to has not been written before: slots are written in
  order, and the next one lies behind all written ones.  So the handles freed by
  the compaction are those of the original keys in the slots that change.
\<close>

lemma compress_keys_freed:
  assumes "sorted_wrt (<) is" "\<forall>i \<in> set is. j \<le> i \<and> i < length arr"
    and "compress_keys v is j arr freed = (j', arr', freed')"
  shows "freed' = freed @ map (\<lambda>k. pk_key (arr ! (j + k))) (filter (\<lambda>k. filter (bit v) is ! k \<noteq> j + k) [0..<length (filter (bit v) is)])"
  using assms
proof (induction "is" arbitrary: j arr freed)
  case (Cons i "is")
  have i: "j \<le> i" "i < length arr" using Cons.prems(2) by auto
  have later: "\<forall>k \<in> set is. i < k \<and> k < length arr" using Cons.prems(1,2) by auto
  show ?case
  proof (cases "bit v i")
    case True
    let ?arr = "arr[j := arr ! i]" and ?vs = "filter (bit v) is"
    have "freed' = (if i \<noteq> j then freed @ [pk_key (arr ! j)] else freed) @
        map (\<lambda>k. pk_key (?arr ! (Suc j + k))) (filter (\<lambda>k. ?vs ! k \<noteq> Suc j + k) [0..<length ?vs])"
    proof (rule Cons.IH)
      show "\<forall>k \<in> set is. Suc j \<le> k \<and> k < length ?arr" using i later by fastforce
      show "compress_keys v is (Suc j) ?arr (if i \<noteq> j then freed @ [pk_key (arr ! j)] else freed) = (j', arr', freed')"
        using Cons.prems(3) True by simp
    qed (use Cons.prems(1) in simp)
    moreover have "filter (\<lambda>k. (i # ?vs) ! k \<noteq> j + k) [0..<Suc (length ?vs)] =
        (if i \<noteq> j then [0] else []) @ map Suc (filter (\<lambda>k. ?vs ! k \<noteq> Suc j + k) [0..<length ?vs])"
      by (subst upt_conv_Cons) (simp_all add: filter_map comp_def map_Suc_upt [symmetric] del: upt_Suc)
    ultimately show ?thesis using True by simp
  next
    case False
    then show ?thesis using Cons by auto
  qed
qed simp

lemma verified_keys_result:
  defines "vs \<equiv> \<lambda>v keys. filter (bit v) [0..<length keys]"
  shows "verified_keys v keys =
    (map ((!) keys) (vs v keys), map (\<lambda>k. pk_key (keys ! k)) (filter (\<lambda>k. vs v keys ! k \<noteq> k) [0..<length (vs v keys)]))"
proof -
  obtain j arr freed where c: "compress_keys v [0..<length keys] 0 keys [] = (j, arr, freed)" by (rule prod_cases3)
  have "freed = [] @ map (\<lambda>k. pk_key (keys ! (0 + k))) (filter (\<lambda>k. filter (bit v) [0..<length keys] ! k \<noteq> 0 + k) [0..<length (filter (bit v) [0..<length keys])])"
    by (rule compress_keys_freed [OF _ _ c]) (simp_all add: sorted_wrt_upt)
  then show ?thesis using verified_keys_filter [of v keys] c by (simp add: verified_keys_def vs_def)
qed

text \<open>The k-th verified key stands at k exactly when all keys up to it verified.\<close>

lemma filter_upt_nth:
  assumes "k < length (filter P [0..<n])"
  shows "filter P [0..<n] ! k \<noteq> k \<longleftrightarrow> (\<exists>i \<le> k. \<not> P i)"
proof
  have s: "sorted_wrt (<) (filter P [0..<n])" by (simp add: sorted_wrt_filter)
  {
    assume "\<exists>i \<le> k. \<not> P i"
    then obtain i where i: "i \<le> k" "\<not> P i" by blast
    show "filter P [0..<n] ! k \<noteq> k"
    proof
      assume e: "filter P [0..<n] ! k = k"
      have "set (take (Suc k) (filter P [0..<n])) \<subseteq> {..k} - {i}"
      proof
        fix x assume "x \<in> set (take (Suc k) (filter P [0..<n]))"
        then obtain m where "m < Suc k" and x: "x = filter P [0..<n] ! m" using assms by (auto simp: in_set_conv_nth)
        then have m: "m \<le> k" by simp
        then have "x \<le> k" using sorted_wrt_nth_less [OF s, of m k] assms e x by (cases "m = k") auto
        moreover have "P x" using m x assms nth_mem [of m "filter P [0..<n]"] by auto
        ultimately show "x \<in> {..k} - {i}" using i by auto
      qed
      then have "card (set (take (Suc k) (filter P [0..<n]))) \<le> card ({..k} - {i})" by (intro card_mono) auto
      moreover have "card (set (take (Suc k) (filter P [0..<n]))) = Suc k" using assms by (subst distinct_card) auto
      ultimately show False using i by simp
    qed
  }
  assume ne: "filter P [0..<n] ! k \<noteq> k"
  show "\<exists>i \<le> k. \<not> P i"
  proof (rule ccontr)
    assume all: "\<not> (\<exists>i \<le> k. \<not> P i)"
    have kn: "Suc k \<le> n" using assms length_filter_le [of P "[0..<n]"] by simp
    then have "[0..<n] = [0..<Suc k] @ [Suc k..<n]" by (metis le_add_diff_inverse upt_add_eq_append zero_le)
    moreover have "filter P [0..<Suc k] = [0..<Suc k]" using all by (intro filter_True) auto
    ultimately show False using ne by (simp add: nth_append del: upt_Suc)
  qed
qed

text \<open>
  C34: the keys of a block after the compaction, and those freed with them.  The
  keys that verified a signature are kept in their order and freed at the end of
  \<open>add_block_nolock\<close>; the compaction frees the keys in the slots that it
  overwrites with another one.  So a key that verified is freed twice exactly
  when its number is below the number of verified keys and a key before it did
  not verify, and a key that did not verify is never freed exactly when its
  number is at least the number of verified keys.
\<close>

theorem verified_keys_freed:
  assumes "distinct (map pk_key keys)" "i < length keys" "verified_keys v keys = (kept, freed)"
  shows "kept = map ((!) keys) (filter (bit v) [0..<length keys]) \<and>
    count_list (freed @ map pk_key kept) (pk_key (keys ! i)) =
      (if bit v i then 1 else 0) + (if i < length kept \<and> (\<exists>k \<le> i. \<not> bit v k) then 1 else 0)"
proof -
  define vs where "vs = filter (bit v) [0..<length keys]"
  let ?key = "\<lambda>k. pk_key (keys ! k)"
  have k: "kept = map ((!) keys) vs" "freed = map ?key (filter (\<lambda>k. vs ! k \<noteq> k) [0..<length vs])"
    using assms(3) verified_keys_result [of v keys] by (simp_all add: vs_def)
  have vs: "distinct vs" "a \<in> set vs \<longleftrightarrow> a < length keys \<and> bit v a" "length vs \<le> length keys" for a
    using length_filter_le [of "bit v" "[0..<length keys]"] by (auto simp: vs_def)
  have inj: "?key a = ?key i \<longleftrightarrow> a = i" if "a < length keys" for a
    using assms(1,2) that nth_eq_iff_index_eq [of "map pk_key keys" a i] by simp
  have cnt: "count_list (map ?key xs) (?key i) = (if i \<in> set xs then 1 else 0)" if "distinct xs" "\<forall>a \<in> set xs. a < length keys" for xs
    using that by (induction xs) (auto simp: inj)
  have "map pk_key kept = map ?key vs" unfolding k(1) by simp
  then have "count_list (map pk_key kept) (?key i) = (if bit v i then 1 else 0)"
    using cnt [of vs] vs assms(2) by simp
  moreover have "count_list freed (?key i) = (if i < length vs \<and> vs ! i \<noteq> i then 1 else 0)"
    unfolding k(2) using cnt [of "filter (\<lambda>k. vs ! k \<noteq> k) [0..<length vs]"] vs(3) by simp
  moreover have "i < length vs \<and> vs ! i \<noteq> i \<longleftrightarrow> i < length kept \<and> (\<exists>k \<le> i. \<not> bit v k)"
    unfolding k(1) length_map vs_def using filter_upt_nth [of i "bit v" "length keys"] by blast
  ultimately have "count_list (freed @ map pk_key kept) (?key i) =
      (if bit v i then 1 else 0) + (if i < length kept \<and> (\<exists>k \<le> i. \<not> bit v k) then 1 else 0)"
    by (simp only: count_list_append add.commute)
  then show ?thesis using k(1) unfolding vs_def by blast
qed

text \<open>Three keys, of which the last two verified: the second is freed twice.\<close>

definition three_keys :: "xdag_public_key list" where
  "three_keys = map (\<lambda>k. \<lparr>pk_key = k, pk_pub = ((0, 0, 0, 0), False)\<rparr>) [1, 2, 3]"

theorem verified_keys_freed_witness:
  "\<exists>kept freed. verified_keys 6 three_keys = (kept, freed) \<and> length kept = 2 \<and> count_list (freed @ map pk_key kept) 2 = 2"
proof -
  obtain kept freed where r: "verified_keys 6 three_keys = (kept, freed)" by fastforce
  have u: "[0..<length three_keys] = [0, 1, 2]" by (simp add: upt_rec three_keys_def)
  have b: "\<not> bit (6 :: u32) 0" "bit (6 :: u32) 1" "bit (6 :: u32) 2" by (simp_all add: bit_simps)
  have d: "distinct (map pk_key three_keys)" "1 < length three_keys" "pk_key (three_keys ! 1) = 2" by (simp_all add: three_keys_def)
  note w = verified_keys_freed [OF d(1,2) r]
  have l: "length kept = 2" using w u b by simp
  have "\<exists>k \<le> 1. \<not> bit (6 :: u32) k" using b(1) by blast
  then have "count_list (freed @ map pk_key kept) 2 = 2" using conjunct2 [OF w] l b(2) unfolding d(3) by simp
  then show ?thesis using r l by blast
qed

section \<open>Own blocks\<close>

lemma scan_field_masks:
  assumes "scan_field env b i sc = Some sc'"
  shows "bit (links_mask sc') k \<Longrightarrow> bit (links_mask sc) k \<or> k = i \<and> field_type b i \<in> {XDAG_FIELD_IN, XDAG_FIELD_OUT}"
    "sc_signOutCount sc' = sc_signOutCount sc + (if field_type b i = XDAG_FIELD_SIGN_OUT then 1 else 0)"
    "bit (sc_signoutmask sc') k \<Longrightarrow> bit (sc_signoutmask sc) k \<or> k = i \<and> field_type b i = XDAG_FIELD_SIGN_OUT"
  using assms
  by (auto simp: scan_field_def scan_key_def Let_def links_mask_def bit_simps split: xdag_field_type.splits if_splits)

lemma scan_fields_masks:
  "scan_fields env b is sc = (None, sc') \<Longrightarrow>
   (bit (links_mask sc') k \<longrightarrow> bit (links_mask sc) k \<or> k \<in> set is \<and> field_type b k \<in> {XDAG_FIELD_IN, XDAG_FIELD_OUT}) \<and>
   (bit (sc_signoutmask sc') k \<longrightarrow> bit (sc_signoutmask sc) k \<or> k \<in> set is \<and> field_type b k = XDAG_FIELD_SIGN_OUT) \<and>
   sc_signOutCount sc' = sc_signOutCount sc + length (filter (\<lambda>i. field_type b i = XDAG_FIELD_SIGN_OUT) is)"
proof (induction "is" arbitrary: sc)
  case (Cons i "is")
  then obtain sc1 where s: "scan_field env b i sc = Some sc1" "scan_fields env b is sc1 = (None, sc')"
    by (auto split: option.splits)
  show ?case using Cons.IH [OF s(2)] scan_field_masks [OF s(1)] by auto
qed simp

lemma sign_fields_ours:
  assumes "\<not> bit flags 5" "sign_fields env b sc flags = (v, flags', n)" "bit flags' 5"
  shows "\<exists>i \<in> set field_numbers. bit (sc_signoutmask sc) i"
proof -
  have step: "bit (fst (snd (sign_field env b sc i (v, fl, n)))) 5 \<Longrightarrow> bit fl 5 \<or> bit (sc_signoutmask sc) i" for i v fl n
    by (auto simp: sign_field_def Let_def split: if_splits option.splits)
  have "bit (fst (snd (fold (sign_field env b sc) is (v, fl, n)))) 5 \<Longrightarrow> bit fl 5 \<or> (\<exists>i \<in> set is. bit (sc_signoutmask sc) i)"
    for "is" v fl n
  proof (induction "is" arbitrary: v fl n)
    case (Cons i "is")
    obtain v1 fl1 n1 where s: "sign_field env b sc i (v, fl, n) = (v1, fl1, n1)" by (rule prod_cases3)
    then have "bit fl1 5 \<or> (\<exists>i \<in> set is. bit (sc_signoutmask sc) i)" using Cons by simp
    then show ?case using step [of i v fl n] s by auto
  qed simp
  from this [of field_numbers 0 flags 0] show ?thesis using assms by (simp add: sign_fields_def)
qed

lemma resolve_links_length:
  "resolve_links b t msk n is st = Inr rs \<Longrightarrow> length rs = length (filter (bit msk) is)"
  by (induction "is" arbitrary: rs) (auto split: if_splits option.splits sum.splits)

lemma disjoint_filters: "(\<And>x. P x \<Longrightarrow> \<not> Q x) \<Longrightarrow> length (filter P xs) + length (filter Q xs) \<le> length xs"
  by (induction xs) (auto simp: le_Suc_eq)

text \<open>
  C35: a block of our own has at most 13 links.  It carries an output signature,
  hence two of its fifteen fields are no links, and the last two link slots are
  free for the pointers \<open>ourprev\<close> and \<open>ournext\<close> that share their memory.
\<close>

theorem own_block_link_slots:
  assumes "scan_block env b st = (None, sc)" "even (sc_signOutCount sc)"
    and "resolve_links b t (links_mask sc) 0 field_numbers st = Inr refs"
    and "sign_fields env b sc flags = (v, flags', n)" "\<not> bit flags 5" "bit flags' 5"
  shows "length refs \<le> MAX_LINKS - 2"
proof -
  let ?so = "\<lambda>i. field_type b i = XDAG_FIELD_SIGN_OUT"
  obtain sc0 where s: "scan_fields env b field_numbers empty_scan = (None, sc0)"
    "sc = (if is_wallet st then sc0\<lparr>sc_outmask := 0\<rparr> else sc0)"
    using assms(1) by (auto simp: scan_block_def split: prod.splits)
  note m = scan_fields_masks [OF s(1)]
  have link: "bit (links_mask sc) k \<Longrightarrow> \<not> ?so k" for k
    using m [of k] s(2) by (auto simp: links_mask_def empty_scan_def bit_simps split: if_splits)
  have cnt: "sc_signOutCount sc = length (filter ?so field_numbers)"
    using m s(2) by (simp add: empty_scan_def split: if_splits)
  obtain i where "i \<in> set field_numbers" "bit (sc_signoutmask sc) i" using sign_fields_ours assms(4-6) by blast
  then have "i \<in> set (filter ?so field_numbers)"
    using m [of i] s(2) by (auto simp: empty_scan_def split: if_splits)
  then have "sc_signOutCount sc \<noteq> 0" unfolding cnt by (metis length_0_conv empty_iff list.set(1))
  then have "2 \<le> sc_signOutCount sc" using assms(2) by presburger
  then have "2 \<le> length (filter ?so field_numbers)" unfolding cnt .
  moreover have "length refs + length (filter ?so field_numbers) \<le> 15"
    using disjoint_filters [of "bit (links_mask sc)" ?so field_numbers, OF link] resolve_links_length [OF assms(3)]
    by (simp add: field_numbers_def XDAG_BLOCK_FIELDS_def)
  ultimately show ?thesis by (simp add: MAX_LINKS_def)
qed

text \<open>A wallet that knows no block yet, an environment, and a block without links.\<close>

definition fresh_wallet :: xdag_state where
  "fresh_wallet = (example_state [] None 0)\<lparr>g_xdag_type := XDAG_WALLET\<rparr>"

definition plain_env :: add_env where
  "plain_env = \<lparr>env_timestamp = 0x17000000000, env_check_main = calm_env, env_public_to_key = (\<lambda>k p. True),
     env_verify = (\<lambda>k h r s. False), env_our_keys = [], env_storage_save = (\<lambda>b. 0), env_storage_load = (\<lambda>h t p. None),
     env_randomx = (\<lambda>s d. (0, 0, 0, 0)), env_malloc_block = True, env_malloc_index = True, env_malloc_orphan = True,
     env_malloc_backref = True, env_malloc_cache = True, env_hitrate_low = False, env_hitrate_high = False, env_rand_shrinks = False\<rparr>"

definition plain_block :: "u64 \<Rightarrow> xdag_block" where
  "plain_block types = (1, types, 0x16f00000000, 0) # replicate 15 (0, 0, 0, 0)"

definition signed_env :: add_env where
  "signed_env = plain_env\<lparr>env_our_keys := [\<lparr>pk_key = 0, pk_pub = ((1, 2, 3, 4), False)\<rparr>]\<rparr>"

text \<open>A block whose first two fields are an output signature.\<close>

lemma signed_block_types:
  "field_type (plain_block 0x551) 1 = XDAG_FIELD_SIGN_OUT" "field_type (plain_block 0x551) 2 = XDAG_FIELD_SIGN_OUT"
  "3 \<le> i \<Longrightarrow> i < 16 \<Longrightarrow> field_type (plain_block 0x551) i = XDAG_FIELD_NONCE"
proof -
  have t: "f_type (plain_block 0x551 ! 0) = 0x551" by (simp add: plain_block_def)
  show "field_type (plain_block 0x551) 1 = XDAG_FIELD_SIGN_OUT" "field_type (plain_block 0x551) 2 = XDAG_FIELD_SIGN_OUT"
    by (simp_all add: field_type_def xdag_type_def t field_types_def)
  have "list_all (\<lambda>i. field_type (plain_block 0x551) i = XDAG_FIELD_NONCE) [3..<16]"
    by (simp add: upt_rec field_type_def xdag_type_def t field_types_def)
  moreover assume "3 \<le> i" "i < 16"
  ultimately show "field_type (plain_block 0x551) i = XDAG_FIELD_NONCE"
    by (simp only: list_all_iff set_upt atLeastLessThan_iff)
qed

lemmas signed_types = signed_block_types signed_block_types(1,2) [unfolded One_nat_def numeral_2_eq_2]

lemma field_numbers_list: "field_numbers = [1, 2, 3, 4, 5, 6, 7, 8, 9, 10, 11, 12, 13, 14, 15]"
  by (simp add: field_numbers_def XDAG_BLOCK_FIELDS_def upt_rec)

lemma signed_block_scan:
  "scan_block signed_env (plain_block 0x551) fresh_wallet =
     (None, empty_scan\<lparr>sc_signoutmask := 2, sc_signOutCount := 2, sc_outmask := 0\<rparr>)"
  by (simp add: scan_block_def field_numbers_list scan_field_def signed_types empty_scan_def Let_def
      fresh_wallet_def is_wallet_def)

lemma signed_block_ours:
  "sign_fields signed_env (plain_block 0x551) (empty_scan\<lparr>sc_signoutmask := 2, sc_signOutCount := 2, sc_outmask := 0\<rparr>) 0 =
     (0, 0x20, 0)"
proof -
  have sg: "find_signo_s (plain_block 0x551) 1 = Some 2"
  proof -
    have "xdag_type (plain_block 0x551) 2 = xdag_type (plain_block 0x551) 1"
      by (simp add: xdag_type_def plain_block_def)
    moreover have "[Suc 1..<XDAG_BLOCK_FIELDS] = 2 # [3..<16]" by (simp add: XDAG_BLOCK_FIELDS_def upt_rec)
    ultimately show ?thesis unfolding find_signo_s_def by (simp add: is_sign_def signed_types)
  qed
  show ?thesis
    by (simp add: sign_fields_def field_numbers_list sign_field_def bit_simps empty_scan_def valid_signature_def sg
        sg [unfolded One_nat_def] signed_env_def plain_env_def BI_OURS_def Let_def)
qed

theorem own_block_link_slots_witness:
  "\<exists>refs. resolve_links (plain_block 0x551) 0 0 0 field_numbers fresh_wallet = Inr refs \<and> length refs \<le> MAX_LINKS - 2"
proof -
  let ?sc = "empty_scan\<lparr>sc_signoutmask := 2, sc_signOutCount := 2, sc_outmask := 0\<rparr>"
  have m: "links_mask ?sc = 0" by (simp add: links_mask_def empty_scan_def)
  have "resolve_links (plain_block 0x551) 0 (links_mask ?sc) 0 field_numbers fresh_wallet = Inr []"
    unfolding m by (simp add: field_numbers_list)
  with own_block_link_slots [OF signed_block_scan _ this signed_block_ours] show ?thesis
    unfolding m by (simp add: empty_scan_def bit_simps)
qed

end
