(* ===== verification/Add_Block_Properties.thy ===== *)
theory Add_Block_Properties
  imports Add_Block_Correct Add_Block_Keys
begin

text \<open>The properties of adding a block.\<close>

lemma check_new_main_extstats:
  assumes "wf_dag st" "in_heap st (top_main_chain st)" "check_new_main env st = Some st'"
  shows "g_xdag_extstats st' = g_xdag_extstats st"
proof -
  have set: "g_xdag_extstats u = g_xdag_extstats st" if m: "m < length (heap st)" and u: "set_main env m st = Some u" for m u
  proof -
    let ?v = "(rewarded m st)\<lparr>g_xdag_stats := counted (g_xdag_stats st)\<rparr>"
    have v: "keeps st ?v" by (simp add: keeps_rewarded)
    obtain st3 fee where a: "apply_block (chain_fuel st) m ?v = Some (st3, fee)"
      "rx_set_fork_time env m (upd_cell m (\<lambda>b. b\<lparr>bi_ref := Ref m\<rparr>) (accept_amount m fee st3)) = Some u"
      using u unfolding set_main_unfold by (auto simp: bind_eq_Some_conv)
    have "globals st3 = globals ?v"
      using glob.apply_block [of ?v m "globals ?v"] a(1) keeps_wf [OF v] keepsD(4) [OF v] assms(1) m by metis
    then show ?thesis using rx_set_fork_time_frame [OF a(2)] by (auto simp: globals_def rewarded_def)
  qed
  obtain cand i where f: "find_new_main (chain_fuel st) (top_main_chain st) None 0 st = Some (cand, i)"
    using assms(3) by (auto simp: check_new_main_def bind_eq_Some_conv)
  then have "in_heap st cand" using keeps_find_new_main [OF assms(1,2) _ f] by (simp add: in_heap_def)
  then show ?thesis
    using assms(3) f set by (auto simp: check_new_main_def in_heap_def split: option.splits if_splits)
qed

definition accepts_blocks :: "xdag_state \<Rightarrow> bool" where
  "accepts_blocks st \<longleftrightarrow> block_inv st \<and> nextra (g_xdag_extstats st) \<le> MAX_ALLOWED_EXTRA \<and>
     (is_pool st \<longrightarrow> chain_inv st \<and> rx_cfg st)"

definition block_hash :: "xdag_block \<Rightarrow> xdag_hash_t" where
  "block_hash b = hash_data (block_bytes (b[0 := f_set_transport_header 0 (b ! 0)]))"

text \<open>The state after the optional promotion of a main block.\<close>

lemma check_phase:
  assumes "accepts_blocks st"
  shows "\<exists>st1. (if is_pool st then check_new_main env st else Some st) = Some st1 \<and> structural st st1 \<and>
    \<not> nextra (g_xdag_extstats st1) > MAX_ALLOWED_EXTRA"
proof (cases "is_pool st")
  case True
  then obtain st1 where c: "check_new_main env st = Some st1"
    using assms check_new_main_runs [of st env] by (auto simp: accepts_blocks_def)
  have i: "wf_dag st" "in_heap st (top_main_chain st)" "in_heap st (pretop_main_chain st)"
    using assms block_invD by (auto simp: accepts_blocks_def)
  show ?thesis
    using c True structural_keeps [OF keeps_check_new_main [OF i(1,2) c] i(2,3)] check_new_main_extstats [OF i(1,2) c] assms
    by (auto simp: accepts_blocks_def not_less)
next
  case False
  then show ?thesis using assms block_invD [of st] by (auto simp: accepts_blocks_def structural_def not_less)
qed

lemma scan_fields_bounds:
  "scan_fields env b is sc = (bad, sc') \<Longrightarrow>
   (\<forall>i. bad = Some i \<longrightarrow> i \<in> set is) \<and> sc_signOutCount sc' \<le> sc_signOutCount sc + length is"
proof (induction "is" arbitrary: sc)
  case (Cons i "is")
  have step: "sc_signOutCount sc1 \<le> Suc (sc_signOutCount sc)" if "scan_field env b i sc = Some sc1" for sc1
    using that by (auto simp: scan_field_def scan_key_def Let_def split: xdag_field_type.splits)
  show ?case
  proof (cases "scan_field env b i sc")
    case (Some sc1)
    then show ?thesis using Cons step [OF Some] by fastforce
  qed (use Cons.prems in auto)
qed simp

lemma length_field_numbers [simp]: "length field_numbers = 15" "i \<in> set field_numbers \<longleftrightarrow> 1 \<le> i \<and> i < 16"
  by (auto simp: field_numbers_def XDAG_BLOCK_FIELDS_def)

lemma scan_block_bounds:
  assumes "scan_block env b st = (bad, sc)"
  shows "bad = Some i \<Longrightarrow> i \<le> 15" "sc_signOutCount sc \<le> 15"
proof -
  obtain sc0 where f: "scan_fields env b field_numbers empty_scan = (bad, sc0)"
    "sc = (if bad = None \<and> is_wallet st then sc0\<lparr>sc_outmask := 0\<rparr> else sc0)"
    using assms by (auto simp: scan_block_def split: prod.splits)
  have "(\<forall>i. bad = Some i \<longrightarrow> i \<in> set field_numbers) \<and> sc_signOutCount sc0 \<le> 15"
    using scan_fields_bounds [OF f(1)] by (simp add: empty_scan_def del: length_field_numbers(2))
  then show "bad = Some i \<Longrightarrow> i \<le> 15" "sc_signOutCount sc \<le> 15" using f(2) by auto
qed

lemma resolved_refs:
  assumes "block_inv st" "resolve_links b t msk 0 field_numbers st = Inr refs" "same_dag st st1"
  shows "\<forall>(i, p) \<in> set refs. i < 16 \<and> p < length (heap st1) \<and> bi_time (cell st1 p) < t" "length refs \<le> MAX_LINKS"
proof -
  note found = resolve_links_found [OF assms(2)]
  show "length refs \<le> MAX_LINKS" using found by (simp add: MAX_LINKS_def)
  show "\<forall>(i, p) \<in> set refs. i < 16 \<and> p < length (heap st1) \<and> bi_time (cell st1 p) < t"
  proof (intro ballI, clarify)
    fix i p assume "(i, p) \<in> set refs"
    then have f: "i \<in> set field_numbers" "block_by_hash (f_hash (b ! i)) st = Some p" "bi_time (cell st p) < t" using found by auto
    then have p: "p < length (heap st)" using block_invD(4) [OF assms(1)] unfolding index_sound_def by blast
    then have "bi_time (cell st1 p) = bi_time (cell st p)" using static_eqD(5) [OF same_dag_static [OF assms(3) p]] by simp
    then show "i < 16 \<and> p < length (heap st1) \<and> bi_time (cell st1 p) < t"
      using f p same_dag_length [OF assms(3)] by simp
  qed
qed

lemma add_block_cases:
  assumes acc: "accepts_blocks st" and len: "length newBlock = 16"
  shows "\<exists>res st' c' freed. add_block_nolock env newBlock limit st c = Some (res, st', c', freed) \<and>
    block_inv st' \<and> unchanged_cells st st' \<and>
    (res = 0 \<and> st' = st \<and> block_by_hash (hashlow (block_hash newBlock)) st \<noteq> None \<or>
     res \<in> {0, 1} \<and> (\<exists>st1 tmp. structural st st1 \<and> bi_hash tmp = block_hash newBlock \<and> stored st1 tmp st') \<or>
     (\<exists>err i. res = - int (err + 16 * i) \<and> i \<le> 16 \<and>
        (err \<in> early_codes \<and> st' = st \<and> (err = 5 \<longrightarrow> 0 < i \<and> i < 16 \<and> block_by_hash (f_hash (newBlock ! i)) st = None) \<or>
         err \<in> late_codes \<and> (if is_pool st then check_new_main (env_check_main env) st = Some st' else st' = st) \<or>
         err \<in> {0xC, 0xD} \<and> root st' = root st)))"
proof -
  define b where "b = newBlock[0 := f_set_transport_header 0 (newBlock ! 0)]"
  define t where "t = f_time (b ! 0)"
  define h where "h = block_hash newBlock"
  have h: "hash_data (block_bytes b) = h" by (simp add: h_def block_hash_def b_def)
  have b: "length b = 16" using len by (simp add: b_def)
  have inv: "block_inv st" using acc by (simp add: accepts_blocks_def)
  have u: "unchanged_cells st st" by (simp add: unchanged_cells_def)
  obtain bad sc where sb: "scan_block env b st = (bad, sc)" by fastforce
  have early: ?thesis
    if "add_block_nolock env newBlock limit st c = add_fail err i keys [] st c" "err \<in> early_codes" "i \<le> 16"
      "err = 5 \<Longrightarrow> 0 < i \<and> i < 16 \<and> block_by_hash (f_hash (newBlock ! i)) st = None" for err i keys
    using that inv u unfolding add_fail_def by blast
  note run = add_block_nolock_def [of env newBlock limit st c, folded b_def, unfolded Let_def, folded t_def, unfolded h sb]
  show ?thesis
  proof (cases "block_by_hash (hashlow h) st = None")
    case False
    then have "add_block_nolock env newBlock limit st c = Some (0, st, c, [])" by (simp add: run)
    then show ?thesis using False inv u h_def by blast
  next
    case new: True
    consider (head) "xdag_type b 0 \<noteq> g_block_header_type st"
      | (time) "xdag_type b 0 = g_block_header_type st" "bad_time env limit t st"
      | (scan) "xdag_type b 0 = g_block_header_type st" "\<not> bad_time env limit t st" by blast
    then show ?thesis
    proof cases
      case head
      then have "add_block_nolock env newBlock limit st c = add_fail 1 (xdag_type b 0) [] [] st c" using new by (simp add: run)
      then show ?thesis by (rule early) (use xdag_type_less [of b 0] in \<open>simp_all add: early_codes_def\<close>)
    next
      case time
      then have "add_block_nolock env newBlock limit st c = add_fail 2 0 [] [] st c" using new by (simp add: run)
      then show ?thesis by (rule early) (simp_all add: early_codes_def)
    next
      case scan
      note rest = run [unfolded prod.case]
      consider (bad) i where "bad = Some i"
        | (odd) "bad = None" "odd (sc_signOutCount sc)"
        | (remark) "bad = None" "even (sc_signOutCount sc)"
            "sc_flags sc AND BI_REMARK \<noteq> 0 \<and> remark_acceptance (b ! sc_remark_index sc) = 0"
        | (links) "bad = None" "even (sc_signOutCount sc)"
            "\<not> (sc_flags sc AND BI_REMARK \<noteq> 0 \<and> remark_acceptance (b ! sc_remark_index sc) = 0)" by blast
      then show ?thesis
      proof cases
        case bad
        then have "add_block_nolock env newBlock limit st c = add_fail 3 i (sc_keys sc) [] st c" using new scan by (simp add: rest)
        then show ?thesis by (rule early) (use scan_block_bounds(1) [OF sb bad] in \<open>simp_all add: early_codes_def\<close>)
      next
        case odd
        then have "add_block_nolock env newBlock limit st c = add_fail 4 (sc_signOutCount sc) (sc_keys sc) [] st c"
          using new scan by (simp add: rest)
        then show ?thesis by (rule early) (use scan_block_bounds(2) [OF sb] in \<open>simp_all add: early_codes_def\<close>)
      next
        case remark
        then have "add_block_nolock env newBlock limit st c = add_fail 0xE 16 (sc_keys sc) [] st c"
          using new scan by (simp add: rest XDAG_BLOCK_FIELDS_def)
        then show ?thesis by (rule early) (simp_all add: early_codes_def)
      next
        case links
        define rl where "rl = resolve_links b t (links_mask sc) 0 field_numbers st"
        show ?thesis
        proof (cases rl)
          case (Inl e)
          obtain err i where e: "e = (err, i)" by fastforce
          have ei: "err \<in> {5, 6} \<and> i \<in> set field_numbers \<and> (err = 5 \<longrightarrow> block_by_hash (f_hash (b ! i)) st = None)"
            using resolve_links_error [of 0 b t "links_mask sc" field_numbers st err i] Inl e by (simp add: rl_def MAX_LINKS_def)
          have "add_block_nolock env newBlock limit st c = add_fail err i (sc_keys sc) [] st c"
            using new scan links(1,2) links(3) Inl e by (auto simp: rest rl_def [symmetric])
          then show ?thesis by (rule early) (use ei in \<open>auto simp: early_codes_def field_numbers_def XDAG_BLOCK_FIELDS_def b_def\<close>)
        next
          case (Inr refs)
          obtain st1 where c1: "(if is_pool st then check_new_main (env_check_main env) st else Some st) = Some st1" "structural st st1"
            "\<not> nextra (g_xdag_extstats st1) > MAX_ALLOWED_EXTRA" using check_phase [OF acc] by blast
          have i1: "block_inv st1" by (rule structural_inv [OF inv c1(2)])
          have d: "same_dag st st1" "root st1 = root st" using c1(2) by (simp_all add: structural_def)
          note refs = resolved_refs [OF inv Inr [unfolded rl_def] d(1), unfolded t_def]
          have new1: "block_by_hash (hashlow h) st1 = None" using new d(2) by (simp add: block_by_hash_def)
          have go: "add_block_nolock env newBlock limit st c =
              check_and_store env (f_transport_header (newBlock ! 0)) b h
                (sc_flags sc OR extra_flag (f_transport_header (newBlock ! 0)) t sc st) sc refs st1 c"
            using new scan links Inr c1(1) by (auto simp: rest rl_def [symmetric])
          obtain res st' c' freed where R: "add_block_nolock env newBlock limit st c = Some (res, st', c', freed)"
            "block_inv st'" "unchanged_cells st1 st'"
            "res \<in> {0, 1} \<and> (\<exists>tmp. bi_hash tmp = h \<and> stored st1 tmp st') \<or>
             (\<exists>err i. res = - int (err + 16 * i) \<and> i \<le> 16 \<and> (err \<in> late_codes \<and> st' = st1 \<or> err \<in> {0xC, 0xD} \<and> root st' = root st1))"
            using check_and_store_inv [OF i1 b refs new1 c1(3), of env "f_transport_header (newBlock ! 0)"
                "sc_flags sc OR extra_flag (f_transport_header (newBlock ! 0)) t sc st" sc c, folded go]
            by (elim exE conjE) (rule that)
          have u1: "unchanged_cells st st'" using unchanged_trans [OF unchanged_structural [OF c1(2)] R(3)] .
          have late: "if is_pool st then check_new_main (env_check_main env) st = Some st1 else st1 = st"
            using c1(1) by (simp split: if_splits)
          show ?thesis
            using R(4)
          proof
            assume "res \<in> {0, 1} \<and> (\<exists>tmp. bi_hash tmp = h \<and> stored st1 tmp st')"
            then show ?thesis using R(1,2) u1 c1(2) unfolding h_def by blast
          next
            assume "\<exists>err i. res = - int (err + 16 * i) \<and> i \<le> 16 \<and> (err \<in> late_codes \<and> st' = st1 \<or> err \<in> {0xC, 0xD} \<and> root st' = root st1)"
            then obtain err i where e: "res = - int (err + 16 * i)" "i \<le> 16" "err \<in> late_codes \<and> st' = st1 \<or> err \<in> {0xC, 0xD} \<and> root st' = root st1"
              by blast
            have "err \<in> late_codes \<and> (if is_pool st then check_new_main (env_check_main env) st = Some st' else st' = st) \<or>
                err \<in> {0xC, 0xD} \<and> root st' = root st" using e(3) late d(2) by (cases "is_pool st") auto
            then show ?thesis using R(1,2) u1 e(1,2) by blast
          qed
        qed
      qed
    qed
  qed
qed

section \<open>Properties\<close>

lemma stored_found: "stored st tmp st' \<Longrightarrow> block_by_hash (hashlow (bi_hash tmp)) st' = Some (length (heap st))"
  unfolding stored_def by presburger

text \<open>
  C3: adding a block always returns, keeps the invariant of the block graph, and
  changes no link, amount, fee or time of a block that was there.  In the
  resulting state every block is balanced: it spends no more than its inputs,
  and nothing without inputs.  Unless an error is reported the block is found
  under its hash afterwards.  (The states of the claim are those below the limit
  of extra blocks, and for a pool those with a consistent main chain.)
\<close>

theorem add_block_keeps_graph:
  assumes "accepts_blocks st" "length newBlock = 16"
  shows "\<exists>res st' c' freed. add_block_nolock env newBlock limit st c = Some (res, st', c', freed) \<and>
    block_inv st' \<and> unchanged_cells st st' \<and>
    (0 \<le> res \<longrightarrow> block_by_hash (hashlow (block_hash newBlock)) st' \<noteq> None)"
proof -
  obtain res st' c' freed where R: "add_block_nolock env newBlock limit st c = Some (res, st', c', freed)"
    "block_inv st'" "unchanged_cells st st'"
    "res = 0 \<and> st' = st \<and> block_by_hash (hashlow (block_hash newBlock)) st \<noteq> None \<or>
     res \<in> {0, 1} \<and> (\<exists>st1 tmp. structural st st1 \<and> bi_hash tmp = block_hash newBlock \<and> stored st1 tmp st') \<or>
     (\<exists>err i. res = - int (err + 16 * i) \<and> (err \<in> early_codes \<or> err \<in> late_codes \<or> err \<in> {0xC, 0xD}))"
    using add_block_cases [OF assms, of env limit c] by blast
  have "block_by_hash (hashlow (block_hash newBlock)) st' \<noteq> None" if "0 \<le> res"
    using R(4) that by (auto simp: early_codes_def late_codes_def dest!: stored_found)
  then show ?thesis using R(1-3) by blast
qed

lemma fresh_wallet_accepts: "accepts_blocks fresh_wallet"
  by (simp add: accepts_blocks_def block_inv_def index_sound_def block_by_hash_def bix.find_nil tree_nil in_heap_def wf_dag_def
      fresh_wallet_def example_state_def is_pool_def MAX_ALLOWED_EXTRA_def)

theorem add_block_keeps_graph_witness:
  "\<exists>res st' c' freed. add_block_nolock plain_env (plain_block 1) 0 fresh_wallet empty_cache = Some (res, st', c', freed) \<and>
     block_inv st' \<and> (0 \<le> res \<longrightarrow> block_by_hash (hashlow (block_hash (plain_block 1))) st' \<noteq> None)"
  using add_block_keeps_graph [OF fresh_wallet_accepts, of "plain_block 1" plain_env 0 empty_cache]
  by (auto simp: plain_block_def)

end
