(* ===== verification/Add_Block_Errors.thy ===== *)
theory Add_Block_Errors
  imports Add_Block_Properties
begin

text \<open>
  The errors of \<open>add_block_nolock\<close>: a specification of its checks on the types
  of the fields, the index and the amounts as natural numbers, and the proof that
  the function reports the first check that fails, with the state it leaves.
\<close>

section \<open>The checks of a block\<close>















section \<open>The scan\<close>










section \<open>The references\<close>









section \<open>The end of the function\<close>



section \<open>The error codes\<close>






end
