(* ===== verification/Create_Block.thy ===== *)
theory Create_Block
  imports Add_Block
begin

text \<open>
  client/block.c: \<open>xdag_create_block\<close>, \<open>do_mining\<close>, \<open>do_rx_mining\<close> and
  \<open>xdag_create_and_send_block\<close>.  A block is put together field by field, signed,
  and, when it is a candidate for the main chain, mined by the pool until its
  time comes.  None marks a write outside the block or a NULL pointer
  dereferenced; a refused request is \<open>Some None\<close>.
\<close>

section \<open>Keys for the inputs\<close>

text \<open>
  The loop over the inputs: the numbers of the keys needed, each once, and which
  of them is the default key.  None: an input is unknown or not ours.
\<close>

fun choose_keys :: "xdag_state \<Rightarrow> nat \<Rightarrow> xdag_field list \<Rightarrow> nat list \<Rightarrow> nat option \<Rightarrow> (nat list \<times> nat option) option" where
  "choose_keys st defkeynum [] keysnum outsigkeyind = Some (keysnum, outsigkeyind)"
| "choose_keys st defkeynum (f # fs) keysnum outsigkeyind =
     (case block_by_hash (f_hash f) st of
        None \<Rightarrow> None
      | Some ref \<Rightarrow>
          if \<not> has_flag (cell st ref) BI_OURS then None
          else
            (let k = unat (bi_n_our_key (cell st ref)) in
             if k \<in> set keysnum then choose_keys st defkeynum fs keysnum outsigkeyind
             else choose_keys st defkeynum fs (keysnum @ [k])
               (if outsigkeyind = None \<and> k = defkeynum then Some (length keysnum) else outsigkeyind)))"

text \<open>The number of fields the block needs at least.\<close>

definition needed_fields :: "nat \<Rightarrow> nat \<Rightarrow> bool \<Rightarrow> nat \<Rightarrow> nat option \<Rightarrow> nat" where
  "needed_fields inputsCount outputsCount hasRemark nkeysnum outsigkeyind =
     1 + inputsCount + outputsCount + (if hasRemark then 1 else 0) + 3 * nkeysnum + (if outsigkeyind = None then 2 else 0)"

section \<open>Fields\<close>

fun or_type :: "u64 \<Rightarrow> xdag_field \<Rightarrow> xdag_field" where
  "or_type w (a, b, c, d) = (a, b OR w, c, d)"

definition type_code :: "xdag_field_type \<Rightarrow> u64" where
  "type_code t = of_nat (length (takeWhile (\<lambda>x. x \<noteq> t) field_types))"

text \<open>\<open>block[0].field[0].type |= w\<close>\<close>

definition set_types :: "u64 \<Rightarrow> xdag_block \<Rightarrow> xdag_block" where
  "set_types w b = b[0 := or_type w (b ! 0)]"

definition setfld :: "xdag_field_type \<Rightarrow> xdag_field \<Rightarrow> xdag_block \<times> nat \<Rightarrow> (xdag_block \<times> nat) option" where
  "setfld t src = (\<lambda>(b, i).
     if i < XDAG_BLOCK_FIELDS then Some ((set_types (push_bit (i * 4) (type_code t)) b)[i := src], Suc i) else None)"

definition setflds :: "xdag_field_type \<Rightarrow> xdag_field list \<Rightarrow> xdag_block \<times> nat \<Rightarrow> (xdag_block \<times> nat) option" where
  "setflds t srcs = fold_opt (setfld t) srcs"

definition low_field :: "xdag_hash_t \<Rightarrow> xdag_field" where
  "low_field h = probe_hash (hashlow h)"

definition new_header :: "nat \<Rightarrow> bool \<Rightarrow> u64 \<Rightarrow> u64 \<Rightarrow> xdag_block" where
  "new_header header_type mining send_time fee =
     (0, of_nat header_type OR (if mining then push_bit ((XDAG_BLOCK_FIELDS - 1) * 4) (type_code XDAG_FIELD_SIGN_IN) else 0),
      send_time, fee) # replicate 15 (0, 0, 0, 0)"

definition pretop_block :: "u64 \<Rightarrow> xdag_state \<Rightarrow> ptr option" where
  "pretop_block send_time st =
     (case top_main_chain st of
        Some p \<Rightarrow> if MAIN_TIME (bi_time (cell st p)) = MAIN_TIME send_time then pretop_main_chain st else Some p
      | None \<Rightarrow> None)"

text \<open>The references to other blocks: \<open>res\<close> counts the fields taken.\<close>

fun refer_orphans :: "u64 \<Rightarrow> xdag_state \<Rightarrow> orphan_block list \<Rightarrow> nat \<Rightarrow> xdag_field list" where
  "refer_orphans send_time st [] res = []"
| "refer_orphans send_time st (ob # os) res =
     (if \<not> res < XDAG_BLOCK_FIELDS then []
      else if bi_time (cell st (orphan_bi ob)) < send_time
      then low_field (bi_hash (cell st (orphan_bi ob))) # refer_orphans send_time st os (Suc res)
      else refer_orphans send_time st os res)"

definition refer_fields :: "bool \<Rightarrow> u64 \<Rightarrow> ptr option \<Rightarrow> nat \<Rightarrow> xdag_state \<Rightarrow> xdag_field list" where
  "refer_fields mining send_time pretop res st =
     (if is_wallet st then
        (case ours st of
           p # _ \<Rightarrow> if res < XDAG_BLOCK_FIELDS then [low_field (bi_hash (cell st p))] else []
         | [] \<Rightarrow> [])
      else
        (case pretop of
           Some p \<Rightarrow>
             if res < XDAG_BLOCK_FIELDS \<and> mining \<and> bi_time (cell st p) < send_time
             then low_field (bi_hash (cell st p)) # refer_orphans send_time st (orphans st) (Suc res)
             else refer_orphans send_time st (orphans st) res
         | None \<Rightarrow> refer_orphans send_time st (orphans st) res))"

section \<open>Signing\<close>

definition pub_type :: "pubkey \<Rightarrow> xdag_field_type" where
  "pub_type k = (if snd k then XDAG_FIELD_PUBLIC_KEY_1 else XDAG_FIELD_PUBLIC_KEY_0)"

text \<open>The two nibbles of a signature at field \<open>i\<close>.\<close>

definition sign_types :: "xdag_field_type \<Rightarrow> nat \<Rightarrow> u64" where
  "sign_types t i = push_bit (i * 4) (type_code t * 0x11)"

text \<open>The loop that enters the public keys and the types of the signatures behind them.\<close>

fun enter_keys ::
  "xdag_public_key list \<Rightarrow> nat \<Rightarrow> nat option \<Rightarrow> nat list \<Rightarrow> nat \<Rightarrow> xdag_block \<times> nat \<Rightarrow> (xdag_block \<times> nat) option" where
  "enter_keys keys nkeysnum outsigkeyind [] j (b, i) = Some (b, i)"
| "enter_keys keys nkeysnum outsigkeyind (k # ks) j (b, i) =
     (let key = pk_pub (keys ! k);
          t = (if outsigkeyind = Some j then XDAG_FIELD_SIGN_OUT else XDAG_FIELD_SIGN_IN)
      in do {
        s \<leftarrow> setfld (pub_type key) (fst key) (set_types (sign_types t (i + j + nkeysnum)) b, i);
        enter_keys keys nkeysnum outsigkeyind ks (Suc j) s
      })"

text \<open>\<open>sign\<close> is \<open>xdag_sign\<close> with its key handle; when it fails the fields stay as they are.\<close>

definition sign_at ::
  "(nat \<Rightarrow> xdag_hash_t \<Rightarrow> (xdag_hash_t \<times> xdag_hash_t) option) \<Rightarrow> xdag_public_key \<Rightarrow> xdag_block \<times> nat \<Rightarrow> (xdag_block \<times> nat) option" where
  "sign_at sign key = (\<lambda>(b, i).
     if Suc i < XDAG_BLOCK_FIELDS then
       Some (case sign (pk_key key) (hash_for_signature b (pk_pub key)) of
               Some (r, s) \<Rightarrow> (b[i := r, Suc i := s], i + 2)
             | None \<Rightarrow> (b, i + 2))
     else None)"

record create_request =
  cr_inputs :: "xdag_field list"
  cr_outputs :: "xdag_field list"
  cr_remark :: "xdag_field option"
  cr_fee :: u64

record wallet_view =
  wv_keys :: "xdag_public_key list"
  wv_sign :: "nat \<Rightarrow> xdag_hash_t \<Rightarrow> (xdag_hash_t \<times> xdag_hash_t) option"
  wv_pool_tag :: "xdag_field option"

definition default_key :: "wallet_view \<Rightarrow> xdag_public_key option" where
  "default_key w = (if wv_keys w = [] then None else Some (last (wv_keys w)))"

text \<open>From the label \<open>begin\<close> to the signatures.\<close>

definition build_block ::
  "wallet_view \<Rightarrow> create_request \<Rightarrow> nat list \<Rightarrow> nat option \<Rightarrow> bool \<Rightarrow> u64 \<Rightarrow> ptr option \<Rightarrow> nat \<Rightarrow> xdag_state \<Rightarrow> xdag_block option" where
  "build_block w req keysnum outsigkeyind mining send_time pretop res st =
     do {
       s \<leftarrow> setflds XDAG_FIELD_OUT (refer_fields mining send_time pretop res st)
         (new_header (g_block_header_type st) mining send_time (cr_fee req), 1);
       s \<leftarrow> setflds XDAG_FIELD_IN (cr_inputs req) s;
       s \<leftarrow> setflds XDAG_FIELD_OUT (cr_outputs req) s;
       s \<leftarrow> setflds XDAG_FIELD_REMARK (case cr_remark req of Some r \<Rightarrow> [r] | None \<Rightarrow> []) s;
       s \<leftarrow> setflds XDAG_FIELD_REMARK (if mining then (case wv_pool_tag w of Some r \<Rightarrow> [r] | None \<Rightarrow> []) else []) s;
       (b, i) \<leftarrow> enter_keys (wv_keys w) (length keysnum) outsigkeyind keysnum 0 s;
       let b = (if outsigkeyind = None
                then set_types (sign_types XDAG_FIELD_SIGN_OUT (i + length keysnum + length keysnum)) b else b);
       s \<leftarrow> fold_opt (\<lambda>k. sign_at (wv_sign w) (wv_keys w ! k)) keysnum (b, i);
       s \<leftarrow> (if outsigkeyind = None then do { k \<leftarrow> default_key w; sign_at (wv_sign w) k s } else Some s);
       Some (fst s)
     }"

section \<open>Mining\<close>

record xdag_pool_task =
  pt_task0 :: xdag_field
  pt_task1 :: xdag_field
  pt_lastfield :: xdag_field
  pt_minhash :: xdag_field
  pt_nonce :: xdag_field
  pt_time :: u64
  pt_ctx0 :: SHA256REF_CTX
  pt_ctx :: SHA256REF_CTX

definition CONFIRMATIONS_COUNT :: u64 where "CONFIRMATIONS_COUNT = 16"

text \<open>The tasks of the pool with the index of the current one, and the hashes and nonces mined last.\<close>

record mining_state =
  ms_task :: "xdag_pool_task \<times> xdag_pool_task"
  ms_task_index :: u64
  ms_mined_hashes :: "xdag_hash_t list"
  ms_mined_nonce :: "xdag_hash_t list"

definition pool_task :: "mining_state \<Rightarrow> u64 \<Rightarrow> xdag_pool_task" where
  "pool_task ms i = (if i AND 1 = 0 then fst (ms_task ms) else snd (ms_task ms))"

definition set_pool_task :: "u64 \<Rightarrow> xdag_pool_task \<Rightarrow> mining_state \<Rightarrow> mining_state" where
  "set_pool_task i t ms =
     ms\<lparr>ms_task := (if i AND 1 = 0 then (t, snd (ms_task ms)) else (fst (ms_task ms), t)), ms_task_index := i\<rparr>"

text \<open>
  The task for the miners: the state of the digest after 14 fields, the 15th
  field, and a context that lacks only the last eight bytes of the block.
\<close>

definition mining_task :: "xdag_block \<Rightarrow> u64 \<Rightarrow> xdag_pool_task \<Rightarrow> xdag_pool_task option" where
  "mining_task b send_time old =
     do {
       ctx0 \<leftarrow> xdag_hash_update (xdag_hash_init (pt_ctx0 old)) (take 448 (block_bytes b)) 448;
       let task0 = xdag_hash_get_state ctx0;
       ctx0 \<leftarrow> xdag_hash_update ctx0 (hash_bytes (b ! 14)) 32;
       ctx \<leftarrow> xdag_hash_update ctx0 (take 24 (hash_bytes (b ! 15))) 24;
       minhash \<leftarrow> xdag_hash_final ctx (u64_bytes (f_amount (b ! 15))) 8;
       Some (old\<lparr>pt_task0 := task0, pt_task1 := b ! 14, pt_lastfield := b ! 15, pt_minhash := minhash, pt_nonce := b ! 15,
         pt_time := MAIN_TIME send_time, pt_ctx0 := ctx0, pt_ctx := ctx\<rparr>)
     }"

definition rx_mining_task :: "xdag_block \<Rightarrow> u64 \<Rightarrow> rx_globals \<Rightarrow> xdag_pool_task \<Rightarrow> xdag_pool_task option" where
  "rx_mining_task b send_time g old =
     do {
       pre \<leftarrow> xdag_rx_pre_hash zero_ctx (take 480 (block_bytes b)) 480;
       Some (old\<lparr>pt_task0 := pre, pt_task1 := rx_seed (rx_mem g (g_rx_pool_mem_index g)), pt_lastfield := b ! 15,
         pt_minhash := (- 1, - 1, - 1, - 1), pt_nonce := b ! 15, pt_time := MAIN_TIME send_time\<rparr>)
     }"

text \<open>
  Waiting for the time of the block.  An observation is one round: the clock in
  the loop condition, the block on top after the sleep, and the clock in the
  test.  \<open>Inl\<close>: the top changed and the block is built anew.
\<close>

fun mining_wait :: "(u64 \<times> ptr option \<times> u64) list \<Rightarrow> ptr option \<Rightarrow> u64 \<Rightarrow> (ptr option + unit) option" where
  "mining_wait [] pretop send_time = None"
| "mining_wait ((now, pretop_new, now2) # obs) pretop send_time =
     (if now \<le> send_time then
        (if pretop \<noteq> pretop_new \<and> now2 < send_time then Some (Inl pretop_new) else mining_wait obs pretop send_time)
      else Some (Inr ()))"

text \<open>
  What an attempt meets: the state of the node, the random last field, the
  observations while waiting, and the last field the miners left in the task.
\<close>

record mining_attempt =
  at_state :: xdag_state
  at_random :: xdag_field
  at_obs :: "(u64 \<times> ptr option \<times> u64) list"
  at_mined :: xdag_field

definition do_mining ::
  "xdag_block \<Rightarrow> ptr option \<Rightarrow> u64 \<Rightarrow> mining_attempt \<Rightarrow> mining_state \<Rightarrow> ((ptr option + xdag_block) \<times> mining_state) option" where
  "do_mining b pretop send_time a ms =
     (let i = ms_task_index ms + 1; b1 = b[15 := at_random a] in
      do {
        task \<leftarrow> mining_task b1 send_time (pool_task ms i);
        r \<leftarrow> mining_wait (at_obs a) pretop send_time;
        Some (case r of Inl p \<Rightarrow> Inl p | Inr _ \<Rightarrow> Inr (b1[15 := at_mined a]), set_pool_task i task ms)
      })"

definition do_rx_mining ::
  "rx_globals \<Rightarrow> xdag_block \<Rightarrow> ptr option \<Rightarrow> u64 \<Rightarrow> mining_attempt \<Rightarrow> mining_state \<Rightarrow> ((ptr option + xdag_block) \<times> mining_state) option" where
  "do_rx_mining g b pretop send_time a ms =
     (let i = ms_task_index ms + 1; b1 = b[15 := at_random a] in
      do {
        task \<leftarrow> rx_mining_task b1 send_time g (pool_task ms i);
        r \<leftarrow> mining_wait (at_obs a) pretop send_time;
        Some (case r of Inl p \<Rightarrow> Inl p | Inr _ \<Rightarrow> Inr (b1[15 := at_mined a]), set_pool_task i task ms)
      })"

text \<open>
  The choice of the seed slot after a start: the slot with the earlier switch
  time is in use; the later one too when the top of the chain has passed its
  time.  Far behind, both switch times are moved.
\<close>

definition rx_start_slots :: "u64 \<Rightarrow> u64 \<Rightarrow> u64 \<Rightarrow> rx_globals \<Rightarrow> rx_globals" where
  "rx_start_slots seed_epoch send_frame top_frame g =
     (let m0 = fst (g_rx_pool_mem g); m1 = snd (g_rx_pool_mem g);
          (m0', m1', index, ready) =
            (if rx_switch_time m0 > rx_switch_time m1 then
               (if top_frame \<ge> rx_switch_time m0
                then (m0\<lparr>rx_is_switched := 1\<rparr>, m1\<lparr>rx_is_switched := 1\<rparr>, 2, None)
                else (m0\<lparr>rx_is_switched := 0\<rparr>, m1\<lparr>rx_is_switched := 1\<rparr>, 1, Some (rx_switch_time m0)))
             else
               (if top_frame \<ge> rx_switch_time m1
                then (m0\<lparr>rx_is_switched := 1\<rparr>, m1\<lparr>rx_is_switched := 1\<rparr>, 1, None)
                else (m0\<lparr>rx_is_switched := 1\<rparr>, m1\<lparr>rx_is_switched := 0\<rparr>, 2, Some (rx_switch_time m1))));
          offset = (case ready of
                      Some sw \<Rightarrow> if send_frame > sw + seed_epoch then send_frame - top_frame else 0
                    | None \<Rightarrow> 0)
      in g\<lparr>g_rx_pool_mem_index := index,
           g_rx_pool_mem := (m0'\<lparr>rx_switch_time := rx_switch_time m0' + offset\<rparr>,
                             m1'\<lparr>rx_switch_time := rx_switch_time m1' + offset\<rparr>)\<rparr>)"

definition rx_next_slot :: "u64 \<Rightarrow> rx_globals \<Rightarrow> rx_globals" where
  "rx_next_slot send_frame g =
     (let i = g_rx_pool_mem_index g + 1; m = rx_mem g i in
      if send_frame \<ge> rx_switch_time m \<and> rx_is_switched m = 0
      then (rx_set_mem i (m\<lparr>rx_is_switched := 1\<rparr>) g)\<lparr>g_rx_pool_mem_index := i\<rparr> else g)"

definition rx_mining_slots :: "u64 \<Rightarrow> xdag_state \<Rightarrow> rx_globals option" where
  "rx_mining_slots send_time st =
     (let g = g_rx st;
          g1 = (if g_rx_pool_mem_index g = 0
                then g\<lparr>g_rx_pool_mem_index := (g_rx_hash_epoch_index g - 1) AND 1\<rparr> else g)
      in do {
        g2 \<leftarrow> (if g_rx_pool_mem_index g1 = - 1 then
                 do {
                   last_main \<leftarrow> block_by_height (nmain (g_xdag_stats st)) st;
                   _ \<leftarrow> last_main;
                   p \<leftarrow> top_main_chain st;
                   Some (rx_start_slots (seed_epoch_mask (g_xdag_testnet st) + 1) (MAIN_TIME send_time)
                     (MAIN_TIME (bi_time (cell st p))) g1)
                 }
               else Some g1);
        Some (rx_next_slot (MAIN_TIME send_time) g2)
      })"

section \<open>Creating a block\<close>

text \<open>
  The attempts up to the first that is not interrupted.  The list runs out when
  the function is still mining.
\<close>

fun create_attempts ::
  "wallet_view \<Rightarrow> create_request \<Rightarrow> nat list \<Rightarrow> nat option \<Rightarrow> bool \<Rightarrow> u64 \<Rightarrow> nat \<Rightarrow> ptr option \<Rightarrow> mining_attempt list \<Rightarrow> mining_state
   \<Rightarrow> (xdag_block \<times> mining_state \<times> rx_globals) option" where
  "create_attempts w req keysnum outsig mining send_time res0 pretop [] ms = None"
| "create_attempts w req keysnum outsig mining send_time res0 pretop (a # as) ms =
     do {
       let st = at_state a;
       b \<leftarrow> build_block w req keysnum outsig mining send_time pretop res0 st;
       if \<not> mining then Some (b, ms, g_rx st)
       else do {
         g \<leftarrow> (if is_randomx_fork (MAIN_TIME send_time) st then rx_mining_slots send_time st else Some (g_rx st));
         (r, ms') \<leftarrow> (if is_randomx_fork (MAIN_TIME send_time) st then do_rx_mining g b pretop send_time a ms
                      else do_mining b pretop send_time a ms);
         case r of
           Inl p \<Rightarrow> create_attempts w req keysnum outsig mining send_time res0 p as ms'
         | Inr b' \<Rightarrow> Some (b', ms', g)
       }
     }"

definition record_mined :: "bool \<Rightarrow> u64 \<Rightarrow> xdag_block \<Rightarrow> mining_state \<Rightarrow> mining_state" where
  "record_mined mining send_time b ms =
     (if mining then
        (let i = unat (MAIN_TIME send_time AND (CONFIRMATIONS_COUNT - 1)) in
         ms\<lparr>ms_mined_hashes := (ms_mined_hashes ms)[i := hash_data (block_bytes b)],
            ms_mined_nonce := (ms_mined_nonce ms)[i := b ! 15]\<rparr>)
      else ms)"

definition xdag_create_block ::
  "wallet_view \<Rightarrow> create_request \<Rightarrow> u64 \<Rightarrow> u64 \<Rightarrow> bool \<Rightarrow> xdag_state \<Rightarrow> mining_attempt list \<Rightarrow> mining_state
   \<Rightarrow> ((xdag_block \<times> xdag_hash_t) option \<times> mining_state \<times> rx_globals) option" where
  "xdag_create_block w req send_time0 now malloc_ok st attempts ms =
     (case choose_keys st (length (wv_keys w) - 1) (cr_inputs req) [] None of
        None \<Rightarrow> Some (None, ms, g_rx st)
      | Some (keysnum, outsig) \<Rightarrow>
          (let res0 = needed_fields (length (cr_inputs req)) (length (cr_outputs req)) (cr_remark req \<noteq> None) (length keysnum) outsig;
               send_time = (if send_time0 = 0 then now else send_time0);
               mining = (send_time0 \<noteq> 0 \<and> send_time0 > now \<and> res0 + 1 \<le> XDAG_BLOCK_FIELDS);
               res1 = res0 + (if mining then 1 + (if wv_pool_tag w \<noteq> None then 1 else 0) else 0)
           in if res0 > XDAG_BLOCK_FIELDS then Some (None, ms, g_rx st)
              else do {
                (b, ms', g) \<leftarrow> create_attempts w req keysnum outsig mining send_time res1 (pretop_block send_time0 st) attempts ms;
                Some (if malloc_ok then Some (b, hash_data (block_bytes b)) else None,
                      record_mined mining send_time b ms', g)
              }))"

text \<open>The result, the state, and the block that is sent to the network, if any.\<close>

definition xdag_create_and_send_block ::
  "add_env \<Rightarrow> u64 \<Rightarrow> xdag_block option \<Rightarrow> xdag_state \<Rightarrow> block_cache \<Rightarrow> (int \<times> xdag_state \<times> block_cache \<times> xdag_block option) option" where
  "xdag_create_and_send_block env g_time_limit created st c =
     (case created of
        None \<Rightarrow> Some (0, st, c, None)
      | Some b \<Rightarrow>
          do {
            (res, st', c', _) \<leftarrow> xdag_add_block env g_time_limit (b[0 := f_set_transport_header 1 (b ! 0)]) st c;
            Some (if res > 0 then (1, st', c', Some (b[0 := f_set_transport_header 0 (b ! 0)])) else (0, st', c', None))
          })"

end
