(* ===== verification/Create_Block_Properties.thy ===== *)
theory Create_Block_Properties
  imports Create_Block
begin

text \<open>Created blocks: all their signatures verify, and the mining task hashes the whole block.\<close>

section \<open>The mining task\<close>

lemma block_bytes_split:
  assumes "length b = 16"
  shows "block_bytes b = take 448 (block_bytes b) @ hash_bytes (b ! 14) @ hash_bytes (b ! 15)"
proof -
  have b: "b = take 14 b @ [b ! 14, b ! 15]"
  proof (rule nth_equalityI)
    fix i assume "i < length b"
    then show "b ! i = (take 14 b @ [b ! 14, b ! 15]) ! i"
      using assms by (cases "i < 14") (auto simp: nth_append less_Suc_eq numeral_eq_Suc)
  qed (use assms in simp)
  have len: "length (block_bytes (take 14 b)) = 448" using assms by (simp add: length_block_bytes)
  have "block_bytes b = block_bytes (take 14 b) @ hash_bytes (b ! 14) @ hash_bytes (b ! 15)"
    by (subst b) (simp add: block_bytes_def)
  then show ?thesis using len by simp
qed

text \<open>
  C7: the task \<open>do_mining\<close> prepares for the miners is the digest of the block cut
  into pieces: its first hash is the block hash of the whole block, though it is
  computed from the digest of 448 bytes, one field, 24 bytes and the last eight.
\<close>

theorem mining_task_minhash:
  assumes "length b = 16" "length (sha_data (pt_ctx0 old)) = 64"
  shows "\<exists>task. mining_task b send_time old = Some task \<and> pt_minhash task = double_sha256 (block_bytes b) \<and>
    pt_lastfield task = b ! 15 \<and> pt_time task = MAIN_TIME send_time"
proof -
  let ?p = "take 448 (block_bytes b)" and ?f = "hash_bytes (b ! 14)" and ?n = "take 24 (hash_bytes (b ! 15))"
  let ?l = "u64_bytes (f_amount (b ! 15))"
  have n: "hash_bytes (b ! 15) = ?n @ ?l" by (cases "b ! 15") simp
  have len: "length ?p = 448" "length ?f = 32" "length ?n = 24" "length ?l = 8"
    using assms(1) by (simp_all add: length_block_bytes)
  obtain c1 where c1: "xdag_hash_update (xdag_hash_init (pt_ctx0 old)) ?p 448 = Some c1" "holds_message c1 ?p"
    using sha256_update_aligned [OF holds_message_init [OF assms(2)], of ?p] len(1)
    by (auto simp: xdag_hash_update_def xdag_hash_init_def)
  have "datalen c1 = 0" using holds_message_datalen [OF c1(2)] len(1) by simp
  then obtain c2 where c2: "xdag_hash_update c1 ?f 32 = Some c2" "holds_message c2 (?p @ ?f)"
    using sha256_update_part [OF c1(2), of ?f] len by (auto simp: xdag_hash_update_def)
  have "datalen c2 = 32" using holds_message_datalen [OF c2(2)] len by simp
  then obtain c3 where c3: "xdag_hash_update c2 ?n 24 = Some c3" "holds_message c3 ((?p @ ?f) @ ?n)"
    using sha256_update_part [OF c2(2), of ?n] len by (auto simp: xdag_hash_update_def)
  have "datalen c3 = 56" using holds_message_datalen [OF c3(2)] len by simp
  then obtain c4 where c4: "sha256_update c3 ?l 8 = Some c4" "holds_message c4 (((?p @ ?f) @ ?n) @ ?l)"
    using sha256_update_part [OF c3(2), of ?l] len by auto
  have whole: "((?p @ ?f) @ ?n) @ ?l = block_bytes b" using block_bytes_split [OF assms(1)] n by simp
  have "hash_again c4 = Some (double_sha256 (block_bytes b))"
    using hash_again_correct [OF c4(2) [unfolded whole]] assms(1) by (simp add: hashable_def length_block_bytes)
  then have "xdag_hash_final c3 ?l 8 = Some (double_sha256 (block_bytes b))" using c4(1) by (simp add: xdag_hash_final_def)
  then show ?thesis using c1(1) c2(1) c3(1) by (simp add: mining_task_def Let_def)
qed

definition idle_task :: xdag_pool_task where
  "idle_task = \<lparr>pt_task0 = (0, 0, 0, 0), pt_task1 = (0, 0, 0, 0), pt_lastfield = (0, 0, 0, 0), pt_minhash = (0, 0, 0, 0),
     pt_nonce = (0, 0, 0, 0), pt_time = 0, pt_ctx0 = zero_ctx, pt_ctx = zero_ctx\<rparr>"

theorem mining_task_minhash_witness:
  "\<exists>task. mining_task (replicate 16 (1, 2, 3, 4)) 0x10000 idle_task = Some task \<and>
     pt_minhash task = double_sha256 (block_bytes (replicate 16 (1, 2, 3, 4))) \<and> pt_time task = 1"
  using mining_task_minhash [of "replicate 16 (1, 2, 3, 4)" idle_task "0x10000"]
  by (auto simp: idle_task_def zero_ctx_def MAIN_TIME_def)

section \<open>Types of fields\<close>

definition nib :: "u64 \<Rightarrow> nat \<Rightarrow> u64" where "nib w n = drop_bit (n * 4) w AND 0xf"

lemma nib_or: "nib (v OR w) n = nib v n OR nib w n"
  by (simp add: nib_def bit.conj_disj_distrib2 drop_bit_or)

lemma nib_push:
  assumes "i < 16" "c AND NOT 0xf = 0"
  shows "nib (push_bit (i * 4) c) n = (if n = i then c else 0)"
proof (rule bit_word_eqI)
  fix k assume "k < LENGTH(64)"
  have f: "(0xf :: u64) = mask 4" by (simp add: mask_eq_exp_minus_1)
  have c: "\<not> bit c j" if "4 \<le> j" for j
    using arg_cong [OF assms(2), of "\<lambda>w. bit w j"] that bit_imp_le_length [of c j] by (auto simp: f bit_simps)
  show "bit (nib (push_bit (i * 4) c) n) k = bit (if n = i then c else 0) k"
  proof (cases "k < 4 \<and> n = i")
    case True
    then show ?thesis using assms(1) by (auto simp: nib_def f bit_simps)
  next
    case False
    have "\<not> bit c (k + n * 4 - i * 4)" if "k < 4" "i * 4 \<le> k + n * 4" "n \<noteq> i"
      by (rule c) (use that in presburger)
    then show ?thesis using False c [of k] by (auto simp: nib_def f bit_simps ac_simps)
  qed
qed

lemma type_code_nibble: "type_code t AND NOT 0xf = 0"
  by (cases t) (simp_all add: type_code_def field_types_def)

lemma field_type_nib: "field_type b n = field_types ! unat (nib (f_type (b ! 0)) n)"
  by (simp add: field_type_def xdag_type_def nib_def)

lemma nib_or_type: "nib (f_type (or_type w f)) n = nib (f_type f) n OR nib w n"
  by (cases f) (simp add: nib_or)

section \<open>A block under construction\<close>

text \<open>
  The fields from \<open>i\<close> on are empty, and the types from \<open>m\<close> on are free; only the
  type of the last field may be that of the nonce.
\<close>

fun empty_from :: "nat \<Rightarrow> xdag_block \<times> nat \<Rightarrow> bool" where
  "empty_from m (b, i) \<longleftrightarrow> length b = 16 \<and> 1 \<le> i \<and> (\<forall>n. i \<le> n \<and> n < 16 \<longrightarrow> b ! n = (0, 0, 0, 0)) \<and>
     (\<forall>n. m \<le> n \<and> n < 16 \<longrightarrow> nib (f_type (b ! 0)) n \<in> {0, 4})"

lemma set_types_simps [simp]:
  "length (set_types w b) = length b" "0 < n \<Longrightarrow> set_types w b ! n = b ! n"
  "b \<noteq> [] \<Longrightarrow> set_types w b ! 0 = or_type w (b ! 0)"
  by (simp_all add: set_types_def)

lemma empty_set_types:
  assumes "empty_from m (b, i)" "\<And>n. m \<le> n \<Longrightarrow> n < 16 \<Longrightarrow> nib w n = 0"
  shows "empty_from m (set_types w b, i)"
proof -
  have "b \<noteq> []" using assms(1) by auto
  then show ?thesis using assms by (auto simp: nib_or_type)
qed

lemma empty_setfld:
  assumes "empty_from m (b, i)" "setfld t src (b, i) = Some s" "i < m"
  shows "empty_from m s \<and> snd s = Suc i"
proof -
  have s: "i < 16" "s = ((set_types (push_bit (i * 4) (type_code t)) b)[i := src], Suc i)"
    using assms(2) by (auto simp: setfld_def XDAG_BLOCK_FIELDS_def split: if_splits)
  have "empty_from m (set_types (push_bit (i * 4) (type_code t)) b, i)"
    by (rule empty_set_types [OF assms(1)]) (use assms(3) in \<open>simp add: nib_push [OF s(1) type_code_nibble]\<close>)
  then show ?thesis by (auto simp: s(2))
qed

lemma empty_setflds:
  "empty_from m (b, i) \<Longrightarrow> setflds t srcs (b, i) = Some s \<Longrightarrow> i + length srcs \<le> m \<Longrightarrow> empty_from m s \<and> snd s = i + length srcs"
proof (induction srcs arbitrary: b i)
  case (Cons src srcs)
  obtain b1 i1 where 1: "setfld t src (b, i) = Some (b1, i1)" "setflds t srcs (b1, i1) = Some s"
    using Cons.prems(2) by (auto simp: setflds_def bind_eq_Some_conv)
  show ?case using empty_setfld [OF Cons.prems(1) 1(1)] Cons.IH [OF _ 1(2)] Cons.prems(3) by auto
qed (auto simp: setflds_def)

lemma nib_sign_types:
  assumes "Suc p < 16"
  shows "nib (sign_types t p) n = (if n = p \<or> n = Suc p then type_code t else 0)"
proof -
  have "type_code t * 0x11 = type_code t OR push_bit 4 (type_code t)"
    by (cases t) (simp_all add: type_code_def field_types_def)
  then have "sign_types t p = push_bit (p * 4) (type_code t) OR push_bit (Suc p * 4) (type_code t)"
    by (simp add: sign_types_def push_bit_or push_bit_push_bit add.commute)
  then show ?thesis
    using assms nib_push [of p "type_code t" n] nib_push [of "Suc p" "type_code t" n] type_code_nibble by (simp add: nib_or)
qed

lemma empty_header: "ht < 16 \<Longrightarrow> 1 \<le> m \<Longrightarrow> empty_from m (new_header ht mining t fee, 1)"
proof -
  assume ht: "ht < 16" "1 \<le> m"
  have "list_all (\<lambda>h. (of_nat h :: u64) AND NOT 0xf = 0) [0..<16]" by code_simp
  then have "(of_nat ht :: u64) AND NOT 0xf = 0" using ht(1) by (simp only: list_all_iff set_upt atLeastLessThan_iff) simp
  then have 0: "nib (of_nat ht) n = (if n = 0 then of_nat ht else 0)" for n using nib_push [of 0 "of_nat ht" n] by simp
  have 15: "nib (push_bit 60 (type_code XDAG_FIELD_SIGN_IN)) n = (if n = 15 then 4 else 0)" for n
    using nib_push [of 15 "type_code XDAG_FIELD_SIGN_IN" n] type_code_nibble
    by (simp add: type_code_def field_types_def)
  have "nib 0 n = 0" for n by (simp add: nib_def)
  then show ?thesis using ht 0 15 by (auto simp: new_header_def nib_or XDAG_BLOCK_FIELDS_def nth_Cons')
qed

section \<open>The types of the signatures\<close>

definition sign_code :: "bool \<Rightarrow> u64" where
  "sign_code output = (if output then 5 else 4)"

lemma sign_type_codes:
  "type_code (if P then XDAG_FIELD_SIGN_OUT else XDAG_FIELD_SIGN_IN) = sign_code P"
  by (simp add: sign_code_def type_code_def field_types_def)

lemma sign_code_or: "c \<in> {0, 4} \<Longrightarrow> c OR sign_code P = sign_code P"
  by (auto simp: sign_code_def)

lemma nib_set_sign:
  assumes "length b = 16" "Suc q < 16" "nib (f_type (b ! 0)) q \<in> {0, 4}" "nib (f_type (b ! 0)) (Suc q) \<in> {0, 4}"
  shows "nib (f_type (set_types (sign_types (if P then XDAG_FIELD_SIGN_OUT else XDAG_FIELD_SIGN_IN) q) b ! 0)) n =
    (if n = q \<or> n = Suc q then sign_code P else nib (f_type (b ! 0)) n)"
proof -
  have "b \<noteq> []" using assms(1) by auto
  then show ?thesis
    using assms nib_sign_types [OF assms(2)] sign_code_or [OF assms(3)] sign_code_or [OF assms(4)]
    by (auto simp: nib_or_type sign_type_codes)
qed

lemma set_sign_empty:
  assumes "empty_from q (b, i)" "Suc q < 16"
  shows "empty_from (q + 2) (set_types (sign_types (if P then XDAG_FIELD_SIGN_OUT else XDAG_FIELD_SIGN_IN) q) b, i)"
    "nib (f_type (set_types (sign_types (if P then XDAG_FIELD_SIGN_OUT else XDAG_FIELD_SIGN_IN) q) b ! 0)) n =
      (if n = q \<or> n = Suc q then sign_code P else nib (f_type (b ! 0)) n)"
proof -
  have b: "length b = 16" "nib (f_type (b ! 0)) q \<in> {0, 4}" "nib (f_type (b ! 0)) (Suc q) \<in> {0, 4}" using assms by auto
  note nibs = nib_set_sign [OF b(1) assms(2) b(2,3), of P]
  show "nib (f_type (set_types (sign_types (if P then XDAG_FIELD_SIGN_OUT else XDAG_FIELD_SIGN_IN) q) b ! 0)) n =
      (if n = q \<or> n = Suc q then sign_code P else nib (f_type (b ! 0)) n)" by (rule nibs)
  show "empty_from (q + 2) (set_types (sign_types (if P then XDAG_FIELD_SIGN_OUT else XDAG_FIELD_SIGN_IN) q) b, i)"
    using assms(1) by (auto simp: nibs simp del: set_types_simps(3))
qed

lemma setfld_nib:
  assumes "setfld t src (b, i) = Some (b', i')" "length b = 16" "0 < i" "n \<noteq> i"
  shows "nib (f_type (b' ! 0)) n = nib (f_type (b ! 0)) n"
proof -
  have s: "i < 16" "b' = (set_types (push_bit (i * 4) (type_code t)) b)[i := src]"
    using assms(1) by (auto simp: setfld_def XDAG_BLOCK_FIELDS_def split: if_splits)
  have "b \<noteq> []" using assms(2) by auto
  then show ?thesis using assms(3,4) nib_push [OF s(1) type_code_nibble, of t n] by (simp add: s(2) nib_or_type)
qed

text \<open>The signature of the r-th key goes to the fields \<open>q + 2 * r\<close> and the next, behind all keys.\<close>

lemma enter_keys_types:
  "enter_keys keys N out ks j (b, i) = Some s \<Longrightarrow> q = i + j + N \<Longrightarrow> empty_from q (b, i) \<Longrightarrow> length ks \<le> N \<Longrightarrow> q + 2 * length ks \<le> 16 \<Longrightarrow>
   empty_from (q + 2 * length ks) s \<and> snd s = i + length ks \<and>
   (\<forall>n. i + length ks \<le> n \<and> n < q \<longrightarrow> nib (f_type (fst s ! 0)) n = nib (f_type (b ! 0)) n) \<and>
   (\<forall>r < length ks. nib (f_type (fst s ! 0)) (q + 2 * r) = sign_code (out = Some (j + r)) \<and>
                     nib (f_type (fst s ! 0)) (Suc (q + 2 * r)) = sign_code (out = Some (j + r)))"
proof (induction ks arbitrary: b i j q)
  case (Cons k ks)
  let ?b = "set_types (sign_types (if out = Some j then XDAG_FIELD_SIGN_OUT else XDAG_FIELD_SIGN_IN) q) b"
  have q: "Suc q < 16" "i < q" "0 < i" "length b = 16" "q = i + j + N" using Cons.prems by auto
  obtain b1 i1 where 1: "setfld (pub_type (pk_pub (keys ! k))) (fst (pk_pub (keys ! k))) (?b, i) = Some (b1, i1)"
      "enter_keys keys N out ks (Suc j) (b1, i1) = Some s"
    using Cons.prems(1) unfolding q(5) by (auto simp: Let_def bind_eq_Some_conv)
  note e = set_sign_empty [OF Cons.prems(3) q(1), of "out = Some j"]
  have e1: "empty_from (q + 2) (b1, i1)" "i1 = Suc i" using empty_setfld [OF e(1) 1(1)] q(2) by auto
  have nib1: "nib (f_type (b1 ! 0)) n = (if n = q \<or> n = Suc q then sign_code (out = Some j) else nib (f_type (b ! 0)) n)" if "n \<noteq> i" for n
    using setfld_nib [OF 1(1) _ q(3) that] q(4) e(2) by simp
  have IH: "empty_from (q + 2 + 2 * length ks) s \<and> snd s = i1 + length ks \<and>
     (\<forall>n. i1 + length ks \<le> n \<and> n < q + 2 \<longrightarrow> nib (f_type (fst s ! 0)) n = nib (f_type (b1 ! 0)) n) \<and>
     (\<forall>r < length ks. nib (f_type (fst s ! 0)) (q + 2 + 2 * r) = sign_code (out = Some (Suc j + r)) \<and>
                       nib (f_type (fst s ! 0)) (Suc (q + 2 + 2 * r)) = sign_code (out = Some (Suc j + r)))"
    by (rule Cons.IH [OF 1(2)]) (use e1 q(5) Cons.prems(4,5) in auto)
  have low: "i1 + length ks \<le> q" using e1(2) q(5) Cons.prems(4) by simp
  show ?case
  proof (intro conjI allI impI)
    fix n assume "i + length (k # ks) \<le> n \<and> n < q"
    then show "nib (f_type (fst s ! 0)) n = nib (f_type (b ! 0)) n" using IH nib1 [of n] e1(2) by auto
  next
    fix r assume r: "r < length (k # ks)"
    show "nib (f_type (fst s ! 0)) (q + 2 * r) = sign_code (out = Some (j + r))"
      "nib (f_type (fst s ! 0)) (Suc (q + 2 * r)) = sign_code (out = Some (j + r))"
    proof -
      have "nib (f_type (fst s ! 0)) (q + 2 * r) = sign_code (out = Some (j + r)) \<and>
          nib (f_type (fst s ! 0)) (Suc (q + 2 * r)) = sign_code (out = Some (j + r))"
      proof (cases r)
        case 0
        then show ?thesis using IH nib1 [of q] nib1 [of "Suc q"] low q(2) by auto
      next
        case (Suc r')
        then have "r' < length ks" using r by simp
        with IH show ?thesis by (simp add: Suc)
      qed
      then show "nib (f_type (fst s ! 0)) (q + 2 * r) = sign_code (out = Some (j + r))"
        "nib (f_type (fst s ! 0)) (Suc (q + 2 * r)) = sign_code (out = Some (j + r))" by blast+
    qed
  qed (use IH e1(2) in auto)
qed auto

lemma setflds_pos: "setflds t srcs s = Some s' \<Longrightarrow> snd s' = snd s + length srcs"
proof (induction srcs arbitrary: s)
  case (Cons src srcs)
  obtain s1 where "setfld t src s = Some s1" "setflds t srcs s1 = Some s'"
    using Cons.prems by (auto simp: setflds_def bind_eq_Some_conv)
  then show ?case using Cons.IH [of s1] by (auto simp: setfld_def split: if_splits prod.splits)
qed (simp add: setflds_def)

lemma enter_keys_pos: "enter_keys keys N out ks j s = Some s' \<Longrightarrow> snd s' = snd s + length ks"
proof (induction ks arbitrary: s j)
  case (Cons k ks)
  obtain b i where s: "s = (b, i)" by fastforce
  obtain b1 i1 where "i1 = Suc i" "enter_keys keys N out ks (Suc j) (b1, i1) = Some s'"
    using Cons.prems unfolding s by (auto simp: Let_def bind_eq_Some_conv setfld_def split: if_splits)
  then show ?case using Cons.IH [of "Suc j" "(b1, i1)"] s by simp
next
  case Nil
  then show ?case by (cases s) simp
qed

section \<open>Signing\<close>

text \<open>The block with the fields from \<open>m\<close> on blanked: what is hashed for a signature at field \<open>m\<close>.\<close>

definition blank_from :: "nat \<Rightarrow> xdag_block \<Rightarrow> xdag_block" where
  "blank_from m b = map (\<lambda>n. if m \<le> n then (0, 0, 0, 0) else b ! n) [0..<16]"

lemma blank_from_cong: "(\<And>n. n < m \<Longrightarrow> n < 16 \<Longrightarrow> b ! n = b' ! n) \<Longrightarrow> blank_from m b = blank_from m b'"
  by (auto simp: blank_from_def)

lemma blank_from_blank: "length b = 16 \<Longrightarrow> (\<And>n. m \<le> n \<Longrightarrow> n < 16 \<Longrightarrow> b ! n = (0, 0, 0, 0)) \<Longrightarrow> blank_from m b = b"
  by (rule nth_equalityI) (auto simp: blank_from_def)

text \<open>Signing with each key works: the signature verifies.\<close>

definition signs :: "(nat \<Rightarrow> xdag_hash_t \<Rightarrow> (xdag_hash_t \<times> xdag_hash_t) option) \<Rightarrow> verifier \<Rightarrow> xdag_public_key \<Rightarrow> bool" where
  "signs sign verify k \<longleftrightarrow> (\<forall>h. \<exists>r s. sign (pk_key k) h = Some (r, s) \<and> \<not> verify (pk_pub k) h r s)"

lemma sign_all:
  "fold_opt (sign_at sign) ks (b, i) = Some (b', i') \<Longrightarrow> length b = 16 \<Longrightarrow> (\<And>n. i \<le> n \<Longrightarrow> n < 16 \<Longrightarrow> b ! n = (0, 0, 0, 0)) \<Longrightarrow>
   \<forall>k \<in> set ks. signs sign verify k \<Longrightarrow>
   length b' = 16 \<and> (\<forall>n < i. b' ! n = b ! n) \<and> (\<forall>n. i + 2 * length ks \<le> n \<and> n < 16 \<longrightarrow> b' ! n = (0, 0, 0, 0)) \<and>
   (ks \<noteq> [] \<longrightarrow> i + 2 * length ks \<le> 16) \<and>
   (\<forall>j < length ks. let m = i + 2 * j; pub = pk_pub (ks ! j) in
      \<not> verify pub (hash_for_signature (blank_from m b') pub) (b' ! m) (b' ! Suc m))"
proof (induction ks arbitrary: b i)
  case (Cons k ks)
  obtain r s where rs: "sign (pk_key k) (hash_for_signature b (pk_pub k)) = Some (r, s)"
      "\<not> verify (pk_pub k) (hash_for_signature b (pk_pub k)) r s"
    using Cons.prems(4) unfolding signs_def list.set by blast
  let ?b = "b[i := r, Suc i := s]"
  have step: "sign_at sign k (b, i) = (if Suc i < 16 then Some (?b, i + 2) else None)"
    using rs(1) by (simp add: sign_at_def XDAG_BLOCK_FIELDS_def)
  have i: "Suc i < 16" "fold_opt (sign_at sign) ks (?b, i + 2) = Some (b', i')"
    using Cons.prems(1) unfolding fold_opt.simps step by (auto split: if_splits)
  have IH: "length b' = 16 \<and> (\<forall>n < i + 2. b' ! n = ?b ! n) \<and> (\<forall>n. i + 2 + 2 * length ks \<le> n \<and> n < 16 \<longrightarrow> b' ! n = (0, 0, 0, 0)) \<and>
     (ks \<noteq> [] \<longrightarrow> i + 2 + 2 * length ks \<le> 16) \<and>
     (\<forall>j < length ks. let m = i + 2 + 2 * j; pub = pk_pub (ks ! j) in
        \<not> verify pub (hash_for_signature (blank_from m b') pub) (b' ! m) (b' ! Suc m))"
    by (rule Cons.IH [OF i(2)]) (use Cons.prems(2-4) in auto)
  have low: "b' ! n = b ! n" if "n < i" for n using IH that by simp
  have own: "b' ! i = r" "b' ! Suc i = s" using IH i(1) Cons.prems(2) by (simp_all add: nth_list_update)
  have "blank_from i b' = b" using blank_from_cong [of i b' b] low blank_from_blank [OF Cons.prems(2,3)] by simp
  then have first: "\<not> verify (pk_pub k) (hash_for_signature (blank_from i b') (pk_pub k)) (b' ! i) (b' ! Suc i)"
    using rs(2) own by simp
  have all: "let m = i + 2 * j; pub = pk_pub ((k # ks) ! j) in
      \<not> verify pub (hash_for_signature (blank_from m b') pub) (b' ! m) (b' ! Suc m)" if "j < length (k # ks)" for j
  proof (cases j)
    case (Suc j')
    then have "j' < length ks" using that by simp
    with IH have "let m = i + 2 + 2 * j'; pub = pk_pub (ks ! j') in
        \<not> verify pub (hash_for_signature (blank_from m b') pub) (b' ! m) (b' ! Suc m)" by blast
    then show ?thesis by (simp add: Suc)
  qed (use first in simp)
  show ?case using IH low all i(1) by (cases "ks = []") auto
qed auto

lemma sign_all_pos:
  "fold_opt (sign_at sign) ks (b, i) = Some (b', i') \<Longrightarrow> i' = i + 2 * length ks \<and> (ks \<noteq> [] \<longrightarrow> i' \<le> 16)"
proof (induction ks arbitrary: b i)
  case (Cons k ks)
  obtain b1 where "Suc i < 16" "fold_opt (sign_at sign) ks (b1, i + 2) = Some (b', i')"
    using Cons.prems unfolding fold_opt.simps bind_eq_Some_conv
    by (auto simp: sign_at_def XDAG_BLOCK_FIELDS_def split: if_splits option.splits)
  then show ?case using Cons.IH [of b1 "i + 2"] by (cases "ks = []") auto
qed simp

lemma fold_opt_map: "fold_opt f (map g xs) s = fold_opt (\<lambda>x. f (g x)) xs s"
  by (induction xs arbitrary: s) (simp_all split: Option.bind_split)

lemma fold_opt_snoc: "fold_opt f (xs @ [y]) s = fold_opt f xs s \<bind> f y"
  by (induction xs arbitrary: s) (simp_all split: Option.bind_split)

lemma find_not_None: "List.find P xs \<noteq> None \<longleftrightarrow> (\<exists>x \<in> set xs. P x)"
  by (auto simp: find_None_iff)

text \<open>
  The check of one signature of a signed block: the fields of the signatures,
  from \<open>p\<close> to \<open>e\<close>, carry the types of signatures in pairs, what follows is empty,
  and the last field may have been replaced by a nonce.
\<close>

lemma signed_field_valid:
  assumes b: "length b = 16" "0 < p" "e \<le> 16" and m: "m = p + 2 * j" "Suc m < e"
    and codes: "\<And>n. p \<le> n \<Longrightarrow> n < e \<Longrightarrow> nib (f_type (b ! 0)) n \<in> {4, 5}"
      "nib (f_type (b ! 0)) (Suc m) = nib (f_type (b ! 0)) m"
    and rest: "\<And>n. e \<le> n \<Longrightarrow> n < 16 \<Longrightarrow> nib (f_type (b ! 0)) n \<in> {0, 4}" "\<And>n. e \<le> n \<Longrightarrow> n < 16 \<Longrightarrow> b ! n = (0, 0, 0, 0)"
    and b': "b' = b \<or> e \<le> 15 \<and> field_type b 15 = XDAG_FIELD_SIGN_IN \<and> b' = b[15 := x]"
    and ver: "\<not> verify (pk_pub k) (hash_for_signature (blank_from m b) (pk_pub k)) (b ! m) (b ! Suc m)" "k \<in> set ks"
  shows "valid_signature verify b' m ks \<noteq> None"
proof -
  have pm: "p \<le> m" using m(1) by simp
  have nth: "b' ! 0 = b ! 0" "\<And>n. n < e \<Longrightarrow> n < 15 \<Longrightarrow> b' ! n = b ! n" "\<And>n. n < 15 \<Longrightarrow> b' ! n = b ! n"
    "b' ! m = b ! m" "b' ! Suc m = b ! Suc m" "b' ! 15 = b ! 15 \<or> e \<le> 15 \<and> field_type b 15 = XDAG_FIELD_SIGN_IN"
    using b' b(1) m(2) by auto
  have ty: "field_type b' n = field_type b n" "xdag_type b' n = xdag_type b n" for n using nth(1) by (simp_all add: field_type_nib xdag_type_def)
  have sg: "is_sign (field_type b n)" if "p \<le> n" "n < e" for n
    using codes(1) [OF that] by (auto simp: field_type_nib field_types_def is_sign_def)
  have "xdag_type b (Suc m) = xdag_type b m" using codes(2) by (simp add: xdag_type_def nib_def)
  moreover have "is_sign (field_type b (Suc m))" using sg m pm by simp
  ultimately have s: "find_signo_s b' m = Some (Suc m)"
    using m(2) b(3) ty by (simp add: find_signo_s_def XDAG_BLOCK_FIELDS_def upt_rec)
  have u: "unsigned_copy b' m = blank_from m b"
  proof (rule nth_equalityI)
    fix n assume "n < length (unsigned_copy b' m)"
    then have n: "n < 16" by (simp add: unsigned_copy_def XDAG_BLOCK_FIELDS_def)
    then have un: "unsigned_copy b' m ! n = (if m \<le> n \<and> is_sign (field_type b n) then (0, 0, 0, 0) else b' ! n)"
      "blank_from m b ! n = (if m \<le> n then (0, 0, 0, 0) else b ! n)"
      by (simp_all add: unsigned_copy_def blank_from_def XDAG_BLOCK_FIELDS_def ty)
    consider "n < m" | "m \<le> n" "n < e" | "m \<le> n" "e \<le> n" "n < 15" | "m \<le> n" "e \<le> n" "n = 15" using n by linarith
    then show "unsigned_copy b' m ! n = blank_from m b ! n"
    proof cases
      case 1
      then show ?thesis using un nth(3) [of n] m(2) b(3) by simp
    next
      case 2
      then show ?thesis using un sg [of n] pm by simp
    next
      case 3
      then show ?thesis using un nth(3) rest(2) n by simp
    next
      case 4
      then show ?thesis using un nth(6) rest(2) [of 15] by (auto simp: is_sign_def)
    qed
  qed (simp add: unsigned_copy_def blank_from_def XDAG_BLOCK_FIELDS_def)
  obtain a where a: "a < length ks" "ks ! a = k" using ver(2) by (auto simp: in_set_conv_nth)
  have "\<exists>a \<in> set [0..<length ks]. let key = pk_pub (ks ! a) in
      \<not> verify key (hash_for_signature (unsigned_copy b' m) key) (b' ! m) (b' ! Suc m)"
    using a ver(1) by (auto simp: Let_def u nth(4,5))
  then show ?thesis unfolding valid_signature_def s option.case find_not_None .
qed

section \<open>The signatures of a created block\<close>

text \<open>The number of the field behind the keys, where the signatures begin.\<close>

definition sign_position :: "wallet_view \<Rightarrow> create_request \<Rightarrow> nat list \<Rightarrow> bool \<Rightarrow> u64 \<Rightarrow> ptr option \<Rightarrow> nat \<Rightarrow> xdag_state \<Rightarrow> nat" where
  "sign_position w req keysnum mining send_time pretop res st =
     1 + length (refer_fields mining send_time pretop res st) + length (cr_inputs req) + length (cr_outputs req) +
     (if cr_remark req \<noteq> None then 1 else 0) + (if mining \<and> wv_pool_tag w \<noteq> None then 1 else 0) + length keysnum"

text \<open>The keys that sign, in order: those of the inputs, and the default key at the end unless it is one of them.\<close>

definition signers :: "wallet_view \<Rightarrow> nat list \<Rightarrow> nat option \<Rightarrow> xdag_public_key list" where
  "signers w keysnum outsig = map ((!) (wv_keys w)) keysnum @ (if outsig = None then [last (wv_keys w)] else [])"

definition out_index :: "nat list \<Rightarrow> nat option \<Rightarrow> nat" where
  "out_index keysnum outsig = (case outsig of None \<Rightarrow> length keysnum | Some j \<Rightarrow> j)"

lemma choose_keys_index:
  "choose_keys st d fs ks out = Some (ks', out') \<Longrightarrow> \<forall>j. out = Some j \<longrightarrow> j < length ks \<and> ks ! j = d \<Longrightarrow>
   \<forall>j. out' = Some j \<longrightarrow> j < length ks' \<and> ks' ! j = d"
proof (induction fs arbitrary: ks out)
  case (Cons f fs)
  then obtain p where p: "block_by_hash (f_hash f) st = Some p" "has_flag (cell st p) BI_OURS" by (auto split: option.splits if_splits)
  define k where "k = unat (bi_n_our_key (cell st p))"
  show ?case
  proof (cases "k \<in> set ks")
    case True
    then show ?thesis using Cons p by (simp add: k_def)
  next
    case False
    let ?out = "if out = None \<and> k = d then Some (length ks) else out"
    have "choose_keys st d fs (ks @ [k]) ?out = Some (ks', out')" using Cons.prems(1) p False by (simp add: k_def Let_def)
    moreover have "\<forall>j. ?out = Some j \<longrightarrow> j < length (ks @ [k]) \<and> (ks @ [k]) ! j = d"
      using Cons.prems(2) by (auto simp: nth_append)
    ultimately show ?thesis by (rule Cons.IH)
  qed
qed auto

lemma build_block_signed:
  assumes "build_block w req keysnum outsig mining send_time pretop res st = Some b" "g_block_header_type st < 16" "wv_keys w \<noteq> []"
    and ne: "signers w keysnum outsig \<noteq> []"
    and p: "p = sign_position w req keysnum mining send_time pretop res st"
  shows "\<exists>b0. empty_from (p + 2 * length (signers w keysnum outsig)) (b0, p) \<and>
    (\<forall>r < length (signers w keysnum outsig).
       nib (f_type (b0 ! 0)) (p + 2 * r) = sign_code (r = out_index keysnum outsig) \<and>
       nib (f_type (b0 ! 0)) (Suc (p + 2 * r)) = sign_code (r = out_index keysnum outsig)) \<and>
    fold_opt (sign_at (wv_sign w)) (signers w keysnum outsig) (b0, p) = Some (b, p + 2 * length (signers w keysnum outsig))"
proof -
  let ?n = "length keysnum" and ?ks = "signers w keysnum outsig"
  define b7 where "b7 = (\<lambda>b6 i6. if outsig = None then set_types (sign_types XDAG_FIELD_SIGN_OUT (i6 + ?n + ?n)) b6 else b6)"
  obtain s1 s2 s3 s4 s5 b6 i6 s8 s9 where run:
    "setflds XDAG_FIELD_OUT (refer_fields mining send_time pretop res st)
       (new_header (g_block_header_type st) mining send_time (cr_fee req), 1) = Some s1"
    "setflds XDAG_FIELD_IN (cr_inputs req) s1 = Some s2" "setflds XDAG_FIELD_OUT (cr_outputs req) s2 = Some s3"
    "setflds XDAG_FIELD_REMARK (case cr_remark req of Some r \<Rightarrow> [r] | None \<Rightarrow> []) s3 = Some s4"
    "setflds XDAG_FIELD_REMARK (if mining then (case wv_pool_tag w of Some r \<Rightarrow> [r] | None \<Rightarrow> []) else []) s4 = Some s5"
    "enter_keys (wv_keys w) ?n outsig keysnum 0 s5 = Some (b6, i6)"
    "fold_opt (\<lambda>k. sign_at (wv_sign w) (wv_keys w ! k)) keysnum (b7 b6 i6, i6) = Some s8"
    "(if outsig = None then do { k \<leftarrow> default_key w; sign_at (wv_sign w) k s8 } else Some s8) = Some s9" "b = fst s9"
    using assms(1) unfolding build_block_def by (auto simp: bind_eq_Some_conv Let_def b7_def)
  obtain R where R: "R = length (case cr_remark req of Some r \<Rightarrow> [r] | None \<Rightarrow> [])" by blast
  obtain T where T: "T = length (if mining then (case wv_pool_tag w of Some r \<Rightarrow> [r] | None \<Rightarrow> []) else [])" by blast
  have RT: "(if cr_remark req \<noteq> None then 1 else 0) = R" "(if mining \<and> wv_pool_tag w \<noteq> None then 1 else 0) = T"
    unfolding R T by (auto split: option.splits)
  have sum: "p = 1 + length (refer_fields mining send_time pretop res st) + length (cr_inputs req) + length (cr_outputs req) + R + T + ?n"
    unfolding p sign_position_def RT ..
  note pos = setflds_pos [OF run(1), unfolded snd_conv] setflds_pos [OF run(2)] setflds_pos [OF run(3)]
    setflds_pos [OF run(4), folded R] setflds_pos [OF run(5), folded T] enter_keys_pos [OF run(6), unfolded snd_conv]
  have i6: "i6 = p" "snd s5 + ?n = p" using pos sum by linarith+
  have "fold_opt (sign_at (wv_sign w)) ?ks (b7 b6 i6, i6) = Some s9"
  proof (cases outsig)
    case None
    then show ?thesis using run(7,8) assms(3) by (simp add: signers_def fold_opt_snoc fold_opt_map default_key_def)
  next
    case (Some j)
    then show ?thesis using run(7,8) by (simp add: signers_def fold_opt_map)
  qed
  then have signed: "fold_opt (sign_at (wv_sign w)) ?ks (b7 b6 p, p) = Some (b, snd s9)" using run(9) i6(1) by simp
  note e = sign_all_pos [OF signed]
  have e0: "empty_from p (new_header (g_block_header_type st) mining send_time (cr_fee req), 1)"
    by (rule empty_header [OF assms(2)]) (use sum in linarith)
  have step: "empty_from p s \<Longrightarrow> setflds t srcs s = Some s' \<Longrightarrow> snd s + length srcs \<le> p \<Longrightarrow> empty_from p s'" for t srcs s s'
    using empty_setflds [of p "fst s" "snd s" t srcs s'] by simp
  have e1: "empty_from p s1" by (rule step [OF e0 run(1)]) (use sum in \<open>unfold snd_conv, linarith\<close>)
  have e2: "empty_from p s2" by (rule step [OF e1 run(2)]) (use pos sum in linarith)
  have e3: "empty_from p s3" by (rule step [OF e2 run(3)]) (use pos sum in linarith)
  have e4: "empty_from p s4" by (rule step [OF e3 run(4), folded R]) (use pos sum in linarith)
  have e5: "empty_from p s5" by (rule step [OF e4 run(5), folded T]) (use pos sum in linarith)
  have len: "length ?ks = ?n + (if outsig = None then 1 else 0)" by (simp add: signers_def)
  have bound: "p + 2 * length ?ks \<le> 16" using e ne by simp
  have keys: "empty_from (p + 2 * ?n) (b6, p)"
    "\<And>r. r < ?n \<Longrightarrow> nib (f_type (b6 ! 0)) (p + 2 * r) = sign_code (outsig = Some r) \<and> nib (f_type (b6 ! 0)) (Suc (p + 2 * r)) = sign_code (outsig = Some r)"
  proof -
    have "p = snd s5 + 0 + ?n" "p + 2 * ?n \<le> 16" using i6(2) bound len by simp_all
    note t = enter_keys_types [of "wv_keys w" ?n outsig keysnum 0 "fst s5" "snd s5" "(b6, i6)" p, unfolded prod.collapse, OF run(6) this(1) e5 order_refl this(2)]
    show "empty_from (p + 2 * ?n) (b6, p)" using conjunct1 [OF t] unfolding i6(1) .
    show "nib (f_type (b6 ! 0)) (p + 2 * r) = sign_code (outsig = Some r) \<and> nib (f_type (b6 ! 0)) (Suc (p + 2 * r)) = sign_code (outsig = Some r)"
      if "r < ?n" for r using conjunct2 [OF conjunct2 [OF conjunct2 [OF t]]] that by (simp only: fst_conv add_0 simp_thms)
  qed
  have "empty_from (p + 2 * length ?ks) (b7 b6 p, p) \<and>
    (\<forall>r < length ?ks. nib (f_type (b7 b6 p ! 0)) (p + 2 * r) = sign_code (r = out_index keysnum outsig) \<and>
       nib (f_type (b7 b6 p ! 0)) (Suc (p + 2 * r)) = sign_code (r = out_index keysnum outsig))"
  proof (cases outsig)
    case None
    have q: "Suc (p + 2 * ?n) < 16" using bound len None by simp
    have b7: "b7 b6 p = set_types (sign_types (if True then XDAG_FIELD_SIGN_OUT else XDAG_FIELD_SIGN_IN) (p + 2 * ?n)) b6"
      using None by (simp add: b7_def mult_2 add.assoc)
    note o = set_sign_empty [OF keys(1) q, of True, folded b7]
    have "empty_from (p + 2 * length ?ks) (b7 b6 p, p)" using o(1) len None by simp
    moreover have "nib (f_type (b7 b6 p ! 0)) (p + 2 * r) = sign_code (r = ?n) \<and> nib (f_type (b7 b6 p ! 0)) (Suc (p + 2 * r)) = sign_code (r = ?n)"
      if "r < length ?ks" for r
      using that keys(2) [of r] None len unfolding o(2) by (cases "r = ?n") simp_all
    ultimately show ?thesis using None by (simp add: out_index_def)
  next
    case (Some j)
    have c: "b7 b6 p = b6" "length ?ks = ?n" "out_index keysnum outsig = j" "\<And>r. outsig = Some r \<longleftrightarrow> r = j"
      using Some len by (auto simp: b7_def out_index_def)
    then show ?thesis using keys unfolding c by blast
  qed
  then show ?thesis using signed unfolding conjunct1 [OF e] by blast
qed

text \<open>
  C6: every signature of a block that a node builds passes the check that the
  acceptance of blocks applies to it.  The signatures follow the keys, one for
  each key of the inputs and one of the default key unless it is a key of an
  input; the fields of each carry the type of an output signature for the
  default key and of an input signature for the other keys; and the pair of
  fields is checked against the block with all signatures from it on blanked,
  which is the block that was signed.  They stay valid whatever nonce is put
  into the last field, when that field is reserved for it and the signatures end
  before it.
\<close>

theorem created_block_signatures:
  assumes "choose_keys st0 (length (wv_keys w) - 1) (cr_inputs req) [] None = Some (keysnum, outsig)"
    and "build_block w req keysnum outsig mining send_time pretop res st = Some b"
    and "g_block_header_type st < 16" "wv_keys w \<noteq> []" "\<forall>k \<in> set (signers w keysnum outsig). signs (wv_sign w) verify k"
    and "p = sign_position w req keysnum mining send_time pretop res st" "e = p + 2 * length (signers w keysnum outsig)"
    and "j < length (signers w keysnum outsig)" "signers w keysnum outsig ! j \<in> set ks"
  shows "signers w keysnum outsig ! out_index keysnum outsig = last (wv_keys w) \<and> e \<le> 16 \<and>
    field_type b (p + 2 * j) = (if j = out_index keysnum outsig then XDAG_FIELD_SIGN_OUT else XDAG_FIELD_SIGN_IN) \<and>
    valid_signature verify b (p + 2 * j) ks \<noteq> None \<and>
    (e \<le> 15 \<and> field_type b 15 = XDAG_FIELD_SIGN_IN \<longrightarrow> (\<forall>x. valid_signature verify (b[15 := x]) (p + 2 * j) ks \<noteq> None))"
proof -
  let ?ks = "signers w keysnum outsig" and ?o = "out_index keysnum outsig"
  have ne: "?ks \<noteq> []" using assms(8) by auto
  obtain b0 where b0: "empty_from (p + 2 * length ?ks) (b0, p)"
    "\<And>r. r < length ?ks \<Longrightarrow> nib (f_type (b0 ! 0)) (p + 2 * r) = sign_code (r = ?o) \<and> nib (f_type (b0 ! 0)) (Suc (p + 2 * r)) = sign_code (r = ?o)"
    "fold_opt (sign_at (wv_sign w)) ?ks (b0, p) = Some (b, p + 2 * length ?ks)"
    using build_block_signed [OF assms(2-4) ne assms(6)] by blast
  have e0: "length b0 = 16" "1 \<le> p" "\<And>n. p \<le> n \<Longrightarrow> n < 16 \<Longrightarrow> b0 ! n = (0, 0, 0, 0)"
    "\<And>n. e \<le> n \<Longrightarrow> n < 16 \<Longrightarrow> nib (f_type (b0 ! 0)) n \<in> {0, 4}" using b0(1) assms(7) by auto
  note S = sign_all [OF b0(3) e0(1,3) assms(5)]
  have b: "length b = 16" "b ! 0 = b0 ! 0" "\<And>n. e \<le> n \<Longrightarrow> n < 16 \<Longrightarrow> b ! n = (0, 0, 0, 0)" "e \<le> 16"
    using S e0(2) ne assms(7) by auto
  have ver: "\<not> verify (pk_pub (?ks ! j)) (hash_for_signature (blank_from (p + 2 * j) b) (pk_pub (?ks ! j))) (b ! (p + 2 * j)) (b ! Suc (p + 2 * j))"
    using S assms(8) by (auto simp: Let_def)
  have codes: "nib (f_type (b ! 0)) n \<in> {4, 5}" if "p \<le> n" "n < e" for n
  proof -
    have "n = p + 2 * ((n - p) div 2) \<or> n = Suc (p + 2 * ((n - p) div 2))" using that by presburger
    moreover have "(n - p) div 2 < length ?ks" using that assms(7) by linarith
    ultimately show ?thesis using b0(2) [of "(n - p) div 2"] b(2) by (auto simp: sign_code_def)
  qed
  have valid: "valid_signature verify b' (p + 2 * j) ks \<noteq> None"
    if "b' = b \<or> e \<le> 15 \<and> field_type b 15 = XDAG_FIELD_SIGN_IN \<and> b' = b[15 := x]" for b' x
  proof (rule signed_field_valid [where e = e and p = p and j = j and x = x])
    show "nib (f_type (b ! 0)) n \<in> {0, 4}" if "e \<le> n" "n < 16" for n using e0(4) [OF that] b(2) by simp
  qed (use that b codes ver e0(2) b0(2) [OF assms(8)] assms(7-9) in simp_all)
  have ty: "field_type b (p + 2 * j) = (if j = ?o then XDAG_FIELD_SIGN_OUT else XDAG_FIELD_SIGN_IN)"
    using b0(2) [OF assms(8)] b(2) by (simp add: field_type_nib sign_code_def field_types_def)
  have "?ks ! ?o = last (wv_keys w)"
  proof (cases outsig)
    case (Some j)
    then have "j < length keysnum \<and> keysnum ! j = length (wv_keys w) - 1"
      using choose_keys_index [OF assms(1)] by auto
    then show ?thesis using assms(4) Some by (simp add: signers_def out_index_def last_conv_nth)
  qed (simp add: signers_def out_index_def nth_append)
  then show ?thesis using ty valid [of b] valid b(4) by blast
qed

definition example_key :: xdag_public_key where
  "example_key = \<lparr>pk_key = 7, pk_pub = ((1, 2, 3, 4), True)\<rparr>"

definition example_wallet :: wallet_view where
  "example_wallet = \<lparr>wv_keys = [example_key], wv_sign = (\<lambda>key h. Some (h, (of_nat key, 0, 0, 0))), wv_pool_tag = None\<rparr>"

definition example_request :: create_request where
  "example_request = \<lparr>cr_inputs = [], cr_outputs = [], cr_remark = Some (9, 9, 9, 9), cr_fee = 0\<rparr>"

theorem created_block_signatures_witness:
  "\<exists>b. build_block example_wallet example_request [] None True 0x4ffff (Some 2) 5 three_blocks = Some b \<and>
     field_type b 3 = XDAG_FIELD_SIGN_OUT \<and> valid_signature (\<lambda>key h r s. r \<noteq> h) b 3 [example_key] \<noteq> None"
proof -
  let ?build = "build_block example_wallet example_request [] None True 0x4ffff (Some 2) 5 three_blocks"
  let ?pos = "sign_position example_wallet example_request [] True 0x4ffff (Some 2) 5 three_blocks"
  note defs = example_wallet_def example_request_def example_defs is_wallet_def refer_fields_def
  have pos: "3 = ?pos" by (simp add: sign_position_def defs XDAG_BLOCK_FIELDS_def)
  have "?build \<noteq> None"
    by (simp add: build_block_def defs setflds_def setfld_def sign_at_def default_key_def XDAG_BLOCK_FIELDS_def new_header_def Let_def)
  then obtain b where b: "?build = Some b" by blast
  have ks: "choose_keys three_blocks (length (wv_keys example_wallet) - 1) (cr_inputs example_request) [] None = Some ([], None)"
    by (simp add: example_request_def)
  have sg: "signers example_wallet [] None = [example_key]" by (simp add: signers_def example_wallet_def)
  have sgn: "\<forall>k \<in> set (signers example_wallet [] None). signs (wv_sign example_wallet) (\<lambda>key h r s. r \<noteq> h) k"
    by (simp add: sg signs_def example_wallet_def)
  have "g_block_header_type three_blocks < 16" "wv_keys example_wallet \<noteq> []" by (simp_all add: example_wallet_def example_defs)
  note w = created_block_signatures [OF ks b this sgn pos refl, of 0 "[example_key]", unfolded sg]
  show ?thesis using b w by (simp add: out_index_def)
qed

end
