(* ===== verification/Storage.thy ===== *)
theory Storage
  imports Block_Cache
begin

text \<open>
  client/storage.c: the blocks of one time frame are appended to a file of their
  own; every directory level has a file with the sums of what lies below it.
  The four levels of directories are named by the upper bytes of the time.
\<close>

section \<open>Model\<close>

text \<open>
  The paths, with the bits of the time that occur in the name.  The upper part
  of a time is printed in full, so different arguments give different names.
\<close>

datatype storage_path = STORAGE_DIR0 | STORAGE_DIR1 u64 | STORAGE_DIR2 u64 | STORAGE_DIR3 u64 | STORAGE_FILE u64

abbreviation STORAGE_DIR1_ARGS :: "u64 \<Rightarrow> storage_path" where "STORAGE_DIR1_ARGS t \<equiv> STORAGE_DIR1 (drop_bit 40 t)"
abbreviation STORAGE_DIR2_ARGS :: "u64 \<Rightarrow> storage_path" where "STORAGE_DIR2_ARGS t \<equiv> STORAGE_DIR2 (drop_bit 32 t)"
abbreviation STORAGE_DIR3_ARGS :: "u64 \<Rightarrow> storage_path" where "STORAGE_DIR3_ARGS t \<equiv> STORAGE_DIR3 (drop_bit 24 t)"
abbreviation STORAGE_FILE_ARGS :: "u64 \<Rightarrow> storage_path" where "STORAGE_FILE_ARGS t \<equiv> STORAGE_FILE (drop_bit 16 t)"

record xdag_storage_sum =
  sum_sum :: u64
  sum_size :: u64

text \<open>
  The disk: the directories that exist, the bytes of the block files, and the
  entries of the file \<open>sums.dat\<close> of a directory.
\<close>

record disk =
  dk_dirs :: "storage_path \<Rightarrow> bool"
  dk_blocks :: "storage_path \<Rightarrow> u8 list option"
  dk_sums :: "storage_path \<Rightarrow> xdag_storage_sum list option"

text \<open>
  What the operating system does with a write: it succeeds, the file cannot be
  opened, or only the first part of the data is written.
\<close>

datatype io_result = Io_ok | Io_no_open | Io_short nat

definition zero_sum :: xdag_storage_sum where "zero_sum = \<lparr>sum_sum = 0, sum_size = 0\<rparr>"

definition write_over :: "'a list \<Rightarrow> nat \<Rightarrow> 'a list \<Rightarrow> 'a list" where
  "write_over old n new = take n new @ drop n old"

text \<open>
  A sums file that is there is opened for reading and writing, one that is not is
  created; that an existing file cannot be opened is not modelled.
\<close>

definition correct_storage_sum ::
  "(storage_path \<Rightarrow> io_result) \<Rightarrow> storage_path \<Rightarrow> nat \<Rightarrow> xdag_storage_sum \<Rightarrow> bool \<Rightarrow> disk \<Rightarrow> int \<times> disk" where
  "correct_storage_sum io name pos s add d =
     (let old = (case dk_sums d name of Some e \<Rightarrow> e | None \<Rightarrow> []);
          sums = (case dk_sums d name of Some e \<Rightarrow> take 256 e | None \<Rightarrow> replicate 256 zero_sum);
          created = (if dk_sums d name = None then d\<lparr>dk_sums := (dk_sums d)(name \<mapsto> [])\<rparr> else d)
      in if dk_sums d name \<noteq> None \<and> length sums \<noteq> 256 then (- 1, d)
         else if dk_sums d name = None \<and> (io name = Io_no_open \<or> \<not> dk_dirs d name) then (- 1, d)
         else if \<not> add \<and> sums ! pos = s then (0, created)
         else
           (let e = (if \<not> add then zero_sum else sums ! pos);
                new = sums[pos := \<lparr>sum_sum = sum_sum e + sum_sum s, sum_size = sum_size e + sum_size s\<rparr>]
            in case io name of
                 Io_short n \<Rightarrow> (- 1, d\<lparr>dk_sums := (dk_sums d)(name \<mapsto> write_over old (min n 255) new)\<rparr>)
               | _ \<Rightarrow> (1, d\<lparr>dk_sums := (dk_sums d)(name \<mapsto> write_over old 256 new)\<rparr>)))"

definition byte_at :: "nat \<Rightarrow> u64 \<Rightarrow> nat" where
  "byte_at n t = unat (drop_bit n t AND 0xff)"

definition correct_storage_sums ::
  "(storage_path \<Rightarrow> io_result) \<Rightarrow> u64 \<Rightarrow> xdag_storage_sum \<Rightarrow> bool \<Rightarrow> disk \<Rightarrow> int \<times> disk" where
  "correct_storage_sums io t s add d =
     (let (res, d) = correct_storage_sum io (STORAGE_DIR3_ARGS t) (byte_at 16 t) s add d in
      if res \<le> 0 then (res, d) else
      let (res, d) = correct_storage_sum io (STORAGE_DIR2_ARGS t) (byte_at 24 t) s True d in
      if res \<le> 0 then (res, d) else
      let (res, d) = correct_storage_sum io (STORAGE_DIR1_ARGS t) (byte_at 32 t) s True d in
      if res \<le> 0 then (res, d) else
      let (res, d) = correct_storage_sum io STORAGE_DIR0 (byte_at 40 t) s True d in
      if res \<le> 0 then (res, d) else (0, d))"

text \<open>The sum of the words of a block.\<close>

fun field_sum :: "xdag_field \<Rightarrow> u64" where
  "field_sum (a, b, c, d) = a + b + c + d"

definition block_sum :: "xdag_block \<Rightarrow> xdag_storage_sum" where
  "block_sum b = \<lparr>sum_sum = sum_list (map field_sum b), sum_size = 512\<rparr>"

text \<open>\<open>io_mkdir\<close> tells whether a missing directory can be created; the fields are -1 for an error.\<close>

definition make_dirs :: "(storage_path \<Rightarrow> bool) \<Rightarrow> u64 \<Rightarrow> disk \<Rightarrow> disk" where
  "make_dirs io_mkdir t d =
     d\<lparr>dk_dirs := fold (\<lambda>p dirs. dirs(p := dirs p \<or> io_mkdir p))
         [STORAGE_DIR0, STORAGE_DIR1_ARGS t, STORAGE_DIR2_ARGS t, STORAGE_DIR3_ARGS t] (dk_dirs d)\<rparr>"

definition xdag_storage_save ::
  "(storage_path \<Rightarrow> bool) \<Rightarrow> (storage_path \<Rightarrow> io_result) \<Rightarrow> xdag_block \<Rightarrow> disk \<Rightarrow> int \<times> disk" where
  "xdag_storage_save io_mkdir io b d =
     (let t = f_time (b ! 0); d = make_dirs io_mkdir t d; name = STORAGE_FILE_ARGS t;
          old = (case dk_blocks d name of Some bs \<Rightarrow> bs | None \<Rightarrow> [])
      in if io name = Io_no_open \<or> \<not> dk_dirs d (STORAGE_DIR3_ARGS t) then (- 1, d)
         else
           (let n = (case io name of Io_short n \<Rightarrow> min n 511 | _ \<Rightarrow> 512);
                d = d\<lparr>dk_blocks := (dk_blocks d)(name \<mapsto> old @ take n (block_bytes b))\<rparr>;
                (res, d) = correct_storage_sums io t (block_sum b) True d
            in (if res \<noteq> 0 then - 1 else int (length old), d)))"

text \<open>Reading: a record of 512 bytes at a position, as a block.\<close>

definition block_of_bytes :: "u8 list \<Rightarrow> xdag_block" where
  "block_of_bytes bs = map (\<lambda>i. hash_of_bytes (take 32 (drop (32 * i) bs))) [0..<16]"

definition read_block :: "u8 list \<Rightarrow> nat \<Rightarrow> xdag_block option" where
  "read_block bs pos = (if pos + 512 \<le> length bs then Some (block_of_bytes (take 512 (drop pos bs))) else None)"

text \<open>
  The second result: the blocks engine is told to reset.  A position from 2^63 on
  is a negative offset, which \<open>fseek\<close> refuses.
\<close>

definition xdag_storage_load :: "disk \<Rightarrow> xdag_hash_t \<Rightarrow> u64 \<Rightarrow> u64 \<Rightarrow> xdag_block option \<times> bool" where
  "xdag_storage_load d hash t pos =
     (let buf = (case dk_blocks d (STORAGE_FILE_ARGS t) of
                   Some bs \<Rightarrow> if pos < 2 ^ 63 then read_block bs (unat pos) else None
                 | None \<Rightarrow> None);
          buf = (case buf of
                   Some b \<Rightarrow> if hashlow hash = hashlow (hash_data (block_bytes b)) then Some b else None
                 | None \<Rightarrow> None)
      in (buf, buf = None))"

section \<open>Loading all blocks of an interval\<close>

definition bufsize :: nat where "bufsize = 2048"

text \<open>The complete records from a position on, at most \<open>n\<close> of them.\<close>

fun read_blocks :: "nat \<Rightarrow> u8 list \<Rightarrow> nat \<Rightarrow> xdag_block list" where
  "read_blocks 0 bs pos = []"
| "read_blocks (Suc n) bs pos =
     (case read_block bs pos of Some b \<Rightarrow> b # read_blocks n bs (pos + 512) | None \<Rightarrow> [])"

definition add_sum :: "xdag_storage_sum \<Rightarrow> xdag_storage_sum \<Rightarrow> xdag_storage_sum" where
  "add_sum s u = \<lparr>sum_sum = sum_sum s + sum_sum u, sum_size = sum_size s + sum_size u\<rparr>"

definition in_interval :: "u64 \<Rightarrow> u64 \<Rightarrow> xdag_block \<Rightarrow> bool" where
  "in_interval start_time end_time b \<longleftrightarrow> f_time (b ! 0) \<ge> start_time \<and> f_time (b ! 0) < end_time"

text \<open>
  The blocks of a buffer in the interval, with their positions, in the order of
  time.  (\<open>qsort\<close> leaves the order of equal times open; the model keeps the order
  of the file.)
\<close>

definition pick_blocks :: "u64 \<Rightarrow> u64 \<Rightarrow> nat \<Rightarrow> xdag_block list \<Rightarrow> (xdag_block \<times> nat) list" where
  "pick_blocks start_time end_time pos buf =
     sort_key (\<lambda>(b, p). f_time (b ! 0)) (filter (\<lambda>(b, p). in_interval start_time end_time b)
       (zip buf (map (\<lambda>i. pos + 512 * i) [0..<length buf])))"

text \<open>The callback gets the block with its position in the transport header; True stops the loading.\<close>

fun call_all ::
  "(xdag_block \<Rightarrow> 's \<Rightarrow> ('s \<times> bool) option) \<Rightarrow> (xdag_block \<times> nat) list \<Rightarrow> nat \<Rightarrow> 's \<Rightarrow> ('s \<times> nat \<times> bool) option" where
  "call_all callback [] n s = Some (s, n, False)"
| "call_all callback ((b, p) # bs) n s =
     do {
       (s, stop) \<leftarrow> callback (b[0 := f_set_transport_header (of_nat p) (b ! 0)]) s;
       if stop then Some (s, n, True) else call_all callback bs (Suc n) s
     }"

text \<open>How far the time moves when a file is done or missing.\<close>

definition skip_mask :: "disk \<Rightarrow> u64 \<Rightarrow> bool \<Rightarrow> u64" where
  "skip_mask d t f =
     (if f \<or> dk_dirs d (STORAGE_DIR3_ARGS t) then 2 ^ 16 - 1
      else if dk_dirs d (STORAGE_DIR2_ARGS t) then 2 ^ 24 - 1
      else if dk_dirs d (STORAGE_DIR1_ARGS t) then 2 ^ 32 - 1
      else 2 ^ 40 - 1)"

partial_function (option) load_loop ::
  "(storage_path \<Rightarrow> io_result) \<Rightarrow> (xdag_block \<Rightarrow> 's \<Rightarrow> ('s \<times> bool) option) \<Rightarrow> u64 \<Rightarrow> u64 \<Rightarrow> nat \<Rightarrow> xdag_storage_sum \<Rightarrow> nat \<Rightarrow> 's \<Rightarrow> disk
   \<Rightarrow> (nat \<times> 's \<times> disk) option" where
  "load_loop io callback start_time end_time pos s n x d =
     (if \<not> start_time < end_time then Some (n, x, d)
      else
        (let file = dk_blocks d (STORAGE_FILE_ARGS start_time);
             buf = (case file of Some bs \<Rightarrow> read_blocks bufsize bs pos | None \<Rightarrow> []);
             picked = pick_blocks start_time end_time pos buf;
             s = fold (\<lambda>b s. add_sum s (block_sum b)) (filter (in_interval start_time end_time) buf) s
         in do {
           (x, n, stop) \<leftarrow> call_all callback picked n x;
           if stop then Some (n, x, d)
           else if length buf = bufsize
           then load_loop io callback start_time end_time (pos + 512 * length buf) s n x d
           else
             (let (res, d) = (if file \<noteq> None then correct_storage_sums io start_time s False d else (0, d));
                  next_time = (start_time OR skip_mask d start_time (file \<noteq> None)) + 1
              in if file \<noteq> None \<and> res \<noteq> 0 then Some (n, x, d)
                 else load_loop io callback next_time end_time 0 (if file \<noteq> None then zero_sum else s) n x d)
         }))"

definition xdag_load_blocks ::
  "(storage_path \<Rightarrow> io_result) \<Rightarrow> (xdag_block \<Rightarrow> 's \<Rightarrow> ('s \<times> bool) option) \<Rightarrow> bool \<Rightarrow> u64 \<Rightarrow> u64 \<Rightarrow> 's \<Rightarrow> disk \<Rightarrow> (nat \<times> 's \<times> disk) option" where
  "xdag_load_blocks io callback malloc_ok start_time end_time x d =
     (if malloc_ok then load_loop io callback start_time end_time 0 zero_sum 0 x d else Some (0, x, d))"

section \<open>Sums of an interval\<close>

fun sums_level :: "nat \<Rightarrow> u64 \<Rightarrow> int \<Rightarrow> int" where
  "sums_level 0 w level = level"
| "sums_level (Suc n) w level = (if w = 0 then level else sums_level n (drop_bit 4 w) (level + 1))"

definition group_sums :: "xdag_storage_sum list \<Rightarrow> xdag_storage_sum list" where
  "group_sums buf = map (\<lambda>i. fold (\<lambda>e s. add_sum s e) (take 16 (drop (16 * i) buf)) zero_sum) [0..<16]"

text \<open>
  \<open>junk\<close> is the content of the uninitialised buffer, of which a file that is too
  short leaves a part.
\<close>

definition xdag_load_sums ::
  "xdag_storage_sum list \<Rightarrow> disk \<Rightarrow> u64 \<Rightarrow> u64 \<Rightarrow> xdag_storage_sum list option" where
  "xdag_load_sums junk d start_time end_time =
     (let dt = end_time - start_time in
      if dt = 0 \<or> dt AND (dt - 1) \<noteq> 0 \<or> dt AND 0xFFFEEEEEEEEFFFFF \<noteq> 0 then None
      else
        (let level = sums_level 16 dt (- 6);
             name = (if level < 2 then STORAGE_DIR3_ARGS (start_time AND 0xffffff000000)
                     else if level < 4 then STORAGE_DIR2_ARGS (start_time AND 0xffff00000000)
                     else if level < 6 then STORAGE_DIR1_ARGS (start_time AND 0xff0000000000)
                     else STORAGE_DIR0);
             buf = (case dk_sums d name of Some s \<Rightarrow> take 256 (s @ drop (length s) junk) | None \<Rightarrow> replicate 256 zero_sum)
         in Some (if odd level then group_sums buf
                  else take 16 (drop (unat (drop_bit (nat ((level + 4) * 4)) start_time AND 0xf0)) buf))))"

end
