(* ===== verification/Storage_Properties.thy ===== *)
theory Storage_Properties
  imports Storage Address
begin

text \<open>The storage: what is saved is found again, and the sums are those of the blocks saved.\<close>

section \<open>Blocks as bytes\<close>

lemma read_hash: "i < length b \<Longrightarrow> take 32 (drop (32 * i) (block_bytes b @ rest)) = hash_bytes (b ! i)"
proof (induction b arbitrary: i)
  case (Cons h b)
  then show ?case by (cases i) (simp_all add: block_bytes_def)
qed simp

lemma block_of_block_bytes: "length b = 16 \<Longrightarrow> block_of_bytes (block_bytes b) = b"
  using read_hash [of _ b "[]"] by (auto simp: block_of_bytes_def hash_of_hash_bytes intro!: nth_equalityI)

lemma read_block_at:
  assumes "length b = 16"
  shows "read_block (xs @ block_bytes b @ ys) (length xs) = Some b"
proof -
  have "length (block_bytes b) = 512" using assms by (simp add: length_block_bytes)
  then show ?thesis by (simp add: read_block_def block_of_block_bytes [OF assms])
qed

lemma read_block_append: "read_block xs pos = Some b \<Longrightarrow> read_block (xs @ ys) pos = Some b"
  by (auto simp: read_block_def split: if_splits)

section \<open>What the operations leave alone\<close>

lemma correct_sum_frame:
  "dk_blocks (snd (correct_storage_sum io p pos s add d)) = dk_blocks d"
  "dk_dirs (snd (correct_storage_sum io p pos s add d)) = dk_dirs d"
  "q \<noteq> p \<Longrightarrow> dk_sums (snd (correct_storage_sum io p pos s add d)) q = dk_sums d q"
  by (auto simp: correct_storage_sum_def Let_def split: io_result.splits)

lemma correct_sums_frame [simp]:
  "dk_blocks (snd (correct_storage_sums io t s add d)) = dk_blocks d"
  "dk_dirs (snd (correct_storage_sums io t s add d)) = dk_dirs d"
  by (simp_all add: correct_storage_sums_def Let_def case_prod_beta correct_sum_frame)

lemma make_dirs_frame [simp]: "dk_blocks (make_dirs mk t d) = dk_blocks d" "dk_sums (make_dirs mk t d) = dk_sums d"
  by (simp_all add: make_dirs_def)

lemma save_appends:
  assumes "xdag_storage_save mk io b d = (pos, d')" "0 \<le> pos" "io (STORAGE_FILE_ARGS (f_time (b ! 0))) = Io_ok" "length b = 16"
  defines "old \<equiv> (case dk_blocks d (STORAGE_FILE_ARGS (f_time (b ! 0))) of Some bs \<Rightarrow> bs | None \<Rightarrow> [])"
  shows "dk_blocks d' = (dk_blocks d)(STORAGE_FILE_ARGS (f_time (b ! 0)) \<mapsto> old @ block_bytes b)" "pos = int (length old)"
proof -
  let ?t = "f_time (b ! 0)"
  let ?d = "(make_dirs mk ?t d)\<lparr>dk_blocks := (dk_blocks d)(STORAGE_FILE_ARGS ?t \<mapsto> old @ block_bytes b)\<rparr>"
  have len: "length (block_bytes b) = 512" using assms(4) by (simp add: length_block_bytes)
  obtain res d1 where r: "correct_storage_sums io ?t (block_sum b) True ?d = (res, d1)" by fastforce
  then have "d' = d1" "pos = int (length old)"
    using assms(1,2,3) len unfolding xdag_storage_save_def Let_def old_def by (auto split: if_splits)
  moreover have "dk_blocks d1 = dk_blocks ?d" using correct_sums_frame(1) [of io ?t "block_sum b" True ?d] unfolding r by simp
  ultimately show "dk_blocks d' = (dk_blocks d)(STORAGE_FILE_ARGS ?t \<mapsto> old @ block_bytes b)" "pos = int (length old)" by simp_all
qed

text \<open>
  C9: a block that was saved is loaded again from the position that was
  returned, and everything that could be loaded before still can.
\<close>

theorem save_then_load:
  assumes "xdag_storage_save mk io b d = (pos, d')" "0 \<le> pos" "pos < 2 ^ 63" "length b = 16"
    and "io (STORAGE_FILE_ARGS (f_time (b ! 0))) = Io_ok"
  shows "xdag_storage_load d' (hash_data (block_bytes b)) (f_time (b ! 0)) (word_of_int pos) = (Some b, False) \<and>
    (xdag_storage_load d h t p = (Some c, False) \<longrightarrow> xdag_storage_load d' h t p = (Some c, False))"
proof -
  note s = save_appends [OF assms(1,2,5,4)]
  let ?old = "case dk_blocks d (STORAGE_FILE_ARGS (f_time (b ! 0))) of Some bs \<Rightarrow> bs | None \<Rightarrow> []"
  have pos: "length ?old < 2 ^ 63" "word_of_int pos = (of_nat (length ?old) :: u64)" using s(2) assms(3) by simp_all
  have u: "unat (of_nat (length ?old) :: u64) = length ?old" using pos(1) by (simp add: unsigned_of_nat take_bit_nat_eq_self_iff)
  have small: "(of_nat (length ?old) :: u64) < 2 ^ 63" using pos(1) u by (simp add: word_less_nat_alt)
  have new: "xdag_storage_load d' (hash_data (block_bytes b)) (f_time (b ! 0)) (word_of_int pos) = (Some b, False)"
    using read_block_at [OF assms(4), of ?old "[]"] small unfolding xdag_storage_load_def pos(2) s(1) u by simp
  have "xdag_storage_load d' h t p = (Some c, False)" if "xdag_storage_load d h t p = (Some c, False)"
    using that read_block_append [of _ "unat p" c]
    by (auto simp: xdag_storage_load_def s(1) Let_def split: option.splits if_splits)
  then show ?thesis using new by blast
qed

section \<open>The sums\<close>

text \<open>
  The blocks saved so far, in their order, are the abstract content of the
  storage.  \<open>block_total\<close> is the sum over a list of blocks.
\<close>

abbreviation btime :: "xdag_block \<Rightarrow> u64" where "btime b \<equiv> f_time (b ! 0)"

definition block_total :: "xdag_block list \<Rightarrow> xdag_storage_sum" where
  "block_total bs = fold (\<lambda>b s. add_sum s (block_sum b)) bs zero_sum"

text \<open>
  The entries of the sums file of the directory \<open>k\<close> on the level where a byte of
  the time at bit \<open>n\<close> is the index.
\<close>

definition slot :: "nat \<Rightarrow> u64 \<Rightarrow> nat \<Rightarrow> xdag_block list \<Rightarrow> xdag_block list" where
  "slot n k i bs = filter (\<lambda>b. drop_bit (n + 8) (btime b) = k \<and> byte_at n (btime b) = i) bs"

definition sums_of :: "nat \<Rightarrow> u64 \<Rightarrow> xdag_block list \<Rightarrow> xdag_storage_sum list option" where
  "sums_of n k bs =
     (if \<exists>b \<in> set bs. drop_bit (n + 8) (btime b) = k then Some (map (\<lambda>i. block_total (slot n k i bs)) [0..<256]) else None)"

definition file_of :: "u64 \<Rightarrow> xdag_block list \<Rightarrow> u8 list option" where
  "file_of k bs =
     (if \<exists>b \<in> set bs. drop_bit 16 (btime b) = k
      then Some (concat (map block_bytes (filter (\<lambda>b. drop_bit 16 (btime b) = k) bs))) else None)"

definition dirs_of :: "u64 \<Rightarrow> storage_path set" where
  "dirs_of t = {STORAGE_DIR0, STORAGE_DIR1_ARGS t, STORAGE_DIR2_ARGS t, STORAGE_DIR3_ARGS t}"

definition stores :: "disk \<Rightarrow> xdag_block list \<Rightarrow> bool" where
  "stores d bs \<longleftrightarrow> (\<forall>b \<in> set bs. length b = 16 \<and> btime b < 2 ^ 48) \<and>
     (\<forall>k. dk_blocks d (STORAGE_FILE k) = file_of k bs) \<and>
     (\<forall>k. dk_sums d (STORAGE_DIR3 k) = sums_of 16 k bs) \<and> (\<forall>k. dk_sums d (STORAGE_DIR2 k) = sums_of 24 k bs) \<and>
     (\<forall>k. dk_sums d (STORAGE_DIR1 k) = sums_of 32 k bs) \<and> dk_sums d STORAGE_DIR0 = sums_of 40 0 bs \<and>
     (\<forall>b \<in> set bs. \<forall>p \<in> dirs_of (btime b). dk_dirs d p)"

lemma total_append: "block_total (xs @ [b]) = add_sum (block_total xs) (block_sum b)"
  by (simp add: block_total_def)

lemma slot_append: "slot n k i (bs @ [b]) = slot n k i bs @ (if drop_bit (n + 8) (btime b) = k \<and> byte_at n (btime b) = i then [b] else [])"
  by (simp add: slot_def)

lemma sums_of_other: "drop_bit (n + 8) (btime b) \<noteq> k \<Longrightarrow> sums_of n k (bs @ [b]) = sums_of n k bs"
  by (simp add: sums_of_def slot_append)

lemma byte_at_less: "byte_at n t < 256"
proof -
  have "drop_bit n t AND 0xff \<le> 0xff" by (rule word_and_le1)
  then show ?thesis by (simp add: byte_at_def word_le_nat_alt)
qed

text \<open>One level of the sums after a save.\<close>

lemma level_saved:
  assumes "dk_sums d p = sums_of n k bs" "drop_bit (n + 8) (btime b) = k" "io p = Io_ok" "dk_dirs d p"
    and "correct_storage_sum io p (byte_at n (btime b)) (block_sum b) True d = (res, d')"
  shows "res = 1" "dk_sums d' p = sums_of n k (bs @ [b])"
proof -
  let ?i = "byte_at n (btime b)"
  let ?old = "case sums_of n k bs of Some e \<Rightarrow> e | None \<Rightarrow> replicate 256 zero_sum"
  have len: "length ?old = 256" by (simp add: sums_of_def)
  have entry: "?old ! j = block_total (slot n k j bs)" if "j < 256" for j
    using that by (auto simp: sums_of_def slot_def block_total_def filter_empty_conv)
  have "take 256 (the (sums_of n k bs)) = ?old \<and> length (the (sums_of n k bs)) = 256" if "sums_of n k bs \<noteq> None"
    using that by (auto simp: sums_of_def)
  then have r: "res = 1" "dk_sums d' p = Some (?old[?i := add_sum (?old ! ?i) (block_sum b)])"
    using assms(1,3,4,5) len
    by (auto simp: correct_storage_sum_def Let_def write_over_def add_sum_def split: option.splits if_splits)
  show "res = 1" by (rule r(1))
  have "?old[?i := add_sum (?old ! ?i) (block_sum b)] = map (\<lambda>j. block_total (slot n k j (bs @ [b]))) [0..<256]"
    by (rule nth_equalityI)
      (use len entry byte_at_less [of n "btime b"] assms(2) in \<open>auto simp: nth_list_update slot_append total_append\<close>)
  then show "dk_sums d' p = sums_of n k (bs @ [b])" using r(2) assms(2) by (simp add: sums_of_def)
qed

lemma file_saved:
  "file_of k (bs @ [b]) =
     (if drop_bit 16 (btime b) = k then Some ((case file_of k bs of Some f \<Rightarrow> f | None \<Rightarrow> []) @ block_bytes b) else file_of k bs)"
  by (auto simp: file_of_def filter_empty_conv intro!: arg_cong [of _ _ concat] filter_cong)

text \<open>The four levels one after the other.\<close>

lemma levels_saved:
  assumes "\<forall>k. dk_sums d (STORAGE_DIR3 k) = sums_of 16 k bs" "\<forall>k. dk_sums d (STORAGE_DIR2 k) = sums_of 24 k bs"
    "\<forall>k. dk_sums d (STORAGE_DIR1 k) = sums_of 32 k bs" "dk_sums d STORAGE_DIR0 = sums_of 40 0 bs"
    and "\<And>p. io p = Io_ok" "\<forall>p \<in> dirs_of t. dk_dirs d p"
    and "t = btime b" "t < 2 ^ 48" "correct_storage_sums io t (block_sum b) True d = (res, d')"
  shows "res = 0" "\<forall>k. dk_sums d' (STORAGE_DIR3 k) = sums_of 16 k (bs @ [b])" "\<forall>k. dk_sums d' (STORAGE_DIR2 k) = sums_of 24 k (bs @ [b])"
    "\<forall>k. dk_sums d' (STORAGE_DIR1 k) = sums_of 32 k (bs @ [b])" "dk_sums d' STORAGE_DIR0 = sums_of 40 0 (bs @ [b])"
proof -
  note assms = assms(1-5) assms(6) [unfolded dirs_of_def] assms(7-9)
  let ?c = "\<lambda>p n d. correct_storage_sum io p (byte_at n t) (block_sum b) True d"
  obtain r1 d1 where 1: "?c (STORAGE_DIR3_ARGS t) 16 d = (r1, d1)" by fastforce
  obtain r2 d2 where 2: "?c (STORAGE_DIR2_ARGS t) 24 d1 = (r2, d2)" by fastforce
  obtain r3 d3 where 3: "?c (STORAGE_DIR1_ARGS t) 32 d2 = (r3, d3)" by fastforce
  obtain r4 d4 where 4: "?c STORAGE_DIR0 40 d3 = (r4, d4)" by fastforce
  note f = correct_sum_frame [where io = io and s = "block_sum b" and add = True]
  note f1 = f [where p = "STORAGE_DIR3_ARGS t" and pos = "byte_at 16 t" and d = d, unfolded 1 snd_conv]
    and f2 = f [where p = "STORAGE_DIR2_ARGS t" and pos = "byte_at 24 t" and d = d1, unfolded 2 snd_conv]
    and f3 = f [where p = "STORAGE_DIR1_ARGS t" and pos = "byte_at 32 t" and d = d2, unfolded 3 snd_conv]
    and f4 = f [where p = STORAGE_DIR0 and pos = "byte_at 40 t" and d = d3, unfolded 4 snd_conv]
  have top: "drop_bit 48 t = 0"
    using assms(8) by (simp add: word_less_nat_alt word_eq_0_iff_unat unat_drop_bit)
  have l3: "r1 = 1" "dk_sums d1 (STORAGE_DIR3_ARGS t) = sums_of 16 (drop_bit 24 t) (bs @ [b])"
    by (rule level_saved [of d "STORAGE_DIR3_ARGS t" 16 "drop_bit 24 t" bs b io]; use assms 1 in simp)+
  have l2: "r2 = 1" "dk_sums d2 (STORAGE_DIR2_ARGS t) = sums_of 24 (drop_bit 32 t) (bs @ [b])"
    by (rule level_saved [of d1 "STORAGE_DIR2_ARGS t" 24 "drop_bit 32 t" bs b io]; use assms f1 2 in simp)+
  have l1: "r3 = 1" "dk_sums d3 (STORAGE_DIR1_ARGS t) = sums_of 32 (drop_bit 40 t) (bs @ [b])"
    by (rule level_saved [of d2 "STORAGE_DIR1_ARGS t" 32 "drop_bit 40 t" bs b io]; use assms f1 f2 3 in simp)+
  have l0: "r4 = 1" "dk_sums d4 STORAGE_DIR0 = sums_of 40 0 (bs @ [b])"
    by (rule level_saved [of d3 STORAGE_DIR0 40 0 bs b io]; use assms f1 f2 f3 4 top in simp)+
  have res: "res = 0" "d' = d4" using assms(9) 1 2 3 4 l3(1) l2(1) l1(1) l0(1) by (simp_all add: correct_storage_sums_def)
  then show "res = 0" "dk_sums d' STORAGE_DIR0 = sums_of 40 0 (bs @ [b])" using l0 by simp_all
  note other = sums_of_other [of _ b _ bs, folded assms(7)] and keep = f1(3) f2(3) f3(3) f4(3)
  show "\<forall>k. dk_sums d' (STORAGE_DIR3 k) = sums_of 16 k (bs @ [b])"
  proof
    show "dk_sums d' (STORAGE_DIR3 k) = sums_of 16 k (bs @ [b])" for k
      by (cases "k = drop_bit 24 t") (use assms(1) keep l3(2) other [of 16 k] res(2) in simp_all)
  qed
  show "\<forall>k. dk_sums d' (STORAGE_DIR2 k) = sums_of 24 k (bs @ [b])"
  proof
    show "dk_sums d' (STORAGE_DIR2 k) = sums_of 24 k (bs @ [b])" for k
      by (cases "k = drop_bit 32 t") (use assms(2) keep l2(2) other [of 24 k] res(2) in simp_all)
  qed
  show "\<forall>k. dk_sums d' (STORAGE_DIR1 k) = sums_of 32 k (bs @ [b])"
  proof
    show "dk_sums d' (STORAGE_DIR1 k) = sums_of 32 k (bs @ [b])" for k
      by (cases "k = drop_bit 40 t") (use assms(3) keep l1(2) other [of 32 k] res(2) in simp_all)
  qed
qed

lemma save_stores:
  assumes "stores d bs" "length b = 16" "btime b < 2 ^ 48" "\<And>p. io p = Io_ok" "\<And>p. mk p"
  shows "0 \<le> fst (xdag_storage_save mk io b d) \<and> stores (snd (xdag_storage_save mk io b d)) (bs @ [b])"
proof -
  let ?t = "btime b"
  let ?old = "case dk_blocks d (STORAGE_FILE_ARGS ?t) of Some f \<Rightarrow> f | None \<Rightarrow> []"
  let ?d = "(make_dirs mk ?t d)\<lparr>dk_blocks := (dk_blocks d)(STORAGE_FILE_ARGS ?t \<mapsto> ?old @ block_bytes b)\<rparr>"
  have len: "length (block_bytes b) = 512" using assms(2) by (simp add: length_block_bytes)
  have dirs: "\<forall>p \<in> dirs_of ?t. dk_dirs ?d p" and old: "\<forall>p. dk_dirs d p \<longrightarrow> dk_dirs ?d p"
    using assms(5) by (simp_all add: make_dirs_def dirs_of_def)
  obtain res d1 where r: "correct_storage_sums io ?t (block_sum b) True ?d = (res, d1)" by fastforce
  have sums: "\<forall>k. dk_sums ?d (STORAGE_DIR3 k) = sums_of 16 k bs" "\<forall>k. dk_sums ?d (STORAGE_DIR2 k) = sums_of 24 k bs"
    "\<forall>k. dk_sums ?d (STORAGE_DIR1 k) = sums_of 32 k bs" "dk_sums ?d STORAGE_DIR0 = sums_of 40 0 bs"
    using assms(1) by (simp_all add: stores_def)
  note l = levels_saved [OF sums assms(4) dirs refl assms(3) r]
  have save: "xdag_storage_save mk io b d = (int (length ?old), d1)"
    using dirs r l(1) len assms(4) by (simp add: xdag_storage_save_def Let_def dirs_of_def)
  have d1: "dk_blocks d1 = dk_blocks ?d" "dk_dirs d1 = dk_dirs ?d"
    using correct_sums_frame [of io ?t "block_sum b" True ?d] unfolding r by simp_all
  have ds: "\<forall>c \<in> set (bs @ [b]). \<forall>p \<in> dirs_of (btime c). dk_dirs d1 p"
    using dirs old assms(1) unfolding d1(2) by (auto simp: stores_def)
  from d1(1) have "dk_blocks d1 (STORAGE_FILE k) = file_of k (bs @ [b])" for k
    using assms(1) by (auto simp: file_saved stores_def)
  then have "stores d1 (bs @ [b])" using l(2-5) assms(1-3) ds unfolding stores_def by auto
  then show ?thesis using save by simp
qed

text \<open>
  C10: saving a block, when no write fails, keeps the disk in step with the list
  of blocks saved: the file of its frame grows by the block, and the sums on all
  four levels are those of the blocks below.
\<close>

theorem save_keeps_sums:
  assumes "stores d bs" "length b = 16" "btime b < 2 ^ 48" "\<And>p. io p = Io_ok" "\<And>p. mk p"
  shows "0 \<le> fst (xdag_storage_save mk io b d) \<and> stores (snd (xdag_storage_save mk io b d)) (bs @ [b])"
  using save_stores [OF assms] .

section \<open>Sums of an interval\<close>

lemma total_sum: "block_total bs = \<lparr>sum_sum = sum_list (map (sum_sum \<circ> block_sum) bs), sum_size = sum_list (map (sum_size \<circ> block_sum) bs)\<rparr>"
proof -
  have "fold (\<lambda>b s. add_sum s (block_sum b)) bs s =
      \<lparr>sum_sum = sum_sum s + sum_list (map (sum_sum \<circ> block_sum) bs), sum_size = sum_size s + sum_list (map (sum_size \<circ> block_sum) bs)\<rparr>" for s
    by (induction bs arbitrary: s) (simp_all add: add_sum_def add.assoc)
  then show ?thesis by (simp add: block_total_def zero_sum_def)
qed

lemma add_sum_zero [simp]: "add_sum zero_sum s = s"
  by (simp add: add_sum_def zero_sum_def)

lemma total_filter_or:
  "(\<And>b. P b \<Longrightarrow> \<not> Q b) \<Longrightarrow> add_sum (block_total (filter P bs)) (block_total (filter Q bs)) = block_total (filter (\<lambda>b. P b \<or> Q b) bs)"
  by (induction bs) (auto simp: total_sum add_sum_def algebra_simps)

text \<open>The entries of a sums file; a missing file stands for zeros.\<close>

definition entries :: "nat \<Rightarrow> u64 \<Rightarrow> xdag_block list \<Rightarrow> xdag_storage_sum list" where
  "entries n k bs = map (\<lambda>i. block_total (slot n k i bs)) [0..<256]"

lemma sums_buffer: "(case sums_of n k bs of Some s \<Rightarrow> take 256 (s @ drop (length s) junk) | None \<Rightarrow> replicate 256 zero_sum) = entries n k bs"
  by (auto simp: sums_of_def entries_def slot_def block_total_def filter_empty_conv intro!: nth_equalityI)

lemma window_sum:
  assumes "c + w \<le> 256"
  shows "fold (\<lambda>e s. add_sum s e) (take w (drop c (entries n k bs))) zero_sum =
    block_total (filter (\<lambda>b. drop_bit (n + 8) (btime b) = k \<and> c \<le> byte_at n (btime b) \<and> byte_at n (btime b) < c + w) bs)"
  using assms
proof (induction w)
  case (Suc w)
  have "take (Suc w) (drop c (entries n k bs)) = take w (drop c (entries n k bs)) @ [block_total (slot n k (c + w) bs)]"
    using Suc.prems by (simp add: take_Suc_conv_app_nth entries_def)
  moreover have "(\<lambda>b. drop_bit (n + 8) (btime b) = k \<and> c \<le> byte_at n (btime b) \<and> byte_at n (btime b) < c + Suc w) =
      (\<lambda>b. (drop_bit (n + 8) (btime b) = k \<and> c \<le> byte_at n (btime b) \<and> byte_at n (btime b) < c + w) \<or>
        (drop_bit (n + 8) (btime b) = k \<and> byte_at n (btime b) = c + w))" by auto
  ultimately show ?case using Suc by (simp add: slot_def) (rule total_filter_or, simp)
qed (simp add: block_total_def)

lemma add_mod_carry:
  fixes q r m :: nat
  assumes "q mod m + r < m"
  shows "(q + r) div m = q div m \<and> (q + r) mod m = q mod m + r"
proof -
  have "q + r = q div m * m + (q mod m + r)" by simp
  then show ?thesis using assms by (metis add.right_neutral div_less div_mult_self3 mod_less mod_mult_self3 gr_implies_not0 add.commute)
qed

lemma slot_interval:
  fixes S T :: nat
  assumes S: "S = q * 2 ^ n" and w: "q mod 256 + (i + 1) * w \<le> 256"
  shows "T div 2 ^ (n + 8) = S div 2 ^ (n + 8) \<and> q mod 256 + i * w \<le> T div 2 ^ n mod 256 \<and> T div 2 ^ n mod 256 < q mod 256 + (i + 1) * w
    \<longleftrightarrow> S + i * (w * 2 ^ n) \<le> T \<and> T < S + (i + 1) * (w * 2 ^ n)"
proof -
  define x where "x = T div 2 ^ n"
  have d: "T div 2 ^ (n + 8) = x div 256" "S div 2 ^ (n + 8) = q div 256" by (simp_all add: x_def S power_add div_mult2_eq)
  have le: "m * 2 ^ n \<le> T \<longleftrightarrow> m \<le> x" for m by (simp add: x_def less_eq_div_iff_mult_less_eq)
  have lt: "T < m * 2 ^ n \<longleftrightarrow> x < m" for m using le [of m] by linarith
  have "S + i * (w * 2 ^ n) = (q + i * w) * 2 ^ n" "S + (i + 1) * (w * 2 ^ n) = (q + (i + 1) * w) * 2 ^ n"
    by (simp_all add: S algebra_simps)
  then have r: "S + i * (w * 2 ^ n) \<le> T \<and> T < S + (i + 1) * (w * 2 ^ n) \<longleftrightarrow> q + i * w \<le> x \<and> x < q + (i + 1) * w"
    using le lt by simp
  have "x div 256 = q div 256 \<and> q mod 256 + i * w \<le> x mod 256 \<and> x mod 256 < q mod 256 + (i + 1) * w
    \<longleftrightarrow> q + i * w \<le> x \<and> x < q + (i + 1) * w"
  proof
    assume h: "q + i * w \<le> x \<and> x < q + (i + 1) * w"
    then obtain r where r: "x = q + r" using le_Suc_ex add_leD1 by blast
    then have "q mod 256 + r < 256" "i * w \<le> r" "r < (i + 1) * w" using h w by linarith+
    moreover from this(1) have "x div 256 = q div 256" "x mod 256 = q mod 256 + r"
      using r add_mod_carry [of q 256 r] by simp_all
    ultimately show "x div 256 = q div 256 \<and> q mod 256 + i * w \<le> x mod 256 \<and> x mod 256 < q mod 256 + (i + 1) * w"
      by linarith
  next
    assume h: "x div 256 = q div 256 \<and> q mod 256 + i * w \<le> x mod 256 \<and> x mod 256 < q mod 256 + (i + 1) * w"
    then show "q + i * w \<le> x \<and> x < q + (i + 1) * w"
      using div_mult_mod_eq [of x 256] div_mult_mod_eq [of q 256] by linarith
  qed
  then show ?thesis unfolding d r x_def [symmetric] by blast
qed

lemma byte_at_unat: "byte_at n t = unat t div 2 ^ n mod 256"
proof -
  have "drop_bit n t AND 0xff = take_bit 8 (drop_bit n t)" by (simp add: take_bit_eq_mask mask_eq_exp_minus_1)
  then show ?thesis by (simp add: byte_at_def unat_drop_bit unsigned_take_bit_eq take_bit_nat_def)
qed

text \<open>The \<open>i\<close>-th part of an interval that is cut into parts of a given length.\<close>

definition in_part :: "nat \<Rightarrow> nat \<Rightarrow> nat \<Rightarrow> xdag_block \<Rightarrow> bool" where
  "in_part S len i b \<longleftrightarrow> S + i * len \<le> unat (btime b) \<and> unat (btime b) < S + (i + 1) * len"

lemma window_part:
  assumes "2 ^ n dvd unat S" "unat S div 2 ^ n mod 256 + (i + 1) * w \<le> 256"
  shows "fold (\<lambda>e s. add_sum s e) (take w (drop (unat S div 2 ^ n mod 256 + i * w) (entries n (drop_bit (n + 8) S) bs))) zero_sum =
    block_total (filter (in_part (unat S) (w * 2 ^ n) i) bs)"
proof -
  let ?q = "unat S div 2 ^ n"
  have S: "unat S = ?q * 2 ^ n" using assms(1) by simp
  have key: "drop_bit (n + 8) t = drop_bit (n + 8) S \<longleftrightarrow> unat t div 2 ^ (n + 8) = unat S div 2 ^ (n + 8)" for t :: u64
    by (metis unat_drop_bit unsigned_word_eqI)
  have "?q mod 256 + i * w + w \<le> 256" using assms(2) by (simp add: algebra_simps)
  from window_sum [OF this, of n "drop_bit (n + 8) S" bs] slot_interval [OF S assms(2)]
  show ?thesis unfolding in_part_def key byte_at_unat by (simp add: algebra_simps)
qed

lemma sums_of_parts:
  assumes "2 ^ (n + 4) dvd unat S"
  shows "take 16 (drop (unat (drop_bit n S AND 0xf0)) (entries n (drop_bit (n + 8) S) bs)) =
    map (\<lambda>i. block_total (filter (in_part (unat S) (2 ^ n) i) bs)) [0..<16]"
proof -
  let ?q = "unat S div 2 ^ n"
  obtain m where m: "unat S = 2 ^ (n + 4) * m" using assms by blast
  then have q: "?q = 16 * m" by (simp add: power_add)
  have n: "2 ^ n dvd unat S" using assms by (metis dvd_trans le_add1 le_imp_power_dvd)
  have "(0xf0 :: u64) = NOT (mask 4) AND mask 8" by (simp add: mask_eq_exp_minus_1)
  then have "drop_bit n S AND 0xf0 = (drop_bit n S AND NOT (mask 4)) AND mask 8" by (simp add: and.assoc)
  moreover have "take_bit 4 (drop_bit n S) = 0"
    using q by (simp add: word_eq_0_iff_unat unsigned_take_bit_eq unat_drop_bit take_bit_nat_def)
  then have "\<not> bit (drop_bit n S) i" if "i < 4" for i using that by (metis bit_take_bit_iff bit_0_eq bot_apply bot_bool_def)
  then have "drop_bit n S AND NOT (mask 4) = drop_bit n S"
    by (intro bit_eqI) (auto simp: bit_and_iff bit_not_iff bit_mask_iff)
  ultimately have c: "unat (drop_bit n S AND 0xf0) = ?q mod 256"
    by (simp add: take_bit_eq_mask [symmetric] unsigned_take_bit_eq unat_drop_bit take_bit_nat_def)
  have bound: "?q mod 256 + 16 \<le> 256" unfolding q using mult_mod_right [of 16 m 16] mod_less_divisor [of 16 m] by simp
  show ?thesis unfolding c
  proof (rule nth_equalityI)
    fix i assume "i < length (take 16 (drop (?q mod 256) (entries n (drop_bit (n + 8) S) bs)))"
    then have i: "i < 16" by simp
    have "take 1 (drop (?q mod 256 + i) (entries n (drop_bit (n + 8) S) bs)) = [entries n (drop_bit (n + 8) S) bs ! (?q mod 256 + i)]"
      using bound i by (simp add: take_Suc_conv_app_nth entries_def)
    then have "entries n (drop_bit (n + 8) S) bs ! (?q mod 256 + i) = block_total (filter (in_part (unat S) (2 ^ n) i) bs)"
      using window_part [OF n, of i 1 bs] bound i by simp
    then show "take 16 (drop (?q mod 256) (entries n (drop_bit (n + 8) S) bs)) ! i =
        map (\<lambda>i. block_total (filter (in_part (unat S) (2 ^ n) i) bs)) [0..<16] ! i"
      using i bound by (simp add: entries_def)
  qed (use bound in \<open>simp add: entries_def\<close>)
qed

lemma group_of_parts:
  assumes "2 ^ (n + 8) dvd unat S"
  shows "group_sums (entries n (drop_bit (n + 8) S) bs) =
    map (\<lambda>i. block_total (filter (in_part (unat S) (16 * 2 ^ n) i) bs)) [0..<16]"
proof -
  have n: "2 ^ n dvd unat S" using assms by (metis dvd_trans le_add1 le_imp_power_dvd)
  obtain m where m: "unat S = 2 ^ (n + 8) * m" using assms by blast
  then have q: "unat S div 2 ^ n mod 256 = 0" by (simp add: power_add)
  show ?thesis unfolding group_sums_def
    using window_part [OF n, of _ 16 bs] unfolding q by (auto simp: mult.commute)
qed

lemma sums_levels:
  "sums_level 16 (2 ^ 20) (- 6) = 0" "sums_level 16 (2 ^ 24) (- 6) = 1" "sums_level 16 (2 ^ 28) (- 6) = 2" "sums_level 16 (2 ^ 32) (- 6) = 3"
  "sums_level 16 (2 ^ 36) (- 6) = 4" "sums_level 16 (2 ^ 40) (- 6) = 5" "sums_level 16 (2 ^ 44) (- 6) = 6" "sums_level 16 (2 ^ 48) (- 6) = 7"
  by code_simp+

lemma mask_parts:
  fixes S :: u64
  assumes "S < 2 ^ 48"
  shows "drop_bit 24 (S AND 0xffffff000000) = drop_bit 24 S" "drop_bit 32 (S AND 0xffff00000000) = drop_bit 32 S"
    "drop_bit 40 (S AND 0xff0000000000) = drop_bit 40 S" "drop_bit 48 S = 0"
proof -
  have S: "S AND mask 48 = S"
    using assms by (simp add: take_bit_eq_mask [symmetric] word_unat_eq_iff unsigned_take_bit_eq take_bit_nat_def word_less_nat_alt)
  have m: "(0xffffff000000 :: u64) = mask 48 AND NOT (mask 24)" "(0xffff00000000 :: u64) = mask 48 AND NOT (mask 32)"
    "(0xff0000000000 :: u64) = mask 48 AND NOT (mask 40)" by (simp_all add: mask_eq_exp_minus_1)
  have d: "drop_bit j (S AND NOT (mask j)) = drop_bit j S" for j
    by (rule bit_eqI) (auto simp: bit_simps dest: bit_imp_le_length)
  show "drop_bit 24 (S AND 0xffffff000000) = drop_bit 24 S" "drop_bit 32 (S AND 0xffff00000000) = drop_bit 32 S"
    "drop_bit 40 (S AND 0xff0000000000) = drop_bit 40 S"
    unfolding m and.assoc [symmetric] S d by simp_all
  show "drop_bit 48 S = 0" using assms by (simp add: word_eq_0_iff_unat unat_drop_bit word_less_nat_alt)
qed

lemma load_sums_parts:
  assumes "stores d bs" "e \<in> {20, 24, 28, 32, 36, 40, 44, 48}" "2 ^ e dvd unat S" "unat S + 2 ^ e \<le> 2 ^ 48"
  shows "xdag_load_sums junk d S (S + 2 ^ e) =
    Some (map (\<lambda>i. block_total (filter (in_part (unat S) (2 ^ (e - 4)) i) bs)) [0..<16])"
proof -
  have S: "S < 2 ^ 48" using assms(2,4) by (auto simp: word_less_nat_alt)
  have sums: "dk_sums d (STORAGE_DIR3 k) = sums_of 16 k bs" "dk_sums d (STORAGE_DIR2 k) = sums_of 24 k bs"
    "dk_sums d (STORAGE_DIR1 k) = sums_of 32 k bs" "dk_sums d STORAGE_DIR0 = sums_of 40 0 bs" for k
    using assms(1) by (simp_all add: stores_def)
  note parts = sums_of_parts [of _ S bs] group_of_parts [of _ S bs] and k = mask_parts [OF S]
  note parts16 = parts [of 16, simplified] and parts24 = parts [of 24, simplified]
    and parts32 = parts [of 32, simplified] and parts40 = parts [of 40, simplified, unfolded k]
  note eval = xdag_load_sums_def Let_def sums_levels [simplified] sums k [simplified] sums_buffer
  consider "e = 20" | "e = 24" | "e = 28" | "e = 32" | "e = 36" | "e = 40" | "e = 44" | "e = 48" using assms(2) by blast
  then show ?thesis
  proof cases
    case 1
    then show ?thesis using parts16(1) assms(3) by (simp add: eval)
  next
    case 2
    then show ?thesis using parts16(2) assms(3) by (simp add: eval)
  next
    case 3
    then show ?thesis using parts24(1) assms(3) by (simp add: eval)
  next
    case 4
    then show ?thesis using parts24(2) assms(3) by (simp add: eval)
  next
    case 5
    then show ?thesis using parts32(1) assms(3) by (simp add: eval)
  next
    case 6
    then show ?thesis using parts32(2) assms(3) by (simp add: eval)
  next
    case 7
    then show ?thesis using parts40(1) assms(3) by (simp add: eval)
  next
    case 8
    then show ?thesis using parts40(2) assms(3) by (simp add: eval)
  qed
qed

text \<open>
  C11: \<open>xdag_load_sums\<close> reports, for an aligned interval of a length it accepts, the
  sums of the blocks saved in each of the sixteen parts of the interval.
\<close>

theorem load_sums_correct:
  assumes "stores d bs" "e \<in> {20, 24, 28, 32, 36, 40, 44, 48}" "2 ^ e dvd unat S" "unat S + 2 ^ e \<le> 2 ^ 48"
  shows "xdag_load_sums junk d S (S + 2 ^ e) =
    Some (map (\<lambda>i. block_total (filter (in_part (unat S) (2 ^ (e - 4)) i) bs)) [0..<16])"
  using load_sums_parts [OF assms] .

section \<open>Examples\<close>

definition empty_disk :: disk where
  "empty_disk = \<lparr>dk_dirs = (\<lambda>p. False), dk_blocks = (\<lambda>p. None), dk_sums = (\<lambda>p. None)\<rparr>"

definition stored_block :: xdag_block where
  "stored_block = (0, 1, 0x10100, 0) # replicate 15 (7, 0, 0, 0)"

abbreviation good_io :: "storage_path \<Rightarrow> io_result" where "good_io \<equiv> \<lambda>p. Io_ok"

definition one_block_disk :: disk where
  "one_block_disk = snd (xdag_storage_save (\<lambda>p. True) good_io stored_block empty_disk)"

lemma empty_disk_stores: "stores empty_disk []"
  by (simp add: stores_def empty_disk_def file_of_def sums_of_def)

lemma stored_block_simps: "length stored_block = 16" "btime stored_block = 0x10100"
  by (simp_all add: stored_block_def)

lemma one_block_stores: "stores one_block_disk [stored_block]"
  using save_stores [OF empty_disk_stores stored_block_simps(1), of good_io "\<lambda>p. True"]
  by (simp add: one_block_disk_def stored_block_simps)

theorem save_keeps_sums_witness:
  "0 \<le> fst (xdag_storage_save (\<lambda>p. True) good_io stored_block empty_disk) \<and>
   stores (snd (xdag_storage_save (\<lambda>p. True) good_io stored_block empty_disk)) [stored_block]"
  using save_keeps_sums [OF empty_disk_stores, of stored_block good_io "\<lambda>p. True"] by (simp add: stored_block_simps)

theorem load_sums_correct_witness:
  "xdag_load_sums [] one_block_disk 0 (2 ^ 20) =
     Some (map (\<lambda>i. block_total (filter (in_part 0 (2 ^ 16) i) [stored_block])) [0..<16])"
  using load_sums_correct [OF one_block_stores, of 20 0 "[]"] by simp

theorem save_then_load_witness:
  "xdag_storage_load one_block_disk (hash_data (block_bytes stored_block)) 0x10100 0 = (Some stored_block, False)"
proof -
  obtain pos d' where s: "xdag_storage_save (\<lambda>p. True) good_io stored_block empty_disk = (pos, d')" by fastforce
  have "0 \<le> pos" using save_stores [OF empty_disk_stores, of stored_block good_io "\<lambda>p. True"] s by (simp add: stored_block_simps)
  moreover from save_appends(2) [OF s this] have "pos = 0" by (simp add: stored_block_simps empty_disk_def)
  ultimately show ?thesis
    using save_then_load [OF s, of "(0, 0, 0, 0)" 0 0] s by (simp add: stored_block_simps one_block_disk_def)
qed

end
