(* ===== verification/Storage_Loading.thy ===== *)
theory Storage_Loading
  imports Storage_Properties "HOL-Library.Multiset"
begin

text \<open>Loading the blocks of an interval: it ends, and every block of the interval is handed to the callback once.\<close>

section \<open>One file\<close>

definition frame :: "u64 \<Rightarrow> xdag_block list \<Rightarrow> xdag_block list" where
  "frame k bs = filter (\<lambda>b. drop_bit 16 (btime b) = k) bs"

lemma read_blocks_file:
  "(\<And>b. b \<in> set xs \<Longrightarrow> length b = 16) \<Longrightarrow> read_blocks n (concat (map block_bytes xs)) (512 * j) = take n (drop j xs)"
proof (induction n arbitrary: j)
  case (Suc n)
  have len: "length (concat (map block_bytes ys)) = 512 * length ys" if "set ys \<subseteq> set xs" for ys
    using that Suc.prems by (induction ys) (auto simp: length_block_bytes)
  show ?case
  proof (cases "j < length xs")
    case True
    then have xs: "concat (map block_bytes xs) = concat (map block_bytes (take j xs)) @ block_bytes (xs ! j) @ concat (map block_bytes (drop (Suc j) xs))"
      using arg_cong [OF id_take_nth_drop [OF True], of "\<lambda>ys. concat (map block_bytes ys)"]
      by (simp only: map_append list.map concat_append concat.simps)
    have "length (concat (map block_bytes (take j xs))) = 512 * j" using len [of "take j xs"] True set_take_subset [of j xs] by (simp add: min_absorb2)
    then have "read_block (concat (map block_bytes xs)) (512 * j) = Some (xs ! j)"
      using read_block_at [of "xs ! j" "concat (map block_bytes (take j xs))"] Suc.prems [of "xs ! j"] True xs by simp
    then show ?thesis using Suc.IH [of "Suc j"] Suc.prems True by (simp add: Cons_nth_drop_Suc [symmetric] add.commute)
  next
    case False
    then have "read_block (concat (map block_bytes xs)) (512 * j) = None" using len [of xs] by (simp add: read_block_def)
    then show ?thesis using False by simp
  qed
qed simp

text \<open>The callbacks considered go on to the end and return.\<close>

definition plain_callback :: "(xdag_block \<Rightarrow> 's \<Rightarrow> 's) \<Rightarrow> xdag_block \<Rightarrow> 's \<Rightarrow> ('s \<times> bool) option" where
  "plain_callback f b x = Some (f b x, False)"

definition headed :: "xdag_block \<times> nat \<Rightarrow> xdag_block" where
  "headed bp = (fst bp)[0 := f_set_transport_header (of_nat (snd bp)) (fst bp ! 0)]"

lemma call_all_plain: "call_all (plain_callback f) bps n x = Some (fold f (map headed bps) x, n + length bps, False)"
  by (induction bps arbitrary: n x) (auto simp: plain_callback_def headed_def)

text \<open>A block without its transport header.\<close>

definition strip :: "xdag_block \<Rightarrow> xdag_block" where
  "strip b = b[0 := f_set_transport_header 0 (b ! 0)]"

lemma set_header_twice [simp]: "f_set_transport_header v (f_set_transport_header w f) = f_set_transport_header v f"
  by (cases f) simp

lemma f_time_set_header [simp]: "f_time (f_set_transport_header v f) = f_time f"
  by (cases f) simp

lemma headed_simps [simp]: "fst bp \<noteq> [] \<Longrightarrow> strip (headed bp) = strip (fst bp)" "fst bp \<noteq> [] \<Longrightarrow> btime (headed bp) = btime (fst bp)"
  by (simp_all add: strip_def headed_def)

lemma mset_pick:
  "mset (map fst (pick_blocks start fin pos buf)) = mset (filter (in_interval start fin) buf)"
proof -
  have "mset (map fst (filter (\<lambda>(b, p). P b) (zip buf qs))) = mset (filter P buf)" if "length qs = length buf"
    for P and qs :: "nat list"
    using that by (induction buf qs rule: list_induct2') auto
  then show ?thesis by (simp add: pick_blocks_def)
qed

text \<open>The sums of a complete file agree with its entry, so nothing is corrected.\<close>

lemma frame_slot: "frame (drop_bit 16 t) bs = slot 16 (drop_bit 24 t) (byte_at 16 t) bs"
proof -
  have "drop_bit 16 u = drop_bit 16 t \<longleftrightarrow> drop_bit 24 u = drop_bit 24 t \<and> byte_at 16 u = byte_at 16 t" for u :: u64
  proof -
    have "unat u div 2 ^ 16 = unat t div 2 ^ 16 \<longleftrightarrow>
        unat u div 2 ^ 16 div 256 = unat t div 2 ^ 16 div 256 \<and> unat u div 2 ^ 16 mod 256 = unat t div 2 ^ 16 mod 256"
      by (metis div_mult_mod_eq)
    then show ?thesis by (simp add: word_unat_eq_iff unat_drop_bit byte_at_unat div_mult2_eq [symmetric])
  qed
  then show ?thesis by (simp add: frame_def slot_def)
qed

lemma complete_file_sums:
  assumes "stores d bs" "frame (drop_bit 16 t) bs \<noteq> []"
  shows "correct_storage_sums io t (block_total (frame (drop_bit 16 t) bs)) False d = (0, d)"
proof -
  have "\<exists>b \<in> set bs. drop_bit 24 (btime b) = drop_bit 24 t"
    using assms(2) unfolding frame_slot by (auto simp: slot_def filter_empty_conv)
  then have e: "dk_sums d (STORAGE_DIR3_ARGS t) = Some (entries 16 (drop_bit 24 t) bs)"
    using assms(1) by (simp add: stores_def sums_of_def entries_def)
  have "entries 16 (drop_bit 24 t) bs ! byte_at 16 t = block_total (frame (drop_bit 16 t) bs)"
    using byte_at_less [of 16 t] by (simp add: entries_def frame_slot)
  moreover have "length (entries 16 (drop_bit 24 t) bs) = 256" by (simp add: entries_def)
  ultimately show ?thesis using byte_at_less [of 16 t] e by (simp add: correct_storage_sums_def correct_storage_sum_def)
qed

text \<open>
  From the position behind \<open>j\<close> blocks to the end of the file, for any interval.
  \<open>L\<close> are the blocks handed to the callback; at the end of the file the sums of
  the blocks of the interval replace the entry of the frame.
\<close>

lemma load_part:
  assumes d: "stores d bs" and xs: "xs = frame (drop_bit 16 start) bs" "xs \<noteq> []" and lt: "start < fin"
  defines "inside \<equiv> in_interval start fin"
  shows "j \<le> length xs \<Longrightarrow> \<exists>L. mset (map strip L) = mset (map strip (filter inside (drop j xs))) \<and> (\<forall>b \<in> set L. drop_bit 16 (btime b) = drop_bit 16 start) \<and>
    load_loop io (plain_callback f) start fin (512 * j) (block_total (filter inside (take j xs))) n x d =
    (let (res, d') = correct_storage_sums io start (block_total (filter inside xs)) False d in
     if res \<noteq> 0 then Some (n + length L, fold f L x, d')
     else load_loop io (plain_callback f) ((start OR (2 ^ 16 - 1)) + 1) fin 0 zero_sum (n + length L) (fold f L x) d')"
proof (induction "length xs - j" arbitrary: j n x rule: less_induct)
  case less
  have len: "length b = 16" if "b \<in> set xs" for b using that d xs(1) by (auto simp: stores_def frame_def)
  have content: "dk_blocks d (STORAGE_FILE_ARGS start) = Some (concat (map block_bytes xs))"
    using d xs by (auto simp: stores_def file_of_def frame_def filter_empty_conv)
  define buf where "buf = take bufsize (drop j xs)"
  have sub: "set buf \<subseteq> set xs" by (metis buf_def set_drop_subset set_take_subset subset_trans)
  define P where "P = pick_blocks start fin (512 * j) buf"
  have P: "mset (map fst P) = mset (filter inside buf)" using mset_pick [of start fin "512 * j" buf] by (simp add: P_def inside_def)
  have Pin: "fst bp \<in> set xs" if "bp \<in> set P" for bp
    using that sub mset_eq_setD [OF P] by auto
  then have ne: "fst bp \<noteq> []" if "bp \<in> set P" for bp using that len by fastforce
  have stripP: "mset (map strip (map headed P)) = mset (map strip (filter inside buf))"
  proof -
    have "map strip (map headed P) = map strip (map fst P)" using ne by simp
    then show ?thesis using arg_cong [OF P, of "image_mset strip"] by (metis mset_map)
  qed
  have timeP: "drop_bit 16 (btime b) = drop_bit 16 start" if "b \<in> set (map headed P)" for b
    using that Pin ne xs(1) by (auto simp: frame_def)
  have tk: "take j xs @ buf = take (j + length buf) xs"
    by (simp add: buf_def take_add [symmetric] min_def)
  have total: "fold (\<lambda>b s. add_sum s (block_sum b)) (filter inside buf) (block_total (filter inside (take j xs))) =
      block_total (filter inside (take (j + length buf) xs))"
    by (simp add: block_total_def tk [symmetric])
  have read: "read_blocks bufsize (concat (map block_bytes xs)) (512 * j) = buf"
    unfolding buf_def by (rule read_blocks_file [OF len])
  note unfold = load_loop.simps [of io "plain_callback f" start fin "512 * j" "block_total (filter inside (take j xs))" n x d]
  note simps = content read inside_def [symmetric] total call_all_plain P_def [symmetric]
  show ?case
  proof (cases "length buf = bufsize")
    case True
    let ?j = "j + length buf"
    have j: "?j \<le> length xs" "length xs - ?j < length xs - j" using True less.prems by (auto simp: buf_def bufsize_def)
    from less.hyps [OF j(2,1), of "n + length P" "fold f (map headed P) x"]
    obtain L where L: "mset (map strip L) = mset (map strip (filter inside (drop ?j xs)))" "\<forall>b \<in> set L. drop_bit 16 (btime b) = drop_bit 16 start"
      "load_loop io (plain_callback f) start fin (512 * ?j) (block_total (filter inside (take ?j xs))) (n + length P) (fold f (map headed P) x) d =
       (let (res, d') = correct_storage_sums io start (block_total (filter inside xs)) False d in
        if res \<noteq> 0 then Some (n + length P + length L, fold f L (fold f (map headed P) x), d')
        else load_loop io (plain_callback f) ((start OR (2 ^ 16 - 1)) + 1) fin 0 zero_sum (n + length P + length L) (fold f L (fold f (map headed P) x)) d')"
      by blast
    have "drop bufsize (drop j xs) = drop ?j xs" using True by (simp add: add.commute)
    then have "drop j xs = buf @ drop ?j xs" using append_take_drop_id [of bufsize "drop j xs"] by (simp only: buf_def)
    then have "mset (map strip (map headed P @ L)) = mset (map strip (filter inside (drop j xs)))" using stripP L(1) by simp
    moreover have "load_loop io (plain_callback f) start fin (512 * j) (block_total (filter inside (take j xs))) n x d =
       (let (res, d') = correct_storage_sums io start (block_total (filter inside xs)) False d in
        if res \<noteq> 0 then Some (n + length (map headed P @ L), fold f (map headed P @ L) x, d')
        else load_loop io (plain_callback f) ((start OR (2 ^ 16 - 1)) + 1) fin 0 zero_sum (n + length (map headed P @ L)) (fold f (map headed P @ L) x) d')"
      using L(3) True lt
      by (simp add: unfold simps add.assoc add_mult_distrib2 Let_def case_prod_beta cong del: if_weak_cong)
    ultimately show ?thesis using L(2) timeP by (intro exI [of _ "map headed P @ L"]) auto
  next
    case False
    then have "length (drop j xs) < bufsize" by (auto simp: buf_def)
    then have buf: "buf = drop j xs" "take (j + length buf) xs = xs" using less.prems by (simp_all add: buf_def)
    have "load_loop io (plain_callback f) start fin (512 * j) (block_total (filter inside (take j xs))) n x d =
       (let (res, d') = correct_storage_sums io start (block_total (filter inside xs)) False d in
        if res \<noteq> 0 then Some (n + length (map headed P), fold f (map headed P) x, d')
        else load_loop io (plain_callback f) ((start OR (2 ^ 16 - 1)) + 1) fin 0 zero_sum (n + length (map headed P)) (fold f (map headed P) x) d')"
      using False lt by (simp add: unfold simps buf(2) skip_mask_def Let_def case_prod_beta)
    then show ?thesis using stripP timeP buf(1) by (intro exI [of _ "map headed P"]) auto
  qed
qed

lemma load_file:
  assumes d: "stores d bs" and xs: "xs = frame (drop_bit 16 start) bs" "xs \<noteq> []"
    and inside: "\<And>b. b \<in> set xs \<Longrightarrow> in_interval start fin b" and lt: "start < fin"
  shows "\<exists>L. mset (map strip L) = mset (map strip xs) \<and> (\<forall>b \<in> set L. drop_bit 16 (btime b) = drop_bit 16 start) \<and>
    load_loop io (plain_callback f) start fin 0 zero_sum n x d =
    load_loop io (plain_callback f) ((start OR (2 ^ 16 - 1)) + 1) fin 0 zero_sum (n + length L) (fold f L x) d"
proof -
  have all: "filter (in_interval start fin) xs = xs" using inside by (simp add: filter_id_conv)
  show ?thesis
    using load_part [OF d xs lt, of 0 io f n x] complete_file_sums [OF d xs(2) [unfolded xs(1)], of io]
    by (simp add: all block_total_def [of "[]"] xs(1) [symmetric])
qed

section \<open>All files\<close>

lemma div_eq_iff_bounds: "0 < m \<Longrightarrow> (n :: nat) div m = q \<longleftrightarrow> m * q \<le> n \<and> n < m * q + m"
  using div_nat_eqI [of m q n] div_mult_mod_eq [of n m] dividend_less_div_times [of m n] by (auto simp: algebra_simps)

lemma same_upper:
  fixes t v :: u64
  assumes "start \<le> u" "u < (start div 2 ^ m + 1) * 2 ^ m" "start = unat t" "u = unat v"
  shows "drop_bit m v = drop_bit m t"
proof -
  have "start div 2 ^ m \<le> u div 2 ^ m" by (rule div_le_mono [OF assms(1)])
  moreover have "u div 2 ^ m < start div 2 ^ m + 1" using assms(2) by (simp add: div_less_iff_less_mult)
  ultimately have "u div 2 ^ m = start div 2 ^ m" by linarith
  then show ?thesis using assms(3,4) by (simp add: word_unat_eq_iff unat_drop_bit)
qed

text \<open>The time only skips over parts that hold no block.\<close>

lemma skipped_empty:
  assumes d: "stores d bs" "frame (drop_bit 16 start) bs = []" and small: "unat start < 2 ^ 48"
  defines "nxt \<equiv> (start OR skip_mask d start False) + 1"
  shows "b \<in> set bs \<Longrightarrow> btime b < start \<or> nxt \<le> btime b" "unat start < unat nxt" "2 ^ 16 dvd unat nxt"
proof -
  define m :: nat where "m = (if dk_dirs d (STORAGE_DIR3_ARGS start) then 16 else if dk_dirs d (STORAGE_DIR2_ARGS start) then 24
    else if dk_dirs d (STORAGE_DIR1_ARGS start) then 32 else 40)"
  have m: "m \<in> {16, 24, 32, 40}" "skip_mask d start False = 2 ^ m - 1"
    "m = 16 \<or> m = 24 \<and> \<not> dk_dirs d (STORAGE_DIR3_ARGS start) \<or> m = 32 \<and> \<not> dk_dirs d (STORAGE_DIR2_ARGS start) \<or>
     m = 40 \<and> \<not> dk_dirs d (STORAGE_DIR1_ARGS start)"
    by (simp_all add: skip_mask_def m_def)
  have n: "unat nxt = (unat start div 2 ^ m + 1) * 2 ^ m"
    unfolding nxt_def m(2) by (rule unat_or_mask_Suc) (use small m(1) in auto)
  show "unat start < unat nxt" unfolding n using dividend_less_div_times [of "2 ^ m" "unat start"] by (simp add: add.commute)
  show "2 ^ 16 dvd unat nxt" unfolding n using m(1) by (intro dvd_mult le_imp_power_dvd) auto
  show "btime b < start \<or> nxt \<le> btime b" if b: "b \<in> set bs"
  proof (rule ccontr)
    assume "\<not> (btime b < start \<or> nxt \<le> btime b)"
    then have "unat start \<le> unat (btime b)" "unat (btime b) < (unat start div 2 ^ m + 1) * 2 ^ m"
      unfolding n [symmetric] by (simp_all add: word_le_nat_alt word_less_nat_alt)
    then have eq: "drop_bit m (btime b) = drop_bit m start" by (rule same_upper) simp_all
    have "dk_dirs d p" if "p \<in> dirs_of (btime b)" for p using d(1) b that by (auto simp: stores_def)
    then show False using m(1,3) eq d(2) b by (auto simp: dirs_of_def frame_def filter_empty_conv)
  qed
qed

lemma mset_filter_or: "(\<And>b. P b \<Longrightarrow> \<not> Q b) \<Longrightarrow> mset (filter (\<lambda>b. P b \<or> Q b) bs) = mset (filter P bs) + mset (filter Q bs)"
  by (induction bs) auto

text \<open>No block of the last frame lies behind the end of the interval.\<close>

definition whole_frames :: "u64 \<Rightarrow> xdag_block list \<Rightarrow> bool" where
  "whole_frames fin bs \<longleftrightarrow> 2 ^ 16 dvd unat fin \<or> (\<forall>b \<in> set bs. drop_bit 16 (btime b) = drop_bit 16 fin \<longrightarrow> btime b < fin)"

lemma frame_inside:
  assumes "2 ^ 16 dvd unat start" "start < fin" "whole_frames fin bs" "b \<in> set (frame (drop_bit 16 start) bs)"
  shows "in_interval start fin b"
proof -
  have b: "b \<in> set bs" "unat (btime b) div 2 ^ 16 = unat start div 2 ^ 16"
    using assms(4) by (auto simp: frame_def word_unat_eq_iff unat_drop_bit)
  have "unat start = unat start div 2 ^ 16 * 2 ^ 16" using assms(1) by simp
  then have "unat start \<le> unat (btime b)" using b(2) by (metis div_times_less_eq_dividend)
  moreover have "unat (btime b) < unat fin"
  proof (cases "unat fin div 2 ^ 16 = unat start div 2 ^ 16")
    case True
    then have "\<not> 2 ^ 16 dvd unat fin" using assms(1,2) by (metis dvd_div_mult_self word_less_nat_alt less_irrefl)
    moreover have "drop_bit 16 (btime b) = drop_bit 16 fin" using b(2) True by (simp add: word_unat_eq_iff unat_drop_bit)
    ultimately show ?thesis using assms(3) b(1) by (simp add: whole_frames_def word_less_nat_alt)
  next
    case False
    moreover have "unat start div 2 ^ 16 \<le> unat fin div 2 ^ 16"
      using assms(2) by (intro div_le_mono) (simp add: word_less_nat_alt)
    ultimately have "unat (btime b) div 2 ^ 16 < unat fin div 2 ^ 16" using b(2) by linarith
    then show ?thesis by (meson div_le_mono leD leI)
  qed
  ultimately show ?thesis by (simp add: in_interval_def word_le_nat_alt word_less_nat_alt)
qed

lemma split_frame:
  assumes start: "2 ^ 16 dvd unat start" "start < fin" and fin: "whole_frames fin bs" and nxt: "unat nxt = unat start + 2 ^ 16"
  shows "mset (filter (in_interval start fin) bs) = mset (frame (drop_bit 16 start) bs) + mset (filter (in_interval nxt fin) bs)"
proof -
  have key: "drop_bit 16 (btime b) = drop_bit 16 start \<longleftrightarrow> unat start \<le> unat (btime b) \<and> unat (btime b) < unat nxt" for b
  proof -
    obtain q where q: "unat start = 2 ^ 16 * q" using start(1) by blast
    have "unat (btime b) div 2 ^ 16 = q \<longleftrightarrow> 2 ^ 16 * q \<le> unat (btime b) \<and> unat (btime b) < 2 ^ 16 * q + 2 ^ 16"
      by (auto simp: div_eq_iff_bounds)
    then show ?thesis by (simp add: word_unat_eq_iff unat_drop_bit nxt q)
  qed
  have "filter (in_interval start fin) bs =
      filter (\<lambda>b. drop_bit 16 (btime b) = drop_bit 16 start \<or> in_interval nxt fin b) bs"
  proof (rule filter_cong [OF refl])
    fix b assume b: "b \<in> set bs"
    have "in_interval start fin b" if "drop_bit 16 (btime b) = drop_bit 16 start"
      using frame_inside [OF start fin, of b] that b by (simp add: frame_def)
    then show "in_interval start fin b \<longleftrightarrow> drop_bit 16 (btime b) = drop_bit 16 start \<or> in_interval nxt fin b"
      using key [of b] nxt by (auto simp: in_interval_def word_le_nat_alt word_less_nat_alt)
  qed
  then show ?thesis unfolding frame_def
    using mset_filter_or [of "\<lambda>b. drop_bit 16 (btime b) = drop_bit 16 start" "in_interval nxt fin" bs] key
    by (simp add: in_interval_def word_le_nat_alt word_less_nat_alt)
qed

lemma load_all:
  assumes d: "stores d bs" and fin: "whole_frames fin bs" "unat fin \<le> 2 ^ 48"
  shows "2 ^ 16 dvd unat start \<Longrightarrow> \<exists>L. mset (map strip L) = mset (map strip (filter (in_interval start fin) bs)) \<and>
    sorted (map (\<lambda>b. drop_bit 16 (btime b)) L) \<and> (\<forall>b \<in> set L. drop_bit 16 start \<le> drop_bit 16 (btime b)) \<and>
    load_loop io (plain_callback f) start fin 0 zero_sum n x d = Some (n + length L, fold f L x, d)"
proof (induction "unat fin - unat start" arbitrary: start n x rule: less_induct)
  case less
  let ?k = "drop_bit 16 start"
  show ?case
  proof (cases "start < fin")
    case False
    then have "filter (in_interval start fin) bs = []" by (auto simp: filter_empty_conv in_interval_def)
    then show ?thesis using False by (intro exI [of _ "[]"]) (simp add: load_loop.simps)
  next
    case lt: True
    then have small: "unat start < 2 ^ 48" using fin(2) by (simp add: word_less_nat_alt)
    show ?thesis
    proof (cases "frame ?k bs = []")
      case True
      define nxt where "nxt = (start OR skip_mask d start False) + 1"
      note skip = skipped_empty [OF d True small, folded nxt_def]
      have "unat fin - unat nxt < unat fin - unat start" using skip(2) lt by (simp add: word_less_nat_alt)
      from less.hyps [OF this skip(3), of n x] obtain L where L:
        "mset (map strip L) = mset (map strip (filter (in_interval nxt fin) bs))" "sorted (map (\<lambda>b. drop_bit 16 (btime b)) L)"
        "\<forall>b \<in> set L. drop_bit 16 nxt \<le> drop_bit 16 (btime b)"
        "load_loop io (plain_callback f) nxt fin 0 zero_sum n x d = Some (n + length L, fold f L x, d)" by blast
      have "in_interval start fin b = in_interval nxt fin b" if "b \<in> set bs" for b
        using skip(1) [OF that] skip(2) by (auto simp: in_interval_def word_le_nat_alt word_less_nat_alt)
      then have "filter (in_interval start fin) bs = filter (in_interval nxt fin) bs" by (rule filter_cong [OF refl])
      moreover have "dk_blocks d (STORAGE_FILE_ARGS start) = None"
        using d True by (auto simp: stores_def file_of_def frame_def filter_empty_conv)
      then have "load_loop io (plain_callback f) start fin 0 zero_sum n x d = load_loop io (plain_callback f) nxt fin 0 zero_sum n x d"
        using lt by (subst load_loop.simps) (simp add: pick_blocks_def bufsize_def nxt_def)
      moreover have "drop_bit 16 start \<le> drop_bit 16 nxt"
        using skip(2) by (simp add: word_le_nat_alt unat_drop_bit div_le_mono)
      ultimately show ?thesis using L by (intro exI [of _ L]) auto
    next
      case False
      define nxt where "nxt = (start OR (2 ^ 16 - 1)) + 1"
      have n: "unat nxt = (unat start div 2 ^ 16 + 1) * 2 ^ 16" unfolding nxt_def by (rule unat_or_mask_Suc) (use small in simp_all)
      then have n': "unat nxt = unat start + 2 ^ 16" "2 ^ 16 dvd unat nxt" using less.prems by (simp_all add: algebra_simps)
      obtain L1 where L1: "mset (map strip L1) = mset (map strip (frame ?k bs))" "\<forall>b \<in> set L1. drop_bit 16 (btime b) = ?k"
        "load_loop io (plain_callback f) start fin 0 zero_sum n x d = load_loop io (plain_callback f) nxt fin 0 zero_sum (n + length L1) (fold f L1 x) d"
        using load_file [OF d refl False frame_inside [OF less.prems lt fin(1)] lt, of io f n x]
        by (auto simp: nxt_def)
      have "unat fin - unat nxt < unat fin - unat start" using n'(1) lt by (simp add: word_less_nat_alt)
      from less.hyps [OF this n'(2), of "n + length L1" "fold f L1 x"] obtain L where L:
        "mset (map strip L) = mset (map strip (filter (in_interval nxt fin) bs))" "sorted (map (\<lambda>b. drop_bit 16 (btime b)) L)"
        "\<forall>b \<in> set L. drop_bit 16 nxt \<le> drop_bit 16 (btime b)"
        "load_loop io (plain_callback f) nxt fin 0 zero_sum (n + length L1) (fold f L1 x) d = Some (n + length L1 + length L, fold f L (fold f L1 x), d)"
        by blast
      have "mset (filter (in_interval start fin) bs) = mset (frame ?k bs) + mset (filter (in_interval nxt fin) bs)"
        using split_frame [OF less.prems lt fin(1) n'(1)] .
      moreover have "sorted (map (\<lambda>b. drop_bit 16 (btime b)) L1)"
        using L1(2) by (simp add: sorted_wrt_map sorted_wrt_iff_nth_less)
      moreover have "drop_bit 16 start \<le> drop_bit 16 nxt" using n'(1) by (simp add: word_le_nat_alt unat_drop_bit div_le_mono)
      ultimately show ?thesis using L1 L by (intro exI [of _ "L1 @ L"]) (auto simp: sorted_append)
    qed
  qed
qed

text \<open>
  C12: loading ends, and hands every block of the interval to the callback
  exactly once, frame after frame, leaving the disk as it is.  The interval
  starts with a frame, and no block of its last frame lies behind its end; the
  order inside a frame is that of the time within each buffer.
\<close>

theorem load_blocks_complete:
  assumes "stores d bs" "2 ^ 16 dvd unat start" "whole_frames fin bs" "unat fin \<le> 2 ^ 48"
  shows "\<exists>L. xdag_load_blocks io (plain_callback f) True start fin x d = Some (length L, fold f L x, d) \<and>
    mset (map strip L) = mset (map strip (filter (in_interval start fin) bs)) \<and> sorted (map (\<lambda>b. drop_bit 16 (btime b)) L)"
  using load_all [OF assms(1,3,4,2), of io f 0 x] by (auto simp: xdag_load_blocks_def)

section \<open>Loading a part of a frame\<close>

lemma reset_entry:
  assumes "dk_sums d (STORAGE_DIR3_ARGS t) = Some es" "length es = 256" "es ! byte_at 16 t \<noteq> s" "io (STORAGE_DIR3_ARGS t) = Io_ok"
  shows "dk_sums (snd (correct_storage_sums io t s False d)) (STORAGE_DIR3_ARGS t) = Some (es[byte_at 16 t := s])"
proof -
  have c: "correct_storage_sum io (STORAGE_DIR3_ARGS t) (byte_at 16 t) s False d =
      (1, d\<lparr>dk_sums := (dk_sums d)(STORAGE_DIR3_ARGS t \<mapsto> es[byte_at 16 t := s])\<rparr>)"
    using assms by (cases s) (simp add: correct_storage_sum_def write_over_def zero_sum_def)
  show ?thesis unfolding correct_storage_sums_def c
    by (simp add: Let_def case_prod_beta correct_sum_frame(3))
qed

lemma total_size: "sum_size (block_total bs) = of_nat (512 * length bs)"
  by (induction bs rule: rev_induct) (simp_all add: block_total_def zero_sum_def add_sum_def block_sum_def algebra_simps)

lemma part_total:
  assumes "length xs < 2 ^ 55"
  shows "block_total (filter P xs) = block_total xs \<longleftrightarrow> (\<forall>b \<in> set xs. P b)"
proof
  assume "block_total (filter P xs) = block_total xs"
  then have "(of_nat (512 * length (filter P xs)) :: u64) = of_nat (512 * length xs)" using total_size by metis
  moreover have whole: "512 * length xs < 2 ^ 64" using assms by simp
  moreover have "512 * length (filter P xs) < 2 ^ 64"
    using whole length_filter_le [of P xs] by (meson le_less_trans mult_le_mono2)
  moreover have "m = n" if "(of_nat m :: u64) = of_nat n" "m < 2 ^ 64" "n < 2 ^ 64" for m n :: nat
    using that by (simp add: word_of_nat_eq_iff take_bit_nat_eq_self)
  ultimately have "512 * length (filter P xs) = 512 * length xs" by blast
  then show "\<forall>b \<in> set xs. P b" using length_filter_less [of _ xs P] by fastforce
next
  assume "\<forall>b \<in> set xs. P b"
  then have "filter P xs = xs" by (simp add: filter_id_conv)
  then show "block_total (filter P xs) = block_total xs" by simp
qed

text \<open>
  C27: loading an interval inside one frame.  It ends, and hands the blocks of
  the interval to the callback; but it replaces the entry of the frame in the
  sums of its directory by the sum of these blocks alone.  So the sums still are
  those of the blocks stored exactly when the interval holds all blocks of the
  frame.
\<close>

theorem partial_load_sums:
  assumes "stores d bs" "xs = frame (drop_bit 16 start) bs" "xs \<noteq> []" "length xs < 2 ^ 55" "start < fin"
    and "unat fin \<le> (unat start div 2 ^ 16 + 1) * 2 ^ 16" "unat start < 2 ^ 48" "io (STORAGE_DIR3_ARGS start) = Io_ok"
  shows "\<exists>L d'. xdag_load_blocks io (plain_callback f) True start fin x d = Some (length L, fold f L x, d') \<and>
    mset (map strip L) = mset (map strip (filter (in_interval start fin) xs)) \<and>
    dk_sums d' (STORAGE_DIR3_ARGS start) =
      Some ((entries 16 (drop_bit 24 start) bs)[byte_at 16 start := block_total (filter (in_interval start fin) xs)]) \<and>
    (stores d' bs \<longleftrightarrow> (\<forall>b \<in> set xs. in_interval start fin b))"
proof -
  let ?es = "entries 16 (drop_bit 24 start) bs" and ?s = "block_total (filter (in_interval start fin) xs)"
  obtain res d' where d': "correct_storage_sums io start ?s False d = (res, d')" by fastforce
  obtain L where L: "mset (map strip L) = mset (map strip (filter (in_interval start fin) xs))"
    "load_loop io (plain_callback f) start fin 0 zero_sum 0 x d =
     (if res \<noteq> 0 then Some (length L, fold f L x, d')
      else load_loop io (plain_callback f) ((start OR (2 ^ 16 - 1)) + 1) fin 0 zero_sum (length L) (fold f L x) d')"
    using load_part [OF assms(1,2,3,5), of 0 io f 0 x] d' by (auto simp: block_total_def [of "[]"])
  have "\<not> (start OR (2 ^ 16 - 1)) + 1 < fin"
    using unat_or_mask_Suc [of start 16] assms(6,7) by (simp add: word_less_nat_alt)
  then have "load_loop io (plain_callback f) ((start OR (2 ^ 16 - 1)) + 1) fin 0 zero_sum (length L) (fold f L x) d' = Some (length L, fold f L x, d')"
    by (subst load_loop.simps) simp
  then have run: "xdag_load_blocks io (plain_callback f) True start fin x d = Some (length L, fold f L x, d')"
    using L(2) unfolding xdag_load_blocks_def if_True by metis
  have "\<exists>b \<in> set bs. drop_bit 24 (btime b) = drop_bit 24 start"
    using assms(2,3) unfolding frame_slot by (auto simp: slot_def filter_empty_conv)
  then have es: "dk_sums d (STORAGE_DIR3_ARGS start) = Some ?es"
    using assms(1) by (simp add: stores_def sums_of_def entries_def)
  have len: "length ?es = 256" "byte_at 16 start < 256" by (simp_all add: entries_def byte_at_less)
  have entry: "?es ! byte_at 16 start = block_total xs" using len(2) assms(2) by (simp add: entries_def frame_slot)
  show ?thesis
  proof (cases "\<forall>b \<in> set xs. in_interval start fin b")
    case True
    then have s: "?s = block_total xs" using part_total [OF assms(4)] by blast
    then have "d' = d" using d' complete_file_sums [of d bs start io] assms(1-3) by simp
    moreover have "?es[byte_at 16 start := ?s] = ?es" using entry s by (metis list_update_id)
    ultimately show ?thesis using run L(1) es True assms(1) by auto
  next
    case False
    then have ne: "?es ! byte_at 16 start \<noteq> ?s" using part_total [OF assms(4)] entry by metis
    have new: "dk_sums d' (STORAGE_DIR3_ARGS start) = Some (?es[byte_at 16 start := ?s])"
      using reset_entry [where io = io, OF es len(1) ne assms(8)] d' by simp
    have "?es[byte_at 16 start := ?s] \<noteq> ?es" using ne len by (metis nth_list_update_eq)
    then have "dk_sums d' (STORAGE_DIR3_ARGS start) \<noteq> sums_of 16 (drop_bit 24 start) bs"
      using new es assms(1) by (simp add: stores_def)
    then have "\<not> stores d' bs" by (auto simp: stores_def)
    then show ?thesis using run L(1) new False by blast
  qed
qed

theorem load_blocks_complete_witness:
  "\<exists>L. xdag_load_blocks good_io (plain_callback (\<lambda>b n. Suc n)) True 0x10000 0x20000 0 one_block_disk =
      Some (length L, fold (\<lambda>b n. Suc n) L 0, one_block_disk) \<and> mset (map strip L) = {#strip stored_block#}"
proof -
  have "filter (in_interval 0x10000 0x20000) [stored_block] = [stored_block]" by (simp add: in_interval_def stored_block_simps)
  then show ?thesis
    using load_blocks_complete [OF one_block_stores, of "0x10000" "0x20000" good_io "\<lambda>b n. Suc n" "0 :: nat"]
    by (auto simp: whole_frames_def)
qed

theorem partial_load_sums_witness:
  "stores one_block_disk [stored_block] \<and>
   (\<exists>L d'. xdag_load_blocks good_io (plain_callback (\<lambda>b n. Suc n)) True 0x10200 0x10300 0 one_block_disk = Some (length L, fold (\<lambda>b n. Suc n) L 0, d') \<and>
      \<not> stores d' [stored_block])"
proof -
  have f: "[stored_block] = frame (drop_bit 16 0x10200) [stored_block]" by (simp add: frame_def stored_block_simps)
  have "\<not> in_interval 0x10200 0x10300 stored_block" by (simp add: in_interval_def stored_block_simps)
  then show ?thesis
    using one_block_stores partial_load_sums [OF one_block_stores f, of "0x10300" good_io "\<lambda>b n. Suc n" 0] by auto
qed

end
