(* ===== verification/Cache_Storage.thy ===== *)
theory Cache_Storage
  imports Storage
begin

text \<open>
  The block cache beside the storage: what a check of signatures gives through
  the cache, compared with the check that reads the block from the files.
\<close>

section \<open>Histories of the cache\<close>

text \<open>
  The operations of \<open>add_block_nolock\<close> on the cache: a signed block is added under
  its hash, the size is adapted and old blocks are dropped.
\<close>

datatype cache_op = Cache_add bool xdag_block | Cache_retarget bool bool bool nat nat

fun cache_step :: "cache_op \<Rightarrow> block_cache \<Rightarrow> block_cache" where
  "cache_step (Cache_add malloc_ok b) c = cache_add malloc_ok b (hash_data (block_bytes b)) c"
| "cache_step (Cache_retarget low high rnd hit miss) c = cache_retarget low high rnd hit miss c"

definition added_blocks :: "cache_op list \<Rightarrow> xdag_block set" where
  "added_blocks ops = {b. \<exists>ok. Cache_add ok b \<in> set ops}"

lemma cache_history:
  "cache_inv c \<Longrightarrow> cache_inv (fold cache_step ops c) \<and>
   (\<forall>cb \<in> set (cache_queue (fold cache_step ops c)).
      cb \<in> set (cache_queue c) \<or> cb_block cb \<in> added_blocks ops \<and> cb_hash cb = hash_data (block_bytes (cb_block cb)))"
proof (induction ops arbitrary: c)
  case (Cons op ops)
  have step: "cache_inv (cache_step op c)"
    using cache_add_inv(1) [OF Cons.prems] cache_retarget_inv(1) [OF Cons.prems] by (cases op) simp_all
  have new: "cb \<in> set (cache_queue c) \<or> cb_block cb \<in> added_blocks [op] \<and> cb_hash cb = hash_data (block_bytes (cb_block cb))"
    if "cb \<in> set (cache_queue (cache_step op c))" for cb
  proof (cases op)
    case (Cache_add ok b)
    then have "cb \<in> insert \<lparr>cb_hash = hash_data (block_bytes b), cb_block = b\<rparr> (set (cache_queue c))"
      using that cache_add_inv(2) [OF Cons.prems, of ok b "hash_data (block_bytes b)"] unfolding Cache_add cache_step.simps by blast
    then show ?thesis using Cache_add by (auto simp: added_blocks_def)
  next
    case (Cache_retarget low high rnd hit miss)
    then show ?thesis using that cache_retarget_inv(2) [OF Cons.prems] unfolding Cache_retarget cache_step.simps by blast
  qed
  have "added_blocks [op] \<union> added_blocks ops = added_blocks (op # ops)" by (auto simp: added_blocks_def)
  then show ?case using Cons.IH [OF step] new by (simp only: fold_simps comp_def) blast
qed simp

lemma cached_block:
  assumes "cache_block_by_hash h (fold cache_step ops empty_cache) = Some cb"
  shows "cb_block cb \<in> added_blocks ops" "hashlow (hash_data (block_bytes (cb_block cb))) = h"
proof -
  let ?c = "fold cache_step ops empty_cache"
  note H = cache_history [OF empty_cache_inv, of ops]
  have v: "tree_valid cb_hash (cache_root ?c)" "cb \<in> set (cache_queue ?c)"
    using H assms unfolding cache_inv_def cache_block_by_hash_def by blast+
  then have "cb_block cb \<in> added_blocks ops \<and> cb_hash cb = hash_data (block_bytes (cb_block cb))"
    using H by (auto simp: empty_cache_def)
  moreover have "hashlow (cb_hash cb) = h" using cix.find_key [OF v(1)] assms by (simp add: cache_block_by_hash_def)
  ultimately show "cb_block cb \<in> added_blocks ops" "hashlow (hash_data (block_bytes (cb_block cb))) = h" by auto
qed

lemma storage_load_hash:
  "fst (xdag_storage_load d h t p) = Some b \<Longrightarrow> hashlow (hash_data (block_bytes b)) = hashlow h"
  by (auto simp: xdag_storage_load_def Let_def split: option.splits if_splits)

text \<open>The storage as the source of blocks.\<close>

abbreviation storage_of :: "disk \<Rightarrow> storage_load" where
  "storage_of d \<equiv> \<lambda>h t p. fst (xdag_storage_load d h t p)"

text \<open>
  C33: the cache never changes the verdict on a stored block.  After any history
  of the cache its tree and its queue fit together; a check that does not find
  the block in the cache is the check through the storage; and a check that does
  is the check of a block that was added and has the wanted hash.  When the
  storage holds the block of this hash the two checks agree, or the two blocks
  are a collision of the hash; when it does not - as for extra blocks, which are
  cached but not stored - the check through the storage would report error 8.
\<close>

theorem cache_transparent:
  "let c = fold cache_step ops empty_cache;
       (res, hit) = check_signature_out_cached verify (storage_of d) c r keys;
       uncached = check_signature_out verify (storage_of d) r keys
   in cache_inv c \<and>
      (if hit then
         (\<exists>b. b \<in> added_blocks ops \<and> hashlow (hash_data (block_bytes b)) = hashlow (bi_hash r) \<and>
            res = find_and_verify_signature_out verify b keys \<and>
            (case storage_of d (bi_hash r) (bi_time r) (bi_storage_pos r) of
               None \<Rightarrow> uncached = 8
             | Some b' \<Rightarrow> (if b' = b then res = uncached
                          else hashlow (hash_data (block_bytes b')) = hashlow (hash_data (block_bytes b)))))
       else res = uncached)"
proof -
  let ?c = "fold cache_step ops empty_cache"
  have inv: "cache_inv ?c" using cache_history [OF empty_cache_inv] by blast
  show ?thesis
  proof (cases "cache_block_by_hash (hashlow (bi_hash r)) ?c")
    case None
    then show ?thesis using inv by (simp add: check_signature_out_cached_def Let_def)
  next
    case (Some cb)
    note cb = cached_block [OF Some]
    have "case storage_of d (bi_hash r) (bi_time r) (bi_storage_pos r) of
         None \<Rightarrow> check_signature_out verify (storage_of d) r keys = 8
       | Some b' \<Rightarrow> (if b' = cb_block cb
            then find_and_verify_signature_out verify (cb_block cb) keys = check_signature_out verify (storage_of d) r keys
            else hashlow (hash_data (block_bytes b')) = hashlow (hash_data (block_bytes (cb_block cb))))"
      using storage_load_hash [of d "bi_hash r" "bi_time r" "bi_storage_pos r"] cb(2)
      by (cases "storage_of d (bi_hash r) (bi_time r) (bi_storage_pos r)") (simp_all add: check_signature_out_def)
    moreover have "check_signature_out_cached verify (storage_of d) ?c r keys = (find_and_verify_signature_out verify (cb_block cb) keys, True)"
      using Some by (simp add: check_signature_out_cached_def)
    ultimately show ?thesis
      unfolding Let_def by (simp only: prod.case if_True) (intro conjI exI [of _ "cb_block cb"] inv cb refl; assumption)
  qed
qed

end
