(* ===== verification/Sync_Request.thy ===== *)
theory Sync_Request
  imports Storage_Properties "HOL-Library.Multiset"
begin

text \<open>
  client/sync.c: \<open>request_blocks\<close>, the procedure by which a pool compares its
  storage with a peer, and the requests of client/transport.c it sends.  Sums of
  the sixteen parts of an interval are compared, and the parts that differ are
  examined in turn, down to intervals short enough to ask for their blocks.
\<close>

section \<open>Requests\<close>

definition REQUEST_BLOCKS_MAX_TIME :: u64 where "REQUEST_BLOCKS_MAX_TIME = push_bit 20 1"
definition QUERY_RETRIES :: nat where "QUERY_RETRIES = 2"

datatype message_type = XDAG_MESSAGE_BLOCKS_REQUEST | XDAG_MESSAGE_SUMS_REQUEST

record xdag_request =
  rq_type :: message_type
  rq_start_time :: u64
  rq_end_time :: u64

text \<open>
  What happens while a request waits: whether a connection was found to send it
  on, the reply that arrived in time (its \<open>field[0].time\<close> and the sums in its last
  eight fields), and the storage afterwards, which other threads fill with
  the blocks that arrive.  A reply of the other kind than the request is outside the model.
\<close>

record sync_answer =
  an_connected :: bool
  an_reply :: "(u64 \<times> xdag_storage_sum list) option"
  an_disk :: "disk \<Rightarrow> disk"

record sync_run =
  sr_disk :: disk
  sr_sent :: "xdag_request list"

text \<open>
  The environment: the answer to the \<open>n\<close>-th request, \<open>g_xdag_sync_on\<close> after \<open>n\<close>
  requests, and the content of the uninitialised buffer of \<open>xdag_load_sums\<close> then.
\<close>

record sync_env =
  se_answer :: "nat \<Rightarrow> xdag_request \<Rightarrow> sync_answer"
  se_sync_on :: "nat \<Rightarrow> bool"
  se_buf :: "nat \<Rightarrow> xdag_storage_sum list"

definition do_request ::
  "sync_env \<Rightarrow> xdag_request \<Rightarrow> xdag_storage_sum list \<times> sync_run \<Rightarrow> int \<times> xdag_storage_sum list \<times> sync_run" where
  "do_request env rq = (\<lambda>(data, s).
     let a = se_answer env (length (sr_sent s)) rq;
         s' = \<lparr>sr_disk = an_disk a (sr_disk s), sr_sent = sr_sent s @ [rq]\<rparr>
     in if rq_type rq = XDAG_MESSAGE_SUMS_REQUEST \<and> \<not> an_connected a then (0, data, s')
        else (case an_reply a of
                None \<Rightarrow> (- 1, data, s')
              | Some (reply_result, sums) \<Rightarrow>
                  (sint (ucast reply_result :: 32 word),
                   if rq_type rq = XDAG_MESSAGE_SUMS_REQUEST then sums else data, s')))"

definition xdag_request_blocks ::
  "sync_env \<Rightarrow> u64 \<Rightarrow> u64 \<Rightarrow> xdag_storage_sum list \<times> sync_run \<Rightarrow> int \<times> xdag_storage_sum list \<times> sync_run" where
  "xdag_request_blocks env start_time end_time =
     do_request env \<lparr>rq_type = XDAG_MESSAGE_BLOCKS_REQUEST, rq_start_time = start_time, rq_end_time = end_time\<rparr>"

definition xdag_request_sums ::
  "sync_env \<Rightarrow> u64 \<Rightarrow> u64 \<Rightarrow> xdag_storage_sum list \<times> sync_run \<Rightarrow> int \<times> xdag_storage_sum list \<times> sync_run" where
  "xdag_request_sums env start_time end_time =
     do_request env \<lparr>rq_type = XDAG_MESSAGE_SUMS_REQUEST, rq_start_time = start_time, rq_end_time = end_time\<rparr>"

text \<open>The loop that repeats a request while it fails.\<close>

fun query :: "nat \<Rightarrow> ('s \<Rightarrow> int \<times> 's) \<Rightarrow> int \<Rightarrow> 's \<Rightarrow> int \<times> 's" where
  "query 0 request res s = (res, s)"
| "query (Suc n) request res s = (let (res, s) = request s in if res < 0 then query n request res s else (res, s))"

section \<open>The descent\<close>

text \<open>
  \<open>request_parts\<close> is the loop over the sixteen parts from the \<open>i\<close>-th on.
\<close>

function request_blocks :: "sync_env \<Rightarrow> u64 \<Rightarrow> u64 \<Rightarrow> sync_run \<Rightarrow> int \<times> sync_run"
  and request_parts :: "sync_env \<Rightarrow> nat \<Rightarrow> u64 \<Rightarrow> u64 \<Rightarrow> xdag_storage_sum list \<Rightarrow> xdag_storage_sum list \<Rightarrow> sync_run \<Rightarrow> sync_run" where
  "request_blocks env t dt s =
     (if \<not> se_sync_on env (length (sr_sent s)) then (- 1, s)
      else if dt \<le> REQUEST_BLOCKS_MAX_TIME then
        (let (res, _, s) = query QUERY_RETRIES (xdag_request_blocks env t (t + dt)) 0 ([], s)
         in (if res \<le> 0 then - 1 else 0, s))
      else
        (case xdag_load_sums (se_buf env (length (sr_sent s))) (sr_disk s) t (t + dt) of
           None \<Rightarrow> (- 1, s)
         | Some lsums \<Rightarrow>
             (let (res, rsums, s) = query QUERY_RETRIES (xdag_request_sums env t (t + dt)) 0 ([], s)
              in if res \<le> 0 then (- 1, s) else (0, request_parts env 0 t (drop_bit 4 dt) lsums rsums s))))"
| "request_parts env i t dt lsums rsums s =
     (if i < 16 then
        request_parts env (Suc i) t dt lsums rsums
          (if sum_size (lsums ! i) \<noteq> sum_size (rsums ! i) \<or> sum_sum (lsums ! i) \<noteq> sum_sum (rsums ! i)
           then snd (request_blocks env (t + of_nat i * dt) dt s) else s)
      else s)"
  by pat_completeness auto
termination
  by (relation "measures [\<lambda>x. case x of Inl (env, t, dt, s) \<Rightarrow> unat dt | Inr (env, i, t, dt, l, r, s) \<Rightarrow> unat dt,
      \<lambda>x. case x of Inl (env, t, dt, s) \<Rightarrow> 0 | Inr (env, i, t, dt, l, r, s) \<Rightarrow> 17 - i]")
    (auto simp: unat_drop_bit REQUEST_BLOCKS_MAX_TIME_def word_le_nat_alt intro!: div_less_dividend)

declare request_blocks.simps [simp del] request_parts.simps [simp del]

definition sync_round :: "sync_env \<Rightarrow> sync_run \<Rightarrow> sync_run" where
  "sync_round env s = snd (request_blocks env 0 (push_bit 48 1) s)"

section \<open>A peer that answers\<close>

text \<open>
  The peer holds the blocks \<open>R\<close>.  It answers a request for sums from its storage,
  with at most one of two attempts lost.  The own storage only receives blocks
  the peer has.
\<close>

definition answers :: "sync_env \<Rightarrow> disk \<Rightarrow> nat \<Rightarrow> xdag_request \<Rightarrow> bool" where
  "answers env d n rq \<longleftrightarrow> an_connected (se_answer env n rq) \<and>
     (\<exists>junk. an_reply (se_answer env n rq) =
       map_option (\<lambda>sums. (1, sums)) (xdag_load_sums junk d (rq_start_time rq) (rq_end_time rq)))"

definition within :: "xdag_block list \<Rightarrow> xdag_block list \<Rightarrow> disk \<Rightarrow> xdag_block list \<Rightarrow> bool" where
  "within L R d M \<longleftrightarrow> stores d M \<and> mset L \<subseteq># mset M \<and> mset M \<subseteq># mset R"

definition peer_holds :: "sync_env \<Rightarrow> xdag_block list \<Rightarrow> bool" where
  "peer_holds env R \<longleftrightarrow> length R < 2 ^ 55 \<and> (\<forall>n. se_sync_on env n) \<and>
     (\<exists>d. stores d R \<and> (\<forall>n rq. rq_type rq = XDAG_MESSAGE_SUMS_REQUEST \<longrightarrow>
        answers env d n rq \<or> an_connected (se_answer env n rq) \<and> an_reply (se_answer env n rq) = None \<and> answers env d (Suc n) rq)) \<and>
     (\<forall>n rq d L. within [] R d L \<longrightarrow> (\<exists>M. within L R (an_disk (se_answer env n rq) d) M))"

lemma within_trans: "within L R d M \<Longrightarrow> within M R e N \<Longrightarrow> within L R e N"
  by (auto simp: within_def)

lemma size_total: "sum_size (block_total bs) = of_nat (512 * length bs)"
  by (simp add: total_sum block_sum_def comp_def sum_list_triv)

lemma total_mset: "mset xs = mset ys \<Longrightarrow> block_total xs = block_total ys"
proof -
  assume eq: "mset xs = mset ys"
  have "sum_list (map f xs) = sum_list (map f ys)" for f :: "xdag_block \<Rightarrow> u64"
    by (simp add: sum_mset_sum_list [symmetric] eq del: sum_mset_sum_list)
  then show ?thesis by (simp add: total_sum)
qed

lemma missing_differs:
  assumes "mset L \<subseteq># mset R" "length R < 2 ^ 55" "count (mset L) b < count (mset R) b" "P b"
  shows "sum_size (block_total (filter P L)) \<noteq> sum_size (block_total (filter P R))"
proof -
  have sub: "mset (filter P L) \<subset># mset (filter P R)"
    using assms(1,3,4) unfolding mset_filter
    by (intro subset_mset.le_neq_trans multiset_filter_mono) (auto dest: arg_cong [of _ _ "\<lambda>M. count M b"])
  then have less: "length (filter P L) < length (filter P R)" by (metis mset_subset_size size_mset)
  have bound: "512 * length (filter P R) < 2 ^ 64" using assms(2) le_less_trans [OF length_filter_le [of P R]] by simp
  then have "take_bit 64 (512 * length (filter P R)) = 512 * length (filter P R)"
    "take_bit 64 (512 * length (filter P L)) = 512 * length (filter P L)"
    using less by (auto intro!: take_bit_nat_eq_self simp del: take_bit_of_nat)
  then show ?thesis using less by (simp add: size_total word_unat_eq_iff unsigned_of_nat del: of_nat_mult)
qed


text \<open>The request for the sums of an aligned interval gets the sums of the peer.\<close>

lemma query_sums:
  assumes peer: "peer_holds env R" and e: "e \<in> {24, 28, 32, 36, 40, 44, 48}" "2 ^ e dvd unat t" "unat t + 2 ^ e \<le> 2 ^ 48"
    and M: "within [] R (sr_disk s) M"
  obtains s' N k where
    "query QUERY_RETRIES (xdag_request_sums env t (t + 2 ^ e)) 0 ([], s) =
       (1, map (\<lambda>i. block_total (filter (in_part (unat t) (2 ^ (e - 4)) i) R)) [0..<16], s')"
    "within M R (sr_disk s') N"
    "sr_sent s' = sr_sent s @ replicate k \<lparr>rq_type = XDAG_MESSAGE_SUMS_REQUEST, rq_start_time = t, rq_end_time = t + 2 ^ e\<rparr>"
proof -
  let ?rq = "\<lparr>rq_type = XDAG_MESSAGE_SUMS_REQUEST, rq_start_time = t, rq_end_time = t + 2 ^ e\<rparr>"
  let ?n = "length (sr_sent s)" and ?sums = "map (\<lambda>i. block_total (filter (in_part (unat t) (2 ^ (e - 4)) i) R)) [0..<16]"
  obtain d where d: "stores d R" "\<And>n. answers env d n ?rq \<or>
      an_connected (se_answer env n ?rq) \<and> an_reply (se_answer env n ?rq) = None \<and> answers env d (Suc n) ?rq"
    using peer unfolding peer_holds_def by fastforce
  have step: "\<exists>N. within M R (an_disk (se_answer env n ?rq) d) N" if "within [] R d M" for n d M
    using peer that unfolding peer_holds_def by blast
  have sums: "xdag_load_sums junk d t (t + 2 ^ e) = Some ?sums" for junk
    using load_sums_parts [OF d(1), of e t junk] e by auto
  have ok: "an_connected (se_answer env n ?rq) \<and> an_reply (se_answer env n ?rq) = Some (1, ?sums)" if "answers env d n ?rq" for n
    using that sums by (simp add: answers_def)
  show thesis
  proof (cases "answers env d ?n ?rq")
    case True
    obtain N where "within M R (an_disk (se_answer env ?n ?rq) (sr_disk s)) N" using step [OF M] by blast
    then show thesis using ok [OF True]
      by (intro that [of "\<lparr>sr_disk = an_disk (se_answer env ?n ?rq) (sr_disk s), sr_sent = sr_sent s @ [?rq]\<rparr>" N 1])
        (simp_all add: QUERY_RETRIES_def numeral_2_eq_2 xdag_request_sums_def do_request_def Let_def)
  next
    case False
    then have lost: "an_connected (se_answer env ?n ?rq)" "an_reply (se_answer env ?n ?rq) = None" "answers env d (Suc ?n) ?rq"
      using d(2) [of ?n] by blast+
    obtain N where N: "within M R (an_disk (se_answer env ?n ?rq) (sr_disk s)) N" using step [OF M] by blast
    then have "within [] R (an_disk (se_answer env ?n ?rq) (sr_disk s)) N" by (simp add: within_def)
    from step [OF this] obtain K where
      "within N R (an_disk (se_answer env (Suc ?n) ?rq) (an_disk (se_answer env ?n ?rq) (sr_disk s))) K" by blast
    then show thesis using ok [OF lost(3)] lost within_trans [OF N]
      by (intro that [of "\<lparr>sr_disk = an_disk (se_answer env (Suc ?n) ?rq) (an_disk (se_answer env ?n ?rq) (sr_disk s)),
            sr_sent = sr_sent s @ [?rq, ?rq]\<rparr>" K 2])
        (simp_all add: QUERY_RETRIES_def numeral_2_eq_2 xdag_request_sums_def do_request_def Let_def)
  qed
qed


definition asked_for :: "sync_run \<Rightarrow> xdag_block \<Rightarrow> bool" where
  "asked_for s b \<longleftrightarrow> (\<exists>rq \<in> set (sr_sent s). rq_type rq = XDAG_MESSAGE_BLOCKS_REQUEST \<and>
     rq_start_time rq \<le> btime b \<and> btime b < rq_end_time rq)"

lemma query_blocks:
  assumes peer: "peer_holds env R" and M: "within [] R (sr_disk s) M"
  obtains res data s' N where
    "query QUERY_RETRIES (xdag_request_blocks env t u) 0 ([], s) = (res, data, s')"
    "within M R (sr_disk s') N" "set (sr_sent s') = set (sr_sent s) \<union> {\<lparr>rq_type = XDAG_MESSAGE_BLOCKS_REQUEST, rq_start_time = t, rq_end_time = u\<rparr>}"
proof -
  let ?rq = "\<lparr>rq_type = XDAG_MESSAGE_BLOCKS_REQUEST, rq_start_time = t, rq_end_time = u\<rparr>"
  have step: "\<exists>res data s' N. xdag_request_blocks env t u x = (res, data, s') \<and> within M R (sr_disk s') N \<and>
      set (sr_sent s') = set (sr_sent (snd x)) \<union> {?rq}" if M: "within [] R (sr_disk (snd x)) M" for x M
  proof -
    obtain N where "within M R (an_disk (se_answer env (length (sr_sent (snd x))) ?rq) (sr_disk (snd x))) N"
      using peer M unfolding peer_holds_def by blast
    then show ?thesis
      by (auto simp: xdag_request_blocks_def do_request_def Let_def case_prod_beta split: option.split)
  qed
  obtain res data s1 N where 1: "xdag_request_blocks env t u ([], s) = (res, data, s1)" "within M R (sr_disk s1) N"
    "set (sr_sent s1) = set (sr_sent s) \<union> {?rq}" using step [of "([], s)" M] M by auto
  show thesis
  proof (cases "res < 0")
    case False
    then show thesis using 1 by (intro that [of res data s1 N]) (simp_all add: QUERY_RETRIES_def numeral_2_eq_2)
  next
    case True
    have "within [] R (sr_disk s1) N" using 1(2) by (simp add: within_def)
    then obtain res' data' s2 K where 2: "xdag_request_blocks env t u (data, s1) = (res', data', s2)" "within N R (sr_disk s2) K"
      "set (sr_sent s2) = set (sr_sent s1) \<union> {?rq}" using step [of "(data, s1)" N] by auto
    show thesis using 1 2 True within_trans [OF 1(2) 2(2)]
      by (intro that [of res' data' s2 K]) (simp_all add: QUERY_RETRIES_def numeral_2_eq_2)
  qed
qed

lemma part_of_interval:
  fixes t :: u64 and x e :: nat
  assumes "unat t \<le> x" "x < unat t + 2 ^ e" "4 \<le> e"
  obtains i where "i < 16" "unat t + i * 2 ^ (e - 4) \<le> x" "x < unat t + (i + 1) * 2 ^ (e - 4)"
proof -
  define i where "i = (x - unat t) div 2 ^ (e - 4)"
  have e: "(2 :: nat) ^ e = 16 * 2 ^ (e - 4)" using assms(3) power_add [of "2 :: nat" 4 "e - 4"] by simp
  have "x - unat t < 16 * 2 ^ (e - 4)" using assms(1,2) e by linarith
  then have "i < 16" by (simp add: i_def less_mult_imp_div_less)
  moreover have "i * 2 ^ (e - 4) \<le> x - unat t" "x - unat t < (i + 1) * 2 ^ (e - 4)"
    unfolding i_def by (simp_all add: dividend_less_div_times)
  ultimately show thesis using assms(1) by (intro that) (auto simp: algebra_simps)
qed


text \<open>What a part of the run achieves for the blocks of an interval that satisfy \<open>I\<close>.\<close>

definition catches_up :: "xdag_block list \<Rightarrow> xdag_block list \<Rightarrow> (nat \<Rightarrow> bool) \<Rightarrow> sync_run \<Rightarrow> sync_run \<Rightarrow> bool" where
  "catches_up R M I s s' \<longleftrightarrow> set (sr_sent s) \<subseteq> set (sr_sent s') \<and>
     (\<exists>N. within M R (sr_disk s') N \<and>
       (\<forall>b. count (mset N) b < count (mset R) b \<and> I (unat (btime b)) \<longrightarrow> asked_for s' b))"

lemma asked_for_mono: "asked_for s b \<Longrightarrow> set (sr_sent s) \<subseteq> set (sr_sent s') \<Longrightarrow> asked_for s' b"
  by (auto simp: asked_for_def)

lemma catches_up_seq:
  assumes "catches_up R M I s s1" "\<And>N. within [] R (sr_disk s1) N \<Longrightarrow> mset M \<subseteq># mset N \<Longrightarrow> catches_up R N J s1 s2"
  shows "catches_up R M (\<lambda>x. I x \<or> J x) s s2"
proof -
  obtain N where N: "within M R (sr_disk s1) N" "\<And>b. count (mset N) b < count (mset R) b \<Longrightarrow> I (unat (btime b)) \<Longrightarrow> asked_for s1 b"
    and sent: "set (sr_sent s) \<subseteq> set (sr_sent s1)" using assms(1) unfolding catches_up_def by blast
  have "catches_up R N J s1 s2" using assms(2) N(1) by (auto simp: within_def)
  then obtain K where K: "within N R (sr_disk s2) K" "\<And>b. count (mset K) b < count (mset R) b \<Longrightarrow> J (unat (btime b)) \<Longrightarrow> asked_for s2 b"
    and sent2: "set (sr_sent s1) \<subseteq> set (sr_sent s2)" unfolding catches_up_def by blast
  have le: "count (mset N) b \<le> count (mset K) b" for b using K(1) by (simp add: within_def mset_subset_eq_count)
  have "asked_for s2 b" if "count (mset K) b < count (mset R) b" "I (unat (btime b)) \<or> J (unat (btime b))" for b
    using that N(2) [of b] K(2) [of b] le [of b] asked_for_mono [OF _ sent2] by fastforce
  then show ?thesis using sent sent2 within_trans [OF N(1) K(1)] unfolding catches_up_def by blast
qed

lemma catches_up_weaken: "catches_up R M I s s' \<Longrightarrow> mset L \<subseteq># mset M \<Longrightarrow> (\<And>x. J x \<Longrightarrow> I x) \<Longrightarrow> catches_up R L J s s'"
  unfolding catches_up_def within_def by (meson subset_mset.trans)

lemma caught_up_twice:
  assumes "catches_up R N J s1 s2" "catches_up R M (\<lambda>_. False) s s1" "within M R (sr_disk s1) N" "\<And>x. I x \<Longrightarrow> J x"
  shows "catches_up R M I s s2"
  using assms unfolding catches_up_def by (meson order_trans within_trans)

abbreviation sums_of_interval :: "xdag_block list \<Rightarrow> u64 \<Rightarrow> nat \<Rightarrow> xdag_storage_sum list" where
  "sums_of_interval bs t e \<equiv> map (\<lambda>i. block_total (filter (in_part (unat t) (2 ^ e) i) bs)) [0..<16]"

lemma catches_up_same:
  assumes "mset L \<subseteq># mset M" "length R < 2 ^ 55" "within [] R (sr_disk s) M" "i < 16"
    and "sum_size (sums_of_interval L t e ! i) = sum_size (sums_of_interval R t e ! i)"
  shows "catches_up R M (\<lambda>x. unat t + i * 2 ^ e \<le> x \<and> x < unat t + (i + 1) * 2 ^ e) s s"
proof -
  have M: "within M R (sr_disk s) M" "mset L \<subseteq># mset R" using assms(1,3) by (auto simp: within_def)
  have "\<not> count (mset M) b < count (mset R) b" if "in_part (unat t) (2 ^ e) i b" for b
    using missing_differs [OF M(2) assms(2), of b "in_part (unat t) (2 ^ e) i"] assms(1,4,5) that
      mset_subset_eq_count [OF assms(1), of b] by force
  then show ?thesis unfolding catches_up_def in_part_def using M by blast
qed

lemma unat_part:
  fixes t :: u64
  assumes "unat t + 2 ^ (e + 4) \<le> 2 ^ 48" "i < 16"
  shows "unat (t + of_nat i * 2 ^ e) = unat t + i * 2 ^ e"
proof -
  have "i * 2 ^ e \<le> 16 * 2 ^ e" using assms(2) by (intro mult_right_mono) simp_all
  moreover have "(2 :: nat) ^ (e + 4) = 16 * 2 ^ e" by (simp add: power_add)
  ultimately have le: "unat t + i * 2 ^ e \<le> 2 ^ 48" using assms(1) by linarith
  have "t + of_nat i * 2 ^ e = of_nat (unat t + i * 2 ^ e)" by simp
  then show ?thesis using le by (simp add: unsigned_of_nat take_bit_nat_eq_self_iff del: of_nat_add of_nat_mult)
qed

lemma unat_end:
  fixes t :: u64
  assumes "unat t + 2 ^ e \<le> 2 ^ 48"
  shows "unat (t + 2 ^ e) = unat t + 2 ^ e"
proof -
  have "t + 2 ^ e = of_nat (unat t + 2 ^ e)" by simp
  then show ?thesis using assms by (simp add: unsigned_of_nat take_bit_nat_eq_self_iff del: of_nat_add)
qed

lemma leaf_caught_up:
  assumes "peer_holds env R" "unat t + 2 ^ 20 \<le> 2 ^ 48" "within [] R (sr_disk s) M"
  shows "catches_up R M (\<lambda>x. unat t \<le> x \<and> x < unat t + 2 ^ 20) s (snd (request_blocks env t (2 ^ 20) s))"
proof -
  obtain res data s' N where q: "query QUERY_RETRIES (xdag_request_blocks env t (t + 2 ^ 20)) 0 ([], s) = (res, data, s')"
    "within M R (sr_disk s') N"
    "set (sr_sent s') = set (sr_sent s) \<union> {\<lparr>rq_type = XDAG_MESSAGE_BLOCKS_REQUEST, rq_start_time = t, rq_end_time = t + 2 ^ 20\<rparr>}"
    using query_blocks [OF assms(1,3)] by blast
  have "snd (request_blocks env t (2 ^ 20) s) = s'"
    using q(1) assms(1) by (simp add: request_blocks.simps REQUEST_BLOCKS_MAX_TIME_def peer_holds_def)
  moreover have "unat (t + 2 ^ 20) = unat t + 2 ^ 20"
    using unat_end [of t 20] assms(2) by simp
  then have "asked_for s' b" if "unat t \<le> unat (btime b)" "unat (btime b) < unat t + 2 ^ 20" for b
    using that q(3) by (simp add: asked_for_def word_le_nat_alt word_less_nat_alt)
  ultimately show ?thesis using q(2,3) unfolding catches_up_def by auto
qed

lemma request_descent:
  assumes peer: "peer_holds env R"
  shows "dt = 2 ^ e \<Longrightarrow> e \<in> {20, 24, 28, 32, 36, 40, 44, 48} \<Longrightarrow> 2 ^ e dvd unat t \<Longrightarrow> unat t + 2 ^ e \<le> 2 ^ 48 \<Longrightarrow>
      within [] R (sr_disk s) M \<Longrightarrow>
      catches_up R M (\<lambda>x. unat t \<le> x \<and> x < unat t + 2 ^ e) s (snd (request_blocks env t dt s))"
    and "dt = 2 ^ e \<Longrightarrow> e \<in> {20, 24, 28, 32, 36, 40, 44} \<Longrightarrow> 2 ^ (e + 4) dvd unat t \<Longrightarrow> unat t + 2 ^ (e + 4) \<le> 2 ^ 48 \<Longrightarrow>
      lsums = sums_of_interval L t e \<Longrightarrow> rsums = sums_of_interval R t e \<Longrightarrow> mset L \<subseteq># mset M \<Longrightarrow> within [] R (sr_disk s) M \<Longrightarrow>
      catches_up R M (\<lambda>x. \<exists>j \<ge> i. j < 16 \<and> unat t + j * 2 ^ e \<le> x \<and> x < unat t + (j + 1) * 2 ^ e) s
        (request_parts env i t dt lsums rsums s)"
  using peer
proof (induction env t dt s and env i t dt lsums rsums s arbitrary: e M and e M L rule: request_blocks_request_parts.induct)
  case (1 env t dt s)
  show ?case
  proof (cases "e = 20")
    case True
    then show ?thesis using leaf_caught_up [of env R t s M] 1 by simp
  next
    case False
    then have e: "e \<in> {24, 28, 32, 36, 40, 44, 48}" "e - 4 \<in> {20, 24, 28, 32, 36, 40, 44}" "e - 4 + 4 = e" "4 \<le> e" using 1 by auto
    have dt: "drop_bit 4 dt = 2 ^ (e - 4)" "\<not> dt \<le> REQUEST_BLOCKS_MAX_TIME"
      using 1(2) e(1) by (auto simp: REQUEST_BLOCKS_MAX_TIME_def)
    have on: "se_sync_on env n" for n using 1 by (simp add: peer_holds_def)
    have l: "xdag_load_sums (se_buf env (length (sr_sent s))) (sr_disk s) t (t + dt) = Some (sums_of_interval M t (e - 4))"
      using load_sums_parts [of "sr_disk s" M e t] 1 by (simp add: within_def)
    obtain s' N k where q: "query QUERY_RETRIES (xdag_request_sums env t (t + 2 ^ e)) 0 ([], s) = (1, sums_of_interval R t (e - 4), s')"
      "within M R (sr_disk s') N"
      "sr_sent s' = sr_sent s @ replicate k \<lparr>rq_type = XDAG_MESSAGE_SUMS_REQUEST, rq_start_time = t, rq_end_time = t + 2 ^ e\<rparr>"
      using query_sums [OF 1(7) e(1) 1(4,5,6)] by blast
    have N: "mset M \<subseteq># mset N" "within [] R (sr_disk s') N" using q(2) by (simp_all add: within_def)
    have q1: "(1, sums_of_interval R t (e - 4), s') = query QUERY_RETRIES (xdag_request_sums env t (t + dt)) 0 ([], s)"
      using q(1) 1(2) by simp
    have "catches_up R N (\<lambda>x. \<exists>j \<ge> 0. j < 16 \<and> unat t + j * 2 ^ (e - 4) \<le> x \<and> x < unat t + (j + 1) * 2 ^ (e - 4)) s'
        (request_parts env 0 t (drop_bit 4 dt) (sums_of_interval M t (e - 4)) (sums_of_interval R t (e - 4)) s')"
      by (rule "1.IH" [OF _ dt(2) l refl q1 refl _ dt(1) e(2) _ _ refl refl N 1(7)]) (use on e(3) 1(4,5) in simp_all)
    moreover have "snd (request_blocks env t dt s) =
        request_parts env 0 t (drop_bit 4 dt) (sums_of_interval M t (e - 4)) (sums_of_interval R t (e - 4)) s'"
      using on dt(2) l q(1) 1(2) by (simp add: request_blocks.simps)
    moreover have "catches_up R M (\<lambda>_. False) s s'" using q(2,3) by (auto simp: catches_up_def)
    moreover have "\<exists>j \<ge> 0. j < 16 \<and> unat t + j * 2 ^ (e - 4) \<le> x \<and> x < unat t + (j + 1) * 2 ^ (e - 4)"
      if "unat t \<le> x" "x < unat t + 2 ^ e" for x
      using part_of_interval [OF that e(4)] by (metis le0)
    ultimately show ?thesis
      by (simp add: caught_up_twice [OF _ _ q(2)])
  qed
next
  case (2 env i t dt lsums rsums s)
  show ?case
  proof (cases "i < 16")
    case False
    then show ?thesis using 2(9,10) by (auto simp: request_parts.simps catches_up_def within_def)
  next
    case True
    let ?part = "\<lambda>x. unat t + i * 2 ^ e \<le> x \<and> x < unat t + (i + 1) * 2 ^ e"
    define s1 where "s1 = (if sum_size (lsums ! i) \<noteq> sum_size (rsums ! i) \<or> sum_sum (lsums ! i) \<noteq> sum_sum (rsums ! i)
       then snd (request_blocks env (t + of_nat i * dt) dt s) else s)"
    have u: "unat (t + of_nat i * dt) = unat t + i * 2 ^ e" using unat_part [OF 2(6) True] 2(3) by simp
    have al: "2 ^ e dvd unat t + i * 2 ^ e" using 2(5) by (auto simp: power_add dest: dvd_mult_left)
    have "i * 2 ^ e + 2 ^ e \<le> 16 * 2 ^ e" using True mult_right_mono [of "Suc i" 16 "2 ^ e"] by simp
    moreover have "(2 :: nat) ^ (e + 4) = 16 * 2 ^ e" by (simp add: power_add)
    ultimately have fits: "unat t + i * 2 ^ e + 2 ^ e \<le> 2 ^ 48" using 2(6) by linarith
    have one: "catches_up R M ?part s s1"
    proof (cases "sum_size (lsums ! i) \<noteq> sum_size (rsums ! i) \<or> sum_sum (lsums ! i) \<noteq> sum_sum (rsums ! i)")
      case differ: True
      from "2.IH"(1) [OF True differ 2(3) _ _ _ 2(10,11), unfolded u] 2(4) al fits
      have "catches_up R M (\<lambda>x. unat t + i * 2 ^ e \<le> x \<and> x < unat t + i * 2 ^ e + 2 ^ e) s s1"
        using differ by (auto simp: s1_def)
      then show ?thesis by (simp add: algebra_simps)
    next
      case False
      then show ?thesis
        using catches_up_same [OF 2(9) _ 2(10) True, of t e] 2(7,8,11) by (simp add: s1_def peer_holds_def)
    qed
    have "catches_up R M (\<lambda>x. ?part x \<or> (\<exists>j \<ge> Suc i. j < 16 \<and> unat t + j * 2 ^ e \<le> x \<and> x < unat t + (j + 1) * 2 ^ e)) s
        (request_parts env (Suc i) t dt lsums rsums s1)"
      by (rule catches_up_seq [OF one], unfold s1_def, rule "2.IH"(2) [OF True 2(3-8)])
        (use 2(9,11) in \<open>auto intro: subset_mset.trans\<close>)
    moreover have "request_parts env i t dt lsums rsums s = request_parts env (Suc i) t dt lsums rsums s1"
      using True by (simp add: request_parts.simps [of env i] s1_def)
    ultimately show ?thesis by (auto elim!: catches_up_weaken) (metis le_neq_implies_less Suc_leI)+
  qed
qed


lemma equal_sums_nothing_sent: "request_parts env i t dt sums sums s = s"
proof (induction "16 - i" arbitrary: i)
  case 0
  then show ?case by (simp add: request_parts.simps)
next
  case (Suc n)
  then have "request_parts env (Suc i) t dt sums sums s = s" by simp
  then show ?case by (simp add: request_parts.simps)
qed

lemma equal_stores_silent:
  assumes peer: "peer_holds env R" and M: "within [] R (sr_disk s) M" "mset M = mset R"
  shows "\<exists>k. sr_sent (sync_round env s) =
    sr_sent s @ replicate k \<lparr>rq_type = XDAG_MESSAGE_SUMS_REQUEST, rq_start_time = 0, rq_end_time = 2 ^ 48\<rparr>"
proof -
  obtain s' N k where q: "query QUERY_RETRIES (xdag_request_sums env 0 (0 + 2 ^ 48)) 0 ([], s) = (1, sums_of_interval R 0 (48 - 4), s')"
    "sr_sent s' = sr_sent s @ replicate k \<lparr>rq_type = XDAG_MESSAGE_SUMS_REQUEST, rq_start_time = 0, rq_end_time = 0 + 2 ^ 48\<rparr>"
    by (rule query_sums [OF peer _ _ _ M(1), of 48 0]) auto
  have "block_total (filter P M) = block_total (filter P R)" for P by (rule total_mset) (simp add: M(2))
  then have "xdag_load_sums (se_buf env (length (sr_sent s))) (sr_disk s) 0 (0 + 2 ^ 48) = Some (sums_of_interval R 0 (48 - 4))"
    using load_sums_parts [of "sr_disk s" M 48 0] M(1) by (simp add: within_def)
  then have "sync_round env s = s'"
    using q(1) peer by (simp add: sync_round_def request_blocks.simps REQUEST_BLOCKS_MAX_TIME_def peer_holds_def equal_sums_nothing_sent)
  then show ?thesis using q(2) by auto
qed

section \<open>A round of synchronisation\<close>

text \<open>
  C13: a round of synchronisation finds everything that is missing.  With a peer
  that answers and holds the blocks \<open>R\<close>, of which the own storage has some, the
  round ends, and every block the peer has and the own storage still lacks lies
  in an interval whose blocks were requested.  If both hold the same blocks then
  only sums are requested, and only those of the whole range of times.
\<close>

theorem sync_finds_missing:
  assumes "peer_holds env R" "stores (sr_disk s) L" "mset L \<subseteq># mset R"
  defines "s' \<equiv> sync_round env s"
  shows "(\<exists>M. stores (sr_disk s') M \<and> mset L \<subseteq># mset M \<and> mset M \<subseteq># mset R \<and>
      (\<forall>b. count (mset M) b < count (mset R) b \<longrightarrow> asked_for s' b)) \<and>
    (mset L = mset R \<longrightarrow> (\<exists>k. sr_sent s' =
      sr_sent s @ replicate k \<lparr>rq_type = XDAG_MESSAGE_SUMS_REQUEST, rq_start_time = 0, rq_end_time = 2 ^ 48\<rparr>))"
proof -
  have w: "within [] R (sr_disk s) L" using assms(2,3) by (simp add: within_def)
  from request_descent(1) [OF assms(1), of "2 ^ 48" 48 0 s L] w
  have "catches_up R L (\<lambda>x. x < 2 ^ 48) s s'" by (simp add: s'_def sync_round_def)
  then obtain M where M: "within L R (sr_disk s') M"
    "\<And>b. count (mset M) b < count (mset R) b \<Longrightarrow> unat (btime b) < 2 ^ 48 \<Longrightarrow> asked_for s' b" unfolding catches_up_def by blast
  obtain d where "stores d R" using assms(1) by (auto simp: peer_holds_def)
  then have "unat (btime b) < 2 ^ 48" if "count (mset M) b < count (mset R) b" for b
    using that by (auto simp: stores_def word_less_nat_alt dest: gr_implies_not0)
  then show ?thesis using M equal_stores_silent [OF assms(1) w, folded s'_def] by (auto simp: within_def)
qed

section \<open>Example\<close>

definition one_block_peer :: sync_env where
  "one_block_peer =
     \<lparr>se_answer = (\<lambda>n rq. \<lparr>an_connected = True,
        an_reply = (if rq_type rq = XDAG_MESSAGE_SUMS_REQUEST
                    then map_option (\<lambda>sums. (1, sums)) (xdag_load_sums [] one_block_disk (rq_start_time rq) (rq_end_time rq))
                    else Some (0, [])), an_disk = (\<lambda>d. d)\<rparr>),
      se_sync_on = (\<lambda>n. True), se_buf = (\<lambda>n. [])\<rparr>"

lemma one_block_peer_holds: "peer_holds one_block_peer [stored_block]"
  unfolding peer_holds_def
  by (auto simp: one_block_peer_def answers_def within_def intro!: exI [of _ one_block_disk] one_block_stores)

theorem sync_finds_missing_witness:
  "\<exists>M. stores (sr_disk (sync_round one_block_peer \<lparr>sr_disk = empty_disk, sr_sent = []\<rparr>)) M \<and>
     (\<forall>b. count (mset M) b < count {#stored_block#} b \<longrightarrow>
        asked_for (sync_round one_block_peer \<lparr>sr_disk = empty_disk, sr_sent = []\<rparr>) b)"
  using sync_finds_missing [OF one_block_peer_holds, of "\<lparr>sr_disk = empty_disk, sr_sent = []\<rparr>" "[]"]
  by (auto simp: empty_disk_stores)

end
