(* ===== verification/Sync.thy ===== *)
theory Sync
  imports Add_Block_Properties
begin

text \<open>
  client/sync.c: blocks that refer to a block not yet received wait in two hash
  tables, one by the hash of the block that is missing, one by their own hash.
  When a block arrives, those that wait for it are added in turn; when one has
  to wait, the block at the bottom of its chain of missing blocks is requested.
  The database of blocks is a parameter of the definitions here; Sync_Blocks
  instantiates it with \<open>xdag_add_block\<close>.
\<close>

section \<open>State\<close>

definition SYNC_HASH_SIZE :: nat where "SYNC_HASH_SIZE = 0x10000"
definition REQ_PERIOD :: int where "REQ_PERIOD = 64"

record sync_block =
  sb_b :: xdag_block
  sb_hash :: xdag_hash_t
  sb_conn :: "nat option"
  sb_t :: int
  sb_nfield :: nat
  sb_ttl :: nat

datatype sync_message = Send_packet xdag_block "nat option" | Request_block xdag_hashlow_t

text \<open>
  The structures allocated so far, the lists of the two tables as lists of their
  numbers, the counter, and what was sent.  \<open>sy_calls\<close> counts the calls of
  \<open>xdag_add_block\<close>.
\<close>

record 's sync_state =
  sy_db :: 's
  sy_nodes :: "sync_block list"
  g_sync_hash :: "nat \<Rightarrow> nat list"
  g_sync_hash_r :: "nat \<Rightarrow> nat list"
  nwaitsync :: u32
  sy_sent :: "sync_message list"
  sy_calls :: nat

text \<open>
  The environment: the database, and for the \<open>n\<close>-th block added the values of
  \<open>g_xdag_sync_on\<close>, of the clock in \<open>push_block_nolock\<close> and after it, and whether
  the allocation succeeds.
\<close>

record 's sync_host =
  sh_add :: "nat \<Rightarrow> xdag_block \<Rightarrow> 's \<Rightarrow> (int \<times> 's) option"
  sh_sync_on :: "nat \<Rightarrow> bool"
  sh_time_push :: "nat \<Rightarrow> int"
  sh_time :: "nat \<Rightarrow> int"
  sh_malloc :: "nat \<Rightarrow> bool"

definition node :: "'s sync_state \<Rightarrow> nat \<Rightarrow> sync_block" where
  "node st q = sy_nodes st ! q"

definition set_node :: "nat \<Rightarrow> (sync_block \<Rightarrow> sync_block) \<Rightarrow> 's sync_state \<Rightarrow> 's sync_state" where
  "set_node q f st = st\<lparr>sy_nodes := (sy_nodes st)[q := f (node st q)]\<rparr>"

text \<open>The list of a hash: its lowest bits.\<close>

fun get_list :: "xdag_hashlow_t \<Rightarrow> nat" where
  "get_list (a, b, c) = unat (a AND of_nat (SYNC_HASH_SIZE - 1))"

text \<open>The hash of the block a structure waits for.\<close>

definition awaited :: "sync_block \<Rightarrow> xdag_hashlow_t" where
  "awaited q = f_hash (sb_b q ! sb_nfield q)"

section \<open>Waiting\<close>

definition push_block_nolock ::
  "int \<Rightarrow> bool \<Rightarrow> xdag_block \<Rightarrow> nat option \<Rightarrow> nat \<Rightarrow> nat \<Rightarrow> 's sync_state \<Rightarrow> int \<times> 's sync_state" where
  "push_block_nolock t malloc_ok b conn nfield ttl st =
     (let hash = hash_data (block_bytes b); k = get_list (f_hash (b ! nfield)) in
      case find (\<lambda>q. sb_b (node st q) = b) (g_sync_hash st k) of
        Some q \<Rightarrow>
          (let res = (t - sb_t (node st q) \<ge> REQ_PERIOD)
           in (if res then 1 else 0,
               set_node q (\<lambda>n. n\<lparr>sb_conn := conn, sb_nfield := nfield, sb_ttl := ttl, sb_t := (if res then t else sb_t n)\<rparr>) st))
      | None \<Rightarrow>
          if \<not> malloc_ok then (- 1, st)
          else
            (let q = length (sy_nodes st); kr = get_list (hashlow hash) in
             (1, st\<lparr>sy_nodes := sy_nodes st @ [\<lparr>sb_b = b, sb_hash = hash, sb_conn = conn, sb_t = t, sb_nfield = nfield, sb_ttl = ttl\<rparr>],
                    g_sync_hash := (g_sync_hash st)(k := q # g_sync_hash st k),
                    g_sync_hash_r := (g_sync_hash_r st)(kr := q # g_sync_hash_r st kr),
                    nwaitsync := nwaitsync st + 1\<rparr>)))"

text \<open>Taking a structure out of both tables.\<close>

definition unlink_node :: "nat \<Rightarrow> nat \<Rightarrow> 's sync_state \<Rightarrow> 's sync_state" where
  "unlink_node k q st =
     (let kr = get_list (hashlow (sb_hash (node st q))) in
      st\<lparr>g_sync_hash := (g_sync_hash st)(k := remove1 q (g_sync_hash st k)), nwaitsync := nwaitsync st - 1,
         g_sync_hash_r := (g_sync_hash_r st)(kr := remove1 q (g_sync_hash_r st kr))\<rparr>)"

text \<open>
  The search for the block to request: from a missing block that waits itself to
  the one it waits for.  The result is None when a request was made lately.
\<close>

fun chase :: "nat \<Rightarrow> int \<Rightarrow> xdag_hashlow_t \<Rightarrow> 's sync_state \<Rightarrow> (xdag_hashlow_t option \<times> 's sync_state) option" where
  "chase 0 t hash st = None"
| "chase (Suc fuel) t hash st =
     (case find (\<lambda>q. hashlow (sb_hash (node st q)) = hash) (g_sync_hash_r st (get_list hash)) of
        None \<Rightarrow> Some (Some hash, st)
      | Some q \<Rightarrow>
          if t - sb_t (node st q) < REQ_PERIOD then Some (None, st)
          else chase fuel t (awaited (node st q)) (set_node q (\<lambda>n. n\<lparr>sb_t := t\<rparr>) st))"

definition send_out :: "sync_message \<Rightarrow> 's sync_state \<Rightarrow> 's sync_state" where
  "send_out msg st = st\<lparr>sy_sent := sy_sent st @ [msg]\<rparr>"

text \<open>A block that cannot be added because block number \<open>i\<close> of its fields is missing.\<close>

definition wait_for_field :: "'s sync_host \<Rightarrow> nat \<Rightarrow> xdag_block \<Rightarrow> nat option \<Rightarrow> nat \<Rightarrow> nat \<Rightarrow> 's sync_state \<Rightarrow> 's sync_state option" where
  "wait_for_field host n b conn i ttl st =
     (let (res, st) = push_block_nolock (sh_time_push host n) (sh_malloc host n) b conn i ttl st in
      if res = 0 then Some st
      else
        do {
          (hash, st) \<leftarrow> chase (Suc (length (sy_nodes st))) (sh_time host n) (f_hash (b ! i)) st;
          Some (case hash of None \<Rightarrow> st | Some h \<Rightarrow> send_out (Request_block h) st)
        })"

definition with_header :: "u64 \<Rightarrow> xdag_block \<Rightarrow> xdag_block" where
  "with_header h b = b[0 := f_set_transport_header h (b ! 0)]"

section \<open>Adding blocks\<close>

text \<open>
  \<open>xdag_add_block\<close> clears the transport header of the block it is given.  The
  two functions call each other; \<open>fuel\<close> bounds the depth of the calls.
\<close>

fun sync_add_block :: "'s sync_host \<Rightarrow> nat \<Rightarrow> xdag_block \<Rightarrow> nat option \<Rightarrow> 's sync_state \<Rightarrow> 's sync_state option"
  and sync_pop_block :: "'s sync_host \<Rightarrow> nat \<Rightarrow> xdag_hashlow_t \<Rightarrow> 's sync_state \<Rightarrow> 's sync_state option" where
  "sync_add_block host 0 b conn st = None"
| "sync_add_block host (Suc fuel) b conn st =
     (let ttl = unat (drop_bit 8 (f_transport_header (b ! 0)) AND 0xff); n = sy_calls st in
      do {
        (res, db) \<leftarrow> sh_add host n b (sy_db st);
        let st = st\<lparr>sy_db := db, sy_calls := Suc n\<rparr>;
        let b = with_header 0 b;
        if res \<ge> 0 then do {
          st \<leftarrow> sync_pop_block host fuel (hashlow (hash_data (block_bytes b))) st;
          Some (if res > 0 \<and> ttl > 2 then send_out (Send_packet (with_header (push_bit 8 (of_nat ttl)) b) conn) st else st)
        }
        else if sh_sync_on host n \<and> (- res) mod 16 = 5
        then wait_for_field host n b conn (nat ((- res) div 16 mod 16)) ttl st
        else Some st
      })"
| "sync_pop_block host 0 hash st = None"
| "sync_pop_block host (Suc fuel) hash st =
     (case find (\<lambda>q. awaited (node st q) = hash) (g_sync_hash st (get_list hash)) of
        None \<Rightarrow> Some st
      | Some q \<Rightarrow>
          do {
            st' \<leftarrow> sync_add_block host fuel (with_header (push_bit 8 (of_nat (sb_ttl (node st q))) OR 1) (sb_b (node st q)))
              (sb_conn (node st q)) (unlink_node (get_list hash) q st);
            sync_pop_block host fuel hash st'
          })"

end
