(* ===== verification/Sync_Tables.thy ===== *)
theory Sync_Tables
  imports Sync
begin

text \<open>
  The tables of waiting blocks: their invariant, and that pushing, unlinking and
  the search for the block to request keep it.
\<close>

declare get_list.simps [simp del]

section \<open>The invariant of the tables\<close>

definition waiting :: "'s sync_state \<Rightarrow> nat set" where
  "waiting st = (\<Union>k. set (g_sync_hash st k))"

definition node_ok :: "sync_block \<Rightarrow> bool" where
  "node_ok n \<longleftrightarrow> length (sb_b n) = 16 \<and> sb_nfield n < 16 \<and> sb_hash n = block_hash (sb_b n)"

abbreviation own_list :: "'s sync_state \<Rightarrow> nat \<Rightarrow> nat" where
  "own_list st q \<equiv> get_list (hashlow (sb_hash (node st q)))"

abbreviation wait_list :: "'s sync_state \<Rightarrow> nat \<Rightarrow> nat" where
  "wait_list st q \<equiv> get_list (awaited (node st q))"

definition tables_ok :: "'s sync_state \<Rightarrow> bool" where
  "tables_ok st \<longleftrightarrow>
     (\<forall>k. distinct (g_sync_hash st k) \<and> distinct (g_sync_hash_r st k)) \<and>
     (\<forall>k q. q \<in> set (g_sync_hash st k) \<longleftrightarrow> q \<in> waiting st \<and> k = wait_list st q) \<and>
     (\<forall>k q. q \<in> set (g_sync_hash_r st k) \<longleftrightarrow> q \<in> waiting st \<and> k = own_list st q) \<and>
     (\<forall>q \<in> waiting st. q < length (sy_nodes st) \<and> node_ok (node st q)) \<and>
     nwaitsync st = of_nat (card (waiting st))"

lemma tables_okD:
  assumes "tables_ok st" "q \<in> set (g_sync_hash st k)"
  shows "q \<in> waiting st" "wait_list st q = k" "q < length (sy_nodes st)" "node_ok (node st q)"
  using assms by (simp_all add: tables_ok_def)

text \<open>How many blocks wait, and how many of them for a given block.\<close>

definition n_waiting :: "'s sync_state \<Rightarrow> nat" where "n_waiting st = card (waiting st)"

definition n_waiting_for :: "xdag_hashlow_t \<Rightarrow> 's sync_state \<Rightarrow> nat" where
  "n_waiting_for h st = card {q \<in> waiting st. awaited (node st q) = h}"

lemma finite_waiting: "tables_ok st \<Longrightarrow> finite (waiting st)"
  by (rule finite_subset [of _ "{..< length (sy_nodes st)}"]) (auto simp: tables_ok_def)

lemma n_waiting_for_le: "tables_ok st \<Longrightarrow> n_waiting_for h st \<le> n_waiting st"
  unfolding n_waiting_for_def n_waiting_def by (intro card_mono finite_waiting) auto

lemma waiting_bound: "tables_ok st \<Longrightarrow> n_waiting st \<le> length (sy_nodes st)"
  unfolding n_waiting_def using card_mono [of "{..< length (sy_nodes st)}" "waiting st"] by (simp add: tables_ok_def subset_iff)

text \<open>The two searches in the lists find what is there.\<close>

lemma find_waiting:
  assumes "tables_ok st"
  shows "find (\<lambda>q. awaited (node st q) = h) (g_sync_hash st (get_list h)) = None \<longleftrightarrow> (\<forall>q \<in> waiting st. awaited (node st q) \<noteq> h)"
    "find (\<lambda>q. awaited (node st q) = h) (g_sync_hash st (get_list h)) = Some q \<Longrightarrow> q \<in> waiting st \<and> awaited (node st q) = h"
    "find (\<lambda>q. hashlow (sb_hash (node st q)) = h) (g_sync_hash_r st (get_list h)) = None \<longleftrightarrow>
       (\<forall>q \<in> waiting st. hashlow (sb_hash (node st q)) \<noteq> h)"
    "find (\<lambda>q. hashlow (sb_hash (node st q)) = h) (g_sync_hash_r st (get_list h)) = Some q \<Longrightarrow>
       q \<in> waiting st \<and> hashlow (sb_hash (node st q)) = h"
  using assms unfolding tables_ok_def by (auto simp: find_None_iff find_Some_iff dest: nth_mem)

section \<open>Steps that only touch the times\<close>

definition same_wait :: "'s sync_state \<Rightarrow> 's sync_state \<Rightarrow> bool" where
  "same_wait st st' \<longleftrightarrow> sy_db st' = sy_db st \<and> g_sync_hash st' = g_sync_hash st \<and> g_sync_hash_r st' = g_sync_hash_r st \<and>
     nwaitsync st' = nwaitsync st \<and> sy_calls st' = sy_calls st \<and> length (sy_nodes st') = length (sy_nodes st) \<and>
     (\<forall>q. sb_b (node st' q) = sb_b (node st q) \<and> sb_hash (node st' q) = sb_hash (node st q) \<and> sb_nfield (node st' q) = sb_nfield (node st q))"

lemma same_wait_refl [simp]: "same_wait st st"
  by (simp add: same_wait_def)

lemma same_wait_trans: "same_wait st st' \<Longrightarrow> same_wait st' st'' \<Longrightarrow> same_wait st st''"
  by (simp add: same_wait_def)

lemma same_wait_facts:
  assumes "same_wait st st'"
  shows "waiting st' = waiting st" "awaited (node st' q) = awaited (node st q)" "tables_ok st' = tables_ok st"
    "n_waiting st' = n_waiting st" "n_waiting_for h st' = n_waiting_for h st"
  using assms
  by (simp_all add: same_wait_def waiting_def awaited_def tables_ok_def node_ok_def n_waiting_def n_waiting_for_def)

lemma node_set_node [simp]: "node (set_node q f st) p = (if p = q \<and> q < length (sy_nodes st) then f (node st q) else node st p)"
  by (cases "q < length (sy_nodes st)") (auto simp: node_def set_node_def nth_list_update not_less list_update_beyond)

lemma set_node_simps [simp]:
  "sy_db (set_node q f st) = sy_db st" "g_sync_hash (set_node q f st) = g_sync_hash st" "g_sync_hash_r (set_node q f st) = g_sync_hash_r st"
  "nwaitsync (set_node q f st) = nwaitsync st" "sy_calls (set_node q f st) = sy_calls st"
  "length (sy_nodes (set_node q f st)) = length (sy_nodes st)" "sy_sent (set_node q f st) = sy_sent st"
  by (simp_all add: set_node_def)

lemma same_wait_time: "same_wait st (set_node q (\<lambda>n. n\<lparr>sb_t := t\<rparr>) st)"
  by (simp add: same_wait_def)

lemma same_wait_send: "same_wait st (send_out msg st)"
  by (simp add: same_wait_def send_out_def node_def)

text \<open>
  The search ends: every structure passed gets the current time, and one with the
  current time stops the search.  It gives a block that does not wait itself.
\<close>

definition old_nodes :: "int \<Rightarrow> 's sync_state \<Rightarrow> nat set" where
  "old_nodes t st = {q. q < length (sy_nodes st) \<and> t - sb_t (node st q) \<ge> REQ_PERIOD}"

lemma chase_total:
  assumes "tables_ok st" "card (old_nodes t st) < fuel" "P hash" "\<And>q. q \<in> waiting st \<Longrightarrow> P (awaited (node st q))"
  shows "\<exists>r st'. chase fuel t hash st = Some (r, st') \<and> same_wait st st' \<and> sy_sent st' = sy_sent st \<and>
    (\<forall>h. r = Some h \<longrightarrow> P h \<and> (\<forall>q \<in> waiting st. hashlow (sb_hash (node st q)) \<noteq> h))"
  using assms
proof (induction fuel arbitrary: hash st)
  case (Suc fuel)
  show ?case
  proof (cases "find (\<lambda>q. hashlow (sb_hash (node st q)) = hash) (g_sync_hash_r st (get_list hash))")
    case None
    then show ?thesis using Suc.prems(3) find_waiting(3) [OF Suc.prems(1), of hash] by (simp del: split_paired_All)
  next
    case (Some q)
    have q: "q \<in> waiting st" "q < length (sy_nodes st)"
      using find_waiting(4) [OF Suc.prems(1) Some] Suc.prems(1) by (auto simp: tables_ok_def)
    show ?thesis
    proof (cases "t - sb_t (node st q) < REQ_PERIOD")
      case True
      then show ?thesis using Some by auto
    next
      case False
      let ?st = "set_node q (\<lambda>n. n\<lparr>sb_t := t\<rparr>) st"
      have "old_nodes t ?st = old_nodes t st - {q}" by (auto simp: old_nodes_def REQ_PERIOD_def)
      moreover have "q \<in> old_nodes t st" using False q(2) by (simp add: old_nodes_def)
      moreover have "finite (old_nodes t st)" by (simp add: old_nodes_def)
      ultimately have less: "card (old_nodes t ?st) < fuel" using Suc.prems(2) by (metis card_Suc_Diff1 not_less_eq not_less)
      note s = same_wait_facts [OF same_wait_time [of st q t]]
      obtain r st' where r: "chase fuel t (awaited (node st q)) ?st = Some (r, st')" "same_wait ?st st'" "sy_sent st' = sy_sent st"
        "\<forall>h. r = Some h \<longrightarrow> P h \<and> (\<forall>q \<in> waiting st. hashlow (sb_hash (node ?st q)) \<noteq> h)"
        using Suc.IH [of ?st "awaited (node st q)"] less Suc.prems(1,4) q(1) s by auto
      have "hashlow (sb_hash (node ?st p)) = hashlow (sb_hash (node st p))" for p by simp
      then show ?thesis using Some False r same_wait_trans [OF same_wait_time r(2)] by auto
    qed
  qed
qed simp


section \<open>Unlinking and pushing\<close>

lemma node_unlink [simp]: "node (unlink_node k q st) p = node st p"
  by (simp add: unlink_node_def node_def Let_def)

lemma unlink_simps [simp]: "sy_db (unlink_node k q st) = sy_db st" "sy_calls (unlink_node k q st) = sy_calls st"
  "sy_nodes (unlink_node k q st) = sy_nodes st" "sy_sent (unlink_node k q st) = sy_sent st"
  by (simp_all add: unlink_node_def Let_def)

lemma unlink_ok:
  assumes "tables_ok st" "q \<in> waiting st"
  defines "st' \<equiv> unlink_node (wait_list st q) q st"
  shows "waiting st' = waiting st - {q}" "tables_ok st'" "n_waiting st = Suc (n_waiting st')"
    "n_waiting_for (awaited (node st q)) st = Suc (n_waiting_for (awaited (node st q)) st')"
proof -
  have d: "distinct (g_sync_hash st k)" "distinct (g_sync_hash_r st k)" for k using assms(1) by (simp_all add: tables_ok_def)
  have h: "set (g_sync_hash st' k) = set (g_sync_hash st k) - {q}" for k
    using assms(1,2) d(1) by (auto simp: st'_def unlink_node_def Let_def set_remove1_eq tables_ok_def)
  have r: "set (g_sync_hash_r st' k) = set (g_sync_hash_r st k) - {q}" for k
    using assms(1,2) d(2) by (auto simp: st'_def unlink_node_def Let_def set_remove1_eq tables_ok_def)
  show w: "waiting st' = waiting st - {q}" by (simp add: waiting_def h)
  have "card (waiting st) = Suc (card (waiting st'))"
    using card_Suc_Diff1 [OF finite_waiting [OF assms(1)] assms(2)] by (simp add: w)
  then show n: "n_waiting st = Suc (n_waiting st')" by (simp add: n_waiting_def)
  have "{p \<in> waiting st'. awaited (node st' p) = awaited (node st q)} = {p \<in> waiting st. awaited (node st p) = awaited (node st q)} - {q}"
    unfolding w by (auto simp: st'_def)
  then show "n_waiting_for (awaited (node st q)) st = Suc (n_waiting_for (awaited (node st q)) st')"
    unfolding n_waiting_for_def using card_Suc_Diff1 [of "{p \<in> waiting st. awaited (node st p) = awaited (node st q)}" q]
      finite_waiting [OF assms(1)] assms(2) by simp
  have "nwaitsync st' = nwaitsync st - 1" by (simp add: st'_def unlink_node_def Let_def)
  then have "nwaitsync st' = of_nat (card (waiting st'))"
    using assms(1) \<open>card (waiting st) = _\<close> by (simp add: tables_ok_def)
  moreover have "distinct (g_sync_hash st' k)" "distinct (g_sync_hash_r st' k)" for k
    using d by (simp_all add: st'_def unlink_node_def Let_def)
  ultimately show "tables_ok st'"
    using assms(1) unfolding tables_ok_def h r w by (simp add: st'_def) blast
qed

text \<open>Pushing: the block waits for the given field now; the other blocks wait as before.\<close>

lemma push_ok:
  assumes "tables_ok st" "length b = 16" "i < 16" "with_header 0 b = b" "push_block_nolock t malloc b conn i ttl st = (res, st')"
  shows "tables_ok st'" "sy_db st' = sy_db st" "sy_calls st' = sy_calls st" "sy_sent st' = sy_sent st"
    "n_waiting st' \<le> n_waiting st \<or> n_waiting st' = Suc (n_waiting st)"
    "\<And>q. q \<in> waiting st' \<Longrightarrow> awaited (node st' q) = f_hash (b ! i) \<or> q \<in> waiting st \<and> awaited (node st' q) = awaited (node st q)"
    "\<And>h. h \<noteq> f_hash (b ! i) \<Longrightarrow> n_waiting_for h st' \<le> n_waiting_for h st"
proof -
  have hash: "hash_data (block_bytes b) = block_hash b" using assms(4) by (simp add: block_hash_def with_header_def)
  let ?k = "get_list (f_hash (b ! i))"
  have goal: "tables_ok st' \<and> sy_db st' = sy_db st \<and> sy_calls st' = sy_calls st \<and> sy_sent st' = sy_sent st \<and>
    (n_waiting st' \<le> n_waiting st \<or> n_waiting st' = Suc (n_waiting st)) \<and>
    (\<forall>q \<in> waiting st'. awaited (node st' q) = f_hash (b ! i) \<or> q \<in> waiting st \<and> awaited (node st' q) = awaited (node st q))"
  proof (cases "find (\<lambda>q. sb_b (node st q) = b) (g_sync_hash st ?k)")
    case (Some q)
    then have q: "sb_b (node st q) = b" "q \<in> set (g_sync_hash st ?k)" by (auto simp: find_Some_iff dest: nth_mem)
    then have w: "q \<in> waiting st" "wait_list st q = ?k" "q < length (sy_nodes st)" "node_ok (node st q)"
      using tables_okD [OF assms(1), of q ?k] by simp_all
    define f :: "sync_block \<Rightarrow> sync_block" where "f = (\<lambda>n. n\<lparr>sb_conn := conn, sb_nfield := i, sb_ttl := ttl,
      sb_t := (if t - sb_t (node st q) \<ge> REQ_PERIOD then t else sb_t n)\<rparr>)"
    have "snd (push_block_nolock t malloc b conn i ttl st) = set_node q f st"
      unfolding push_block_nolock_def Let_def Some option.case snd_conv f_def ..
    then have f: "st' = set_node q f st" "\<And>n. sb_b (f n) = sb_b n" "\<And>n. sb_hash (f n) = sb_hash n" "\<And>n. sb_nfield (f n) = i"
      by (simp_all add: assms(5) f_def)
    have a: "awaited (node st' q) = f_hash (b ! i)" "wait_list st' q = wait_list st q" "own_list st' p = own_list st p"
      "p \<noteq> q \<Longrightarrow> node st' p = node st p" for p
      using w q(1) by (simp_all add: f awaited_def)
    have l: "wait_list st' p = wait_list st p" for p using a(2,4) by (cases "p = q") simp_all
    have waits: "waiting st' = waiting st" by (simp add: waiting_def f(1))
    have fields: "g_sync_hash st' = g_sync_hash st" "g_sync_hash_r st' = g_sync_hash_r st" "nwaitsync st' = nwaitsync st"
      "length (sy_nodes st') = length (sy_nodes st)" by (simp_all add: f(1))
    have "node_ok (node st' p)" if "p \<in> waiting st" for p
      using assms(1,3) that w(4) by (cases "p = q") (auto simp: f node_ok_def tables_ok_def w(3))
    then have "tables_ok st'" using assms(1) unfolding tables_ok_def waits l a(3) fields by simp
    then show ?thesis using a(1,4) waits by (auto simp: f(1) n_waiting_def)
  next
    case None
    let ?q = "length (sy_nodes st)" and ?kr = "get_list (hashlow (block_hash b))"
    show ?thesis
    proof (cases malloc)
      case False
      then show ?thesis using None assms(1,5) by (simp add: push_block_nolock_def Let_def)
    next
      case True
      define new where "new = \<lparr>sb_b = b, sb_hash = block_hash b, sb_conn = conn, sb_t = t, sb_nfield = i, sb_ttl = ttl\<rparr>"
      have st': "st' = st\<lparr>sy_nodes := sy_nodes st @ [new], g_sync_hash := (g_sync_hash st)(?k := ?q # g_sync_hash st ?k),
          g_sync_hash_r := (g_sync_hash_r st)(?kr := ?q # g_sync_hash_r st ?kr), nwaitsync := nwaitsync st + 1\<rparr>"
        using None True assms(5) by (simp add: push_block_nolock_def Let_def new_def hash)
      have fresh: "?q \<notin> waiting st" using assms(1) by (auto simp: tables_ok_def)
      have old: "node st' p = node st p" if "p \<in> waiting st" for p
        using assms(1) that by (simp add: st' node_def nth_append tables_ok_def)
      have nq: "node st' ?q = new" by (simp add: st' node_def)
      have anew: "awaited new = f_hash (b ! i)" by (simp add: new_def awaited_def)
      have w: "waiting st' = insert ?q (waiting st)" by (auto simp: waiting_def st' split: if_splits)
      have c: "card (waiting st') = Suc (card (waiting st))" using fresh finite_waiting [OF assms(1)] by (simp add: w)
      have "p \<in> set (g_sync_hash st' k) \<longleftrightarrow> p \<in> waiting st' \<and> k = wait_list st' p" for k p
        using assms(1) fresh old nq anew unfolding w by (cases "p = ?q") (auto simp: st' tables_ok_def)
      moreover have "p \<in> set (g_sync_hash_r st' k) \<longleftrightarrow> p \<in> waiting st' \<and> k = own_list st' p" for k p
        using assms(1) fresh old nq unfolding w by (cases "p = ?q") (auto simp: st' tables_ok_def new_def)
      moreover have "p < length (sy_nodes st') \<and> node_ok (node st' p)" if "p \<in> waiting st'" for p
        using assms(1-3) that old nq unfolding w by (auto simp: st' tables_ok_def new_def node_ok_def)
      moreover have "distinct (g_sync_hash st' k) \<and> distinct (g_sync_hash_r st' k)" for k
        using assms(1) fresh by (auto simp: st' tables_ok_def)
      moreover have "nwaitsync st' = of_nat (card (waiting st'))" using assms(1) unfolding c by (simp add: st' tables_ok_def)
      ultimately have "tables_ok st'" unfolding tables_ok_def by blast
      then show ?thesis using w c old nq anew by (auto simp: st' n_waiting_def)
    qed
  qed
  then show "tables_ok st'" "sy_db st' = sy_db st" "sy_calls st' = sy_calls st" "sy_sent st' = sy_sent st"
    "n_waiting st' \<le> n_waiting st \<or> n_waiting st' = Suc (n_waiting st)"
    "\<And>q. q \<in> waiting st' \<Longrightarrow> awaited (node st' q) = f_hash (b ! i) \<or> q \<in> waiting st \<and> awaited (node st' q) = awaited (node st q)"
    by blast+
  fix h assume "h \<noteq> f_hash (b ! i)"
  then have "{q \<in> waiting st'. awaited (node st' q) = h} \<subseteq> {q \<in> waiting st. awaited (node st q) = h}" using goal by auto
  then show "n_waiting_for h st' \<le> n_waiting_for h st"
    unfolding n_waiting_for_def using finite_waiting [OF assms(1)] by (intro card_mono) auto
qed

text \<open>The other blocks keep waiting, and the block is among them if a structure was found or allocated.\<close>

lemma push_keeps:
  assumes "tables_ok st" "length b = 16" "i < 16" "with_header 0 b = b" "push_block_nolock t malloc b conn i ttl st = (res, st')"
  shows "q \<in> waiting st \<Longrightarrow> q \<in> waiting st' \<and> sb_b (node st' q) = sb_b (node st q) \<and> sb_hash (node st' q) = sb_hash (node st q)"
    "q \<in> waiting st \<Longrightarrow> sb_b (node st q) \<noteq> b \<Longrightarrow> node st' q = node st q"
    "malloc \<Longrightarrow> \<exists>q \<in> waiting st'. sb_b (node st' q) = b \<and> awaited (node st' q) = f_hash (b ! i)"
proof -
  let ?k = "get_list (f_hash (b ! i))"
  have less: "q < length (sy_nodes st)" if "q \<in> waiting st" for q using assms(1) that by (simp add: tables_ok_def)
  have "(\<forall>q \<in> waiting st. q \<in> waiting st' \<and> sb_b (node st' q) = sb_b (node st q) \<and> sb_hash (node st' q) = sb_hash (node st q) \<and>
      (sb_b (node st q) \<noteq> b \<longrightarrow> node st' q = node st q)) \<and>
    (malloc \<longrightarrow> (\<exists>q \<in> waiting st'. sb_b (node st' q) = b \<and> awaited (node st' q) = f_hash (b ! i)))"
  proof (cases "find (\<lambda>q. sb_b (node st q) = b) (g_sync_hash st ?k)")
    case (Some p)
    then have p: "sb_b (node st p) = b" "p \<in> set (g_sync_hash st ?k)" by (auto simp: find_Some_iff dest: nth_mem)
    then have w: "p \<in> waiting st" using tables_okD [OF assms(1), of p ?k] by simp
    have "waiting st' = waiting st" using assms(5) Some by (auto simp: push_block_nolock_def Let_def waiting_def)
    then show ?thesis using assms(5) Some p(1) w less by (fastforce simp: push_block_nolock_def Let_def awaited_def)
  next
    case None
    show ?thesis
    proof (cases malloc)
      case True
      let ?new = "\<lparr>sb_b = b, sb_hash = hash_data (block_bytes b), sb_conn = conn, sb_t = t, sb_nfield = i, sb_ttl = ttl\<rparr>"
      have n: "sy_nodes st' = sy_nodes st @ [?new]" "g_sync_hash st' = (g_sync_hash st)(?k := length (sy_nodes st) # g_sync_hash st ?k)"
        using assms(5) None True by (auto simp: push_block_nolock_def Let_def)
      have "waiting st' = insert (length (sy_nodes st)) (waiting st)" by (auto simp: waiting_def n(2) split: if_splits)
      moreover have "node st' q = node st q" if "q \<in> waiting st" for q using less [OF that] by (simp add: node_def n(1) nth_append)
      moreover have "node st' (length (sy_nodes st)) = ?new" by (simp add: node_def n(1))
      ultimately show ?thesis by (simp add: awaited_def)
    qed (use assms(5) None in \<open>simp add: push_block_nolock_def Let_def\<close>)
  qed
  then show "q \<in> waiting st \<Longrightarrow> q \<in> waiting st' \<and> sb_b (node st' q) = sb_b (node st q) \<and> sb_hash (node st' q) = sb_hash (node st q)"
    "q \<in> waiting st \<Longrightarrow> sb_b (node st q) \<noteq> b \<Longrightarrow> node st' q = node st q"
    "malloc \<Longrightarrow> \<exists>q \<in> waiting st'. sb_b (node st' q) = b \<and> awaited (node st' q) = f_hash (b ! i)" by blast+
qed

section \<open>Waiting for a missing block\<close>

lemma wait_for_field_runs:
  assumes "tables_ok st" "length b = 16" "i < 16" "with_header 0 b = b"
    and p: "push_block_nolock (sh_time_push host n) (sh_malloc host n) b conn i ttl st = (res, st1)"
  shows "\<exists>st'. wait_for_field host n b conn i ttl st = Some st' \<and> same_wait st1 st' \<and>
    (sy_sent st' = sy_sent st \<or> (\<exists>h. sy_sent st' = sy_sent st @ [Request_block h] \<and>
       (h = f_hash (b ! i) \<or> h \<in> awaited ` node st1 ` waiting st1) \<and> (\<forall>q \<in> waiting st1. hashlow (sb_hash (node st1 q)) \<noteq> h)))"
proof -
  note P = push_ok [OF assms]
  let ?P = "\<lambda>h. h = f_hash (b ! i) \<or> h \<in> awaited ` node st1 ` waiting st1"
  have "card (old_nodes (sh_time host n) st1) < Suc (length (sy_nodes st1))"
    using card_mono [of "{..< length (sy_nodes st1)}" "old_nodes (sh_time host n) st1"] by (auto simp: old_nodes_def less_Suc_eq_le)
  then obtain r st2 where c: "chase (Suc (length (sy_nodes st1))) (sh_time host n) (f_hash (b ! i)) st1 = Some (r, st2)"
    "same_wait st1 st2" "sy_sent st2 = sy_sent st1" "\<forall>h. r = Some h \<longrightarrow> ?P h \<and> (\<forall>q \<in> waiting st1. hashlow (sb_hash (node st1 q)) \<noteq> h)"
    using chase_total [OF P(1), of "sh_time host n" "Suc (length (sy_nodes st1))" ?P "f_hash (b ! i)"] by blast
  define st3 where "st3 = (case r of None \<Rightarrow> st2 | Some h \<Rightarrow> send_out (Request_block h) st2)"
  have w3: "same_wait st1 st3" using same_wait_trans [OF c(2) same_wait_send] c(2) by (simp add: st3_def split: option.split)
  have "wait_for_field host n b conn i ttl st = Some (if res = 0 then st1 else st3)"
    unfolding wait_for_field_def p using c(1) by (simp add: st3_def split: option.split)
  moreover have "sy_sent st3 = sy_sent st \<or> (\<exists>h. sy_sent st3 = sy_sent st @ [Request_block h] \<and> ?P h \<and>
      (\<forall>q \<in> waiting st1. hashlow (sb_hash (node st1 q)) \<noteq> h))"
    using c(3,4) P(4) by (cases r) (auto simp: st3_def send_out_def)
  ultimately show ?thesis using w3 P(4) by (cases "res = 0") simp_all
qed

text \<open>
  C14: a block that cannot be added because its field \<open>i\<close> names an unknown block.
  The search for what to request ends, even when waiting blocks wait for each
  other in a circle.  Afterwards the tables are in order (each waiting block is
  in the list of the block it waits for and in the list of its own hash, once,
  and they are counted), the block waits for the block of the field unless there
  is no memory, no waiting block is lost, and the other ones wait for the same
  blocks as before.  At most one request is sent; it asks for a block that is
  waited for and does not wait itself.
\<close>

theorem missing_block_requested:
  assumes "tables_ok st" "length b = 16" "i < 16" "with_header 0 b = b"
  shows "\<exists>st'. wait_for_field host n b conn i ttl st = Some st' \<and> tables_ok st' \<and> sy_db st' = sy_db st \<and>
    (sh_malloc host n \<longrightarrow> (\<exists>q \<in> waiting st'. sb_b (node st' q) = b \<and> awaited (node st' q) = f_hash (b ! i))) \<and>
    (\<forall>q \<in> waiting st. q \<in> waiting st' \<and> sb_b (node st' q) = sb_b (node st q) \<and>
       (sb_b (node st q) \<noteq> b \<longrightarrow> awaited (node st' q) = awaited (node st q))) \<and>
    (sy_sent st' = sy_sent st \<or> (\<exists>h. sy_sent st' = sy_sent st @ [Request_block h] \<and>
       (h = f_hash (b ! i) \<or> h \<in> awaited ` node st' ` waiting st') \<and> (\<forall>q \<in> waiting st'. hashlow (sb_hash (node st' q)) \<noteq> h)))"
proof -
  obtain res st1 where p: "push_block_nolock (sh_time_push host n) (sh_malloc host n) b conn i ttl st = (res, st1)" by fastforce
  note P = push_ok [OF assms p] and K = push_keeps [OF assms p]
  obtain st' where w: "wait_for_field host n b conn i ttl st = Some st'" "same_wait st1 st'"
    "sy_sent st' = sy_sent st \<or> (\<exists>h. sy_sent st' = sy_sent st @ [Request_block h] \<and>
       (h = f_hash (b ! i) \<or> h \<in> awaited ` node st1 ` waiting st1) \<and> (\<forall>q \<in> waiting st1. hashlow (sb_hash (node st1 q)) \<noteq> h))"
    using wait_for_field_runs [OF assms p] by blast
  note W = same_wait_facts [OF w(2)]
  have n: "sb_b (node st' q) = sb_b (node st1 q)" "sb_hash (node st' q) = sb_hash (node st1 q)" "sy_db st' = sy_db st" for q
    using w(2) P(2) by (simp_all add: same_wait_def)
  have img: "awaited ` node st' ` waiting st' = awaited ` node st1 ` waiting st1" by (simp add: image_image W)
  have "sh_malloc host n \<longrightarrow> (\<exists>q \<in> waiting st'. sb_b (node st' q) = b \<and> awaited (node st' q) = f_hash (b ! i))"
    using K(3) by (simp add: W n)
  moreover have "\<forall>q \<in> waiting st. q \<in> waiting st' \<and> sb_b (node st' q) = sb_b (node st q) \<and>
       (sb_b (node st q) \<noteq> b \<longrightarrow> awaited (node st' q) = awaited (node st q))"
    using K(1,2) by (simp add: W n)
  moreover have "sy_sent st' = sy_sent st \<or> (\<exists>h. sy_sent st' = sy_sent st @ [Request_block h] \<and>
       (h = f_hash (b ! i) \<or> h \<in> awaited ` node st' ` waiting st') \<and> (\<forall>q \<in> waiting st'. hashlow (sb_hash (node st' q)) \<noteq> h))"
    unfolding img using w(3) by (simp add: W(1) n)
  ultimately show ?thesis using w(1) P(1) W(3) n(3) by blast
qed

text \<open>Empty tables, and a host that only tells the time.\<close>

definition xdag_sync_init :: "'s \<Rightarrow> 's sync_state" where
  "xdag_sync_init db = \<lparr>sy_db = db, sy_nodes = [], g_sync_hash = (\<lambda>k. []), g_sync_hash_r = (\<lambda>k. []), nwaitsync = 0, sy_sent = [], sy_calls = 0\<rparr>"

lemma sync_init_ok: "tables_ok (xdag_sync_init db)" "waiting (xdag_sync_init db) = {}"
  by (simp_all add: xdag_sync_init_def tables_ok_def waiting_def)

definition idle_host :: "unit sync_host" where
  "idle_host = \<lparr>sh_add = (\<lambda>n b s. Some (0, s)), sh_sync_on = (\<lambda>n. True), sh_time_push = (\<lambda>n. 0), sh_time = (\<lambda>n. 0), sh_malloc = (\<lambda>n. True)\<rparr>"

theorem missing_block_requested_witness:
  "\<exists>st'. wait_for_field idle_host 0 ((0, 1, 0, 0) # replicate 15 (7, 8, 9, 0)) None 3 2 (xdag_sync_init ()) = Some st' \<and> tables_ok st' \<and>
     (\<exists>q \<in> waiting st'. awaited (node st' q) = (7, 8, 9))"
proof -
  have "length ((0, 1, 0, 0) # replicate 15 (7, 8, 9, 0) :: xdag_block) = 16"
    "with_header 0 ((0, 1, 0, 0) # replicate 15 (7, 8, 9, 0)) = (0, 1, 0, 0) # replicate 15 (7, 8, 9, 0)"
    by (simp_all add: with_header_def)
  with missing_block_requested [OF sync_init_ok(1), where i = 3 and host = idle_host and n = 0 and conn = None and ttl = 2]
  show ?thesis by (fastforce simp: idle_host_def)
qed

end
