(* ===== verification/Sync_Blocks.thy ===== *)
theory Sync_Blocks
  imports Sync_Tables
begin

text \<open>
  Adding blocks with synchronisation.  First the block that cannot be added yet:
  it waits, and a missing block is requested.  Then the contract of the block
  database as a locale; inside it the mutual recursion of adding and popping is
  shown to end within its fuel and a bounded number of calls of the database,
  and to leave no block waiting for one that is there.  The locale is
  interpreted on \<open>xdag_add_block\<close>.
\<close>

declare split_paired_All [simp del] split_paired_Ex [simp del]

section \<open>The contract of the database\<close>

text \<open>
  \<open>present s h\<close>: a block with the hash \<open>h\<close> is in the database.  \<open>ok n s\<close>: the
  database is in a good state before its \<open>n\<close>-th call.  The laws are required of
  the calls before number \<open>budget\<close> only.
\<close>

locale block_database =
  fixes host :: "'s sync_host" and present :: "'s \<Rightarrow> xdag_hashlow_t \<Rightarrow> bool" and ok :: "nat \<Rightarrow> 's \<Rightarrow> bool" and budget :: nat
  assumes add_returns: "n < budget \<Longrightarrow> ok n s \<Longrightarrow> length b = 16 \<Longrightarrow> \<exists>res s'. sh_add host n b s = Some (res, s') \<and> ok (Suc n) s'"
    and add_present: "n < budget \<Longrightarrow> ok n s \<Longrightarrow> length b = 16 \<Longrightarrow> sh_add host n b s = Some (res, s') \<Longrightarrow>
      present s' h \<longleftrightarrow> present s h \<or> 0 \<le> res \<and> h = hashlow (block_hash b)"
    and add_missing: "n < budget \<Longrightarrow> ok n s \<Longrightarrow> length b = 16 \<Longrightarrow> sh_add host n b s = Some (res, s') \<Longrightarrow> res < 0 \<Longrightarrow> (- res) mod 16 = 5 \<Longrightarrow>
      \<not> present s (f_hash (with_header 0 b ! nat ((- res) div 16 mod 16)))"
begin

text \<open>Every waiting block waits for an absent one, up to the blocks of \<open>H\<close>, which are being dealt with.\<close>

definition settled :: "xdag_hashlow_t set \<Rightarrow> 's sync_state \<Rightarrow> bool" where
  "settled H st \<longleftrightarrow> (\<forall>q \<in> waiting st. present (sy_db st) (awaited (node st q)) \<longrightarrow> awaited (node st q) \<in> H)"

definition good :: "xdag_hashlow_t set \<Rightarrow> 's sync_state \<Rightarrow> bool" where
  "good H st \<longleftrightarrow> ok (sy_calls st) (sy_db st) \<and> tables_ok st \<and> settled H st"

text \<open>
  What adding does: nothing is forgotten, and either no more blocks wait, or one
  more that waits for an absent block.  The second happens after a single call of
  the database; otherwise the calls are paid for by the potential
  \<open>(n + 1)^2\<close> of \<open>n\<close> waiting blocks.
\<close>

definition grows :: "'s sync_state \<Rightarrow> 's sync_state \<Rightarrow> bool" where
  "grows st st' \<longleftrightarrow> (\<forall>h. present (sy_db st) h \<longrightarrow> present (sy_db st') h)"

definition adds :: "'s sync_state \<Rightarrow> 's sync_state \<Rightarrow> bool" where
  "adds st st' \<longleftrightarrow> grows st st' \<and>
     (n_waiting st' \<le> n_waiting st \<and>
        sy_calls st' + (n_waiting st' + 1) ^ 2 \<le> sy_calls st + (n_waiting st + 1) ^ 2 + n_waiting st + 1 \<or>
      n_waiting st' = Suc (n_waiting st) \<and> sy_calls st' \<le> Suc (sy_calls st) \<and> (\<forall>h. present (sy_db st) h \<longrightarrow> n_waiting_for h st' \<le> n_waiting_for h st))"

definition add_fuel :: "nat \<Rightarrow> nat" where "add_fuel n = 2 * (n + 1) ^ 2 + n + 1"

definition add_calls :: "nat \<Rightarrow> nat" where "add_calls n = (n + 1) ^ 2 + n + 1"

lemma wait_for_field_good:
  assumes "good H st" "length b = 16" "i < 16" "with_header 0 b = b" "\<not> present (sy_db st) (f_hash (b ! i))"
  shows "\<exists>st'. wait_for_field host n b conn i ttl st = Some st' \<and> good H st' \<and> sy_db st' = sy_db st \<and> sy_calls st' = sy_calls st \<and>
    (n_waiting st' \<le> n_waiting st \<or>
     n_waiting st' = Suc (n_waiting st) \<and> (\<forall>h. present (sy_db st) h \<longrightarrow> n_waiting_for h st' \<le> n_waiting_for h st))"
proof -
  obtain res st1 where p: "push_block_nolock (sh_time_push host n) (sh_malloc host n) b conn i ttl st = (res, st1)" by fastforce
  have ok: "ok (sy_calls st) (sy_db st)" "tables_ok st" "settled H st" using assms(1) by (simp_all add: good_def)
  note P = push_ok [OF ok(2) assms(2-4) p]
  have s1: "settled H st1" using ok(3) P(2,6) assms(5) unfolding settled_def by metis
  obtain st' where w: "wait_for_field host n b conn i ttl st = Some st'" "same_wait st1 st'"
    using wait_for_field_runs [OF ok(2) assms(2-4) p] by blast
  note W = same_wait_facts [OF w(2)]
  have db: "sy_db st' = sy_db st" "sy_calls st' = sy_calls st" using w(2) P(2,3) by (simp_all add: same_wait_def)
  have "good H st'" using ok(1) P(1) s1 db P(2) by (simp add: good_def settled_def W)
  moreover have "n_waiting_for h st1 \<le> n_waiting_for h st" if "present (sy_db st) h" for h using that P(7) assms(5) by metis
  ultimately show ?thesis using w(1) db P(5) by (simp add: W)
qed

lemma with_header_simps:
  "length (with_header h b) = length b" "with_header 0 (with_header h b) = with_header 0 b"
  "block_hash (with_header h b) = block_hash b" "hash_data (block_bytes (with_header 0 b)) = block_hash b"
proof -
  have f: "f_set_transport_header x (f_set_transport_header y f) = f_set_transport_header x f" for x y f by (cases f) simp
  show "length (with_header h b) = length b" "hash_data (block_bytes (with_header 0 b)) = block_hash b"
    by (simp_all add: with_header_def block_hash_def)
  show e: "with_header 0 (with_header h b) = with_header 0 b" by (cases b) (simp_all add: with_header_def f)
  have "block_hash b = hash_data (block_bytes (with_header 0 b))" for b by (simp add: with_header_def block_hash_def)
  then show "block_hash (with_header h b) = block_hash b" using e by simp
qed

lemma good_same_wait: "same_wait st st' \<Longrightarrow> good H st' = good H st"
  by (simp add: good_def settled_def same_wait_facts) (simp add: same_wait_def)

lemma add_fuel_less: "m < n \<Longrightarrow> add_fuel m \<le> 2 * (n + 1) ^ 2"
  "m < n \<Longrightarrow> k \<le> m \<Longrightarrow> 2 * (m + 1) ^ 2 + k < 2 * (n + 1) ^ 2"
proof -
  assume "m < n"
  then obtain d where "n = Suc (m + d)" using less_iff_Suc_add by auto
  then show "add_fuel m \<le> 2 * (n + 1) ^ 2" "k \<le> m \<Longrightarrow> 2 * (m + 1) ^ 2 + k < 2 * (n + 1) ^ 2"
    by (simp_all add: add_fuel_def power2_eq_square algebra_simps)
qed

text \<open>
  Adding and popping end within their fuel and the budget of calls.  Adding keeps
  the set \<open>H\<close> of blocks being dealt with; popping takes a block out of it.
\<close>

lemma add_and_pop:
  shows "good H st \<Longrightarrow> length b = 16 \<Longrightarrow> add_fuel (n_waiting st) \<le> fuel \<Longrightarrow>
      sy_calls st + add_calls (n_waiting st) \<le> budget \<Longrightarrow> \<exists>st'. sync_add_block host fuel b conn st = Some st' \<and> good H st' \<and> adds st st'"
    and "good (insert hash H) st \<Longrightarrow> present (sy_db st) hash \<Longrightarrow> 2 * (n_waiting st + 1) ^ 2 + n_waiting_for hash st \<le> fuel \<Longrightarrow>
      sy_calls st + (n_waiting st + 1) ^ 2 + n_waiting_for hash st \<le> budget \<Longrightarrow>
      \<exists>st'. sync_pop_block host fuel hash st = Some st' \<and> good H st' \<and> grows st st' \<and> n_waiting st' \<le> n_waiting st \<and>
        sy_calls st' + (n_waiting st' + 1) ^ 2 \<le> sy_calls st + (n_waiting st + 1) ^ 2 + n_waiting_for hash st"
proof (induction fuel arbitrary: H st b conn hash)
  case 0
  {
    case 1
    then show ?case by (simp add: add_fuel_def)
  next
    case 2
    then show ?case by simp
  }
next
  case (Suc fuel)
  {
    case 1
    have ok: "ok (sy_calls st) (sy_db st)" "tables_ok st" "settled H st" using 1(1) by (simp_all add: good_def)
    have budget: "sy_calls st < budget" using 1(4) by (simp add: add_calls_def)
    obtain res db where a: "sh_add host (sy_calls st) b (sy_db st) = Some (res, db)" "ok (Suc (sy_calls st)) db"
      using add_returns [OF budget ok(1) 1(2)] by blast
    note present = add_present [OF budget ok(1) 1(2) a(1)] and missing = add_missing [OF budget ok(1) 1(2) a(1)]
    define st1 where "st1 = st\<lparr>sy_db := db, sy_calls := Suc (sy_calls st)\<rparr>"
    have n1: "waiting st1 = waiting st" "node st1 = node st" "sy_db st1 = db" "sy_calls st1 = Suc (sy_calls st)" "n_waiting st1 = n_waiting st"
      "n_waiting_for h st1 = n_waiting_for h st" for h
      by (simp_all add: st1_def waiting_def node_def [abs_def] n_waiting_def n_waiting_for_def)
    have t1: "tables_ok st1" using ok(2) by (simp add: tables_ok_def n1(1,2)) (simp add: st1_def)
    show ?case
    proof (cases "0 \<le> res")
      case True
      let ?h = "hashlow (block_hash b)"
      have "good (insert ?h H) st1" using ok(3) a(2) t1 present True by (simp add: good_def settled_def n1)
      moreover have "present (sy_db st1) ?h" using present True by (simp add: n1)
      moreover have "2 * (n_waiting st1 + 1) ^ 2 + n_waiting_for ?h st1 \<le> fuel"
        using 1(3) n_waiting_for_le [OF ok(2), of ?h] by (simp add: n1 add_fuel_def)
      moreover have "sy_calls st1 + (n_waiting st1 + 1) ^ 2 + n_waiting_for ?h st1 \<le> budget"
        using 1(4) n_waiting_for_le [OF ok(2), of ?h] by (simp add: n1 add_calls_def)
      ultimately obtain st2 where s2: "sync_pop_block host fuel ?h st1 = Some st2" "good H st2" "grows st1 st2" "n_waiting st2 \<le> n_waiting st1"
        "sy_calls st2 + (n_waiting st2 + 1) ^ 2 \<le> sy_calls st1 + (n_waiting st1 + 1) ^ 2 + n_waiting_for ?h st1"
        using Suc.IH(2) by blast
      define st' where "st' = (if res > 0 \<and> unat (drop_bit 8 (f_transport_header (b ! 0)) AND 0xff) > 2
        then send_out (Send_packet (with_header (push_bit 8 (of_nat (unat (drop_bit 8 (f_transport_header (b ! 0)) AND 0xff))))
          (with_header 0 b)) conn) st2 else st2)"
      have w: "same_wait st2 st'" unfolding st'_def by (auto intro: same_wait_send)
      have "sync_add_block host (Suc fuel) b conn st = Some st'"
        using a(1) True s2(1) by (simp add: st1_def [symmetric] with_header_simps(4) st'_def Let_def)
      moreover have "sy_db st' = sy_db st2" "sy_calls st' = sy_calls st2" using w by (simp_all add: same_wait_def)
      then have "adds st st'"
        using s2(3-5) present n_waiting_for_le [OF ok(2), of ?h] by (simp add: adds_def grows_def n1 same_wait_facts [OF w])
      ultimately show ?thesis using s2(2) good_same_wait [OF w] by blast
    next
      case False
      have same: "present db h = present (sy_db st) h" for h using present False by simp
      have g1: "good H st1" using ok(3) a(2) t1 by (simp add: good_def settled_def n1 same)
      let ?i = "nat ((- res) div 16 mod 16)"
      show ?thesis
      proof (cases "sh_sync_on host (sy_calls st) \<and> (- res) mod 16 = 5")
        case True
        have "\<not> present (sy_db st1) (f_hash (with_header 0 b ! ?i))" using missing True False by (simp add: n1 same)
        moreover have "?i < 16" by simp
        ultimately obtain st' where "wait_for_field host (sy_calls st) (with_header 0 b) conn ?i
            (unat (drop_bit 8 (f_transport_header (b ! 0)) AND 0xff)) st1 = Some st'" "good H st'" "sy_db st' = db"
          "sy_calls st' = Suc (sy_calls st)"
          "n_waiting st' \<le> n_waiting st \<or> n_waiting st' = Suc (n_waiting st) \<and>
             (\<forall>h. present (sy_db st) h \<longrightarrow> n_waiting_for h st' \<le> n_waiting_for h st)"
          using wait_for_field_good [OF g1, where b = "with_header 0 b" and i = ?i and n = "sy_calls st" and conn = conn and
              ttl = "unat (drop_bit 8 (f_transport_header (b ! 0)) AND 0xff)"] with_header_simps(1,2) 1(2)
          by (auto simp only: n1 same)
        moreover from this(5) have "adds st st'"
        proof
          assume le: "n_waiting st' \<le> n_waiting st"
          then have "(n_waiting st' + 1) ^ 2 \<le> (n_waiting st + 1) ^ 2" by (intro power_mono) simp_all
          then have "sy_calls st' + (n_waiting st' + 1) ^ 2 \<le> sy_calls st + (n_waiting st + 1) ^ 2 + n_waiting st + 1"
            unfolding calculation(4) by linarith
          then show ?thesis using le calculation(3) by (simp only: adds_def grows_def same simp_thms)
        qed (simp add: adds_def grows_def calculation(3,4) same)
        ultimately show ?thesis using a(1) False True by (simp add: st1_def [symmetric] Let_def)
      next
        case f: False
        have "adds st st1" by (simp add: adds_def grows_def n1 same)
        then show ?thesis using a(1) False f g1 by (auto simp: st1_def [symmetric] Let_def)
      qed
    qed
  next
    case 2
    have ok: "ok (sy_calls st) (sy_db st)" "tables_ok st" "settled (insert hash H) st" using 2(1) by (simp_all add: good_def)
    show ?case
    proof (cases "find (\<lambda>q. awaited (node st q) = hash) (g_sync_hash st (get_list hash))")
      case None
      then have "settled H st" using ok(3) find_waiting(1) [OF ok(2)] by (auto simp: settled_def)
      then show ?thesis using None ok by (simp add: good_def grows_def)
    next
      case (Some q)
      have q: "q \<in> waiting st" "awaited (node st q) = hash" "node_ok (node st q)"
        using find_waiting(2) [OF ok(2) Some] ok(2) by (auto simp: tables_ok_def)
      define st1 where "st1 = unlink_node (get_list hash) q st"
      note U = unlink_ok [OF ok(2) q(1), unfolded q(2), folded st1_def]
      have st1: "sy_db st1 = sy_db st" "sy_calls st1 = sy_calls st" "node st1 p = node st p" for p by (simp_all add: st1_def)
      have g1: "good (insert hash H) st1" using ok U(1,2) by (auto simp: good_def settled_def st1)
      have "add_fuel (n_waiting st1) \<le> fuel"
        using add_fuel_less(1) [of "n_waiting st1" "n_waiting st"] U(3,4) 2(3) by simp
      moreover have "sy_calls st1 + add_calls (n_waiting st1) \<le> budget"
        using 2(4) U(3) [symmetric] by (simp add: st1 add_calls_def power2_eq_square)
      ultimately obtain st2 where s2: "sync_add_block host fuel (with_header (push_bit 8 (of_nat (sb_ttl (node st q))) OR 1) (sb_b (node st q)))
          (sb_conn (node st q)) st1 = Some st2" "good (insert hash H) st2" "adds st1 st2"
        using Suc.IH(1) [OF g1] q(3) unfolding node_ok_def by (metis with_header_simps(1))
      have t2: "tables_ok st2" "present (sy_db st2) hash" using s2(2,3) 2(2) by (simp_all add: good_def adds_def grows_def st1)
      have "2 * (n_waiting st2 + 1) ^ 2 + n_waiting_for hash st2 \<le> fuel"
      proof (cases "n_waiting st2 \<le> n_waiting st1")
        case True
        then have "n_waiting st2 < n_waiting st" using U(3) by simp
        then show ?thesis
          using add_fuel_less(2) [OF _ n_waiting_for_le [OF t2(1), of hash], of "n_waiting st"] U(4) 2(3) by linarith
      next
        case False
        then have "n_waiting st2 = n_waiting st" "n_waiting_for hash st2 \<le> n_waiting_for hash st1"
          using s2(3) U(3) 2(2) by (simp_all add: adds_def st1)
        then show ?thesis using U(4) 2(3) by simp
      qed
      moreover have c2: "sy_calls st2 + (n_waiting st2 + 1) ^ 2 + n_waiting_for hash st2 \<le>
          sy_calls st + (n_waiting st + 1) ^ 2 + n_waiting_for hash st"
      proof (cases "n_waiting st2 \<le> n_waiting st1")
        case True
        then have "sy_calls st2 + (n_waiting st2 + 1) ^ 2 \<le> sy_calls st + (n_waiting st1 + 1) ^ 2 + n_waiting st1 + 1"
          using s2(3) by (auto simp: adds_def st1)
        then show ?thesis
          using True n_waiting_for_le [OF t2(1), of hash] U(3) [symmetric] by (simp add: power2_eq_square)
      next
        case False
        then have "n_waiting st2 = n_waiting st" "n_waiting_for hash st2 \<le> n_waiting_for hash st1" "sy_calls st2 \<le> Suc (sy_calls st)"
          using s2(3) U(3) 2(2) by (simp_all add: adds_def st1)
        then show ?thesis using U(4) by simp
      qed
      ultimately obtain st' where s': "sync_pop_block host fuel hash st2 = Some st'" "good H st'" "grows st2 st'" "n_waiting st' \<le> n_waiting st2"
        "sy_calls st' + (n_waiting st' + 1) ^ 2 \<le> sy_calls st2 + (n_waiting st2 + 1) ^ 2 + n_waiting_for hash st2"
        using Suc.IH(2) [OF s2(2) t2(2)] 2(4) by (meson order_trans)
      have "n_waiting st2 \<le> n_waiting st" using s2(3) U(3) by (auto simp: adds_def)
      then show ?thesis using Some s2(1,3) s' c2 by (simp add: st1_def [symmetric] grows_def adds_def st1)
    qed
  }
qed

lemma sync_add_good:
  assumes "good {} st" "length b = 16" "fuel = add_fuel (length (sy_nodes st))" "sy_calls st + add_calls (n_waiting st) \<le> budget"
  shows "\<exists>st'. sync_add_block host fuel b conn st = Some st' \<and> good {} st'"
proof -
  have "n_waiting st \<le> length (sy_nodes st)" using assms(1) waiting_bound [of st] by (simp add: good_def)
  then have "add_fuel (n_waiting st) \<le> fuel"
    unfolding assms(3) add_fuel_def by (intro add_mono mult_mono power_mono) simp_all
  then show ?thesis using add_and_pop(1) [OF assms(1,2) _ assms(4)] by blast
qed

end

section \<open>The database of the program\<close>

definition xdag_database :: "(nat \<Rightarrow> add_env) \<Rightarrow> u64 \<Rightarrow> nat \<Rightarrow> xdag_block \<Rightarrow> xdag_state \<times> block_cache \<Rightarrow> (int \<times> xdag_state \<times> block_cache) option" where
  "xdag_database envs g_time_limit n b = (\<lambda>(st, c).
     map_option (\<lambda>(res, st, c, freed). (res, st, c)) (xdag_add_block (envs n) g_time_limit b st c))"

definition sync_host_of ::
  "(nat \<Rightarrow> add_env) \<Rightarrow> u64 \<Rightarrow> (nat \<Rightarrow> bool) \<Rightarrow> (nat \<Rightarrow> int) \<Rightarrow> (nat \<Rightarrow> int) \<Rightarrow> (nat \<Rightarrow> bool) \<Rightarrow> (xdag_state \<times> block_cache) sync_host" where
  "sync_host_of envs limit on tp t ml =
     \<lparr>sh_add = xdag_database envs limit, sh_sync_on = on, sh_time_push = tp, sh_time = t, sh_malloc = ml\<rparr>"

definition xdag_sync_add_block :: "'s sync_host \<Rightarrow> xdag_block \<Rightarrow> nat option \<Rightarrow> 's sync_state \<Rightarrow> 's sync_state option" where
  "xdag_sync_add_block host b conn st = sync_add_block host (2 * (length (sy_nodes st) + 1) ^ 2 + length (sy_nodes st) + 1) b conn st"

definition xdag_sync_pop_block :: "'s sync_host \<Rightarrow> xdag_block \<Rightarrow> 's sync_state \<Rightarrow> 's sync_state option" where
  "xdag_sync_pop_block host b st =
     sync_pop_block host (2 * (length (sy_nodes st) + 1) ^ 2 + length (sy_nodes st) + 1) (hashlow (hash_data (block_bytes b))) st"

definition has_block :: "xdag_state \<times> block_cache \<Rightarrow> xdag_hashlow_t \<Rightarrow> bool" where
  "has_block db h \<longleftrightarrow> block_by_hash h (fst db) \<noteq> None"

text \<open>
  The states from which the next \<open>k\<close> additions, of whatever blocks, meet states
  below the limit of extra blocks and, in a pool, with a consistent main chain.
\<close>

primrec accepts_for :: "nat \<Rightarrow> (nat \<Rightarrow> add_env) \<Rightarrow> u64 \<Rightarrow> nat \<Rightarrow> xdag_state \<times> block_cache \<Rightarrow> bool" where
  "accepts_for 0 envs limit n db \<longleftrightarrow> True"
| "accepts_for (Suc k) envs limit n db \<longleftrightarrow> accepts_blocks (fst db) \<and>
     (\<forall>b res db'. length b = 16 \<longrightarrow> xdag_database envs limit n b db = Some (res, db') \<longrightarrow> accepts_for k envs limit (Suc n) db')"

lemma code_mod: "err < 16 \<Longrightarrow> int (err + 16 * i) mod 16 = int err" "err < 16 \<Longrightarrow> int (err + 16 * i) div 16 = int i"
  by auto

lemma has_block_structural: "root st' = root st \<Longrightarrow> has_block (st', c') h = has_block (st, c) h"
  by (simp add: has_block_def block_by_hash_def)

lemma late_root:
  assumes "accepts_blocks st" "if is_pool st then check_new_main env st = Some st' else st' = st"
  shows "root st' = root st"
  using check_phase [OF assms(1), of env] assms(2) by (auto simp: structural_def split: if_splits)

lemma database_cases:
  assumes "accepts_blocks (fst db)" "length b = 16" "xdag_database envs limit n b db = Some (res, db')"
  shows "(has_block db' h \<longleftrightarrow> has_block db h \<or> 0 \<le> res \<and> h = hashlow (block_hash b)) \<and>
    (res < 0 \<and> (- res) mod 16 = 5 \<longrightarrow> \<not> has_block db (f_hash (with_header 0 b ! nat ((- res) div 16 mod 16))))"
proof -
  obtain st c st' c' where db: "db = (st, c)" "db' = (st', c')" by (meson surj_pair)
  have acc: "accepts_blocks st" using assms(1) db by simp
  obtain freed where run: "add_block_nolock (envs n) b limit st c = Some (res, st', c', freed)"
    using assms(3) db by (auto simp: xdag_database_def xdag_add_block_def)
  obtain r s c2 f2 where R: "add_block_nolock (envs n) b limit st c = Some (r, s, c2, f2)"
    "r = 0 \<and> s = st \<and> block_by_hash (hashlow (block_hash b)) st \<noteq> None \<or>
     r \<in> {0, 1} \<and> (\<exists>st1 tmp. structural st st1 \<and> bi_hash tmp = block_hash b \<and> stored st1 tmp s) \<or>
     (\<exists>err i. r = - int (err + 16 * i) \<and> i \<le> 16 \<and>
        (err \<in> early_codes \<and> s = st \<and> (err = 5 \<longrightarrow> 0 < i \<and> i < 16 \<and> block_by_hash (f_hash (b ! i)) st = None) \<or>
         err \<in> late_codes \<and> (if is_pool st then check_new_main (env_check_main (envs n)) st = Some s else s = st) \<or>
         err \<in> {0xC, 0xD} \<and> root s = root st))"
    using add_block_cases [OF acc assms(2), of "envs n" limit c] by (elim exE conjE) (rule that)
  have "r = res" "s = st'" using R(1) run by simp_all
  note R = R(2) [unfolded this]
  from R show ?thesis
  proof (elim disjE exE conjE)
    assume "res = 0" "st' = st" "block_by_hash (hashlow (block_hash b)) st \<noteq> None"
    then show ?thesis by (auto simp: db has_block_def)
  next
    fix st1 tmp
    assume h: "res \<in> {0, 1}" "structural st st1" "bi_hash tmp = block_hash b" "stored st1 tmp st'"
    have "block_by_hash h st1 = block_by_hash h st" using h(2) by (simp add: structural_def block_by_hash_def)
    moreover have "block_by_hash h st' = (if h = hashlow (bi_hash tmp) then Some (length (heap st1)) else block_by_hash h st1)"
      using h(4) by (simp add: stored_def)
    ultimately show ?thesis using h(1,3) by (auto simp: db has_block_def)
  next
    fix err i
    assume h: "res = - int (err + 16 * i)" "i \<le> 16" "err \<in> early_codes" "st' = st"
      "err = 5 \<longrightarrow> 0 < i \<and> i < 16 \<and> block_by_hash (f_hash (b ! i)) st = None"
    have e: "0 < err" "err < 16" using h(3) by (auto simp: early_codes_def)
    have "(- res) mod 16 = int err" "(- res) div 16 = int i" "res < 0" using code_mod [OF e(2), of i] e(1) h(1) by simp_all
    then show ?thesis using h(4,5) by (auto simp: db has_block_def with_header_def nat_mod_distrib)
  next
    fix err i
    assume h: "res = - int (err + 16 * i)" "i \<le> 16" "err \<in> late_codes"
      "if is_pool st then check_new_main (env_check_main (envs n)) st = Some st' else st' = st"
    have e: "0 < err" "err < 16" "err \<noteq> 5" using h(3) by (auto simp: late_codes_def)
    have "(- res) mod 16 \<noteq> 5" "res < 0" using code_mod(1) [OF e(2), of i] e(1,3) h(1) by simp_all
    then show ?thesis using has_block_structural [OF late_root [OF acc h(4)], of c' h c] by (simp add: db)
  next
    fix err i
    assume h: "res = - int (err + 16 * i)" "i \<le> 16" "err \<in> {0xC, 0xD}" "root st' = root st"
    have "err < 16" "err \<noteq> 5" "0 < err" using h(3) by auto
    then have "(- res) mod 16 \<noteq> 5" "res < 0" using code_mod(1) [of err i] h(1) by simp_all
    then show ?thesis using has_block_structural [OF h(4), of c' h c] by (simp add: db)
  qed
qed

interpretation xdb: block_database "sync_host_of envs limit on tp t ml" has_block "\<lambda>n. accepts_for (budget - n) envs limit n" budget
  for envs limit on tp t ml budget
proof
  fix n :: nat and db b
  assume n: "n < budget" and ok: "accepts_for (budget - n) envs limit n db" and len: "length (b :: xdag_block) = 16"
  have "budget - n = Suc (budget - Suc n)" using n by simp
  with ok have acc: "accepts_blocks (fst db)"
    and next_ok: "\<And>b res db'. length b = 16 \<Longrightarrow> xdag_database envs limit n b db = Some (res, db') \<Longrightarrow>
      accepts_for (budget - Suc n) envs limit (Suc n) db'" by simp_all
  have host: "sh_add (sync_host_of envs limit on tp t ml) = xdag_database envs limit" by (simp add: sync_host_of_def)
  obtain st c where db: "db = (st, c)" by fastforce
  obtain res st' c' freed where "add_block_nolock (envs n) b limit st c = Some (res, st', c', freed)"
    using add_block_cases [of st b "envs n" limit c] acc len db by auto
  then have "xdag_database envs limit n b db = Some (res, st', c')" by (simp add: xdag_database_def xdag_add_block_def db)
  then show "\<exists>res s'. sh_add (sync_host_of envs limit on tp t ml) n b db = Some (res, s') \<and>
      accepts_for (budget - Suc n) envs limit (Suc n) s'"
    using next_ok [OF len] host by metis
  fix res db'
  assume run: "sh_add (sync_host_of envs limit on tp t ml) n b db = Some (res, db')"
  show "has_block db' h \<longleftrightarrow> has_block db h \<or> 0 \<le> res \<and> h = hashlow (block_hash b)" for h
    using database_cases [OF acc len run [unfolded host], of h] by blast
  show "\<not> has_block db (f_hash (with_header 0 b ! nat ((- res) div 16 mod 16)))" if "res < 0" "(- res) mod 16 = 5"
    using database_cases [OF acc len run [unfolded host]] that by blast
qed

text \<open>
  The fuel of \<open>xdag_sync_add_block\<close> is enough.  With \<open>n\<close> waiting blocks it calls the
  database at most \<open>(n + 1)^2 + n + 1\<close> times; when these calls find it in a good
  state, adding returns with the tables in order, and if no block waited for one
  that was there, none does afterwards.
\<close>

lemma sync_add_settles:
  assumes "tables_ok st" "\<forall>q \<in> waiting st. \<not> has_block (sy_db st) (awaited (node st q))" "length b = 16"
    and "accepts_for ((n_waiting st + 1) ^ 2 + n_waiting st + 1) envs limit (sy_calls st) (sy_db st)"
  shows "\<exists>st'. xdag_sync_add_block (sync_host_of envs limit on tp t ml) b conn st = Some st' \<and> tables_ok st' \<and>
    (\<forall>q \<in> waiting st'. \<not> has_block (sy_db st') (awaited (node st' q)))"
proof -
  let ?budget = "sy_calls st + xdb.add_calls (n_waiting st)"
  have "xdb.good ?budget envs limit {} st" using assms(1,2,4) by (simp add: xdb.good_def xdb.settled_def xdb.add_calls_def)
  from xdb.sync_add_good [OF this assms(3) refl order_refl]
  show ?thesis unfolding xdag_sync_add_block_def xdb.add_fuel_def xdb.good_def xdb.settled_def by blast
qed

end
