(* ===== verification/Node_State.thy ===== *)
theory Node_State
  imports Create_Block Storage Checksum
begin

text \<open>
  client/block.c: \<open>work_thread\<close>, which loads the stored blocks, waits for the
  command \<open>run\<close>, and then once a second decides on the production of blocks,
  moves the state of the node and looks for a new main block.  When the engine
  is told to reset it forgets all blocks and starts again.
\<close>

section \<open>After a load: the RandomX seeds\<close>

definition rx_load_slot :: "u64 \<Rightarrow> xdag_state \<Rightarrow> rx_globals \<Rightarrow> rx_globals option" where
  "rx_load_slot height st g =
     do {
       b \<leftarrow> block_by_height height st;
       p \<leftarrow> b;
       s \<leftarrow> block_by_height (height - g_rx_fork_lag g) st;
       q \<leftarrow> s;
       let i = g_rx_hash_epoch_index g + 1;
       let m = (rx_mem g i)\<lparr>rx_seed := copy_hashlow (hashlow (bi_hash (cell st q))) (rx_seed (rx_mem g i)),
         rx_switch_time := MAIN_TIME (bi_time (cell st p)) + g_rx_fork_lag g + 1,
         rx_seed_time := bi_time (cell st p), rx_seed_height := bi_height (cell st p)\<rparr>;
       Some ((rx_set_mem i (rx_pool_update_seed m) g)\<lparr>g_rx_hash_epoch_index := i\<rparr>)
     }"

definition rx_set_switched :: "int \<Rightarrow> rx_globals \<Rightarrow> rx_globals" where
  "rx_set_switched v g =
     (let i = g_rx_hash_epoch_index g in rx_set_mem i ((rx_mem g i)\<lparr>rx_is_switched := v\<rparr>) g)"

definition rx_loading_fork_time :: "xdag_state \<Rightarrow> xdag_state option" where
  "rx_loading_fork_time st =
     (let g = g_rx st; n = nmain (g_xdag_stats st) in
      if n \<ge> g_rx_fork_seed_height g then
        do {
          b \<leftarrow> block_by_height (g_rx_fork_seed_height g) st;
          p \<leftarrow> b;
          let g = g\<lparr>g_rx_hash_epoch_index := 0, g_rx_pool_mem_index := - 1,
            g_rx_fork_time := MAIN_TIME (bi_time (cell st p)) + g_rx_fork_lag g\<rparr>;
          let seed_epoch = seed_epoch_mask (g_xdag_testnet st);
          let seed_height = n AND NOT seed_epoch;
          let pre_seed_height = seed_height - seed_epoch - 1;
          g \<leftarrow> (if pre_seed_height \<ge> g_rx_fork_seed_height g
               then map_option (rx_set_switched 1) (rx_load_slot pre_seed_height st g) else Some g);
          g \<leftarrow> (if seed_height \<ge> g_rx_fork_seed_height g
               then do {
                 g \<leftarrow> rx_load_slot seed_height st g;
                 l \<leftarrow> block_by_height n st;
                 q \<leftarrow> l;
                 Some (rx_set_switched
                   (if MAIN_TIME (bi_time (cell st q)) \<ge> rx_switch_time (rx_mem g (g_rx_hash_epoch_index g)) then 1 else 0) g)
               }
               else Some g);
          Some (st\<lparr>g_rx := g\<rparr>)
        }
      else Some st)"

section \<open>Variables and observations of a round\<close>

record work_vars =
  wk_t :: u64
  wk_conn_time :: u64
  wk_sync_time :: u64
  wk_last_nmain :: u64
  wk_last_time_nmain_unequal :: int
  wk_production :: bool

text \<open>
  What a round reads from outside: the clock in both units, the times of the
  last packet and of the last transfer, the number of mining threads, and a
  random number.
\<close>

record work_input =
  wi_t :: u64
  wi_time :: int
  wi_last_received :: u64
  wi_xfer_last :: u64
  wi_mining_threads :: int
  wi_rand :: u32

definition MAX_TIME_NMAIN_STALLED :: int where "MAX_TIME_NMAIN_STALLED = 1024"

section \<open>Production of blocks\<close>

definition update_production :: "work_input \<Rightarrow> xdag_state \<Rightarrow> work_vars \<Rightarrow> work_vars" where
  "update_production inp st v =
     (if \<not> wk_production v \<and> is_pool st \<and>
         g_xdag_state st \<in> {XDAG_STATE_WAIT, XDAG_STATE_WTST, XDAG_STATE_SYNC, XDAG_STATE_STST, XDAG_STATE_CONN, XDAG_STATE_CTST}
      then
        (if g_xdag_state st = XDAG_STATE_SYNC \<or> g_xdag_state st = XDAG_STATE_STST \<or>
            nmain (g_xdag_stats st) \<ge> MAIN_TIME (wi_t inp) - xdag_get_start_frame (g_xdag_era st)
         then v\<lparr>wk_production := True\<rparr>
         else if wk_last_nmain v \<noteq> nmain (g_xdag_stats st)
         then v\<lparr>wk_last_nmain := nmain (g_xdag_stats st), wk_last_time_nmain_unequal := wi_time inp\<rparr>
         else if wi_time inp - wk_last_time_nmain_unequal v > MAX_TIME_NMAIN_STALLED
         then v\<lparr>wk_production := True\<rparr> else v)
      else v)"

text \<open>The number of blocks made only to refer to orphans.\<close>

definition refer_count :: "work_input \<Rightarrow> xdag_state \<Rightarrow> nat" where
  "refer_count inp st =
     (let nblk = unat (ucast (nnoref (g_xdag_extstats st)) :: u32) div (XDAG_BLOCK_FIELDS - 5)
      in nblk div 61 + (if nblk mod 61 > unat (wi_rand inp) mod 61 then 1 else 0))"

definition empty_request :: create_request where
  "empty_request = \<lparr>cr_inputs = [], cr_outputs = [], cr_remark = None, cr_fee = 0\<rparr>"

definition idle_attempt :: "xdag_state \<Rightarrow> mining_attempt" where
  "idle_attempt st = \<lparr>at_state = st, at_random = (0, 0, 0, 0), at_obs = [], at_mined = (0, 0, 0, 0)\<rparr>"

text \<open>
  The loop that creates them: \<open>envs i\<close> is what the \<open>i\<close>-th creation meets, with the
  time it reads and the success of its allocation.  The last component collects
  the blocks sent.
\<close>

fun refer_blocks ::
  "wallet_view \<Rightarrow> u64 \<Rightarrow> (nat \<Rightarrow> add_env \<times> u64 \<times> bool) \<Rightarrow> nat \<Rightarrow> mining_state \<Rightarrow> xdag_state \<Rightarrow> block_cache \<Rightarrow> xdag_block list
   \<Rightarrow> (xdag_state \<times> block_cache \<times> xdag_block list) option" where
  "refer_blocks w limit envs 0 ms st c sent = Some (st, c, sent)"
| "refer_blocks w limit envs (Suc n) ms st c sent =
     (let (env, now, ok) = envs n in
      do {
        (created, ms', g) \<leftarrow> xdag_create_block w empty_request 0 now ok st [idle_attempt st] ms;
        (res, st', c', b) \<leftarrow> xdag_create_and_send_block env limit (map_option fst created) (st\<lparr>g_rx := g\<rparr>) c;
        refer_blocks w limit envs n ms' st' c' (sent @ (case b of Some b \<Rightarrow> [b] | None \<Rightarrow> []))
      })"

section \<open>The state of the node\<close>

definition next_node_state :: "work_input \<Rightarrow> xdag_state \<Rightarrow> work_vars \<Rightarrow> xdag_state_code \<times> work_vars" where
  "next_node_state inp st v =
     (let t = wi_t inp; received = push_bit 10 (wi_last_received inp) in
      if t > received \<and> t - received > 3 * MAIN_CHAIN_PERIOD then
        (if is_wallet st then (if g_xdag_testnet st then XDAG_STATE_TTST else XDAG_STATE_TRYP)
         else (if g_xdag_testnet st then XDAG_STATE_WTST else XDAG_STATE_WAIT),
         v\<lparr>wk_conn_time := 0, wk_sync_time := 0\<rparr>)
      else
        (let v = (if wk_conn_time v = 0 then v\<lparr>wk_conn_time := t\<rparr> else v);
             v = (if is_pool st \<and> t - wk_conn_time v \<ge> 2 * MAIN_CHAIN_PERIOD \<and>
                     difficulty (g_xdag_stats st) = max_difficulty (g_xdag_stats st)
                  then v\<lparr>wk_sync_time := t\<rparr> else v)
         in (if t - push_bit 10 (wi_xfer_last inp) \<le> 2 * MAIN_CHAIN_PERIOD + 4 then XDAG_STATE_XFER
             else if is_wallet st then
               (if wi_mining_threads inp > 0 then (if g_xdag_testnet st then XDAG_STATE_MTST else XDAG_STATE_MINE)
                else (if g_xdag_testnet st then XDAG_STATE_PTST else XDAG_STATE_POOL))
             else if t - wk_sync_time v > 8 * MAIN_CHAIN_PERIOD
             then (if g_xdag_testnet st then XDAG_STATE_CTST else XDAG_STATE_CONN)
             else (if g_xdag_testnet st then XDAG_STATE_STST else XDAG_STATE_SYNC),
             v)))"

section \<open>Reset\<close>

text \<open>
  What \<open>reset_callback\<close> frees for one node of the index, when the blocks are not
  in the temporary file: its back references, its remark, the block, the node.
\<close>

datatype freed = FreeBackrefs ptr nat | FreeRemark ptr | FreeBlock ptr | FreeNode ptr

definition reset_callback :: "xdag_state \<Rightarrow> block_internal_index \<Rightarrow> freed list" where
  "reset_callback st node =
     (let p = ix_bi node; b = cell st p in
      map (FreeBackrefs p) [0..<length (bi_backrefs b)] @
      (if has_flag b BI_REMARK \<and> bi_remark b \<noteq> None then [FreeRemark p] else []) @
      [FreeBlock p, FreeNode p])"

definition zero_stats :: xdag_stats where
  "zero_stats = \<lparr>difficulty = 0, max_difficulty = 0, nblocks = 0, total_nblocks = 0, nmain = 0, total_nmain = 0\<rparr>"

definition zero_extstats :: xdag_ext_stats where
  "zero_extstats = \<lparr>hashrate_total = replicate 256 0, hashrate_ours = replicate 256 0, hashrate_last_time = 0, nnoref = 0, nextra = 0\<rparr>"

definition reset_blocks :: "xdag_state \<Rightarrow> xdag_state" where
  "reset_blocks st =
     st\<lparr>heap := [], root := NULL, g_balance := 0, top_main_chain := None, pretop_main_chain := None, ours := [],
        orphans := [], extras := [], g_xdag_stats := zero_stats, g_xdag_extstats := zero_extstats\<rparr>"

definition xdag_blocks_reset :: "xdag_state \<Rightarrow> xdag_state" where
  "xdag_blocks_reset st = (if g_xdag_state st \<noteq> XDAG_STATE_REST then st\<lparr>g_xdag_state := XDAG_STATE_REST\<rparr> else st)"

section \<open>The thread\<close>

text \<open>
  From the label \<open>begin\<close> to the loop: load the blocks, find the seeds, wait for
  the command \<open>run\<close>.  \<open>envs\<close> is the environment of the \<open>n\<close>-th block that is added;
  \<open>waited\<close> tells whether the command had not come yet.
\<close>

definition load_step ::
  "(nat \<Rightarrow> add_env) \<Rightarrow> xdag_block \<Rightarrow> nat \<times> u64 \<times> xdag_state \<times> block_cache
   \<Rightarrow> ((nat \<times> u64 \<times> xdag_state \<times> block_cache) \<times> bool) option" where
  "load_step envs b = (\<lambda>(n, t, st, c).
     do {
       ((res, st', c', _), t', _) \<leftarrow> add_block_callback_sync (envs n) b t st c;
       Some ((Suc n, t', st', c'), False)
     })"

definition work_begin ::
  "(storage_path \<Rightarrow> io_result) \<Rightarrow> (nat \<Rightarrow> add_env) \<Rightarrow> bool \<Rightarrow> u64 \<Rightarrow> bool \<Rightarrow> work_vars \<Rightarrow> xdag_state \<Rightarrow> block_cache \<Rightarrow> disk
   \<Rightarrow> (work_vars \<times> xdag_state \<times> block_cache \<times> disk) option" where
  "work_begin io envs malloc_ok now waited v st c d =
     do {
       (_, (_, t, st, c), d) \<leftarrow> xdag_load_blocks io (load_step envs) malloc_ok (wk_t v) now
         (0, wk_t v, st\<lparr>g_xdag_state := XDAG_STATE_LOAD\<rparr>, c) d;
       st \<leftarrow> (if is_pool st then rx_loading_fork_time st else Some st);
       Some (v\<lparr>wk_t := t\<rparr>, if waited then st\<lparr>g_xdag_state := XDAG_STATE_STOP\<rparr> else st, c, d)
     }"

text \<open>
  One round.  \<open>Inl\<close>: the engine was reset and the thread goes back to \<open>begin\<close>.
\<close>

definition work_round ::
  "wallet_view \<Rightarrow> u64 \<Rightarrow> (nat \<Rightarrow> add_env \<times> u64 \<times> bool) \<Rightarrow> xdag_env \<Rightarrow> mining_state \<Rightarrow> work_input \<Rightarrow> work_vars \<Rightarrow> xdag_state \<Rightarrow> block_cache
   \<Rightarrow> ((work_vars \<times> xdag_state \<times> block_cache) + (work_vars \<times> xdag_state \<times> block_cache \<times> xdag_block list)) option" where
  "work_round w limit envs env ms inp v st c =
     (let v = update_production inp st (v\<lparr>wk_t := wi_t inp\<rparr>) in
      do {
        (st, c, sent) \<leftarrow> refer_blocks w limit envs (if wk_production v then refer_count inp st else 0) ms st c [];
        if g_xdag_state st = XDAG_STATE_REST
        then Some (Inl (v\<lparr>wk_conn_time := 0, wk_sync_time := 0\<rparr>, reset_blocks st, c))
        else do {
          let (s, v) = next_node_state inp st v;
          let st = st\<lparr>g_xdag_state := s\<rparr>;
          st \<leftarrow> (if is_pool st then check_new_main env st else Some st);
          Some (Inr (v, st, c, sent))
        }
      })"

end
