(* ===== verification/Node_Properties.thy ===== *)
theory Node_Properties
  imports Node_State Add_Block_Properties
begin

text \<open>The states a node can be in, and what the state "synchronised" says.\<close>

section \<open>The state machine of the node\<close>

text \<open>
  The moves of \<open>g_xdag_state\<close> together with the variables of \<open>work_thread\<close>, for a
  node of a given kind: a round of the loop, the way back to \<open>begin\<close> after a reset,
  waiting for the command \<open>run\<close>, the request for a reset, and the command \<open>xfer\<close>
  (client/commands.c).
\<close>

inductive node_step :: "bool \<Rightarrow> bool \<Rightarrow> xdag_state_code \<times> work_vars \<Rightarrow> xdag_state_code \<times> work_vars \<Rightarrow> bool" for wallet testnet where
  Round: "s \<noteq> XDAG_STATE_REST \<Longrightarrow> is_wallet st = wallet \<Longrightarrow> g_xdag_testnet st = testnet \<Longrightarrow> g_xdag_state st = s \<Longrightarrow>
    node_step wallet testnet (s, v) (next_node_state inp st (update_production inp st (v\<lparr>wk_t := wi_t inp\<rparr>)))"
| Restart: "node_step wallet testnet (XDAG_STATE_REST, v) (XDAG_STATE_LOAD, v\<lparr>wk_conn_time := 0, wk_sync_time := 0\<rparr>)"
| Wait: "node_step wallet testnet (XDAG_STATE_LOAD, v) (XDAG_STATE_STOP, v)"
| Reset: "node_step wallet testnet (g_xdag_state st, v) (g_xdag_state (xdag_blocks_reset st), v)"
| Transfer: "node_step wallet testnet (s, v) (XDAG_STATE_XFER, v)"

definition node_states :: "bool \<Rightarrow> bool \<Rightarrow> xdag_state_code set" where
  "node_states wallet testnet =
     {XDAG_STATE_LOAD, XDAG_STATE_STOP, XDAG_STATE_REST, XDAG_STATE_XFER} \<union>
     (if wallet then (if testnet then {XDAG_STATE_TTST, XDAG_STATE_PTST, XDAG_STATE_MTST}
                      else {XDAG_STATE_TRYP, XDAG_STATE_POOL, XDAG_STATE_MINE})
      else (if testnet then {XDAG_STATE_WTST, XDAG_STATE_CTST, XDAG_STATE_STST}
            else {XDAG_STATE_WAIT, XDAG_STATE_CONN, XDAG_STATE_SYNC}))"

lemma next_node_state_kind: "fst (next_node_state inp st v) \<in> node_states (is_wallet st) (g_xdag_testnet st)"
  by (auto simp: next_node_state_def node_states_def Let_def)

lemma reset_state_kind: "g_xdag_state (xdag_blocks_reset st) = XDAG_STATE_REST"
  by (simp add: xdag_blocks_reset_def)

text \<open>
  C26: a node only ever is in a state of its own kind.  Whatever happens after
  the first load, a wallet is never shown as a synchronised or connecting pool,
  a pool never as a miner, and a node of the main network never in a state of
  the test network.
\<close>

theorem node_state_kind:
  assumes "(node_step wallet testnet)\<^sup>*\<^sup>* (XDAG_STATE_LOAD, v0) (s, v)"
  shows "s \<in> node_states wallet testnet"
  using assms
proof (induction "(s, v)" arbitrary: s v rule: rtranclp_induct)
  case base
  then show ?case by (simp add: node_states_def)
next
  case (step y)
  from step(2) show ?case
  proof cases
    case (Round s' st v' inp)
    let ?u = "update_production inp st (v'\<lparr>wk_t := wi_t inp\<rparr>)"
    show ?thesis
      using Round next_node_state_kind [of inp st ?u] by (cases "next_node_state inp st ?u") auto
  qed (simp_all add: node_states_def reset_state_kind)
qed

section \<open>What "synchronised" means\<close>

text \<open>The rounds of the loop without a reset: what is read and the state of the blocks, and the variables after them.\<close>

type_synonym round = "work_input \<times> xdag_state"

definition round_vars :: "round \<Rightarrow> work_vars \<Rightarrow> work_vars" where
  "round_vars r v = snd (next_node_state (fst r) (snd r) (update_production (fst r) (snd r) (v\<lparr>wk_t := wi_t (fst r)\<rparr>)))"

definition round_state :: "round \<Rightarrow> work_vars \<Rightarrow> xdag_state_code" where
  "round_state r v = fst (next_node_state (fst r) (snd r) (update_production (fst r) (snd r) (v\<lparr>wk_t := wi_t (fst r)\<rparr>)))"

definition connected :: "round \<Rightarrow> bool" where
  "connected r \<longleftrightarrow> \<not> (wi_t (fst r) > push_bit 10 (wi_last_received (fst r)) \<and>
     wi_t (fst r) - push_bit 10 (wi_last_received (fst r)) > 3 * MAIN_CHAIN_PERIOD)"

definition level :: "round \<Rightarrow> bool" where
  "level r \<longleftrightarrow> difficulty (g_xdag_stats (snd r)) = max_difficulty (g_xdag_stats (snd r))"

lemma update_production_times [simp]:
  "wk_conn_time (update_production inp st v) = wk_conn_time v" "wk_sync_time (update_production inp st v) = wk_sync_time v"
  by (simp_all add: update_production_def)

lemma round_vars_times:
  "wk_conn_time (round_vars r v) = (if connected r then if wk_conn_time v = 0 then wi_t (fst r) else wk_conn_time v else 0)"
  "wk_sync_time (round_vars r v) =
     (if connected r then
        if is_pool (snd r) \<and> wi_t (fst r) - wk_conn_time (round_vars r v) \<ge> 2 * MAIN_CHAIN_PERIOD \<and> level r then wi_t (fst r)
        else wk_sync_time v
      else 0)"
  by (auto simp: round_vars_def next_node_state_def Let_def connected_def level_def)

text \<open>What the variables remember of the rounds \<open>rs\<close> (the last one first).\<close>

definition remembers :: "round list \<Rightarrow> work_vars \<Rightarrow> bool" where
  "remembers rs v \<longleftrightarrow>
     (wk_conn_time v = 0 \<longrightarrow> wk_sync_time v = 0) \<and>
     (wk_conn_time v \<noteq> 0 \<longrightarrow> (\<exists>j < length rs. wi_t (fst (rs ! j)) = wk_conn_time v \<and> (\<forall>k \<le> j. connected (rs ! k)))) \<and>
     (wk_sync_time v \<noteq> 0 \<longrightarrow> (\<exists>i < length rs. wi_t (fst (rs ! i)) = wk_sync_time v \<and> level (rs ! i) \<and> is_pool (snd (rs ! i)) \<and>
        wk_sync_time v - wk_conn_time v \<ge> 2 * MAIN_CHAIN_PERIOD))"

lemma remembers_round:
  assumes "remembers rs v" "wi_t (fst r) \<noteq> 0"
  shows "remembers (r # rs) (round_vars r v)"
proof (cases "connected r")
  case False
  then show ?thesis by (simp add: remembers_def round_vars_times)
next
  case c: True
  let ?v = "round_vars r v"
  have conn: "\<exists>j < length (r # rs). wi_t (fst ((r # rs) ! j)) = wk_conn_time ?v \<and> (\<forall>k \<le> j. connected ((r # rs) ! k))"
  proof (cases "wk_conn_time v = 0")
    case True
    then show ?thesis using c by (intro exI [of _ 0]) (simp add: round_vars_times)
  next
    case False
    then obtain j where "j < length rs" "wi_t (fst (rs ! j)) = wk_conn_time v" "\<forall>k \<le> j. connected (rs ! k)"
      using assms(1) by (auto simp: remembers_def)
    then show ?thesis using c False by (intro exI [of _ "Suc j"]) (auto simp: round_vars_times nth_Cons' le_Suc_eq)
  qed
  have nz: "wk_conn_time ?v \<noteq> 0" using c assms(2) by (simp add: round_vars_times)
  have "\<exists>i < length (r # rs). wi_t (fst ((r # rs) ! i)) = wk_sync_time ?v \<and> level ((r # rs) ! i) \<and> is_pool (snd ((r # rs) ! i)) \<and>
      wk_sync_time ?v - wk_conn_time ?v \<ge> 2 * MAIN_CHAIN_PERIOD" if s: "wk_sync_time ?v \<noteq> 0"
  proof (cases "is_pool (snd r) \<and> wi_t (fst r) - wk_conn_time ?v \<ge> 2 * MAIN_CHAIN_PERIOD \<and> level r")
    case True
    then show ?thesis using c by (intro exI [of _ 0]) (simp add: round_vars_times(2))
  next
    case False
    then have s': "wk_sync_time ?v = wk_sync_time v" "wk_sync_time v \<noteq> 0" using s unfolding round_vars_times(2) if_P [OF c] if_not_P [OF False] by simp_all
    then have "wk_conn_time v \<noteq> 0" using assms(1) by (auto simp: remembers_def)
    then have "wk_conn_time ?v = wk_conn_time v" using c by (simp add: round_vars_times)
    moreover obtain i where "i < length rs" "wi_t (fst (rs ! i)) = wk_sync_time v" "level (rs ! i)" "is_pool (snd (rs ! i))"
      "wk_sync_time v - wk_conn_time v \<ge> 2 * MAIN_CHAIN_PERIOD" using assms(1) s'(2) by (auto simp: remembers_def)
    ultimately show ?thesis using s'(1) by (intro exI [of _ "Suc i"]) simp
  qed
  then show ?thesis using conn nz unfolding remembers_def by blast
qed

definition run_rounds :: "round list \<Rightarrow> work_vars \<Rightarrow> work_vars" where
  "run_rounds rs v = foldr round_vars rs v"

lemma run_remembers:
  "wk_conn_time v = 0 \<Longrightarrow> wk_sync_time v = 0 \<Longrightarrow> \<forall>r \<in> set rs. wi_t (fst r) \<noteq> 0 \<Longrightarrow> remembers rs (run_rounds rs v)"
proof (induction rs)
  case Nil
  then show ?case by (simp add: run_rounds_def remembers_def)
next
  case (Cons r rs)
  then show ?case using remembers_round [of rs "run_rounds rs v" r] by (simp add: run_rounds_def)
qed

lemma synced_recent:
  assumes "round_state r v \<in> {XDAG_STATE_SYNC, XDAG_STATE_STST}"
  shows "connected r" "wi_t (fst r) - wk_sync_time (round_vars r v) \<le> 8 * MAIN_CHAIN_PERIOD"
  using assms by (auto simp: round_state_def round_vars_def next_node_state_def connected_def Let_def not_less split: if_splits)

text \<open>
  C15: a pool reports to be synchronised only with good reason.  If a round ends
  in one of the two states, then in some round at most eight periods earlier the
  difficulty of the node equalled the greatest difficulty known in the network,
  and by then the node had been connected for two periods, and was in every
  round since.  (The rounds are listed with the last one first.)
\<close>

theorem synchronised_sound:
  assumes "wk_conn_time v = 0" "wk_sync_time v = 0" "\<forall>r \<in> set rs. wi_t (fst r) \<noteq> 0"
    and "rs = r # before" "round_state r (run_rounds before v) \<in> {XDAG_STATE_SYNC, XDAG_STATE_STST}"
    and "wi_t (fst r) > 8 * MAIN_CHAIN_PERIOD"
  shows "\<exists>i j. i < length rs \<and> j < length rs \<and> level (rs ! i) \<and> is_pool (snd (rs ! i)) \<and>
    wi_t (fst r) - wi_t (fst (rs ! i)) \<le> 8 * MAIN_CHAIN_PERIOD \<and>
    wi_t (fst (rs ! i)) - wi_t (fst (rs ! j)) \<ge> 2 * MAIN_CHAIN_PERIOD \<and> (\<forall>k \<le> j. connected (rs ! k))"
proof -
  let ?v = "run_rounds rs v"
  have R: "remembers rs ?v" by (rule run_remembers [OF assms(1-3)])
  have v: "?v = round_vars r (run_rounds before v)" using assms(4) by (simp add: run_rounds_def)
  have recent: "wi_t (fst r) - wk_sync_time ?v \<le> 8 * MAIN_CHAIN_PERIOD" unfolding v by (rule synced_recent(2) [OF assms(5)])
  then have s: "wk_sync_time ?v \<noteq> 0" using assms(6) by auto
  then have c: "wk_conn_time ?v \<noteq> 0" using R by (auto simp: remembers_def)
  obtain i where "i < length rs" "wi_t (fst (rs ! i)) = wk_sync_time ?v" "level (rs ! i)" "is_pool (snd (rs ! i))"
    "wk_sync_time ?v - wk_conn_time ?v \<ge> 2 * MAIN_CHAIN_PERIOD" using R s by (auto simp: remembers_def)
  moreover obtain j where "j < length rs" "wi_t (fst (rs ! j)) = wk_conn_time ?v" "\<forall>k \<le> j. connected (rs ! k)"
    using R c by (auto simp: remembers_def)
  ultimately show ?thesis using recent by metis
qed

section \<open>Examples\<close>

definition idle_vars :: work_vars where
  "idle_vars = \<lparr>wk_t = 0, wk_conn_time = 0, wk_sync_time = 0, wk_last_nmain = 0, wk_last_time_nmain_unequal = 0, wk_production = False\<rparr>"

definition round_at :: "u64 \<Rightarrow> round" where
  "round_at t = (\<lparr>wi_t = t, wi_time = 0, wi_last_received = 0x10000, wi_xfer_last = 0, wi_mining_threads = 0, wi_rand = 0\<rparr>, three_blocks)"

lemmas round_defs = round_at_def idle_vars_def next_node_state_def update_production_def example_defs is_wallet_def is_pool_def
  MAIN_CHAIN_PERIOD_def MAIN_TIME_def xdag_get_start_frame_def MAX_TIME_NMAIN_STALLED_def

theorem node_state_kind_witness:
  "\<exists>v. (node_step False False)\<^sup>*\<^sup>* (XDAG_STATE_LOAD, idle_vars) (XDAG_STATE_CONN, v) \<and> XDAG_STATE_CONN \<in> node_states False False"
proof -
  let ?inp = "fst (round_at 0x1000000)"
  let ?st = "three_blocks\<lparr>g_xdag_state := XDAG_STATE_STOP\<rparr>"
  let ?next = "next_node_state ?inp ?st (update_production ?inp ?st (idle_vars\<lparr>wk_t := wi_t ?inp\<rparr>))"
  have "node_step False False (XDAG_STATE_STOP, idle_vars) ?next"
    by (rule Round) (simp_all add: example_defs is_wallet_def)
  moreover have "fst ?next = XDAG_STATE_CONN" by (simp add: round_defs Let_def)
  ultimately have "node_step False False (XDAG_STATE_STOP, idle_vars) (XDAG_STATE_CONN, snd ?next)" by (metis prod.collapse)
  then have "(node_step False False)\<^sup>*\<^sup>* (XDAG_STATE_LOAD, idle_vars) (XDAG_STATE_CONN, snd ?next)"
    using Wait [of False False idle_vars] by (meson converse_rtranclp_into_rtranclp r_into_rtranclp)
  then show ?thesis using node_state_kind by blast
qed

theorem synchronised_sound_witness:
  "\<exists>i j. i < 2 \<and> j < 2 \<and> level ([round_at 0x1020000, round_at 0x1000000] ! i) \<and> (\<forall>k \<le> j. connected ([round_at 0x1020000, round_at 0x1000000] ! k))"
proof -
  have "round_state (round_at 0x1020000) (run_rounds [round_at 0x1000000] idle_vars) = XDAG_STATE_SYNC"
    by (simp add: round_state_def run_rounds_def round_vars_def round_defs Let_def)
  then have s: "round_state (round_at 0x1020000) (run_rounds [round_at 0x1000000] idle_vars) \<in> {XDAG_STATE_SYNC, XDAG_STATE_STST}" by simp
  have p: "wk_conn_time idle_vars = 0" "wk_sync_time idle_vars = 0"
      "\<forall>r \<in> set [round_at 0x1020000, round_at 0x1000000]. wi_t (fst r) \<noteq> 0" "wi_t (fst (round_at 0x1020000)) > 8 * MAIN_CHAIN_PERIOD"
    by (simp_all add: idle_vars_def round_at_def MAIN_CHAIN_PERIOD_def)
  from synchronised_sound [OF p(1-3) refl s p(4)] obtain i j where
    "i < length [round_at 0x1020000, round_at 0x1000000]" "j < length [round_at 0x1020000, round_at 0x1000000]"
    "level ([round_at 0x1020000, round_at 0x1000000] ! i)" "\<forall>k \<le> j. connected ([round_at 0x1020000, round_at 0x1000000] ! k)"
    by blast
  moreover have "length [round_at 0x1020000, round_at 0x1000000] = 2" by simp
  ultimately show ?thesis by metis
qed

end
