(* ===== verification/Memory.thy ===== *)
theory Memory
  imports Prelude
begin

text \<open>
  client/memory.c: the allocator of the block structures.  Memory is handed out
  from temporary files mapped into memory, one after the other; nothing is ever
  given back except everything at once.  A mapped file is represented by the
  number of its bytes that exist (the rest of the mapping must not be touched).
\<close>

section \<open>Model\<close>

definition MEM_PORTION :: u64 where "MEM_PORTION = 2 ^ 25"

text \<open>\<open>files\<close>: the lengths of the files, the last one first.\<close>

record mem_state =
  g_pos :: u64
  g_fsize :: u64
  g_size :: u64
  files :: "u64 list"
  g_use_tmpfile :: bool
  in_ram :: bool

text \<open>An address: the number of the file, counted from the first, and the offset; or one of \<open>malloc\<close>.\<close>

datatype addr = InFile nat u64 | FromMalloc

definition round_up :: "u64 \<Rightarrow> u64 \<Rightarrow> u64" where
  "round_up low sz = ((sz - 1) OR low) + 1"

text \<open>\<open>ok\<close>: the system calls that create and map the file succeed.\<close>

definition xdag_mem_init :: "bool \<Rightarrow> u64 \<Rightarrow> mem_state \<Rightarrow> int \<times> mem_state" where
  "xdag_mem_init ok sz s =
     (if sz = 0 \<or> in_ram s then (0, s)
      else if \<not> ok then (- 1, s)
      else
        (let sz = (if files s = [] then round_up (MEM_PORTION - 1) sz else sz);
             s = (if files s = [] then s\<lparr>g_size := sz\<rparr> else s\<lparr>g_pos := 0, g_fsize := 0\<rparr>)
         in (0, s\<lparr>files := 0 # files s, g_use_tmpfile := True\<rparr>)))"

text \<open>
  The loop of \<open>xdag_malloc\<close> that makes room.  It asks for a new file when the
  current one is exhausted, and extends the file by a portion.  The first
  component of the result is False when no file could be made.  The code ignores
  the result of \<open>ftruncate\<close>; here the file always has the length it asks for.
\<close>

partial_function (option) make_room :: "(nat \<Rightarrow> bool) \<Rightarrow> nat \<Rightarrow> u64 \<Rightarrow> mem_state \<Rightarrow> (bool \<times> mem_state) option" where
  "make_room ok n sz s =
     (if g_pos s + sz > g_fsize s then
        (let (res, s) = (if g_fsize s + MEM_PORTION > g_size s then xdag_mem_init (ok n) (g_size s) s else (0, s)) in
         if res \<noteq> 0 then Some (False, s)
         else
           (let fsize = g_fsize s + MEM_PORTION in
            make_room ok (Suc n) sz (s\<lparr>g_fsize := fsize, files := fsize # tl (files s)\<rparr>)))
      else Some (True, s))"

definition xdag_malloc :: "(nat \<Rightarrow> bool) \<Rightarrow> u64 \<Rightarrow> mem_state \<Rightarrow> (addr option \<times> mem_state) option" where
  "xdag_malloc ok sz s =
     (if sz = 0 then Some (None, s)
      else if \<not> g_use_tmpfile s \<or> files s = [] then Some (Some FromMalloc, s)
      else
        (let sz = round_up 0xf sz in
         do {
           (room, s) \<leftarrow> make_room ok 0 sz s;
           Some (if room then (Some (InFile (length (files s) - 1) (g_pos s)), s\<lparr>g_pos := g_pos s + sz\<rparr>) else (None, s))
         }))"

text \<open>All files but the first are removed.\<close>

definition xdag_free_all :: "mem_state \<Rightarrow> int \<times> mem_state" where
  "xdag_free_all s =
     (if \<not> g_use_tmpfile s then (- 1, s)
      else (0, s\<lparr>files := (if files s = [] then [] else [last (files s)]), g_pos := 0\<rparr>))"

section \<open>Invariant\<close>

text \<open>
  The current file has at least \<open>g_fsize\<close> bytes, of which \<open>g_pos\<close> are taken; the
  sizes are multiples of a portion and far from overflow.
\<close>

definition mem_ok :: "mem_state \<Rightarrow> bool" where
  "mem_ok s \<longleftrightarrow> files s \<noteq> [] \<and> g_use_tmpfile s \<and> \<not> in_ram s \<and> unat (g_pos s) \<le> unat (g_fsize s) \<and> unat (g_fsize s) \<le> unat (hd (files s)) \<and>
     unat (g_fsize s) \<le> unat (g_size s) \<and> 2 ^ 25 dvd unat (g_fsize s) \<and> 2 ^ 25 dvd unat (g_size s) \<and> 16 dvd unat (g_pos s) \<and>
     0 < unat (g_size s) \<and> unat (g_size s) \<le> 2 ^ 62"

lemma dvd_gap:
  fixes p :: nat
  assumes "p dvd a" "p dvd b" "a < b"
  shows "a + p \<le> b"
proof -
  obtain k l where "a = p * k" "b = p * l" using assms(1,2) by blast
  moreover from this have "Suc k \<le> l" using assms(3) by (simp add: Suc_le_eq)
  ultimately show ?thesis using mult_le_mono2 [of "Suc k" l p] by simp
qed

lemma unat_sum: "unat a + unat b < 2 ^ 64 \<Longrightarrow> unat (a + b :: u64) = unat a + unat b"
  by (simp add: unat_word_ariths)

lemma portion_unat:
  assumes "mem_ok s"
  shows "g_fsize s + MEM_PORTION > g_size s \<longleftrightarrow> unat (g_fsize s) = unat (g_size s)"
    "unat (g_fsize s + MEM_PORTION) = unat (g_fsize s) + 2 ^ 25"
    "unat z \<le> 2 ^ 62 \<Longrightarrow> g_pos s + z > g_fsize s \<longleftrightarrow> unat (g_fsize s) < unat (g_pos s) + unat z"
proof -
  have b: "unat (g_fsize s) \<le> 2 ^ 62" "unat (g_pos s) \<le> 2 ^ 62" using assms by (auto simp: mem_ok_def)
  then show u: "unat (g_fsize s + MEM_PORTION) = unat (g_fsize s) + 2 ^ 25"
    using unat_sum [of "g_fsize s" MEM_PORTION] by (simp add: MEM_PORTION_def)
  have "unat (g_fsize s) < unat (g_size s) \<Longrightarrow> unat (g_fsize s) + 2 ^ 25 \<le> unat (g_size s)"
    using assms dvd_gap [of "2 ^ 25"] by (simp add: mem_ok_def)
  then show "g_fsize s + MEM_PORTION > g_size s \<longleftrightarrow> unat (g_fsize s) = unat (g_size s)"
    using assms u by (fastforce simp: word_less_nat_alt mem_ok_def)
  show "g_pos s + z > g_fsize s \<longleftrightarrow> unat (g_fsize s) < unat (g_pos s) + unat z" if "unat z \<le> 2 ^ 62"
    using b that unat_sum [of "g_pos s" z] by (simp add: word_less_nat_alt)
qed

text \<open>The request fits into the current file: the file is extended until there is room.\<close>

lemma room_in_file:
  assumes "mem_ok s" "unat (g_pos s) + unat z \<le> unat (g_size s)"
  shows "\<exists>s'. make_room ok n z s = Some (True, s') \<and> mem_ok s' \<and> g_pos s' = g_pos s \<and> length (files s') = length (files s) \<and>
    tl (files s') = tl (files s) \<and> unat (g_pos s) + unat z \<le> unat (g_fsize s') \<and> g_size s' = g_size s"
  using assms
proof (induction "unat (g_size s) - unat (g_fsize s)" arbitrary: s n rule: less_induct)
  case less
  have z: "unat z \<le> 2 ^ 62" using less.prems by (auto simp: mem_ok_def)
  note p = portion_unat [OF less.prems(1)]
  show ?case
  proof (cases "unat (g_fsize s) < unat (g_pos s) + unat z")
    case False
    then show ?thesis using less.prems p(3) [OF z] by (subst make_room.simps) (auto simp: not_less)
  next
    case True
    then have lt: "unat (g_fsize s) < unat (g_size s)" using less.prems(2) by linarith
    define fsize where "fsize = g_fsize s + MEM_PORTION"
    define s1 where "s1 = s\<lparr>g_fsize := fsize, files := fsize # tl (files s)\<rparr>"
    have le: "unat fsize \<le> unat (g_size s)" "unat fsize = unat (g_fsize s) + 2 ^ 25"
      using dvd_gap [OF _ _ lt, of "2 ^ 25"] less.prems(1) p(2) by (simp_all add: mem_ok_def fsize_def)
    have ok: "mem_ok s1" using less.prems(1) le by (auto simp: mem_ok_def s1_def)
    have same: "length (files s1) = length (files s)" "tl (files s1) = tl (files s)" "g_pos s1 = g_pos s" "g_size s1 = g_size s" "g_fsize s1 = fsize"
      using less.prems(1) by (simp_all add: s1_def mem_ok_def)
    have "make_room ok n z s = make_room ok (Suc n) z s1"
      using True lt p(1,3) z by (subst make_room.simps) (simp add: s1_def fsize_def Let_def)
    then show ?thesis using less.hyps [OF _ ok, of "Suc n"] less.prems(2) same le lt by simp
  qed
qed

text \<open>
  What a request does to the files: either the current one stays the current
  one, or it is full and a new one is begun; the others are not touched.
\<close>

definition grown :: "mem_state \<Rightarrow> mem_state \<Rightarrow> bool" where
  "grown s s' \<longleftrightarrow> g_size s' = g_size s \<and>
     (g_pos s' = g_pos s \<and> length (files s') = length (files s) \<and> tl (files s') = tl (files s) \<or>
      (\<exists>len. unat (g_pos s) \<le> unat len \<and> g_pos s' = 0 \<and> tl (files s') = len # tl (files s)))"

lemma make_room_total:
  assumes "mem_ok s" "unat z \<le> unat (g_size s)"
  shows "\<exists>room s'. make_room ok n z s = Some (room, s') \<and> mem_ok s' \<and> grown s s' \<and>
    (room \<longrightarrow> unat (g_pos s') + unat z \<le> unat (g_fsize s')) \<and> ((\<forall>k. ok k) \<longrightarrow> room)"
  using assms
proof (induction "unat (g_size s) - unat (g_fsize s)" arbitrary: s n rule: less_induct)
  case less
  have z: "unat z \<le> 2 ^ 62" using less.prems by (auto simp: mem_ok_def)
  note p = portion_unat [OF less.prems(1)] and unfold = make_room.simps [of ok n z s]
  have need: "g_pos s + z > g_fsize s \<longleftrightarrow> unat (g_fsize s) < unat (g_pos s) + unat z" by (rule p(3) [OF z])
  define fsize where "fsize = g_fsize s + MEM_PORTION"
  consider "\<not> unat (g_fsize s) < unat (g_pos s) + unat z"
    | "unat (g_fsize s) < unat (g_pos s) + unat z" "unat (g_fsize s) < unat (g_size s)"
    | "unat (g_fsize s) < unat (g_pos s) + unat z" "unat (g_fsize s) = unat (g_size s)"
    using less.prems(1) by (force simp: mem_ok_def)
  then show ?case
  proof cases
    case 1
    then show ?thesis using less.prems(1) need unfold by (auto simp: grown_def)
  next
    case 2
    define s1 where "s1 = s\<lparr>g_fsize := fsize, files := fsize # tl (files s)\<rparr>"
    have le: "unat fsize \<le> unat (g_size s)" "unat fsize = unat (g_fsize s) + 2 ^ 25"
      using dvd_gap [OF _ _ 2(2), of "2 ^ 25"] less.prems(1) p(2) by (simp_all add: mem_ok_def fsize_def)
    have ok: "mem_ok s1" using less.prems(1) le by (auto simp: mem_ok_def s1_def)
    have "make_room ok n z s = make_room ok (Suc n) z s1" using 2 need p(1) unfold by (simp add: s1_def fsize_def Let_def)
    moreover have "grown s s'" if "grown s1 s'" for s'
      using that less.prems(1) by (simp add: grown_def s1_def mem_ok_def)
    moreover have "unat (g_size s1) - unat (g_fsize s1) < unat (g_size s) - unat (g_fsize s)" "unat z \<le> unat (g_size s1)"
      using le 2(2) less.prems(2) by (simp_all add: s1_def)
    note less.hyps [OF this(1) ok this(2), of "Suc n"]
    ultimately show ?thesis by metis
  next
    case 3
    define s1 where "s1 = s\<lparr>g_pos := 0, g_use_tmpfile := True, g_fsize := MEM_PORTION, files := MEM_PORTION # files s\<rparr>"
    have nz: "g_size s \<noteq> 0" "\<not> in_ram s" "files s \<noteq> []" "g_use_tmpfile s" using less.prems(1) by (auto simp: mem_ok_def)
    have run: "make_room ok n z s = (if ok n then make_room ok (Suc n) z s1 else Some (False, s))"
      using 3 need p(1) nz unfold by (simp add: s1_def xdag_mem_init_def Let_def)
    have "2 ^ 25 \<le> unat (g_size s)" using less.prems(1) by (auto simp: mem_ok_def intro: dvd_imp_le)
    then have ok: "mem_ok s1" using less.prems(1) by (simp add: mem_ok_def s1_def MEM_PORTION_def)
    obtain s' where s': "make_room ok (Suc n) z s1 = Some (True, s')" "mem_ok s'" "g_pos s' = 0" "tl (files s') = files s"
        "unat z \<le> unat (g_fsize s')" "g_size s' = g_size s"
      using room_in_file [OF ok, of z ok "Suc n"] less.prems(2) by (auto simp: s1_def)
    have "grown s s'" using s'(3,4,6) less.prems(1) unfolding grown_def
      by (intro conjI disjI2 exI [of _ "hd (files s)"]) (auto simp: mem_ok_def)
    then show ?thesis using run s' less.prems(1) by (cases "ok n") (auto simp: grown_def)
  qed
qed

section \<open>Sequences of allocations\<close>

text \<open>A region: the number of the file, the offset and the length.\<close>

type_synonym region = "nat \<times> nat \<times> nat"

definition region_of :: "addr option \<Rightarrow> u64 \<Rightarrow> region list" where
  "region_of a sz = (case a of Some (InFile f off) \<Rightarrow> [(f, unat off, unat sz)] | _ \<Rightarrow> [])"

fun malloc_all :: "(nat \<Rightarrow> nat \<Rightarrow> bool) \<Rightarrow> u64 list \<Rightarrow> mem_state \<Rightarrow> (region list \<times> mem_state) option" where
  "malloc_all ok [] s = Some ([], s)"
| "malloc_all ok (z # zs) s =
     do {
       (a, s) \<leftarrow> xdag_malloc (ok (length zs)) z s;
       (rs, s) \<leftarrow> malloc_all ok zs s;
       Some (region_of a z @ rs, s)
     }"

fun disjoint_regions :: "region \<Rightarrow> region \<Rightarrow> bool" where
  "disjoint_regions (f, a, m) (g, b, n) \<longleftrightarrow> f \<noteq> g \<or> a + m \<le> b \<or> b + n \<le> a"

text \<open>The region lies behind everything handed out so far.\<close>

definition behind :: "mem_state \<Rightarrow> region \<Rightarrow> bool" where
  "behind s = (\<lambda>(f, a, m). length (files s) - 1 < f \<or> length (files s) - 1 = f \<and> unat (g_pos s) \<le> a)"

definition ahead :: "mem_state \<Rightarrow> region \<Rightarrow> bool" where
  "ahead s = (\<lambda>(f, a, m). f < length (files s) - 1 \<or> f = length (files s) - 1 \<and> a + m \<le> unat (g_pos s))"

lemma ahead_behind: "ahead s r \<Longrightarrow> behind s q \<Longrightarrow> disjoint_regions r q"
  by (cases r; cases q) (auto simp: ahead_def behind_def)

text \<open>The region exists: it ends inside its file.\<close>

definition inside :: "mem_state \<Rightarrow> region \<Rightarrow> bool" where
  "inside s = (\<lambda>(f, a, m). f < length (files s) \<and> a + m \<le> unat (rev (files s) ! f) \<and> 16 dvd a)"

lemma files_nth: "files s \<noteq> [] \<Longrightarrow> f < length (files s) \<Longrightarrow>
    rev (files s) ! f = (if f = length (files s) - 1 then hd (files s) else rev (tl (files s)) ! f)"
  by (cases "files s") (auto simp: nth_append)

lemma grown_regions:
  assumes "grown s s'" "mem_ok s" "mem_ok s'"
  shows "ahead s r \<Longrightarrow> ahead s' r" "behind s' r \<Longrightarrow> behind s r" "ahead s r \<Longrightarrow> inside s r \<Longrightarrow> inside s' r"
proof -
  obtain f a m where r: "r = (f, a, m)" by (cases r)
  obtain y ys where f: "files s = y # ys" using assms(2) by (cases "files s") (auto simp: mem_ok_def)
  obtain z zs where f': "files s' = z # zs" "unat (g_pos s') \<le> unat z"
    using assms(3) by (cases "files s'") (auto simp: mem_ok_def)
  consider "g_pos s' = g_pos s" "zs = ys" | len where "unat (g_pos s) \<le> unat len" "g_pos s' = 0" "zs = len # ys"
    using assms(1) f f'(1) by (auto simp: grown_def)
  note c = this
  show "ahead s r \<Longrightarrow> ahead s' r" by (rule c) (auto simp: r f f' ahead_def)
  show "behind s' r \<Longrightarrow> behind s r" by (rule c) (auto simp: r f f' behind_def)
  assume "ahead s r" "inside s r"
  then have h: "f < length ys \<or> f = length ys \<and> a + m \<le> unat (g_pos s)" "f < length ys \<longrightarrow> a + m \<le> unat (rev ys ! f)" "16 dvd a"
    by (auto simp: r f ahead_def inside_def nth_append)
  show "inside s' r"
  proof (rule c)
    assume "g_pos s' = g_pos s" "zs = ys"
    then show ?thesis using h f'(2) by (auto simp: r f' inside_def nth_append)
  next
    fix len assume "unat (g_pos s) \<le> unat len" "g_pos s' = 0" "zs = len # ys"
    then show ?thesis using h by (auto simp: r f' inside_def nth_append)
  qed
qed

lemma round_up_16:
  assumes "0 < unat z" "unat z \<le> 2 ^ 61"
  shows "unat z \<le> unat (round_up 0xf z)" "16 dvd unat (round_up 0xf z)"
proof -
  have "unat (z - 1) = unat z - 1" using assms(1) by (metis unat_minus_one unat_0 less_irrefl)
  then have u: "unat (round_up 0xf z) = ((unat z - 1) div 16 + 1) * 16"
    using unat_or_mask_Suc [of "z - 1" 4] assms by (simp add: round_up_def)
  then show "16 dvd unat (round_up 0xf z)" by simp
  show "unat z \<le> unat (round_up 0xf z)" unfolding u using dividend_less_div_times [of 16 "unat z - 1"] assms(1) by simp
qed

lemma malloc_step:
  assumes ok: "mem_ok s" and z: "0 < unat z" "unat (round_up 0xf z) \<le> unat (g_size s)" "unat z \<le> 2 ^ 61"
  shows "\<exists>a s'. xdag_malloc may z s = Some (a, s') \<and> mem_ok s' \<and> g_size s' = g_size s \<and>
    (\<forall>r \<in> set (region_of a z). behind s r \<and> ahead s' r \<and> inside s' r) \<and>
    (\<forall>r. (ahead s r \<longrightarrow> ahead s' r) \<and> (behind s' r \<longrightarrow> behind s r) \<and> (ahead s r \<and> inside s r \<longrightarrow> inside s' r)) \<and>
    ((\<forall>k. may k) \<longrightarrow> a \<noteq> None)"
proof -
  let ?z = "round_up 0xf z"
  obtain room u where u: "make_room may 0 ?z s = Some (room, u)" "mem_ok u" "grown s u"
      "room \<longrightarrow> unat (g_pos u) + unat ?z \<le> unat (g_fsize u)" "(\<forall>k. may k) \<longrightarrow> room"
    using make_room_total [OF ok z(2)] by blast
  note g = grown_regions [OF u(3) ok u(2)]
  have size: "g_size u = g_size s" using u(3) by (simp add: grown_def)
  have nz: "z \<noteq> 0" "g_use_tmpfile s" "files s \<noteq> []" using z(1) ok by (auto simp: mem_ok_def)
  note R = round_up_16 [OF z(1,3)]
  show ?thesis
  proof (cases room)
    case False
    then have "xdag_malloc may z s = Some (None, u)" using u(1) nz by (simp add: xdag_malloc_def)
    then show ?thesis using u(2,5) size g False by (auto simp: region_of_def)
  next
    case True
    define v where "v = u\<lparr>g_pos := g_pos u + ?z\<rparr>"
    have fit: "unat (g_pos u) + unat ?z \<le> unat (g_fsize u)" using u(4) True by blast
    have "unat (g_fsize u) < 2 ^ 64" using unsigned_less [of "g_fsize u", where ?'a = nat] by simp
    then have pos: "unat (g_pos v) = unat (g_pos u) + unat ?z" using fit unat_sum [of "g_pos u" ?z] by (simp add: v_def)
    have ok': "mem_ok v" using u(2) fit R(2) unfolding mem_ok_def pos by (simp add: v_def)
    have run: "xdag_malloc may z s = Some (Some (InFile (length (files u) - 1) (g_pos u)), v)"
      using u(1) nz True by (simp add: xdag_malloc_def v_def)
    let ?r = "(length (files u) - 1, unat (g_pos u), unat z)"
    have "behind u ?r" "ahead v ?r" using pos R(1) by (simp_all add: behind_def ahead_def v_def)
    moreover have "inside v ?r"
      using ok' files_nth [of v "length (files u) - 1"] R(1) pos u(2) by (auto simp: inside_def mem_ok_def v_def)
    moreover have "ahead u r \<longrightarrow> ahead v r" "behind v r \<longrightarrow> behind u r" "inside u r = inside v r" for r
      using pos by (auto simp: ahead_def behind_def inside_def v_def)
    ultimately show ?thesis using run ok' size g by (auto simp: region_of_def v_def)
  qed
qed

lemma malloc_in_file: "mem_ok s \<Longrightarrow> xdag_malloc may z s = Some (a, u) \<Longrightarrow> a \<noteq> None \<Longrightarrow> length (region_of a z) = 1"
  by (auto simp: xdag_malloc_def mem_ok_def region_of_def Let_def bind_eq_Some_conv split: if_splits)

lemma malloc_run:
  "mem_ok s \<Longrightarrow> \<forall>z \<in> set zs. 0 < unat z \<and> unat z \<le> 2 ^ 61 \<and> unat (round_up 0xf z) \<le> unat (g_size s) \<Longrightarrow>
   \<exists>rs s'. malloc_all may zs s = Some (rs, s') \<and> mem_ok s' \<and> sorted_wrt disjoint_regions rs \<and> (\<forall>r \<in> set rs. inside s' r) \<and>
    ((\<forall>i k. may i k) \<longrightarrow> length rs = length zs) \<and> (\<forall>r \<in> set rs. behind s r) \<and> (\<forall>r. ahead s r \<and> inside s r \<longrightarrow> inside s' r)"
proof (induction zs arbitrary: s)
  case (Cons z zs)
  obtain a u where u: "xdag_malloc (may (length zs)) z s = Some (a, u)" "mem_ok u" "g_size u = g_size s"
      "\<forall>r \<in> set (region_of a z). behind s r \<and> ahead u r \<and> inside u r"
      "\<forall>r. (ahead s r \<longrightarrow> ahead u r) \<and> (behind u r \<longrightarrow> behind s r) \<and> (ahead s r \<and> inside s r \<longrightarrow> inside u r)"
      "(\<forall>k. may (length zs) k) \<longrightarrow> a \<noteq> None"
    using malloc_step [OF Cons.prems(1), of z "may (length zs)"] Cons.prems(2) by auto
  obtain rs v where v: "malloc_all may zs u = Some (rs, v)" "mem_ok v" "sorted_wrt disjoint_regions rs" "\<forall>r \<in> set rs. inside v r"
      "(\<forall>i k. may i k) \<longrightarrow> length rs = length zs" "\<forall>r \<in> set rs. behind u r" "\<forall>r. ahead u r \<and> inside u r \<longrightarrow> inside v r"
    using Cons.IH [OF u(2)] Cons.prems(2) u(3) by auto
  have "sorted_wrt disjoint_regions (region_of a z @ rs)"
    using v(3,6) u(4) ahead_behind [of u] by (auto simp: sorted_wrt_append region_of_def split: option.splits addr.splits)
  moreover have "length (region_of a z) = 1" if "a \<noteq> None" using that u(1) Cons.prems(1) malloc_in_file by blast
  moreover have "malloc_all may (z # zs) s = Some (region_of a z @ rs, v)" using u(1) v(1) by simp
  ultimately show ?case using u(4,5,6) v(2-7) by (intro exI [of _ "region_of a z @ rs"] exI [of _ v]) auto
qed simp

text \<open>
  C17: the memory handed out never overlaps.  For every sequence of requests, none
  larger than a file, the allocator returns, the regions it hands out are
  pairwise disjoint, aligned to sixteen bytes, and lie inside the part of their
  file that exists.
\<close>

theorem allocations_disjoint:
  assumes "mem_ok s" "\<forall>z \<in> set zs. 0 < unat z \<and> unat z \<le> 2 ^ 61 \<and> unat (round_up 0xf z) \<le> unat (g_size s)"
  shows "\<exists>rs s'. malloc_all may zs s = Some (rs, s') \<and> mem_ok s' \<and> sorted_wrt disjoint_regions rs \<and> (\<forall>r \<in> set rs. inside s' r) \<and>
    ((\<forall>i k. may i k) \<longrightarrow> length rs = length zs)"
  using malloc_run [OF assms, of may] by (elim exE conjE) (intro exI conjI, assumption+)

definition fresh_memory :: mem_state where
  "fresh_memory = snd (xdag_mem_init True 0x1000
     \<lparr>g_pos = 0, g_fsize = 0, g_size = 0, files = [], g_use_tmpfile = False, in_ram = False\<rparr>)"

theorem allocations_disjoint_witness:
  "\<exists>rs s'. malloc_all (\<lambda>i k. True) [24, 100] fresh_memory = Some (rs, s') \<and> sorted_wrt disjoint_regions rs \<and> length rs = 2"
proof -
  have f: "fresh_memory = \<lparr>g_pos = 0, g_fsize = 0, g_size = 2 ^ 25, files = [0], g_use_tmpfile = True, in_ram = False\<rparr>"
    by (simp add: fresh_memory_def xdag_mem_init_def round_up_def MEM_PORTION_def)
  have "mem_ok fresh_memory" by (simp add: f mem_ok_def)
  from allocations_disjoint [OF this, of "[24, 100]" "\<lambda>i k. True"] show ?thesis by (auto simp: f round_up_def)
qed

end
