(* ===== verification/Wallet.thy ===== *)
theory Wallet
  imports Dfs_Crypt Create_Block
begin

text \<open>
  client/wallet.c: the private keys of the node, kept in a file encrypted under
  the password of the user, and dnet/dnet_crypt.c as far as it serves this
  encryption.  Keys themselves are made by OpenSSL: what a key creation yields,
  and the public key that belongs to a private one, are arguments.
\<close>

section \<open>Encryption under the password of the user\<close>

definition u32_bytes :: "u32 \<Rightarrow> u8 list" where
  "u32_bytes w = map (\<lambda>i. ucast (drop_bit (8 * i) w)) [0, 1, 2, 3]"

definition start_sector0 :: "u32 list" where
  "start_sector0 = map (\<lambda>i. 0x4ab29f51 + of_nat i * 0xc3807e6d) [0..<128]"

text \<open>\<open>fresh\<close> is the content of the memory allocated.\<close>

definition set_user_crypt :: "dfslib_crypt \<Rightarrow> dfslib_string \<Rightarrow> dfslib_crypt" where
  "set_user_crypt fresh password =
     (let c = fst (dfslib_crypt_set_password (fresh\<lparr>pwd := replicate 4 0\<rparr>) (Some password))
      in fst (fold (\<lambda>i (c, sector0).
           (let c = fst (dfslib_crypt_set_sector0 c (concat (map u32_bytes sector0)))
            in (c, fst (dfslib_encrypt_sector c sector0 (0x3e9c1d624a8b570f + of_nat i * 0x9d2e61fc538704ab)))))
         [0..<128] (c, start_sector0)))"

text \<open>
  \<open>user\<close> is \<open>g_dnet_user_crypt\<close>; \<open>typed\<close> is what the input of a password yields,
  \<open>fresh\<close> the memory allocated for its crypt (None: the allocation fails).  The
  second result is the data after the action; None is a NULL pointer written to.
\<close>

definition typed_crypt :: "dfslib_crypt \<Rightarrow> dfslib_string \<Rightarrow> dfslib_crypt" where
  "typed_crypt fresh typed = fst (dfslib_crypt_set_password (fresh\<lparr>pwd := replicate 4 0\<rparr>) (Some typed))"

definition dnet_user_crypt_action ::
  "dfslib_crypt option \<Rightarrow> dfslib_crypt option \<Rightarrow> dfslib_string \<Rightarrow> u32 list \<Rightarrow> u64 \<Rightarrow> int \<Rightarrow> (int \<times> u32 list) option" where
  "dnet_user_crypt_action user fresh typed data data_id action =
     (if action \<noteq> 4 \<and> action \<noteq> 6 \<and> user = None then Some (0, data)
      else if action = 1 then Some (0, fst (dfslib_encrypt_array (the user) data data_id))
      else if action = 2 then Some (0, fst (dfslib_uncrypt_array (the user) data data_id))
      else if action = 3 then
        (case fresh of
           None \<Rightarrow> Some (- 1, data)
         | Some c \<Rightarrow>
             (let c = typed_crypt c typed
              in Some (if ispwd (the user) = ispwd c \<and> pwd (the user) = pwd c then 0 else - 1, data)))
      else if action = 4 then
        (case fresh of
           None \<Rightarrow> None
         | Some c \<Rightarrow> Some (0, pwd (typed_crypt c typed) @ drop 4 data))
      else if action = 5 then Some (if pwd (the user) = take 4 data then 0 else - 1, data)
      else if action = 6 then Some (0, data)
      else Some (- 1, data))"

section \<open>The keys\<close>

record key_internal =
  ki_pub :: xdag_hash_t
  ki_priv :: xdag_hash_t
  ki_key :: nat
  ki_pub_bit :: bool

text \<open>
  \<open>def_key\<close> is the chain of keys, the default key first; \<open>wallet_file\<close> the records of
  the file, eight 32-bit words each.
\<close>

record wallet_state =
  def_key :: "key_internal list"
  keys_arr :: "xdag_public_key list"
  nkeys :: nat
  maxnkeys :: nat
  wallet_file :: "u32 list list option"

text \<open>
  What one call of \<open>add_key\<close> meets: success of the allocations and of the file
  operations, the key OpenSSL makes (None: NULL), and the public key and handle
  that belong to a private key.
\<close>

record key_env =
  ke_malloc :: bool
  ke_open :: bool
  ke_write :: bool
  ke_realloc :: bool
  ke_created :: "xdag_hash_t \<times> xdag_hash_t \<times> bool \<times> nat option"
  ke_private_to_key :: "xdag_hash_t \<Rightarrow> (xdag_hash_t \<times> bool \<times> nat) option"

text \<open>The words of a private key, as \<open>memcpy\<close> lays them out.\<close>

definition split_word :: "u64 \<Rightarrow> u32 list" where
  "split_word w = [ucast w, ucast (drop_bit 32 w)]"

definition join_words :: "u32 \<Rightarrow> u32 \<Rightarrow> u64" where
  "join_words lo hi = ucast lo OR push_bit 32 (ucast hi)"

fun priv32_of :: "xdag_hash_t \<Rightarrow> u32 list" where
  "priv32_of (a, b, c, d) = split_word a @ split_word b @ split_word c @ split_word d"

definition priv_of :: "u32 list \<Rightarrow> xdag_hash_t" where
  "priv_of w = (join_words (w ! 0) (w ! 1), join_words (w ! 2) (w ! 3), join_words (w ! 4) (w ! 5), join_words (w ! 6) (w ! 7))"

text \<open>Encrypting and decrypting a record, the number of the key being the sector.\<close>

definition crypt_priv :: "dfslib_crypt option \<Rightarrow> int \<Rightarrow> nat \<Rightarrow> u32 list \<Rightarrow> u32 list" where
  "crypt_priv user action n data = snd (the (dnet_user_crypt_action user None String_none data (of_nat n) action))"

text \<open>The key is entered in the chain and in the array; \<open>w\<close> has the file already.\<close>

definition enter_key :: "key_env \<Rightarrow> key_internal \<Rightarrow> wallet_state \<Rightarrow> int \<times> wallet_state" where
  "enter_key env k w =
     (let w = w\<lparr>def_key := k # def_key w\<rparr> in
      if nkeys w = maxnkeys w \<and> \<not> ke_realloc env then (- 1, w)
      else
        (let m = (if nkeys w = maxnkeys w then (maxnkeys w OR 0xff) + 1 else maxnkeys w) in
         (0, w\<lparr>maxnkeys := m, keys_arr := keys_arr w @ [\<lparr>pk_key = ki_key k, pk_pub = (ki_pub k, ki_pub_bit k)\<rparr>], nkeys := nkeys w + 1\<rparr>)))"

definition add_key :: "dfslib_crypt option \<Rightarrow> key_env \<Rightarrow> xdag_hash_t option \<Rightarrow> wallet_state \<Rightarrow> int \<times> wallet_state" where
  "add_key user env priv w =
     (if \<not> ke_malloc env then (- 1, w)
      else
        (case priv of
           Some p \<Rightarrow>
             (case ke_private_to_key env p of
                Some (pub, parity, key) \<Rightarrow> enter_key env \<lparr>ki_pub = pub, ki_priv = p, ki_key = key, ki_pub_bit = parity\<rparr> w
              | None \<Rightarrow> (- 1, w))
         | None \<Rightarrow>
             (let (p, pub, parity, key) = ke_created env;
                  records = (case wallet_file w of Some rs \<Rightarrow> rs | None \<Rightarrow> []);
                  written = w\<lparr>wallet_file := Some (records @ [crypt_priv user 1 (nkeys w) (priv32_of p)])\<rparr>
              in if \<not> ke_open env then (- 1, w)
                 else if \<not> ke_write env then (- 1, w\<lparr>wallet_file := Some records\<rparr>)
                 else (case key of
                         Some k \<Rightarrow> enter_key env \<lparr>ki_pub = pub, ki_priv = p, ki_key = k, ki_pub_bit = parity\<rparr> written
                       | None \<Rightarrow> (- 1, written)))))"

definition xdag_wallet_new_key :: "dfslib_crypt option \<Rightarrow> key_env \<Rightarrow> wallet_state \<Rightarrow> int \<times> wallet_state" where
  "xdag_wallet_new_key user env w =
     (let (res, w) = add_key user env None w in (if res = 0 then int (nkeys w) - 1 else res, w))"

text \<open>The loop that reads the records; the result of \<open>add_key\<close> is ignored.\<close>

fun read_keys :: "dfslib_crypt option \<Rightarrow> (nat \<Rightarrow> key_env) \<Rightarrow> u32 list list \<Rightarrow> nat \<Rightarrow> wallet_state \<Rightarrow> wallet_state" where
  "read_keys user envs [] n w = w"
| "read_keys user envs (r # rs) n w =
     read_keys user envs rs (Suc n) (snd (add_key user (envs n) (Some (priv_of (crypt_priv user 2 n r))) w))"

definition xdag_wallet_init :: "dfslib_crypt option \<Rightarrow> (nat \<Rightarrow> key_env) \<Rightarrow> wallet_state \<Rightarrow> int \<times> wallet_state" where
  "xdag_wallet_init user envs w =
     (case wallet_file w of
        Some rs \<Rightarrow> (0, read_keys user envs rs 0 w)
      | None \<Rightarrow>
          (let (res, w) = add_key user (envs 0) None w in
           if res \<noteq> 0 then (- 1, w)
           else (case wallet_file w of
                   None \<Rightarrow> (- 1, w)
                 | Some rs \<Rightarrow> (0, read_keys user envs (tl rs) 1 w))))"

definition xdag_wallet_our_keys :: "wallet_state \<Rightarrow> xdag_public_key list \<times> nat" where
  "xdag_wallet_our_keys w = (keys_arr w, nkeys w)"

definition xdag_wallet_default_key :: "wallet_state \<Rightarrow> (xdag_public_key \<times> int) option" where
  "xdag_wallet_default_key w = (if nkeys w \<noteq> 0 then Some (keys_arr w ! (nkeys w - 1), int (nkeys w) - 1) else None)"

section \<open>What is written is read again\<close>

lemma join_split: "join_words (ucast w) (ucast (drop_bit 32 w)) = w" for w :: u64
  by (rule bit_eqI) (auto simp: join_words_def bit_simps)

lemma priv_of_priv32: "priv_of (priv32_of p) = p"
  by (cases p) (simp add: priv_of_def split_word_def join_split)

lemma crypt_priv_roundtrip: "crypt_priv user 2 n (crypt_priv user 1 n data) = data"
  by (cases user) (simp_all add: crypt_priv_def dnet_user_crypt_action_def dfslib_encrypt_array_def dfslib_uncrypt_array_def
      uncrypt_encrypt_words unmixArray_enmixArray)

text \<open>Calls in which nothing fails, and OpenSSL assigns public keys as \<open>public\<close> says.\<close>

definition good_env :: "(xdag_hash_t \<Rightarrow> xdag_hash_t \<times> bool) \<Rightarrow> key_env \<Rightarrow> bool" where
  "good_env public env \<longleftrightarrow> ke_malloc env \<and> ke_open env \<and> ke_write env \<and> ke_realloc env \<and>
     (\<exists>p k. ke_created env = (p, fst (public p), snd (public p), Some k)) \<and>
     (\<forall>p. \<exists>k. ke_private_to_key env p = Some (fst (public p), snd (public p), k))"

definition key_for :: "(xdag_hash_t \<Rightarrow> xdag_hash_t \<times> bool) \<Rightarrow> nat \<Rightarrow> xdag_hash_t \<Rightarrow> key_internal" where
  "key_for public k p = \<lparr>ki_pub = fst (public p), ki_priv = p, ki_key = k, ki_pub_bit = snd (public p)\<rparr>"

text \<open>The wallet holds the private keys \<open>ps\<close>, in this order, in memory.\<close>

definition holds_keys :: "(xdag_hash_t \<Rightarrow> xdag_hash_t \<times> bool) \<Rightarrow> xdag_hash_t list \<Rightarrow> wallet_state \<Rightarrow> bool" where
  "holds_keys public ps w \<longleftrightarrow> map ki_priv (rev (def_key w)) = ps \<and> map pk_pub (keys_arr w) = map public ps \<and> nkeys w = length ps"

definition records :: "dfslib_crypt option \<Rightarrow> nat \<Rightarrow> xdag_hash_t list \<Rightarrow> u32 list list" where
  "records user n ps = map (\<lambda>(i, p). crypt_priv user 1 i (priv32_of p)) (enumerate n ps)"

lemma enter_key_holds:
  assumes "holds_keys public ps w" "ke_realloc env"
  shows "fst (enter_key env (key_for public k p) w) = 0" "holds_keys public (ps @ [p]) (snd (enter_key env (key_for public k p) w))"
    "wallet_file (snd (enter_key env (key_for public k p) w)) = wallet_file w"
  using assms by (auto simp: enter_key_def Let_def holds_keys_def key_for_def)

lemma add_new_key:
  assumes "good_env public env" "holds_keys public ps w" "wallet_file w = (if ps = [] then None else Some (records user 0 ps))"
  shows "\<exists>p w'. add_key user env None w = (0, w') \<and> holds_keys public (ps @ [p]) w' \<and> wallet_file w' = Some (records user 0 (ps @ [p]))"
proof -
  obtain p k where c: "ke_created env = (p, fst (public p), snd (public p), Some k)" using assms(1) by (auto simp: good_env_def)
  let ?w = "w\<lparr>wallet_file := Some (records user 0 (ps @ [p]))\<rparr>"
  have n: "nkeys w = length ps" using assms(2) by (simp add: holds_keys_def)
  have "add_key user env None w = enter_key env (key_for public k p) ?w"
    using assms(1,3) c n by (auto simp: add_key_def good_env_def key_for_def records_def enumerate_append_eq)
  moreover have "holds_keys public ps ?w" "ke_realloc env" using assms(1,2) by (simp_all add: holds_keys_def good_env_def)
  note enter_key_holds [OF this, where k = k and p = p]
  ultimately show ?thesis by (intro exI [of _ p] exI [of _ "snd (add_key user env None w)"]) (auto simp: prod_eq_iff)
qed

lemma read_keys_records:
  "(\<And>n. good_env public (envs n)) \<Longrightarrow> holds_keys public qs w \<Longrightarrow>
   holds_keys public (qs @ ps) (read_keys user envs (records user n ps) n w) \<and>
   wallet_file (read_keys user envs (records user n ps) n w) = wallet_file w"
proof (induction ps arbitrary: n qs w)
  case (Cons p ps)
  obtain k where k: "ke_private_to_key (envs n) p = Some (fst (public p), snd (public p), k)"
    using Cons.prems(1) [of n] unfolding good_env_def by blast
  have r: "ke_realloc (envs n)" "ke_malloc (envs n)" using Cons.prems(1) [of n] by (simp_all add: good_env_def)
  have "add_key user (envs n) (Some p) w = enter_key (envs n) (key_for public k p) w"
    using k r by (simp add: add_key_def key_for_def)
  moreover note enter_key_holds [OF Cons.prems(2) r(1), where k = k and p = p]
  ultimately show ?case
    using Cons.IH [OF Cons.prems(1), where qs = "qs @ [p]" and n = "Suc n"]
    by (simp add: records_def crypt_priv_roundtrip priv_of_priv32)
qed (simp add: records_def)

definition empty_wallet :: wallet_state where
  "empty_wallet = \<lparr>def_key = [], keys_arr = [], nkeys = 0, maxnkeys = 0, wallet_file = None\<rparr>"

lemma new_keys_hold:
  "(\<And>env. env \<in> set news \<Longrightarrow> good_env public env) \<Longrightarrow> holds_keys public ps w \<Longrightarrow> ps \<noteq> [] \<Longrightarrow> wallet_file w = Some (records user 0 ps) \<Longrightarrow>
   \<exists>qs. length qs = length news \<and> holds_keys public (ps @ qs) (fold (\<lambda>env w. snd (xdag_wallet_new_key user env w)) news w) \<and>
     wallet_file (fold (\<lambda>env w. snd (xdag_wallet_new_key user env w)) news w) = Some (records user 0 (ps @ qs))"
proof (induction news arbitrary: ps w)
  case (Cons env news)
  obtain p w' where p: "add_key user env None w = (0, w')" "holds_keys public (ps @ [p]) w'" "wallet_file w' = Some (records user 0 (ps @ [p]))"
    using add_new_key [of public env ps w user] Cons.prems by auto
  obtain qs where "length qs = length news" "holds_keys public ((ps @ [p]) @ qs) (fold (\<lambda>env w. snd (xdag_wallet_new_key user env w)) news w')"
      "wallet_file (fold (\<lambda>env w. snd (xdag_wallet_new_key user env w)) news w') = Some (records user 0 ((ps @ [p]) @ qs))"
    using Cons.IH [OF _ p(2) _ p(3)] Cons.prems(1) by auto
  then show ?case using p(1) by (intro exI [of _ "p # qs"]) (simp add: xdag_wallet_new_key_def)
qed simp

text \<open>
  C16: a wallet comes back after a restart.  Start without a file, create any
  number of further keys, and start again from the file with the same password:
  the wallet holds the same private and public keys in the same order, so the
  default key is the same.
\<close>

theorem wallet_restart:
  assumes "\<And>n. good_env public (envs n)" "\<And>env. env \<in> set news \<Longrightarrow> good_env public env"
    and "w1 = fold (\<lambda>env w. snd (xdag_wallet_new_key user env w)) news (snd (xdag_wallet_init user envs empty_wallet))"
    and "w2 = snd (xdag_wallet_init user envs (empty_wallet\<lparr>wallet_file := wallet_file w1\<rparr>))"
  shows "nkeys w2 = Suc (length news) \<and> map ki_priv (def_key w2) = map ki_priv (def_key w1) \<and>
    map pk_pub (keys_arr w2) = map pk_pub (keys_arr w1) \<and> wallet_file w2 = wallet_file w1"
proof -
  have e: "holds_keys public [] empty_wallet" by (simp add: holds_keys_def empty_wallet_def)
  obtain p w0 where p: "add_key user (envs 0) None empty_wallet = (0, w0)" "holds_keys public [p] w0" "wallet_file w0 = Some (records user 0 [p])"
    using add_new_key [OF assms(1) [of 0] e, of user] by (auto simp: empty_wallet_def)
  have "snd (xdag_wallet_init user envs empty_wallet) = w0"
    using p by (simp add: xdag_wallet_init_def empty_wallet_def records_def)
  then obtain qs where q: "length qs = length news" "holds_keys public ([p] @ qs) w1" "wallet_file w1 = Some (records user 0 ([p] @ qs))"
    using new_keys_hold [OF assms(2) p(2) _ p(3)] assms(3) by auto
  have "holds_keys public [] (empty_wallet\<lparr>wallet_file := wallet_file w1\<rparr>)" by (simp add: holds_keys_def empty_wallet_def)
  from read_keys_records [OF assms(1) this, where ps = "[p] @ qs" and user = user and n = 0] q(3)
  have "holds_keys public ([p] @ qs) w2" "wallet_file w2 = wallet_file w1"
    by (simp_all add: assms(4) xdag_wallet_init_def)
  note w2 = this
  have privs: "map ki_priv (def_key w) = rev ps" if "holds_keys public ps w" for ps w
    using that by (auto simp: holds_keys_def rev_map)
  show ?thesis using privs [OF w2(1)] privs [OF q(2)] w2 q(1,2) by (simp add: holds_keys_def)
qed

definition example_key_env :: "nat \<Rightarrow> key_env" where
  "example_key_env n = \<lparr>ke_malloc = True, ke_open = True, ke_write = True, ke_realloc = True,
     ke_created = ((of_nat n, 0, 0, 1), (of_nat n, 0, 0, 1), True, Some n), ke_private_to_key = (\<lambda>p. Some (p, True, 5))\<rparr>"

theorem wallet_restart_witness:
  "nkeys (snd (xdag_wallet_init None example_key_env (empty_wallet\<lparr>wallet_file :=
     wallet_file (snd (xdag_wallet_new_key None (example_key_env 1) (snd (xdag_wallet_init None example_key_env empty_wallet))))\<rparr>))) = 2"
proof -
  have g: "good_env (\<lambda>p. (p, True)) (example_key_env n)" for n by (simp add: good_env_def example_key_env_def)
  show ?thesis
    using wallet_restart [of "\<lambda>p. (p, True)" example_key_env "[example_key_env 1]", OF g _ refl refl, of None] g by simp
qed

end
