(* ===== verification/Rsa_Number.thy ===== *)
theory Rsa_Number
  imports Prelude
begin

text \<open>
  dfslib/dfsrsa.c: long numbers.  A number is an array of 32-bit digits, the
  lowest first; here a list of words, whose length is the argument \<open>len\<close> of the
  code.  The carries are kept in 64-bit words as in the code.  This theory holds
  the simple operations and the schoolbook multiplication.
\<close>

section \<open>Values\<close>

type_synonym dfsrsa_num = "u32 list"

fun num_val :: "dfsrsa_num \<Rightarrow> nat" where
  "num_val [] = 0"
| "num_val (d # ds) = unat d + 2 ^ 32 * num_val ds"

abbreviation num_bound :: "nat \<Rightarrow> nat" where "num_bound n \<equiv> (2 ^ 32) ^ n"

section \<open>Operations\<close>

definition dfsrsa_set :: "nat \<Rightarrow> u32 \<Rightarrow> dfsrsa_num" where
  "dfsrsa_set len v = v # replicate (len - 1) 0"

definition dfsrsa_getlen :: "dfsrsa_num \<Rightarrow> nat" where
  "dfsrsa_getlen num = length (dropWhile (\<lambda>d. d = 0) (rev num))"

fun cmp_from_top :: "u32 list \<Rightarrow> u32 list \<Rightarrow> int" where
  "cmp_from_top (l # ls) (r # rs) = (if l = r then cmp_from_top ls rs else if l < r then - 1 else 1)"
| "cmp_from_top _ _ = 0"

definition dfsrsa_cmp :: "dfsrsa_num \<Rightarrow> dfsrsa_num \<Rightarrow> int" where
  "dfsrsa_cmp left right = cmp_from_top (rev left) (rev right)"

fun addeq_loop :: "u64 \<Rightarrow> dfsrsa_num \<Rightarrow> dfsrsa_num" where
  "addeq_loop res [] = []"
| "addeq_loop res (d # ds) =
     (if res = 0 then d # ds
      else (let res = res + ucast d in ucast res # addeq_loop (drop_bit 32 res) ds))"

definition dfsrsa_addeq :: "dfsrsa_num \<Rightarrow> u32 \<Rightarrow> dfsrsa_num" where
  "dfsrsa_addeq num small = addeq_loop (ucast small) num"

fun adc_loop :: "u64 \<Rightarrow> dfsrsa_num \<Rightarrow> dfsrsa_num \<Rightarrow> dfsrsa_num \<times> u64" where
  "adc_loop res (x # xs) (y # ys) =
     (let res = res + (ucast x + ucast y); (ds, carry) = adc_loop (drop_bit 32 res) xs ys in (ucast res # ds, carry))"
| "adc_loop res _ _ = ([], res)"

definition dfsrsa_adc :: "dfsrsa_num \<Rightarrow> dfsrsa_num \<Rightarrow> u32 \<Rightarrow> dfsrsa_num \<times> u32" where
  "dfsrsa_adc add1 add2 carry = (let (s, res) = adc_loop (ucast carry) add1 add2 in (s, ucast res))"

definition dfsrsa_add :: "dfsrsa_num \<Rightarrow> dfsrsa_num \<Rightarrow> dfsrsa_num \<times> int" where
  "dfsrsa_add add1 add2 = (let (s, res) = adc_loop 0 add1 add2 in (s, sint (ucast res :: 32 word)))"

text \<open>The carry of the subtraction is signed: its shift keeps the sign.\<close>

fun sub_loop :: "u64 \<Rightarrow> dfsrsa_num \<Rightarrow> dfsrsa_num \<Rightarrow> dfsrsa_num \<times> u64" where
  "sub_loop res (x # xs) (y # ys) =
     (let res = res + (ucast x - ucast y); (ds, carry) = sub_loop (signed_drop_bit 32 res) xs ys in (ucast res # ds, carry))"
| "sub_loop res _ _ = ([], res)"

definition dfsrsa_sub :: "dfsrsa_num \<Rightarrow> dfsrsa_num \<Rightarrow> dfsrsa_num \<times> int" where
  "dfsrsa_sub from to = (let (s, res) = sub_loop 0 from to in (s, sint (ucast res :: 32 word)))"

fun shr1_from_top :: "u32 \<Rightarrow> u32 list \<Rightarrow> u32 list \<times> u32" where
  "shr1_from_top carry [] = ([], carry)"
| "shr1_from_top carry (d # ds) =
     (let (ds, c) = shr1_from_top (d AND 1) ds in ((drop_bit 1 d OR push_bit 31 carry) # ds, c))"

definition dfsrsa_shr1 :: "dfsrsa_num \<Rightarrow> u32 \<Rightarrow> dfsrsa_num \<times> u32" where
  "dfsrsa_shr1 num carry = (let (ds, c) = shr1_from_top carry (rev num) in (rev ds, c))"

text \<open>The sum has one digit more than \<open>big\<close>, which the carry overwrites; only the others are given here.\<close>

fun muladd_loop :: "u64 \<Rightarrow> u32 \<Rightarrow> dfsrsa_num \<Rightarrow> dfsrsa_num \<Rightarrow> dfsrsa_num" where
  "muladd_loop res small (s # ss) (b # bs) =
     (let res = res + (ucast b * ucast small + ucast s) in ucast res # muladd_loop (drop_bit 32 res) small ss bs)"
| "muladd_loop res small _ _ = [ucast res]"

definition dfsrsa_muladd :: "dfsrsa_num \<Rightarrow> dfsrsa_num \<Rightarrow> u32 \<Rightarrow> dfsrsa_num" where
  "dfsrsa_muladd acc big small = muladd_loop 0 small acc big"

text \<open>The result: the digits at the positions of \<open>big\<close>, and the carry that goes to the next digit.\<close>

fun mulsub_loop :: "u64 \<Rightarrow> u32 \<Rightarrow> dfsrsa_num \<Rightarrow> dfsrsa_num \<Rightarrow> dfsrsa_num" where
  "mulsub_loop res small (s # ss) (b # bs) =
     (let res = res + (ucast s - ucast b * ucast small); next = drop_bit 32 res;
          next = (if next \<noteq> 0 then next OR (0 - push_bit 32 1) else next)
      in ucast res # mulsub_loop next small ss bs)"
| "mulsub_loop res small (s # ss) [] = (if res \<noteq> 0 then s + ucast res else s) # ss"
| "mulsub_loop res small [] _ = []"

definition dfsrsa_mulsub :: "dfsrsa_num \<Rightarrow> dfsrsa_num \<Rightarrow> u32 \<Rightarrow> dfsrsa_num" where
  "dfsrsa_mulsub sub big small = mulsub_loop 0 small sub big"

fun mul_loop :: "dfsrsa_num \<Rightarrow> dfsrsa_num \<Rightarrow> dfsrsa_num \<Rightarrow> dfsrsa_num" where
  "mul_loop acc mul1 [] = acc"
| "mul_loop acc mul1 (m # ms) = (let w = dfsrsa_muladd acc mul1 m in hd w # mul_loop (tl w) mul1 ms)"

definition dfsrsa_mul :: "dfsrsa_num \<Rightarrow> dfsrsa_num \<Rightarrow> dfsrsa_num" where
  "dfsrsa_mul mul1 mul2 = mul_loop (replicate (length mul1) 0) mul1 mul2"

section \<open>Values of lists\<close>

lemma u32_less: "unat (x :: u32) < 2 ^ 32"
  using unsigned_less [of x] by simp

lemma u32_uint: "0 \<le> uint (x :: u32)" "uint x \<le> 2 ^ 32 - 1"
  using unsigned_less [of x, where ?'a = int] by simp_all

lemma u32_bound: "unat (x :: u32) \<le> 2 ^ 32 - 1"
  using u32_less [of x] by simp

lemma num_val_bound: "num_val ds < num_bound (length ds)"
proof (induction ds)
  case (Cons d ds)
  have "unat d < 2 ^ 32" by (rule u32_less)
  then have "num_val (d # ds) < 2 ^ 32 * Suc (num_val ds)" by simp
  also have "\<dots> \<le> 2 ^ 32 * num_bound (length ds)" using Cons by (intro mult_left_mono) simp_all
  finally show ?case by simp
qed simp

lemma num_val_append: "num_val (xs @ ys) = num_val xs + num_bound (length xs) * num_val ys"
  by (induction xs) (simp_all add: algebra_simps)

lemma num_val_zeros [simp]: "num_val (replicate n 0) = 0"
  by (induction n) simp_all

lemma num_val_set: "num_val (dfsrsa_set len v) = unat v"
  by (simp add: dfsrsa_set_def)

lemma digit_order:
  fixes x y a b :: nat
  assumes "x < 2 ^ 32" "y < 2 ^ 32"
  shows "x + 2 ^ 32 * a < y + 2 ^ 32 * b \<longleftrightarrow> a < b \<or> a = b \<and> x < y"
  using assms by (auto simp: not_less)

lemma digit_eq:
  fixes x y a b :: nat
  assumes "x < 2 ^ 32" "y < 2 ^ 32"
  shows "x + 2 ^ 32 * a = y + 2 ^ 32 * b \<longleftrightarrow> a = b \<and> x = y"
  using digit_order [OF assms, of a b] digit_order [OF assms(2,1), of b a] by (metis nat_neq_iff)

lemma num_val_inj: "length xs = length ys \<Longrightarrow> num_val xs = num_val ys \<Longrightarrow> xs = ys"
proof (induction xs ys rule: list_induct2)
  case (Cons x xs y ys)
  then show ?case using digit_eq [OF u32_less u32_less, of x "num_val xs" y "num_val ys"] by (simp add: word_unat_eq_iff)
qed simp

section \<open>Comparison\<close>

lemma cmp_from_top_append:
  "length ls = length rs \<Longrightarrow> cmp_from_top (ls @ [l]) (rs @ [r]) =
     (if cmp_from_top ls rs = 0 then (if l = r then 0 else if l < r then - 1 else 1) else cmp_from_top ls rs)"
  by (induction ls rs rule: list_induct2) auto

lemma dfsrsa_cmp_val:
  "length xs = length ys \<Longrightarrow> dfsrsa_cmp xs ys = (if num_val xs < num_val ys then - 1 else if num_val xs = num_val ys then 0 else 1)"
proof (induction xs ys rule: list_induct2)
  case (Cons x xs y ys)
  note b = u32_less [of x] u32_less [of y]
  have "dfsrsa_cmp (x # xs) (y # ys) =
      (if dfsrsa_cmp xs ys = 0 then (if x = y then 0 else if x < y then - 1 else 1) else dfsrsa_cmp xs ys)"
    using Cons(1) by (simp add: dfsrsa_cmp_def cmp_from_top_append)
  then show ?case
    unfolding Cons(2) num_val.simps digit_order [OF b] digit_eq [OF b]
    by (simp add: word_less_nat_alt word_unat_eq_iff)
qed (simp add: dfsrsa_cmp_def)

section \<open>Addition and subtraction\<close>

text \<open>A carry word splits into its digit and the carry for the next position.\<close>

lemma carry_split: "unat (ucast r :: u32) + 2 ^ 32 * unat (drop_bit 32 r) = unat (r :: u64)"
  using div_mult_mod_eq [of "unat r" "2 ^ 32"] by (simp add: unat_drop_bit unsigned_ucast_eq take_bit_nat_def)

lemma unat_word_sum:
  fixes a :: u64
  assumes "a = of_nat n" "n < 2 ^ 64"
  shows "unat a = n"
  using assms by (simp add: unsigned_of_nat take_bit_nat_eq_self_iff)

lemma unat_ucast_digit: "unat (ucast (x :: u32) :: u64) = unat x"
  using u32_bound [of x] by (intro unat_word_sum) simp_all

lemma adc_loop_val:
  "length xs = length ys \<Longrightarrow> unat res < 2 ^ 32 \<Longrightarrow> adc_loop res xs ys = (ds, c) \<Longrightarrow>
   length ds = length xs \<and> num_val ds + num_bound (length xs) * unat c = num_val xs + num_val ys + unat res"
proof (induction xs ys arbitrary: res ds rule: list_induct2)
  case (Cons x xs y ys)
  let ?r = "res + (ucast x + ucast y) :: u64"
  obtain es where d: "adc_loop (drop_bit 32 ?r) xs ys = (es, c)" "ds = ucast ?r # es"
    using Cons.prems(2) by (auto simp: Let_def split: prod.splits)
  have "?r = of_nat (unat res + (unat x + unat y))" by simp
  then have r: "unat ?r = unat res + (unat x + unat y)"
    using Cons.prems(1) u32_bound [of x] u32_bound [of y] by (intro unat_word_sum) simp_all
  have "unat (drop_bit 32 ?r) < 2 ^ 32"
    unfolding unat_drop_bit r using Cons.prems(1) u32_bound [of x] u32_bound [of y] by (simp add: div_less_iff_less_mult)
  from Cons.IH [OF this d(1)] show ?case
    using carry_split [of ?r] r d(2) by (simp add: algebra_simps)
qed (auto)

lemma dfsrsa_add_val:
  assumes "length xs = length ys" "dfsrsa_add xs ys = (ds, c)"
  shows "length ds = length xs" "num_val ds + num_bound (length xs) * nat c = num_val xs + num_val ys" "c \<in> {0, 1}"
proof -
  obtain r where r: "adc_loop 0 xs ys = (ds, r)" "c = sint (ucast r :: 32 word)"
    using assms(2) by (auto simp: dfsrsa_add_def split: prod.splits)
  have v: "length ds = length xs" "num_val ds + num_bound (length xs) * unat r = num_val xs + num_val ys"
    using adc_loop_val [OF assms(1) _ r(1)] by simp_all
  have "num_val ys < num_bound (length xs)" using num_val_bound [of ys] assms(1) by simp
  then have "num_bound (length xs) * unat r < num_bound (length xs) * 2" using v(2) num_val_bound [of xs] by linarith
  then have "unat r < 2" by simp
  then have "r = 0 \<or> r = 1" by (simp add: word_unat_eq_iff less_2_cases_iff)
  then have "nat c = unat r" "c \<in> {0, 1}" using r(2) by auto
  then show "length ds = length xs" "num_val ds + num_bound (length xs) * nat c = num_val xs + num_val ys" "c \<in> {0, 1}"
    using v by simp_all
qed

lemma dfsrsa_adc_val:
  assumes "length xs = length ys" "dfsrsa_adc xs ys 1 = (ds, c)"
  shows "length ds = length xs" "num_val ds + num_bound (length xs) * unat c = num_val xs + num_val ys + 1" "unat c \<le> 1"
proof -
  obtain r where r: "adc_loop 1 xs ys = (ds, r)" "c = ucast r"
    using assms(2) by (auto simp: dfsrsa_adc_def split: prod.splits)
  have v: "length ds = length xs" "num_val ds + num_bound (length xs) * unat r = num_val xs + num_val ys + 1"
    using adc_loop_val [OF assms(1) _ r(1)] by simp_all
  have "num_val ys < num_bound (length xs)" using num_val_bound [of ys] assms(1) by simp
  then have "num_bound (length xs) * unat r < num_bound (length xs) * 2" using v(2) num_val_bound [of xs] by linarith
  then have "unat r < 2" by simp
  then have "r = 0 \<or> r = 1" by (simp add: word_unat_eq_iff less_2_cases_iff)
  then show "length ds = length xs" "num_val ds + num_bound (length xs) * unat c = num_val xs + num_val ys + 1" "unat c \<le> 1"
    using v r(2) by auto
qed

lemma addeq_loop_val:
  "unat res < 2 ^ 32 \<Longrightarrow> num_val xs + unat res < num_bound (length xs) \<Longrightarrow>
   length (addeq_loop res xs) = length xs \<and> num_val (addeq_loop res xs) = num_val xs + unat res"
proof (induction xs arbitrary: res)
  case (Cons x xs)
  let ?r = "res + ucast x :: u64"
  have "?r = of_nat (unat res + unat x)" by simp
  then have r: "unat ?r = unat res + unat x" using Cons.prems(1) u32_bound [of x] by (intro unat_word_sum) simp_all
  have "unat (drop_bit 32 ?r) < 2 ^ 32"
    unfolding unat_drop_bit r using Cons.prems(1) u32_bound [of x] by (simp add: div_less_iff_less_mult)
  moreover have "2 ^ 32 * (num_val xs + unat (drop_bit 32 ?r)) < 2 ^ 32 * num_bound (length xs)"
    using Cons.prems(2) carry_split [of ?r] r by (simp add: algebra_simps)
  ultimately show ?case using Cons.IH [of "drop_bit 32 ?r"] carry_split [of ?r] r by (auto simp: Let_def algebra_simps)
qed (simp add: word_unat_eq_iff)

lemma sint_word_sum:
  fixes a :: u64
  assumes "a = word_of_int k" "- (2 ^ 63) \<le> k" "k < 2 ^ 63"
  shows "sint a = k"
  using assms by (simp add: signed_of_int signed_take_bit_int_eq_self_iff)

lemma signed_carry_split: "int (unat (ucast r :: u32)) + 2 ^ 32 * sint (signed_drop_bit 32 r) = sint (r :: u64)"
proof -
  have "int (unat (ucast r :: u32)) = uint (ucast r :: u32)" by simp
  also have "\<dots> = take_bit 32 (uint r)" by (simp only: unsigned_ucast_eq) simp
  also have "\<dots> = take_bit 32 (sint r)" by (simp add: take_bit_signed_take_bit sint_uint)
  finally show ?thesis
    by (simp add: sint_signed_drop_bit_eq take_bit_eq_mod drop_bit_eq_div)
qed

lemma sub_loop_val:
  "length xs = length ys \<Longrightarrow> sint res \<in> {- 1, 0} \<Longrightarrow> sub_loop res xs ys = (ds, c) \<Longrightarrow>
   length ds = length xs \<and> sint c \<in> {- 1, 0} \<and>
   int (num_val ds) + int (num_bound (length xs)) * sint c = int (num_val xs) - int (num_val ys) + sint res"
proof (induction xs ys arbitrary: res ds rule: list_induct2)
  case (Cons x xs y ys)
  let ?r = "res + (ucast x - ucast y) :: u64"
  obtain es where d: "sub_loop (signed_drop_bit 32 ?r) xs ys = (es, c)" "ds = ucast ?r # es"
    using Cons.prems(2) by (auto simp: Let_def split: prod.splits)
  note b = u32_uint [of x] u32_uint [of y]
  have e: "?r = word_of_int (sint res + (uint x - uint y))" by simp
  have c: "sint res = - 1 \<or> sint res = 0" using Cons.prems(1) by simp
  have d': "- (2 ^ 32) < uint x - uint y" "uint x - uint y < 2 ^ 32" using b by linarith+
  have r: "sint ?r = sint res + (uint x - uint y)" by (rule sint_word_sum [OF e]) (use d' c in auto)
  have "- (2 ^ 32) \<le> sint ?r" "sint ?r < 2 ^ 32" unfolding r using c d' by auto
  then have "sint (signed_drop_bit 32 ?r) \<in> {- 1, 0}"
    unfolding sint_signed_drop_bit_eq drop_bit_eq_div by auto
  from Cons.IH [OF this d(1)] show ?case
    using signed_carry_split [of ?r] r d(2) by (auto simp: algebra_simps)
qed auto

lemma dfsrsa_sub_val:
  assumes "length xs = length ys" "dfsrsa_sub xs ys = (ds, c)"
  shows "length ds = length xs" "c = (if num_val xs < num_val ys then - 1 else 0)"
    "num_val ds + num_val ys = num_val xs + (if num_val xs < num_val ys then num_bound (length xs) else 0)"
proof -
  obtain r where r: "sub_loop 0 xs ys = (ds, r)" "c = sint (ucast r :: 32 word)"
    using assms(2) by (auto simp: dfsrsa_sub_def split: prod.splits)
  have v: "length ds = length xs" "sint r \<in> {- 1, 0}"
    "int (num_val ds) + int (num_bound (length xs)) * sint r = int (num_val xs) - int (num_val ys)"
    using sub_loop_val [OF assms(1) _ r(1)] by auto
  have "num_val ds < num_bound (length xs)" using num_val_bound [of ds] v(1) by simp
  then have less: "int (num_val ds) < int (num_bound (length xs))" by (simp only: of_nat_less_iff)
  have s: "sint r = (if num_val xs < num_val ys then - 1 else 0)"
  proof (cases "sint r = 0")
    case False
    then have "sint r = - 1" using v(2) by simp
    moreover from v(3) [unfolded this] have "int (num_val xs) < int (num_val ys)" using less by linarith
    ultimately show ?thesis by simp
  qed (use v(3) in simp)
  have m: "(ucast (- 1 :: u64) :: 32 word) = - 1" by (rule bit_eqI) (simp add: bit_ucast_iff)
  have "r = word_of_int (sint r)" by simp
  then show "c = (if num_val xs < num_val ys then - 1 else 0)" using s r(2) by (auto simp: m)
  show "length ds = length xs" by (rule v(1))
  show "num_val ds + num_val ys = num_val xs + (if num_val xs < num_val ys then num_bound (length xs) else 0)"
  proof -
    have "int (num_val ds + num_val ys) = int (num_val xs + (if num_val xs < num_val ys then num_bound (length xs) else 0))"
      using v(3) s by (cases "num_val xs < num_val ys") simp_all
    then show ?thesis by (simp only: of_nat_eq_iff)
  qed
qed

section \<open>Multiplication\<close>

lemma product_bound:
  fixes a b c :: nat
  assumes "a \<le> 2 ^ 32 - 1" "b \<le> 2 ^ 32 - 1"
  shows "a * b \<le> (2 ^ 32 - 1) * (2 ^ 32 - 1)"
  using assms by (rule mult_mono) simp_all

lemma muladd_loop_val:
  "length ss = length bs \<Longrightarrow> unat res < 2 ^ 32 \<Longrightarrow>
   length (muladd_loop res small ss bs) = Suc (length ss) \<and>
   num_val (muladd_loop res small ss bs) = num_val ss + num_val bs * unat small + unat res"
proof (induction ss bs arbitrary: res rule: list_induct2)
  case (Cons s ss b bs)
  let ?r = "res + (ucast b * ucast small + ucast s) :: u64" and ?n = "unat res + (unat b * unat small + unat s)"
  have n: "?n < 2 ^ 64"
    using Cons.prems u32_bound [of s] product_bound [OF u32_bound [of b] u32_bound [of small]] by simp
  have "?r = of_nat ?n" by simp
  then have r: "unat ?r = ?n" using n by (rule unat_word_sum)
  have "unat (drop_bit 32 ?r) < 2 ^ 32" unfolding unat_drop_bit r using n by (simp add: div_less_iff_less_mult)
  from Cons.IH [OF this] show ?case
    using carry_split [of ?r] r by (simp add: Let_def algebra_simps)
next
  case Nil
  then show ?case by (simp add: unsigned_ucast_eq take_bit_nat_eq_self_iff)
qed

lemma mul_loop_val:
  "length acc = length xs \<Longrightarrow> length (mul_loop acc xs ys) = length xs + length ys \<and>
   num_val (mul_loop acc xs ys) = num_val acc + num_val xs * num_val ys"
proof (induction ys arbitrary: acc)
  case (Cons y ys)
  have w: "length (dfsrsa_muladd acc xs y) = Suc (length xs)" "num_val (dfsrsa_muladd acc xs y) = num_val acc + num_val xs * unat y"
    using muladd_loop_val [OF Cons.prems, of 0 y] Cons.prems by (simp_all add: dfsrsa_muladd_def)
  then obtain d ds where d: "dfsrsa_muladd acc xs y = d # ds" "length ds = length xs" by (cases "dfsrsa_muladd acc xs y") auto
  show ?case using Cons.IH [OF d(2)] w(2) by (simp add: d Let_def algebra_simps)
qed simp

lemma dfsrsa_mul_val:
  "length (dfsrsa_mul xs ys) = length xs + length ys" "num_val (dfsrsa_mul xs ys) = num_val xs * num_val ys"
  using mul_loop_val [of "replicate (length xs) 0" xs ys] by (simp_all add: dfsrsa_mul_def)

section \<open>Leading zeros\<close>

lemma getlen_snoc: "dfsrsa_getlen [] = 0" "dfsrsa_getlen (xs @ [x]) = (if x = 0 then dfsrsa_getlen xs else Suc (length xs))"
  by (simp_all add: dfsrsa_getlen_def)

lemma getlen_le: "dfsrsa_getlen num \<le> length num"
  by (induction num rule: rev_induct) (simp_all add: getlen_snoc)

lemma num_val_getlen: "num_val (take (dfsrsa_getlen num) num) = num_val num"
  using getlen_le by (induction num rule: rev_induct) (simp_all add: getlen_snoc num_val_append)

lemma getlen_less: "num_val num < num_bound (dfsrsa_getlen num)"
  using num_val_bound [of "take (dfsrsa_getlen num) num"] num_val_getlen [of num] getlen_le [of num] by (simp add: min_absorb2)

lemma num_val_ge_digit:
  assumes "i < length num"
  shows "num_bound i * unat (num ! i) \<le> num_val num"
proof -
  have "num = take i num @ num ! i # drop (Suc i) num" using assms by (simp add: id_take_nth_drop)
  then have "num_val num = num_val (take i num) + num_bound i * (unat (num ! i) + 2 ^ 32 * num_val (drop (Suc i) num))"
    using num_val_append [of "take i num" "num ! i # drop (Suc i) num"] assms by simp
  then show ?thesis by (simp add: algebra_simps)
qed

lemma getlen_top: "0 < dfsrsa_getlen num \<Longrightarrow> num ! (dfsrsa_getlen num - 1) \<noteq> 0"
proof (induction num rule: rev_induct)
  case (snoc x xs)
  then show ?case using getlen_le [of xs] by (auto simp: getlen_snoc nth_append)
qed (simp add: getlen_snoc)

lemma getlen_ge:
  assumes "0 < dfsrsa_getlen num"
  shows "num_bound (dfsrsa_getlen num - 1) \<le> num_val num"
proof -
  have "1 \<le> unat (num ! (dfsrsa_getlen num - 1))" using getlen_top [OF assms] by (simp add: Suc_le_eq unat_gt_0)
  then have "num_bound (dfsrsa_getlen num - 1) * 1 \<le> num_bound (dfsrsa_getlen num - 1) * unat (num ! (dfsrsa_getlen num - 1))"
    by (rule mult_left_mono) simp
  also have "\<dots> \<le> num_val num" using assms getlen_le [of num] by (intro num_val_ge_digit) simp
  finally show ?thesis by simp
qed

lemma getlen_0: "dfsrsa_getlen num = 0 \<longleftrightarrow> num_val num = 0"
  using less_le_trans [OF _ getlen_ge, of 0 num] num_val_getlen [of num] by (cases "dfsrsa_getlen num = 0") auto

section \<open>Subtracting a multiple\<close>

lemma sign_extend:
  fixes w :: u64
  assumes "uint w < 2 ^ 32"
  shows "sint (w OR (0 - push_bit 32 1)) = uint w - 2 ^ 32"
proof -
  have "\<not> bit w n" if "32 \<le> n" for n
  proof
    assume "bit w n"
    then have "bit (uint w) n" by (auto simp: bit_uint_iff dest: bit_imp_le_length)
    then have "bit (take_bit 32 (uint w)) n" using assms by (simp add: take_bit_int_eq_self)
    then show False using that by (simp add: bit_take_bit_iff)
  qed
  then have d: "w AND NOT (mask 32) = 0" by (intro bit_eqI) (auto simp: bit_and_iff bit_not_iff bit_mask_iff not_less)
  have m: "(0 - push_bit 32 1 :: u64) = NOT (mask 32)" by (simp add: mask_eq_exp_minus_1 not_eq_complement)
  have "w OR (0 - push_bit 32 1) = w + (0 - push_bit 32 1)"
    unfolding m by (rule disjunctive_add_eq_or [OF d, symmetric])
  then have "w OR (0 - push_bit 32 1) = word_of_int (uint w - 2 ^ 32)" by simp
  then show ?thesis using assms by (intro sint_word_sum) auto
qed

lemma mulsub_step:
  fixes K :: int
  assumes "- (2 ^ 64) + 2 ^ 32 \<le> K" "K < 2 ^ 32"
  defines "r \<equiv> word_of_int K :: u64"
  defines "n \<equiv> (if drop_bit 32 r \<noteq> 0 then drop_bit 32 r OR (0 - push_bit 32 1) else drop_bit 32 r)"
  shows "sint n = K div 2 ^ 32" "int (unat (ucast r :: u32)) = K mod 2 ^ 32"
proof -
  have u: "uint r = K mod 2 ^ 64" by (simp add: r_def uint_word_of_int_eq take_bit_eq_mod)
  have d: "uint (drop_bit 32 r) = K mod 2 ^ 64 div 2 ^ 32" 
  proof -
    have "uint (drop_bit 32 r) = int (unat (drop_bit 32 r))" by simp
    also have "\<dots> = uint r div 2 ^ 32" by (simp only: unat_drop_bit zdiv_int) simp
    finally show ?thesis by (simp only: u)
  qed
  show "int (unat (ucast r :: u32)) = K mod 2 ^ 32"
  proof -
    have "int (unat (ucast r :: u32)) = uint (ucast r :: u32)" by simp
    also have "\<dots> = uint r mod 2 ^ 32" by (simp only: unsigned_ucast_eq take_bit_eq_mod) simp
    finally show ?thesis by (simp only: u) (simp add: mod_mod_cancel)
  qed
  show "sint n = K div 2 ^ 32"
  proof (cases "0 \<le> K")
    case True
    then have "uint (drop_bit 32 r) = 0" using assms(2) unfolding d by simp
    then have "n = 0" by (simp add: n_def uint_0_iff)
    then show ?thesis using True assms(2) by simp
  next
    case False
    have "K mod 2 ^ 64 = (K + 2 ^ 64) mod 2 ^ 64" by simp
    also have "\<dots> = K + 2 ^ 32 * 2 ^ 32" using assms(1) False by (subst mod_pos_pos_trivial) simp_all
    finally have "uint (drop_bit 32 r) = (K + 2 ^ 32 * 2 ^ 32) div 2 ^ 32" unfolding d by (rule arg_cong)
    also have "\<dots> = K div 2 ^ 32 + 2 ^ 32" by simp
    finally have D: "uint (drop_bit 32 r) = K div 2 ^ 32 + 2 ^ 32" .
    have b: "1 \<le> K div 2 ^ 32 + 2 ^ 32" "K div 2 ^ 32 + 2 ^ 32 < 2 ^ 32" using assms(1) False by auto
    then have "drop_bit 32 r \<noteq> 0" using D by auto
    then show ?thesis using D sign_extend [of "drop_bit 32 r"] b(2) by (simp add: n_def)
  qed
qed

lemma ucast_of_sint: "(ucast (r :: u64) :: u32) = word_of_int (sint r)"
  by (rule bit_eqI) (simp only: bit_ucast_iff bit_word_of_int_iff bit_sint_iff, auto)

lemma mulsub_loop_val:
  assumes "length bs \<le> length ss" "- (2 ^ 32) < sint res" "sint res \<le> 0" "num_val (drop (Suc (length bs)) ss) = 0"
    and "int (num_val bs) * uint small \<le> int (num_val ss) + sint res"
  shows "length (mulsub_loop res small ss bs) = length ss \<and>
    int (num_val (mulsub_loop res small ss bs)) = int (num_val ss) + sint res - int (num_val bs) * uint small"
  using assms
proof (induction bs arbitrary: res ss)
  case Nil
  show ?case
  proof (cases ss)
    case Nil
    then show ?thesis using Nil.prems by simp
  next
    case (Cons s ss')
    have z: "num_val ss' = 0" using Nil.prems(4) Cons by simp
    have "s + ucast res = word_of_int (uint s) + word_of_int (sint res)" by (simp only: ucast_of_sint word_of_int_uint)
    then have c: "s + ucast res = word_of_int (uint s + sint res)" by (simp only: wi_hom_add)
    have "0 \<le> uint s + sint res" using Nil.prems(5) z Cons by simp
    then have "uint (s + ucast res) = uint s + sint res"
      unfolding c using Nil.prems(3) u32_uint [of s] by (simp only: uint_word_of_int_eq) (simp add: take_bit_int_eq_self_iff)
    then show ?thesis using Cons z by simp
  qed
next
  case (Cons b bs)
  then obtain s ss' where ss: "ss = s # ss'" by (cases ss) auto
  define K where "K = sint res + (uint s - uint b * uint small)"
  note bounds = u32_uint [of s] u32_uint [of b] u32_uint [of small]
  have p: "uint b * uint small \<le> (2 ^ 32 - 1) * (2 ^ 32 - 1)" using bounds by (intro mult_mono) auto
  obtain P where P: "P = uint b * uint small" by blast
  then have "0 \<le> P" "P \<le> 18446744065119617025" using p by simp_all
  moreover have "0 \<le> uint s" "uint s \<le> 4294967295" "- 4294967296 < sint res" "sint res \<le> 0"
    using bounds(1,2) Cons.prems(2,3) by simp_all
  ultimately have "- 18446744069414584320 \<le> K" "K < 4294967296" unfolding K_def P [symmetric] by linarith+
  then have K: "- (2 ^ 64) + 2 ^ 32 \<le> K" "K < 2 ^ 32" by simp_all
  have r: "res + (ucast s - ucast b * ucast small) = (word_of_int K :: u64)" by (simp add: K_def)
  define n :: u64 where "n = (if drop_bit 32 (word_of_int K :: u64) \<noteq> 0
    then drop_bit 32 (word_of_int K) OR (0 - push_bit 32 1) else drop_bit 32 (word_of_int K))"
  have M: "sint n = K div 2 ^ 32" "int (unat (ucast (word_of_int K :: u64) :: u32)) = K mod 2 ^ 32"
    using mulsub_step [OF K] by (simp_all only: n_def)
  have t: "0 \<le> K + 2 ^ 32 * (int (num_val ss') - int (num_val bs) * uint small)"
    using Cons.prems(5) by (simp add: ss K_def algebra_simps)
  then have "2 ^ 32 * (int (num_val bs) * uint small - int (num_val ss')) \<le> K" by (simp add: algebra_simps)
  then have "(2 ^ 32 * (int (num_val bs) * uint small - int (num_val ss'))) div 2 ^ 32 \<le> K div 2 ^ 32" by (rule zdiv_mono1) simp
  then have le: "int (num_val bs) * uint small \<le> int (num_val ss') + sint n" by (simp add: M)
  have IH: "length (mulsub_loop n small ss' bs) = length ss' \<and>
    int (num_val (mulsub_loop n small ss' bs)) = int (num_val ss') + sint n - int (num_val bs) * uint small"
  proof (rule Cons.IH [OF _ _ _ _ le])
    show "length bs \<le> length ss'" "num_val (drop (Suc (length bs)) ss') = 0" using Cons.prems(1,4) by (simp_all add: ss)
    show "- (2 ^ 32) < sint n" "sint n \<le> 0" using K unfolding M(1) by auto
  qed
  have e: "mulsub_loop res small ss (b # bs) = ucast (word_of_int K :: u64) # mulsub_loop n small ss' bs"
    by (simp only: ss mulsub_loop.simps Let_def r n_def)
  have "int (num_val (mulsub_loop res small ss (b # bs))) = K mod 2 ^ 32 + 2 ^ 32 * int (num_val (mulsub_loop n small ss' bs))"
    unfolding e num_val.simps M(2) [symmetric] by (simp only: of_nat_add of_nat_mult of_nat_power of_nat_numeral)
  also have "\<dots> = K + 2 ^ 32 * (int (num_val ss') - int (num_val bs) * uint small)"
    unfolding IH [THEN conjunct2] M(1) distrib_left right_diff_distrib using mult_div_mod_eq [of "2 ^ 32" K] by linarith
  also have "\<dots> = int (num_val ss) + sint res - int (num_val (b # bs)) * uint small"
    by (simp add: ss K_def algebra_simps)
  finally show ?case using IH e ss by simp
qed

lemma dfsrsa_mulsub_val:
  assumes "length big \<le> length sub" "num_val (drop (Suc (length big)) sub) = 0" "num_val big * unat small \<le> num_val sub"
  shows "length (dfsrsa_mulsub sub big small) = length sub"
    "num_val (dfsrsa_mulsub sub big small) = num_val sub - num_val big * unat small"
proof -
  have "int (num_val big * unat small) \<le> int (num_val sub)" using assms(3) by (simp only: of_nat_le_iff)
  then have "int (num_val big) * uint small \<le> int (num_val sub) + sint (0 :: u64)" by simp
  note v = mulsub_loop_val [OF assms(1) _ _ assms(2) this]
  then have "int (num_val (dfsrsa_mulsub sub big small)) = int (num_val sub - num_val big * unat small)"
    using assms(3) by (simp add: dfsrsa_mulsub_def of_nat_diff)
  then show "num_val (dfsrsa_mulsub sub big small) = num_val sub - num_val big * unat small" by (simp only: of_nat_eq_iff)
  show "length (dfsrsa_mulsub sub big small) = length sub" using v by (simp add: dfsrsa_mulsub_def)
qed

section \<open>Splitting a number\<close>

lemma num_val_split: "k \<le> length xs \<Longrightarrow> num_val xs = num_val (take k xs) + num_bound k * num_val (drop k xs)"
  using num_val_append [of "take k xs" "drop k xs"] by (simp add: min_absorb2)

lemma num_val_drop_le: "k \<le> length xs \<Longrightarrow> num_val (drop k xs) * num_bound k \<le> num_val xs"
  by (simp add: num_val_split [of k xs] mult.commute)

lemma num_val_less_drop:
  assumes "k \<le> length xs"
  shows "num_val xs < (num_val (drop k xs) + 1) * num_bound k"
  using num_val_bound [of "take k xs"] assms by (simp add: num_val_split [of k xs] min_absorb2)

lemma unat_two_digits: "unat (push_bit 32 (ucast (x :: u32)) OR ucast (y :: u32) :: u64) = unat x * 2 ^ 32 + unat y"
proof -
  have "(push_bit 32 (ucast x) AND ucast y :: u64) = 0"
    by (rule bit_eqI) (auto simp: bit_and_iff bit_push_bit_iff bit_ucast_iff dest: bit_imp_le_length)
  then have "(push_bit 32 (ucast x) OR ucast y :: u64) = push_bit 32 (ucast x) + ucast y"
    by (rule disjunctive_add_eq_or [symmetric])
  also have "\<dots> = of_nat (unat x * 2 ^ 32 + unat y)" by (simp add: push_bit_eq_mult)
  finally show ?thesis using u32_bound [of x] u32_bound [of y] by (intro unat_word_sum) simp_all
qed

lemma last_digits:
  "0 < length xs \<Longrightarrow> drop (length xs - 1) xs = [xs ! (length xs - 1)]"
  "1 < length xs \<Longrightarrow> drop (length xs - 2) xs = [xs ! (length xs - 2), xs ! (length xs - 1)]"
  by (simp_all add: Cons_nth_drop_Suc [symmetric] Suc_diff_Suc numeral_2_eq_2)

lemma top_digits_le:
  assumes "mlen \<le> length md" "num_val (take mlen md) = num_val md"
  shows "0 < mlen \<Longrightarrow> unat (ucast (md ! (mlen - 1)) :: u64) * num_bound (mlen - 1) \<le> num_val md"
    and "1 < mlen \<Longrightarrow> unat (push_bit 32 (ucast (md ! (mlen - 1))) OR ucast (md ! (mlen - 2)) :: u64) * num_bound (mlen - 2) \<le> num_val md"
proof -
  define m where "m = take mlen md"
  have m: "length m = mlen" "num_val m = num_val md" using assms by (simp_all add: m_def)
  have nth: "m ! (mlen - 1) = md ! (mlen - 1)" "m ! (mlen - 2) = md ! (mlen - 2)" if "0 < mlen" using that by (simp_all add: m_def)
  show "unat (ucast (md ! (mlen - 1)) :: u64) * num_bound (mlen - 1) \<le> num_val md" if "0 < mlen"
    using num_val_drop_le [of "mlen - 1" m] that m last_digits(1) [of m] nth by (simp add: unat_ucast_digit del: One_nat_def)
  assume "1 < mlen"
  then show "unat (push_bit 32 (ucast (md ! (mlen - 1))) OR ucast (md ! (mlen - 2)) :: u64) * num_bound (mlen - 2) \<le> num_val md"
    using num_val_drop_le [of "mlen - 2" m] m last_digits(2) [of m] nth unfolding unat_two_digits
    by (simp add: mult.commute add.commute del: One_nat_def)
qed

lemma num_val_take_all:
  assumes "k \<le> length xs" "num_val xs < num_bound k"
  shows "num_val (take k xs) = num_val xs"
proof -
  have "num_bound k * num_val (drop k xs) < num_bound k * 1" using num_val_split [OF assms(1)] assms(2) by linarith
  then have "num_val (drop k xs) = 0" by simp
  then show ?thesis using num_val_split [OF assms(1)] by simp
qed

lemma num_val_take_mod: "k \<le> length xs \<Longrightarrow> num_val (take k xs) = num_val xs mod num_bound k"
  using num_val_bound [of "take k xs"] by (simp add: num_val_split [of k xs] min_absorb2)

lemma num_val_drop_zero: "num_val xs = 0 \<Longrightarrow> num_val (drop k xs) = 0"
  by (induction xs arbitrary: k) (auto simp: drop_Cons' )

text \<open>A number is as long as its digits that count.\<close>

lemma significant:
  assumes "num_val (take k md) = num_val md"
  defines "mlen \<equiv> dfsrsa_getlen (take k md)"
  shows "mlen \<le> length md" "num_val (take mlen md) = num_val md" "0 < mlen \<longrightarrow> num_bound (mlen - 1) \<le> num_val md"
    "num_val (drop mlen md) = 0"
proof -
  have k: "mlen \<le> k" "mlen \<le> length md" using getlen_le [of "take k md"] by (simp_all add: mlen_def)
  then have t: "take mlen md = take mlen (take k md)" by (simp add: min_absorb1)
  show v: "num_val (take mlen md) = num_val md" unfolding t using num_val_getlen [of "take k md"] assms by simp
  show "0 < mlen \<longrightarrow> num_bound (mlen - 1) \<le> num_val md" using getlen_ge [of "take k md"] assms by (simp add: mlen_def)
  show "mlen \<le> length md" by (rule k(2))
  show "num_val (drop mlen md) = 0" using num_val_split [OF k(2)] v by simp
qed

end
