(* ===== verification/Rsa_Karatsuba.thy ===== *)
theory Rsa_Karatsuba
  imports Rsa_Number
begin

text \<open>
  dfslib/dfsrsa.c: Karatsuba multiplication, with the threshold 32 and the plain
  multiplication below it, as on machines without the assembly routines.
\<close>

section \<open>Operations\<close>

definition KARATSUBA_TRESHOLD :: nat where "KARATSUBA_TRESHOLD = 32"

text \<open>The difference of the halves of a number and whether its sign was changed.\<close>

definition half_difference :: "dfsrsa_num \<Rightarrow> dfsrsa_num \<Rightarrow> bool \<times> dfsrsa_num" where
  "half_difference low high =
     (if dfsrsa_cmp high low \<ge> 0 then (False, fst (dfsrsa_sub high low)) else (True, fst (dfsrsa_sub low high)))"

fun middle_sum :: "bool \<Rightarrow> u64 \<Rightarrow> dfsrsa_num \<Rightarrow> dfsrsa_num \<Rightarrow> dfsrsa_num \<Rightarrow> dfsrsa_num \<Rightarrow> dfsrsa_num \<times> u64" where
  "middle_sum pos rem (p # ps) (a # xs) (b # bs) (w # ws) =
     (let rem = rem + (if pos then ucast p + ucast a + ucast b + ucast w else ucast p + ucast a + ucast b - ucast w);
          (ds, c) = middle_sum pos (if pos then drop_bit 32 rem else signed_drop_bit 32 rem) ps xs bs ws
      in (ucast rem # ds, c))"
| "middle_sum pos rem _ _ _ _ = ([], rem)"

lemma sub_loop_length: "length (fst (sub_loop res xs ys)) \<le> length xs"
  by (induction res xs ys rule: sub_loop.induct) (auto simp: Let_def split: prod.splits)

lemma half_difference_length: "length (snd (half_difference low high)) \<le> max (length low) (length high)"
  using sub_loop_length [of 0 high low] sub_loop_length [of 0 low high]
  by (auto simp: half_difference_def dfsrsa_sub_def split: prod.splits)

text \<open>The carry of the middle part goes into the digits above it.\<close>

function dfsrsa_karatsuba_mul :: "dfsrsa_num \<Rightarrow> dfsrsa_num \<Rightarrow> dfsrsa_num" where
  "dfsrsa_karatsuba_mul mul1 mul2 =
     (let llen = length mul1 in
      if odd llen \<or> llen < KARATSUBA_TRESHOLD then dfsrsa_mul mul1 mul2
      else
        (let len = llen div 2;
             (s1, d1) = half_difference (take len mul1) (drop len mul1);
             (s2, d2) = half_difference (take len mul2) (drop len mul2);
             work = dfsrsa_karatsuba_mul d1 d2;
             low = dfsrsa_karatsuba_mul (take len mul1) (take len mul2);
             high = dfsrsa_karatsuba_mul (drop len mul1) (drop len mul2);
             prod = low @ high;
             (mid, rem) = middle_sum (s1 \<noteq> s2) 0 (take llen (drop len prod)) high low work
         in take len prod @ mid @ addeq_loop rem (drop (len + llen) prod)))"
  by pat_completeness auto
termination
proof (relation "measure (\<lambda>(mul1, mul2). length mul1)", goal_cases)
  case (2 mul1 mul2 llen len x s1 d1 y s2 d2)
  then have h: "half_difference (take len mul1) (drop len mul1) = (s1, d1)" by simp
  have "length d1 \<le> max (length (take len mul1)) (length (drop len mul1))"
    using half_difference_length [of "take len mul1" "drop len mul1"] unfolding h snd_conv .
  then show ?case using 2 by (auto simp: KARATSUBA_TRESHOLD_def)
qed (auto simp: KARATSUBA_TRESHOLD_def)

declare dfsrsa_karatsuba_mul.simps [simp del]

section \<open>Correctness\<close>

lemma half_difference_val:
  assumes "length low = length high" "half_difference low high = (s, d)"
  shows "length d = length low" "int (num_val high) - int (num_val low) = (if s then - int (num_val d) else int (num_val d))"
proof -
  obtain e c where e: "dfsrsa_sub high low = (e, c)" by fastforce
  obtain f g where f: "dfsrsa_sub low high = (f, g)" by fastforce
  show "length d = length low" "int (num_val high) - int (num_val low) = (if s then - int (num_val d) else int (num_val d))"
    using assms dfsrsa_sub_val [OF _ e] dfsrsa_sub_val [OF _ f] e f
    by (auto simp: half_difference_def dfsrsa_cmp_val split: if_splits)
qed

lemma middle_sum_plus:
  "length ps = length xs \<Longrightarrow> length xs = length bs \<Longrightarrow> length bs = length ws \<Longrightarrow> unat rem \<le> 3 \<Longrightarrow>
   middle_sum True rem ps xs bs ws = (ds, c) \<Longrightarrow>
   length ds = length ps \<and> unat c \<le> 3 \<and>
   num_val ds + num_bound (length ps) * unat c = unat rem + num_val ps + num_val xs + num_val bs + num_val ws"
proof (induction ps xs bs ws arbitrary: rem ds rule: list_induct4)
  case (Cons p ps a xs b bs w ws)
  let ?r = "rem + (ucast p + ucast a + ucast b + ucast w) :: u64" and ?n = "unat rem + (unat p + unat a + unat b + unat w)"
  obtain es where d: "middle_sum True (drop_bit 32 ?r) ps xs bs ws = (es, c)" "ds = ucast ?r # es"
    using Cons.prems(2) by (auto simp: Let_def split: prod.splits)
  have n: "?n < 4 * 2 ^ 32"
    using Cons.prems(1) u32_bound [of p] u32_bound [of a] u32_bound [of b] u32_bound [of w] by simp
  have "?r = of_nat ?n" by simp
  then have r: "unat ?r = ?n" using n by (intro unat_word_sum) simp_all
  have "unat (drop_bit 32 ?r) \<le> 3" unfolding unat_drop_bit r using n by (simp add: less_Suc_eq_le [symmetric] div_less_iff_less_mult)
  from Cons.IH [OF this d(1)] show ?case
    using carry_split [of ?r] r d(2) by (simp add: algebra_simps)
qed auto

lemma middle_sum_minus:
  "length ps = length xs \<Longrightarrow> length xs = length bs \<Longrightarrow> length bs = length ws \<Longrightarrow> sint rem \<in> {- 1..2} \<Longrightarrow>
   middle_sum False rem ps xs bs ws = (ds, c) \<Longrightarrow>
   length ds = length ps \<and> sint c \<in> {- 1..2} \<and>
   int (num_val ds) + int (num_bound (length ps)) * sint c =
     sint rem + int (num_val ps) + int (num_val xs) + int (num_val bs) - int (num_val ws)"
proof (induction ps xs bs ws arbitrary: rem ds rule: list_induct4)
  case (Cons p ps a xs b bs w ws)
  let ?r = "rem + (ucast p + ucast a + ucast b - ucast w) :: u64" and ?n = "sint rem + (uint p + uint a + uint b - uint w)"
  obtain es where d: "middle_sum False (signed_drop_bit 32 ?r) ps xs bs ws = (es, c)" "ds = ucast ?r # es"
    using Cons.prems(2) by (auto simp: Let_def split: prod.splits)
  have n: "- (2 ^ 32) \<le> ?n" "?n < 3 * 2 ^ 32"
    using Cons.prems(1) u32_uint [of p] u32_uint [of a] u32_uint [of b] u32_uint [of w] unfolding atLeastAtMost_iff by linarith+
  have e: "?r = word_of_int ?n" by simp
  note n moreover have "- (2 ^ 63) \<le> (- (2 ^ 32) :: int)" "3 * 2 ^ 32 < (2 ^ 63 :: int)" by simp_all
  ultimately have "- (2 ^ 63) \<le> ?n" "?n < 2 ^ 63" by linarith+
  then have r: "sint ?r = ?n" by (rule sint_word_sum [OF e])
  have "sint (signed_drop_bit 32 ?r) \<in> {- 1..2}"
    unfolding sint_signed_drop_bit_eq drop_bit_eq_div r using n by auto
  from Cons.IH [OF this d(1)] show ?case
    using signed_carry_split [of ?r] r d(2) by (simp add: algebra_simps)
qed auto

lemma middle_sum_val:
  assumes len: "length ps = n" "length xs = n" "length bs = n" "length ws = n"
    and X: "int X = int (num_val xs) + int (num_val bs) + (if pos then int (num_val ws) else - int (num_val ws))"
    and sum: "middle_sum pos 0 ps xs bs ws = (ds, c)"
  shows "length ds = n" "unat c \<le> 3" "num_val ds + num_bound n * unat c = num_val ps + X"
proof -
  have "length ds = n \<and> unat c \<le> 3 \<and> num_val ds + num_bound n * unat c = num_val ps + X"
  proof (cases pos)
    case True
    then have "int X = int (num_val xs + num_val bs + num_val ws)" using X by simp
    then have "X = num_val xs + num_val bs + num_val ws" by (simp only: of_nat_eq_iff)
    then show ?thesis using middle_sum_plus [of ps xs bs ws 0 ds c] len sum True by simp
  next
    case False
    then have v: "length ds = n" "sint c \<in> {- 1..2}" "int (num_val ds) + int (num_bound n) * sint c = int (num_val ps) + int X"
      using middle_sum_minus [of ps xs bs ws 0 ds c] len sum X by auto
    have "0 \<le> sint c"
    proof (rule ccontr)
      assume "\<not> 0 \<le> sint c"
      then have "sint c = - 1" using v(2) by simp
      then have "int (num_val ds) + int (num_bound n) * (- 1) = int (num_val ps) + int X" using v(3) by (simp only:)
      moreover have "int (num_val ds) < int (num_bound n)" using num_val_bound [of ds] v(1) by (simp only: of_nat_less_iff)
      ultimately show False by linarith
    qed
    then have "c = of_nat (nat (sint c))" "nat (sint c) < 2 ^ 64" using v(2) by (simp_all add: nat_less_iff)
    then have c: "sint c = int (unat c)" using unat_word_sum [of c "nat (sint c)"] \<open>0 \<le> sint c\<close> by simp
    have "int (num_val ds + num_bound n * unat c) = int (num_val ps + X)" using v(3) by (simp add: c)
    then have "num_val ds + num_bound n * unat c = num_val ps + X" by (simp only: of_nat_eq_iff)
    moreover have "unat c \<le> 3" using v(2) c unfolding atLeastAtMost_iff by linarith
    ultimately show ?thesis using v(1) by blast
  qed
  then show "length ds = n" "unat c \<le> 3" "num_val ds + num_bound n * unat c = num_val ps + X" by simp_all
qed

text \<open>Adding \<open>X\<close> at the position \<open>len\<close>, as long as the sum fits into the array.\<close>

lemma middle_added:
  assumes "length pr = len + n + k" "length mid = n" "unat rem \<le> 3"
    and "num_val mid + num_bound n * unat rem = num_val (take n (drop len pr)) + X"
    and "num_val pr + num_bound len * X < num_bound (length pr)"
  defines "r \<equiv> take len pr @ mid @ addeq_loop rem (drop (len + n) pr)"
  shows "length r = length pr" "num_val r = num_val pr + num_bound len * X"
proof -
  let ?hi = "drop (len + n) pr"
  have l: "length (take len pr) = len" "length (take n (drop len pr)) = n" "length ?hi = k" using assms(1) by simp_all
  have "pr = take len pr @ take n (drop len pr) @ ?hi" 
    by (metis add.commute append_take_drop_id drop_drop)
  then have "num_val pr = num_val (take len pr @ take n (drop len pr) @ ?hi)" by (rule arg_cong)
  then have p: "num_val pr = num_val (take len pr) + num_bound len * (num_val (take n (drop len pr)) + num_bound n * num_val ?hi)"
    by (simp only: num_val_append l)
  have t: "num_val pr + num_bound len * X =
      num_val (take len pr) + num_bound len * (num_val mid + num_bound n * (num_val ?hi + unat rem))"
    unfolding p using arg_cong [OF assms(4), of "\<lambda>x. num_bound len * x"] by (simp add: algebra_simps)
  have "num_bound len * (num_bound n * (num_val ?hi + unat rem)) < num_bound len * (num_bound n * num_bound k)"
    using t assms(5) by (simp add: assms(1) power_add algebra_simps)
  then have "num_val ?hi + unat rem < num_bound (length ?hi)" unfolding l(3) by simp
  then have v: "length (addeq_loop rem ?hi) = k" "num_val (addeq_loop rem ?hi) = num_val ?hi + unat rem"
    using addeq_loop_val [of rem ?hi] assms(3) l(3) by simp_all
  show "length r = length pr" using v(1) assms(1,2) by (simp add: r_def)
  show "num_val r = num_val pr + num_bound len * X" unfolding t r_def num_val_append l(1) assms(2) v(2) ..
qed

lemma karatsuba_val:
  "length mul1 = length mul2 \<Longrightarrow>
   length (dfsrsa_karatsuba_mul mul1 mul2) = 2 * length mul1 \<and>
   num_val (dfsrsa_karatsuba_mul mul1 mul2) = num_val mul1 * num_val mul2"
proof (induction "length mul1" arbitrary: mul1 mul2 rule: less_induct)
  case less
  show ?case
  proof (cases "odd (length mul1) \<or> length mul1 < KARATSUBA_TRESHOLD")
    case True
    then show ?thesis using less.prems by (simp add: dfsrsa_karatsuba_mul.simps [of mul1] dfsrsa_mul_val)
  next
    case False
    define len where "len = length mul1 div 2"
    have len: "length mul1 = 2 * len" "length mul2 = 2 * len" "0 < len" using False less.prems by (auto simp: len_def KARATSUBA_TRESHOLD_def)
    define l1 h1 l2 h2 where p: "l1 = take len mul1" "h1 = drop len mul1" "l2 = take len mul2" "h2 = drop len mul2"
    have l: "length l1 = len" "length h1 = len" "length l2 = len" "length h2 = len" using len by (simp_all add: p)
    obtain s1 d1 s2 d2 where d: "half_difference l1 h1 = (s1, d1)" "half_difference l2 h2 = (s2, d2)" by fastforce
    note d1 = half_difference_val [OF _ d(1)] and d2 = half_difference_val [OF _ d(2)]
    define work low high where w: "work = dfsrsa_karatsuba_mul d1 d2" "low = dfsrsa_karatsuba_mul l1 l2" "high = dfsrsa_karatsuba_mul h1 h2"
    have IH: "length (dfsrsa_karatsuba_mul x y) = 2 * len \<and> num_val (dfsrsa_karatsuba_mul x y) = num_val x * num_val y"
      if "length x = len" "length y = len" for x y using less.hyps [of x y] that len by simp
    have wv: "length work = 2 * len" "num_val work = num_val d1 * num_val d2" "length low = 2 * len" "num_val low = num_val l1 * num_val l2"
       "length high = 2 * len" "num_val high = num_val h1 * num_val h2"
      using IH d1(1) d2(1) l by (simp_all add: w)
    obtain mid rem where m: "middle_sum (s1 \<noteq> s2) 0 (take (2 * len) (drop len (low @ high))) high low work = (mid, rem)" by fastforce
    define X where "X = num_val l1 * num_val h2 + num_val h1 * num_val l2"
    have "(int (num_val h1) - int (num_val l1)) * (int (num_val h2) - int (num_val l2)) = (if s1 \<noteq> s2 then - int (num_val work) else int (num_val work))"
      using d1(2) d2(2) l by (simp add: wv)
    then have X: "int X = int (num_val high) + int (num_val low) + (if s1 \<noteq> s2 then int (num_val work) else - int (num_val work))"
      by (simp add: X_def wv algebra_simps split: if_splits)
    have pl: "length (take (2 * len) (drop len (low @ high))) = 2 * len" using wv by simp
    note mv = middle_sum_val [OF pl wv(5,3,1) X m]
    have sq: "num_bound (2 * len) = num_bound len * num_bound len" by (simp add: mult_2 power_add)
    have v: "num_val mul1 * num_val mul2 = num_val (low @ high) + num_bound len * X"
      using num_val_split [of len mul1] num_val_split [of len mul2] len unfolding num_val_append wv(3) sq
      by (simp add: p [symmetric] wv X_def algebra_simps)
    have "num_val mul1 * num_val mul2 < num_bound (2 * len) * num_bound (2 * len)"
      using num_val_bound [of mul1] num_val_bound [of mul2] unfolding len by (rule mult_strict_mono) simp_all
    then have "num_val (low @ high) + num_bound len * X < num_bound (length (low @ high))"
      unfolding v [symmetric] length_append wv power_add .
    note r = middle_added [OF _ mv this, of len]
    have "dfsrsa_karatsuba_mul mul1 mul2 = take len (low @ high) @ mid @ addeq_loop rem (drop (len + 2 * len) (low @ high))"
      using False m d len(1) unfolding dfsrsa_karatsuba_mul.simps [of mul1] by (simp add: Let_def p w)
    then show ?thesis using r wv len v by simp
  qed
qed

text \<open>
  C21: Karatsuba multiplication gives the digits of the schoolbook multiplication,
  for numbers of any length.
\<close>

theorem karatsuba_equiv:
  assumes "length mul1 = length mul2"
  shows "dfsrsa_karatsuba_mul mul1 mul2 = dfsrsa_mul mul1 mul2"
  using karatsuba_val [OF assms] dfsrsa_mul_val [of mul1 mul2] assms by (intro num_val_inj) simp_all

theorem karatsuba_equiv_witness:
  "dfsrsa_karatsuba_mul (replicate 64 5) (replicate 64 0xFFFFFFFF) = dfsrsa_mul (replicate 64 5) (replicate 64 0xFFFFFFFF)"
  using karatsuba_equiv [of "replicate 64 5" "replicate 64 0xFFFFFFFF"] by simp

end
