(* ===== verification/Rsa_Division.thy ===== *)
theory Rsa_Division
  imports Rsa_Number
begin

text \<open>
  dfslib/dfsrsa.c: remainder and quotient of long numbers.  The loops are partial
  functions, whose value is None if they do not end; it is proved that they end.
\<close>

section \<open>Operations\<close>

text \<open>The divisors \<open>div1\<close> and \<open>div2\<close> for estimates from one and from two digits; \<open>dv\<close> without leading zeros.\<close>

definition div_words :: "dfsrsa_num \<Rightarrow> u64 \<times> u64" where
  "div_words dv =
     (let len = length dv; div1 = ucast (dv ! (len - 1)) in
      if len > 1 then
        (let div2 = push_bit 32 div1 OR ucast (dv ! (len - 2)) in (div1 + 1, if len > 2 then div2 + 1 else div2))
      else (div1, 0))"

definition quot_digit :: "u64 \<Rightarrow> u64 \<Rightarrow> u64" where
  "quot_digit mod0 div0 = (let mod0 = mod0 div div0 in if mod0 = 0 then 1 else mod0)"

text \<open>One round of the loop: where to subtract which multiple of \<open>dv\<close>, or None for a break.\<close>

definition mod_digit :: "dfsrsa_num \<Rightarrow> nat \<Rightarrow> dfsrsa_num \<Rightarrow> (nat \<times> u64) option" where
  "mod_digit md mlen dv =
     (let len = length dv; (div1, div2) = div_words dv in
      if mlen < len then None
      else
        (let offset = mlen - len; res = dfsrsa_cmp (take len (drop offset md)) dv; mod0 = ucast (md ! (mlen - 1)) in
         if res < 0 then
           (if offset = 0 then None
            else Some (offset - 1, quot_digit (push_bit 32 mod0 OR ucast (md ! (mlen - 2))) div1))
         else if len > 1 \<and> div2 \<noteq> 0 then Some (offset, quot_digit (push_bit 32 mod0 OR ucast (md ! (mlen - 2))) div2)
         else Some (offset, quot_digit mod0 div1)))"

definition mulsub_at :: "nat \<Rightarrow> dfsrsa_num \<Rightarrow> dfsrsa_num \<Rightarrow> u32 \<Rightarrow> dfsrsa_num" where
  "mulsub_at offset md dv q = take offset md @ dfsrsa_mulsub (drop offset md) dv q"

partial_function (option) mod_loop :: "dfsrsa_num \<Rightarrow> nat \<Rightarrow> dfsrsa_num \<Rightarrow> dfsrsa_num option" where
  "mod_loop dv mlen md =
     (let mlen = dfsrsa_getlen (take mlen md) in
      case mod_digit md mlen dv of
        None \<Rightarrow> Some md
      | Some (offset, q) \<Rightarrow> mod_loop dv mlen (mulsub_at offset md dv (ucast q)))"

text \<open>The result of the code is -1 for a division by 0, else 0; with it the new contents of \<open>md\<close>.\<close>

definition dfsrsa_mod :: "dfsrsa_num \<Rightarrow> dfsrsa_num \<Rightarrow> (int \<times> dfsrsa_num) option" where
  "dfsrsa_mod md dv =
     (let len = dfsrsa_getlen dv in
      if len = 0 then Some (- 1, md)
      else map_option (\<lambda>md. (0, md)) (mod_loop (take len dv) (length md) md))"

partial_function (option) divmod_loop ::
  "dfsrsa_num \<Rightarrow> nat \<Rightarrow> dfsrsa_num \<Rightarrow> dfsrsa_num \<Rightarrow> (dfsrsa_num \<times> dfsrsa_num) option" where
  "divmod_loop dv mlen md qt =
     (let mlen = dfsrsa_getlen (take mlen md) in
      case mod_digit md mlen dv of
        None \<Rightarrow> Some (md, qt)
      | Some (offset, q) \<Rightarrow>
          divmod_loop dv mlen (mulsub_at offset md dv (ucast q))
            (take offset qt @ dfsrsa_addeq (take (mlen - offset) (drop offset qt)) (ucast q) @ drop mlen qt))"

definition dfsrsa_divmod :: "dfsrsa_num \<Rightarrow> dfsrsa_num \<Rightarrow> dfsrsa_num \<Rightarrow> (int \<times> dfsrsa_num \<times> dfsrsa_num) option" where
  "dfsrsa_divmod md dv qt =
     (let len = dfsrsa_getlen dv in
      if len = 0 then Some (- 1, md, qt)
      else map_option (\<lambda>r. (0, r)) (divmod_loop (take len dv) (length md) md (dfsrsa_set (length md) 0)))"

section \<open>The estimate of a digit\<close>

lemma estimate_le:
  fixes D M :: nat
  assumes "D \<le> e * num_bound j" "N * num_bound (off + j) \<le> M"
  shows "N div e * D * num_bound off \<le> M"
proof -
  have "N div e * D * num_bound off \<le> N div e * (e * num_bound j) * num_bound off" using assms(1) by (intro mult_mono) simp_all
  also have "\<dots> = N div e * e * num_bound (off + j)" by (simp add: power_add)
  also have "\<dots> \<le> N * num_bound (off + j)" by (intro mult_right_mono) simp_all
  finally show ?thesis using assms(2) by simp
qed

lemma quot_digit_le:
  fixes D M :: nat
  assumes "D \<le> unat e * num_bound j" "unat N * num_bound (off + j) \<le> M" "D * num_bound off \<le> M"
  shows "unat (quot_digit N e) * D * num_bound off \<le> M" "1 \<le> unat (quot_digit N e)"
proof -
  have "unat (quot_digit N e) = (if unat N div unat e = 0 then 1 else unat N div unat e)"
    by (simp add: quot_digit_def Let_def unat_div word_unat_eq_iff)
  then show "unat (quot_digit N e) * D * num_bound off \<le> M" "1 \<le> unat (quot_digit N e)"
    using estimate_le [OF assms(1,2)] assms(3) by (simp_all only:) simp_all
qed

lemma num_val_div_words:
  assumes "0 < length dv" "div_words dv = (div1, div2)"
  shows "num_val dv \<le> unat div1 * num_bound (length dv - 1)"
    and "1 < length dv \<Longrightarrow> div2 \<noteq> 0 \<Longrightarrow> num_val dv \<le> unat div2 * num_bound (length dv - 2)"
proof -
  let ?t = "dv ! (length dv - 1)" and ?u = "dv ! (length dv - 2)"
  note t = last_digits(1) [OF assms(1)] and u = last_digits(2) [of dv]
  have s: "unat (ucast ?t + 1 :: u64) = unat ?t + 1"
    using u32_bound [of ?t] by (intro unat_word_sum) simp_all
  show "num_val dv \<le> unat div1 * num_bound (length dv - 1)"
  proof (cases "1 < length dv")
    case True
    then have "unat div1 = unat ?t + 1" using assms(2) s by (auto simp: div_words_def Let_def)
    then show ?thesis using num_val_less_drop [of "length dv - 1" dv] by (simp add: t del: One_nat_def)
  next
    case False
    then obtain d where "dv = [d]" using assms(1) by (cases dv) auto
    then show ?thesis using assms(2) by (auto simp: div_words_def Let_def unat_ucast_digit)
  qed
  assume l: "1 < length dv" and nz: "div2 \<noteq> 0"
  let ?d = "push_bit 32 (ucast ?t) OR ucast ?u :: u64"
  have two: "num_val (drop (length dv - 2) dv) = unat ?d" unfolding u [OF l] unat_two_digits by simp
  show "num_val dv \<le> unat div2 * num_bound (length dv - 2)"
  proof (cases "2 < length dv")
    case True
    then have "div2 = ?d + 1" using assms(2) l by (simp add: div_words_def Let_def)
    then have "unat div2 = unat ?d + 1" using nz unatSuc [of ?d] by (simp only: add.commute) simp
    then show ?thesis using num_val_less_drop [of "length dv - 2" dv] two by simp
  next
    case False
    then have d: "length dv = 2" using l by simp
    then have "div2 = ?d" using assms(2) by (simp add: div_words_def Let_def)
    then show ?thesis using two d by simp
  qed
qed

text \<open>The round in terms of the value of the leading digits.\<close>

lemma mod_digit_cases:
  assumes "div_words dv = (div1, div2)" "mlen \<le> length md"
  defines "lead \<equiv> num_val (drop (mlen - length dv) (take mlen md))"
    and "wide \<equiv> push_bit 32 (ucast (md ! (mlen - 1))) OR ucast (md ! (mlen - 2)) :: u64"
  shows "mod_digit md mlen dv =
    (if mlen < length dv then None
     else if lead < num_val dv then (if mlen = length dv then None else Some (mlen - length dv - 1, quot_digit wide div1))
     else Some (mlen - length dv, if 1 < length dv \<and> div2 \<noteq> 0 then quot_digit wide div2 else quot_digit (ucast (md ! (mlen - 1))) div1))"
proof (cases "mlen < length dv")
  case False
  then have "take (length dv) (drop (mlen - length dv) md) = drop (mlen - length dv) (take mlen md)"
    using assms(2) by (simp add: drop_take)
  then have "dfsrsa_cmp (take (length dv) (drop (mlen - length dv) md)) dv < 0 \<longleftrightarrow> lead < num_val dv"
    using False assms(2) by (simp add: lead_def dfsrsa_cmp_val)
  then show ?thesis using False unfolding mod_digit_def assms(1) by (simp add: Let_def wide_def)
qed (simp add: mod_digit_def assms(1) Let_def)

lemma mod_digit_none:
  assumes dv: "0 < length dv" "num_bound (length dv - 1) \<le> num_val dv"
    and md: "mlen \<le> length md" "num_val (take mlen md) = num_val md" and none: "mod_digit md mlen dv = None"
  shows "num_val md < num_val dv"
proof (cases "mlen < length dv")
  case True
  then have "num_bound mlen \<le> num_bound (length dv - 1)" using dv(1) by (intro power_increasing) auto
  moreover have "num_val md < num_bound mlen" using num_val_bound [of "take mlen md"] md by simp
  ultimately show ?thesis using dv(2) by linarith
next
  case False
  obtain div1 div2 where "div_words dv = (div1, div2)" by fastforce
  from mod_digit_cases [OF this md(1)] show ?thesis using False none md(2) by (simp split: if_splits)
qed

lemma mod_digit_some:
  assumes dv: "0 < length dv" "num_bound (length dv - 1) \<le> num_val dv"
    and md: "mlen \<le> length md" "num_val (take mlen md) = num_val md" "0 < mlen \<longrightarrow> num_bound (mlen - 1) \<le> num_val md"
    and some: "mod_digit md mlen dv = Some (off, q)"
  shows "off + length dv \<le> mlen \<and> mlen \<le> Suc (off + length dv) \<and> 1 \<le> unat q \<and>
      unat q * num_val dv * num_bound off \<le> num_val md \<and> num_val md < num_val dv * num_bound (Suc off)"
proof -
  obtain div1 div2 where dw: "div_words dv = (div1, div2)" by fastforce
  note D = num_val_div_words [OF dv(1) dw] and cases = some [unfolded mod_digit_cases [OF dw md(1)]]
  let ?top = "num_val (drop (mlen - length dv) (take mlen md))"
  have le: "length dv \<le> mlen" using cases by (auto split: if_splits)
  then have pos: "0 < mlen" using dv(1) by linarith
  have H: "?top * num_bound (mlen - length dv) \<le> num_val md" "num_val md < (?top + 1) * num_bound (mlen - length dv)"
    using num_val_drop_le [of "mlen - length dv" "take mlen md"] num_val_less_drop [of "mlen - length dv" "take mlen md"] md by simp_all
  show ?thesis
  proof (cases "?top < num_val dv")
    case True
    then have c: "mlen = Suc (off + length dv)" "q = quot_digit (push_bit 32 (ucast (md ! (mlen - 1))) OR ucast (md ! (mlen - 2))) div1"
      using cases le by (auto split: if_splits)
    have "(?top + 1) * num_bound (Suc off) \<le> num_val dv * num_bound (Suc off)" using True by (intro mult_right_mono) simp_all
    then have up: "num_val md < num_val dv * num_bound (Suc off)" using H(2) c(1) by simp
    have "num_val dv * num_bound off \<le> num_bound (length dv) * num_bound off"
      using num_val_bound [of dv] by (intro mult_right_mono) simp_all
    also have "\<dots> \<le> num_val md" using md(3) pos c(1) by (simp add: power_add mult.commute)
    finally have one: "num_val dv * num_bound off \<le> num_val md" .
    have "mlen - 2 = off + (length dv - 1)" "1 < mlen" using c(1) dv(1) by linarith+
    with top_digits_le(2) [OF md(1,2)] show ?thesis
      using quot_digit_le [OF D(1) _ one] up c by (simp only:) simp
  next
    case False
    then have off: "mlen = off + length dv" "q = (if 1 < length dv \<and> div2 \<noteq> 0
        then quot_digit (push_bit 32 (ucast (md ! (mlen - 1))) OR ucast (md ! (mlen - 2))) div2
        else quot_digit (ucast (md ! (mlen - 1))) div1)" using cases le by auto
    have "num_val dv * num_bound off \<le> ?top * num_bound off" using False by (intro mult_right_mono) simp_all
    moreover have "mlen - length dv = off" using off(1) by simp
    ultimately have one: "num_val dv * num_bound off \<le> num_val md" using H(1) by (simp only: le_trans)
    have e: "mlen = (length dv - 1) + Suc off" using off(1) dv(1) by linarith
    have "num_bound mlen = num_bound (length dv - 1) * num_bound (Suc off)" by (subst e) (rule power_add)
    also have "\<dots> \<le> num_val dv * num_bound (Suc off)" using dv(2) by (rule mult_right_mono) simp
    finally have up: "num_val md < num_val dv * num_bound (Suc off)" using num_val_bound [of "take mlen md"] md by simp
    have "mlen - 2 = off + (length dv - 2)" "1 < mlen" if "1 < length dv" using off(1) that by linarith+
    moreover have "mlen - 1 = off + (length dv - 1)" using e by linarith
    ultimately have "1 \<le> unat q \<and> unat q * num_val dv * num_bound off \<le> num_val md"
      using quot_digit_le [OF D(2) _ one] quot_digit_le [OF D(1) _ one] top_digits_le [OF md(1,2)] pos unfolding off(2)
      by (cases "1 < length dv \<and> div2 \<noteq> 0") (simp_all only: if_True if_False simp_thms)
    then show ?thesis using up off(1) by simp
  qed
qed

section \<open>One round\<close>

lemma mod_step:
  assumes dv: "0 < length dv" "num_bound (length dv - 1) \<le> num_val dv"
    and md: "mlen \<le> length md" "num_val (take mlen md) = num_val md" "0 < mlen \<longrightarrow> num_bound (mlen - 1) \<le> num_val md"
      "num_val (drop mlen md) = 0"
    and some: "mod_digit md mlen dv = Some (off, q)"
  defines "md' \<equiv> mulsub_at off md dv (ucast q)"
  shows "length md' = length md" "num_val md' + unat q * num_val dv * num_bound off = num_val md" "num_val md' < num_val md"
    "num_val (take mlen md') = num_val md'" "unat (ucast q :: u32) = unat q"
proof -
  note ok = mod_digit_some [OF dv md(1-3) some]
  have D: "0 < num_val dv" using dv(2) by (rule less_le_trans [rotated]) simp
  have "unat q * num_val dv * num_bound off < num_val dv * num_bound (Suc off)" using ok by linarith
  then have "unat q * (num_val dv * num_bound off) < 2 ^ 32 * (num_val dv * num_bound off)" by (simp only: power_Suc ac_simps)
  then have "unat q < 2 ^ 32" using D by (simp only: mult_less_cancel2)
  then show u: "unat (ucast q :: u32) = unat q" by (simp add: unsigned_ucast_eq take_bit_nat_eq_self)
  let ?hi = "drop off md"
  have off: "off \<le> length md" using ok md(1) by simp
  have "unat q * num_val dv * num_bound off < (num_val ?hi + 1) * num_bound off"
    using ok num_val_less_drop [OF off] by linarith
  then have "unat q * num_val dv < num_val ?hi + 1" by (simp only: mult_less_cancel2)
  then have le: "num_val dv * unat (ucast q :: u32) \<le> num_val ?hi" by (simp add: u mult.commute)
  have "num_val (drop (Suc (length dv)) ?hi) = num_val (drop (Suc (off + length dv) - mlen) (drop mlen md))"
    using ok by (simp add: add.commute)
  then have z: "num_val (drop (Suc (length dv)) ?hi) = 0" using num_val_drop_zero [OF md(4)] by (simp only:)
  have l: "length dv \<le> length ?hi" using ok md(1) unfolding length_drop by linarith
  note v = dfsrsa_mulsub_val [OF l z le]
  show "length md' = length md" using v(1) off by (simp add: md'_def mulsub_at_def)
  have h: "num_val (dfsrsa_mulsub ?hi dv (ucast q)) + num_val dv * unat (ucast q :: u32) = num_val ?hi" using v(2) le by simp
  have "num_val md' + num_bound off * (num_val dv * unat (ucast q :: u32)) =
      num_val (take off md) + num_bound off * (num_val (dfsrsa_mulsub ?hi dv (ucast q)) + num_val dv * unat (ucast q :: u32))"
    using off by (simp add: md'_def mulsub_at_def num_val_append min_absorb2 distrib_left)
  then show v': "num_val md' + unat q * num_val dv * num_bound off = num_val md"
    unfolding h by (simp add: u num_val_split [OF off] ac_simps)
  have "0 < unat q * num_val dv * num_bound off" using ok D by simp
  then show "num_val md' < num_val md" using v' by linarith
  moreover have "num_val md < num_bound mlen" using num_val_bound [of "take mlen md"] md(1,2) by simp
  ultimately show "num_val (take mlen md') = num_val md'"
    using \<open>length md' = length md\<close> md(1) by (intro num_val_take_all) simp_all
qed

section \<open>The remainder\<close>

lemma mod_loop_val:
  assumes "0 < length dv" "num_bound (length dv - 1) \<le> num_val dv" "num_val (take k md) = num_val md"
  shows "\<exists>r. mod_loop dv k md = Some r \<and> length r = length md \<and> num_val r = num_val md mod num_val dv"
  using assms(3)
proof (induction "num_val md" arbitrary: k md rule: less_induct)
  case less
  define mlen where "mlen = dfsrsa_getlen (take k md)"
  note md = significant [OF less.prems, folded mlen_def]
  show ?case
  proof (cases "mod_digit md mlen dv")
    case None
    then show ?thesis
      using mod_digit_none [OF assms(1,2) md(1,2)] by (simp add: mod_loop.simps [of dv k md] mlen_def [symmetric])
  next
    case (Some oq)
    then obtain off q where oq: "mod_digit md mlen dv = Some (off, q)" by (cases oq) simp
    note st = mod_step [OF assms(1,2) md oq]
    have "num_val md mod num_val dv = (num_val (mulsub_at off md dv (ucast q)) + num_val dv * (unat q * num_bound off)) mod num_val dv"
      using st(2) by (simp only: ac_simps)
    then have "num_val md mod num_val dv = num_val (mulsub_at off md dv (ucast q)) mod num_val dv" by simp
    then show ?thesis
      using less.hyps [OF st(3,4)] st(1) oq by (simp add: mod_loop.simps [of dv k md] mlen_def [symmetric])
  qed
qed

lemma divisor_digits:
  assumes "num_val dv \<noteq> 0"
  defines "d \<equiv> take (dfsrsa_getlen dv) dv"
  shows "dfsrsa_getlen dv \<noteq> 0" "0 < length d" "num_bound (length d - 1) \<le> num_val d" "num_val d = num_val dv"
proof -
  show l: "dfsrsa_getlen dv \<noteq> 0" using assms(1) by (simp add: getlen_0)
  then show "0 < length d" using getlen_le [of dv] by (simp add: d_def)
  show v: "num_val d = num_val dv" by (simp add: d_def num_val_getlen)
  show "num_bound (length d - 1) \<le> num_val d" unfolding v using getlen_ge [of dv] l getlen_le [of dv] by (simp add: d_def min_absorb2)
qed

lemma dfsrsa_mod_val:
  "\<exists>r. dfsrsa_mod md dv = Some (if num_val dv = 0 then - 1 else 0, r) \<and> length r = length md \<and> num_val r = num_val md mod num_val dv"
proof (cases "num_val dv = 0")
  case True
  then show ?thesis by (simp add: dfsrsa_mod_def getlen_0)
next
  case False
  note d = divisor_digits [OF False]
  show ?thesis using mod_loop_val [OF d(2,3), of "length md" md] d(1,4) False by (auto simp: dfsrsa_mod_def)
qed

section \<open>The quotient\<close>

lemma addeq_at:
  assumes "off < mlen" "mlen \<le> length qt" "num_val qt mod num_bound (Suc off) + unat (q :: u32) * num_bound off < num_bound (Suc off)"
  defines "qt' \<equiv> take off qt @ dfsrsa_addeq (take (mlen - off) (drop off qt)) q @ drop mlen qt"
  shows "length qt' = length qt" "num_val qt' = num_val qt + unat q * num_bound off"
proof -
  define mid where "mid = take (mlen - off) (drop off qt)"
  have t: "take mlen qt = take off qt @ mid" using take_add [of off "mlen - off" qt] assms(1) by (simp add: mid_def)
  have off: "off < length qt" using assms(1,2) by simp
  obtain ms where mid: "mid = qt ! off # ms" "length ms = mlen - off - 1"
    using assms(1,2) off by (auto simp: mid_def Cons_nth_drop_Suc [symmetric] take_Cons')
  have "num_val (take (Suc off) qt) = num_val (take off qt) + num_bound off * unat (qt ! off)"
    using off by (simp add: take_Suc_conv_app_nth num_val_append min_absorb2)
  then have "num_bound off * (unat (qt ! off) + unat q) < num_bound off * 2 ^ 32"
    using assms(3) num_val_take_mod [of "Suc off" qt] off by (simp add: algebra_simps)
  then have "unat (qt ! off) + unat q < 2 ^ 32" by (simp only: mult_less_cancel1)
  then have "num_val mid + unat q < 2 ^ 32 * (num_val ms + 1)" by (simp add: mid)
  also have "\<dots> \<le> 2 ^ 32 * num_bound (length ms)" using num_val_bound [of ms] by (intro mult_left_mono) simp_all
  finally have b: "num_val mid + unat (ucast q :: u64) < num_bound (length mid)" by (simp add: mid unat_ucast_digit)
  have "unat (ucast q :: u64) < 2 ^ 32" using u32_less by (simp only: unat_ucast_digit)
  note v = addeq_loop_val [OF this b]
  have q: "qt' = (take off qt @ addeq_loop (ucast q) mid) @ drop mlen qt" by (simp add: qt'_def dfsrsa_addeq_def mid_def)
  have l: "length (take off qt @ addeq_loop (ucast q) mid) = mlen" "length (take off qt) = off" using v mid assms(1) off by simp_all
  show "length qt' = length qt" using l(1) assms(2) by (simp add: q)
  have "num_val qt' = num_val (take off qt @ mid) + num_bound off * unat q + num_bound mlen * num_val (drop mlen qt)"
    unfolding q num_val_append l using v by (simp add: unat_ucast_digit algebra_simps)
  then show "num_val qt' = num_val qt + unat q * num_bound off"
    using num_val_split [OF assms(2)] by (simp add: t mult.commute)
qed

text \<open>
  The quotient found so far is a multiple of the weight of the last position
  used, and what is still to come does not reach beyond that position.
\<close>

definition quot_inv :: "nat \<Rightarrow> nat \<Rightarrow> nat \<Rightarrow> nat \<Rightarrow> bool" where
  "quot_inv D Q M w \<longleftrightarrow> num_bound w dvd Q \<and> (Q mod num_bound (Suc w)) * D + M < num_bound (Suc w) * D"

lemma quot_inv_lower:
  assumes "quot_inv D Q M w" "D * num_bound off \<le> M" "M < D * num_bound (Suc off)"
  shows "quot_inv D Q M off"
proof -
  have "D * num_bound off < num_bound (Suc w) * D" using assms(1,2) unfolding quot_inv_def by linarith
  then have "num_bound off * D < num_bound (Suc w) * D" by (simp only: mult.commute)
  then have "num_bound off < num_bound (Suc w)" by (simp only: mult_less_cancel2)
  then have "off < Suc w" by (rule power_less_imp_less_exp [rotated]) simp
  then consider "off = w" | "Suc off \<le> w" by linarith
  then show ?thesis
  proof cases
    case 2
    then have q: "num_bound (Suc off) dvd Q" using assms(1) le_imp_power_dvd [OF 2] unfolding quot_inv_def by (blast intro: dvd_trans)
    then have "Q mod num_bound (Suc off) = 0" "num_bound off dvd Q"
      by (simp only: dvd_eq_mod_eq_0) (rule dvd_trans [OF le_imp_power_dvd q], simp)
    then show ?thesis using assms(3) unfolding quot_inv_def by (simp only: mult.commute) simp
  qed (use assms(1) in simp)
qed

lemma quot_inv_step:
  assumes "quot_inv D Q (M + q * D * num_bound off) off"
  shows "Q mod num_bound (Suc off) + q * num_bound off < num_bound (Suc off)" "quot_inv D (Q + q * num_bound off) M off"
proof -
  let ?m = "Q mod num_bound (Suc off)"
  have i: "(?m + q * num_bound off) * D + M < num_bound (Suc off) * D"
    using assms by (simp add: quot_inv_def algebra_simps)
  then have "(?m + q * num_bound off) * D < num_bound (Suc off) * D" by linarith
  then show l: "?m + q * num_bound off < num_bound (Suc off)" by (simp only: mult_less_cancel2)
  have "(Q + q * num_bound off) mod num_bound (Suc off) = ?m + q * num_bound off"
    using l by (metis mod_add_left_eq mod_less)
  then show "quot_inv D (Q + q * num_bound off) M off" using i assms by (simp add: quot_inv_def)
qed

lemma divmod_loop_val:
  assumes dv: "0 < length dv" "num_bound (length dv - 1) \<le> num_val dv"
    and "num_val (take k md) = num_val md" "length qt = length md" "quot_inv (num_val dv) (num_val qt) (num_val md) w"
  shows "\<exists>r q. divmod_loop dv k md qt = Some (r, q) \<and> length r = length md \<and> num_val r = num_val md mod num_val dv \<and>
    length q = length md \<and> num_val q = num_val qt + num_val md div num_val dv"
  using assms(3-)
proof (induction "num_val md" arbitrary: k md qt w rule: less_induct)
  case less
  define mlen where "mlen = dfsrsa_getlen (take k md)"
  note md = significant [OF less.prems(1), folded mlen_def]
  show ?case
  proof (cases "mod_digit md mlen dv")
    case None
    then show ?thesis
      using mod_digit_none [OF dv md(1,2)] less.prems(2) by (simp add: divmod_loop.simps [of dv k md] mlen_def [symmetric])
  next
    case (Some oq)
    then obtain off q where oq: "mod_digit md mlen dv = Some (off, q)" by (cases oq) simp
    note st = mod_step [OF dv md oq] and ok = mod_digit_some [OF dv md(1-3) oq]
    let ?md = "mulsub_at off md dv (ucast q)"
      and ?qt = "take off qt @ dfsrsa_addeq (take (mlen - off) (drop off qt)) (ucast q) @ drop mlen qt"
    have "num_val dv * num_bound off \<le> num_val md" using ok by (auto elim: order_trans [rotated] intro: mult_right_mono)
    then have "quot_inv (num_val dv) (num_val qt) (num_val md) off" using quot_inv_lower [OF less.prems(3)] ok by blast
    note inv = quot_inv_step [OF this [folded st(2)]]
    have "off < mlen" using ok dv(1) by linarith
    note qv = addeq_at [OF this, of qt "ucast q", unfolded st(5) less.prems(2), OF md(1) inv(1)]
    have D: "num_val dv \<noteq> 0" using dv(2) by (metis le_zero_eq power_eq_0_iff zero_neq_numeral)
    have "num_val md = num_val ?md + num_val dv * (unat q * num_bound off)" using st(2) by (simp only: ac_simps)
    then have "num_val md mod num_val dv = num_val ?md mod num_val dv"
      "num_val md div num_val dv = num_val ?md div num_val dv + unat q * num_bound off" using D by simp_all
    moreover have "\<exists>r q. divmod_loop dv mlen ?md ?qt = Some (r, q) \<and> length r = length ?md \<and> num_val r = num_val ?md mod num_val dv \<and>
      length q = length ?md \<and> num_val q = num_val ?qt + num_val ?md div num_val dv"
      using qv inv(2) st(1,3,4) less.prems(2) by (intro less.hyps) simp_all
    ultimately show ?thesis using oq st(1) qv(2) by (auto simp: divmod_loop.simps [of dv k md] mlen_def [symmetric])
  qed
qed

lemma dfsrsa_divmod_val:
  assumes "num_val dv \<noteq> 0" "md \<noteq> []"
  shows "\<exists>r q. dfsrsa_divmod md dv qt = Some (0, r, q) \<and> length r = length md \<and> num_val r = num_val md mod num_val dv \<and>
    length q = length md \<and> num_val q = num_val md div num_val dv"
proof -
  note d = divisor_digits [OF assms(1)]
  let ?d = "take (dfsrsa_getlen dv) dv"
  have "num_val md < num_bound (Suc (length md)) * 1" using num_val_bound [of md] by simp
  also have "\<dots> \<le> num_bound (Suc (length md)) * num_val ?d" using d(4) assms(1) by (intro mult_left_mono) simp_all
  finally have "num_val md < num_bound (Suc (length md)) * num_val ?d" .
  then have "quot_inv (num_val ?d) (num_val (dfsrsa_set (length md) 0)) (num_val md) (length md)"
    by (simp add: quot_inv_def num_val_set)
  from divmod_loop_val [OF d(2,3) _ _ this, of "length md"] show ?thesis
    using d(1,4) assms(2) by (auto simp: dfsrsa_divmod_def num_val_set dfsrsa_set_def Suc_le_eq)
qed

text \<open>
  C20: long division ends and is right.  A division by zero is refused with -1 and
  leaves the arrays alone; any other gives quotient and remainder, and both
  functions leave the same digits as remainder.
\<close>

theorem division_correct:
  assumes "md \<noteq> []"
  shows "if num_val dv = 0 then dfsrsa_mod md dv = Some (- 1, md) \<and> dfsrsa_divmod md dv qt = Some (- 1, md, qt)
    else \<exists>r q. dfsrsa_mod md dv = Some (0, r) \<and> dfsrsa_divmod md dv qt = Some (0, r, q) \<and>
      length r = length md \<and> length q = length md \<and> num_val md = num_val q * num_val dv + num_val r \<and> num_val r < num_val dv"
proof (cases "num_val dv = 0")
  case True
  then show ?thesis by (simp add: dfsrsa_mod_def dfsrsa_divmod_def getlen_0)
next
  case False
  obtain r where r: "dfsrsa_mod md dv = Some (0, r)" "length r = length md" "num_val r = num_val md mod num_val dv"
    using dfsrsa_mod_val [of md dv] False by auto
  obtain r' q where q: "dfsrsa_divmod md dv qt = Some (0, r', q)" "length r' = length md" "num_val r' = num_val md mod num_val dv"
      "length q = length md" "num_val q = num_val md div num_val dv"
    using dfsrsa_divmod_val [OF False assms, of qt] by blast
  have "r' = r" using r q by (intro num_val_inj) simp_all
  then show ?thesis using r q False by auto
qed

theorem division_correct_witness:
  "\<exists>r q. dfsrsa_mod [7, 0, 5] [3, 2] = Some (0, r) \<and> dfsrsa_divmod [7, 0, 5] [3, 2] [] = Some (0, r, q) \<and>
    num_val q = 0x27FFFFFFC \<and> length r = 3"
  using division_correct [of "[7, 0, 5]" "[3, 2]" "[]"] by auto

end
