(* ===== verification/Rsa_Inverse.thy ===== *)
theory Rsa_Inverse
  imports Rsa_Number "HOL-Library.Monad_Syntax"
begin

text \<open>
  dfslib/dfsrsa.c: the inverse by a modulus, with the binary extended Euclidean
  algorithm.  Its loops are partial functions; they are proved to end.
\<close>

section \<open>Operations\<close>

text \<open>Halving \<open>n\<close> until it is odd, and \<open>x\<close> with it by the odd modulus \<open>mod4\<close>.\<close>

partial_function (option) halve_loop :: "dfsrsa_num \<Rightarrow> dfsrsa_num \<Rightarrow> dfsrsa_num \<Rightarrow> (dfsrsa_num \<times> dfsrsa_num) option" where
  "halve_loop mod4 n x =
     (if hd n AND 1 \<noteq> 0 then Some (n, x)
      else
        (let n = fst (dfsrsa_shr1 n 0); (x, carry) = (if hd x AND 1 \<noteq> 0 then dfsrsa_add x mod4 else (x, 0))
         in halve_loop mod4 n (fst (dfsrsa_shr1 x (word_of_int carry)))))"

definition sub_by_mod :: "dfsrsa_num \<Rightarrow> dfsrsa_num \<Rightarrow> dfsrsa_num \<Rightarrow> dfsrsa_num" where
  "sub_by_mod mod4 x y = (let (d, borrow) = dfsrsa_sub x y in if borrow \<noteq> 0 then fst (dfsrsa_add d mod4) else d)"

partial_function (option) inverse_loop ::
  "dfsrsa_num \<Rightarrow> dfsrsa_num \<Rightarrow> dfsrsa_num \<Rightarrow> dfsrsa_num \<Rightarrow> dfsrsa_num \<Rightarrow> (dfsrsa_num \<times> dfsrsa_num) option" where
  "inverse_loop mod4 pn px qn qx =
     do {
       (pn, px) \<leftarrow> halve_loop mod4 pn px;
       (qn, qx) \<leftarrow> halve_loop mod4 qn qx;
       (if dfsrsa_cmp pn qn = 0 then Some (pn, px)
        else if dfsrsa_cmp pn qn = 1 then inverse_loop mod4 (fst (dfsrsa_sub pn qn)) (sub_by_mod mod4 px qx) qn qx
        else inverse_loop mod4 pn px (fst (dfsrsa_sub qn pn)) (sub_by_mod mod4 qx px))
     }"

partial_function (option) strip_loop :: "dfsrsa_num \<Rightarrow> u32 \<Rightarrow> (dfsrsa_num \<times> u32) option" where
  "strip_loop mod4 msk =
     (if hd mod4 AND 1 \<noteq> 0 then Some (mod4, msk) else strip_loop (fst (dfsrsa_shr1 mod4 0)) (push_bit 1 msk OR 1))"

partial_function (option) fit_loop :: "dfsrsa_num \<Rightarrow> u32 \<Rightarrow> dfsrsa_num \<Rightarrow> dfsrsa_num \<Rightarrow> dfsrsa_num option" where
  "fit_loop mod4 msk num iv =
     (if (hd num XOR hd iv) AND msk \<noteq> 0 then fit_loop mod4 msk num (fst (dfsrsa_add iv mod4)) else Some iv)"

definition dfsrsa_inverse :: "dfsrsa_num \<Rightarrow> dfsrsa_num \<Rightarrow> (int \<times> dfsrsa_num) option" where
  "dfsrsa_inverse num md =
     do {
       let len = length num;
       (mod4, msk) \<leftarrow> strip_loop md 0;
       (pn, iv) \<leftarrow> inverse_loop mod4 num (dfsrsa_set len 1) mod4 (dfsrsa_set len 0);
       (if dfsrsa_cmp pn (dfsrsa_set len 1) \<noteq> 0 then Some (- 1, iv)
        else map_option (\<lambda>iv. (0, iv)) (fit_loop mod4 msk num iv))
     }"

section \<open>Shifting\<close>

lemma unat_shifted_digit:
  assumes "(c :: u32) \<in> {0, 1}"
  shows "unat (drop_bit 1 d OR push_bit 31 c :: u32) = unat d div 2 + unat c * 2 ^ 31"
proof -
  have "drop_bit 1 d AND push_bit 31 c = 0"
    by (rule bit_eqI) (auto simp: bit_and_iff bit_push_bit_iff bit_drop_bit_eq dest: bit_imp_le_length)
  then have "drop_bit 1 d OR push_bit 31 c = drop_bit 1 d + push_bit 31 c" by (rule disjunctive_add_eq_or [symmetric])
  moreover have "unat (drop_bit 1 d + push_bit 31 c) = unat d div 2 + unat c * 2 ^ 31"
    using assms u32_bound [of d] by (auto simp: unat_word_ariths unat_drop_bit)
  ultimately show ?thesis by simp
qed

lemma unat_and_1: "unat (d AND 1 :: u32) = unat d mod 2"
  by (simp add: and_one_eq unat_mod)

lemma shr1_from_top_val:
  "c \<in> {0, 1} \<Longrightarrow> shr1_from_top c ds = (es, c') \<Longrightarrow>
   length es = length ds \<and> c' \<in> {0, 1} \<and> 2 * num_val (rev es) + unat c' = num_val (rev ds) + unat c * num_bound (length ds)"
proof (induction ds arbitrary: c es)
  case (Cons d ds)
  obtain fs where f: "shr1_from_top (d AND 1) ds = (fs, c')" "es = (drop_bit 1 d OR push_bit 31 c) # fs"
    using Cons.prems(2) by (auto split: prod.splits)
  have "d AND 1 \<in> {0, 1}" by (cases "odd d") (simp_all add: and_one_eq mod_2_eq_odd)
  note IH = Cons.IH [OF this f(1)]
  obtain dh dl where D: "unat d = 2 * dh + dl" "unat d div 2 = dh" "unat d mod 2 = dl"
    using mult_div_mod_eq [of 2 "unat d"] by metis
  note sh = unat_shifted_digit [OF Cons.prems(1), of d]
  have "2 * num_val (rev es) + unat c' = num_val (rev (d # ds)) + unat c * num_bound (length (d # ds))"
    using IH unfolding unat_and_1 D(3) f(2) rev.simps num_val_append num_val.simps sh D(2) unfolding D(1) by (simp add: algebra_simps)
  then show ?case using IH f(2) by simp
qed auto

lemma shr1_val:
  assumes "c \<in> {0, 1}" "dfsrsa_shr1 num c = (es, c')"
  shows "length es = length num" "2 * num_val es + unat c' = num_val num + unat c * num_bound (length num)" "unat c' \<le> 1"
proof -
  obtain fs where f: "shr1_from_top c (rev num) = (fs, c')" "es = rev fs" using assms(2) by (auto simp: dfsrsa_shr1_def split: prod.splits)
  from shr1_from_top_val [OF assms(1) f(1)] f(2)
  show "length es = length num" "2 * num_val es + unat c' = num_val num + unat c * num_bound (length num)" "unat c' \<le> 1" by auto
qed

lemma hd_parity: "xs \<noteq> [] \<Longrightarrow> hd xs AND 1 \<noteq> (0 :: u32) \<longleftrightarrow> odd (num_val xs)"
  using unat_and_1 [of "hd xs"] by (cases xs) (simp_all add: word_unat_eq_iff odd_iff_mod_2_eq_one)

lemma shr1_even:
  assumes "even (num_val num)"
  shows "length (fst (dfsrsa_shr1 num 0)) = length num" "2 * num_val (fst (dfsrsa_shr1 num 0)) = num_val num"
proof -
  obtain es c where e: "dfsrsa_shr1 num 0 = (es, c)" by fastforce
  note v = shr1_val [OF _ e]
  show "length (fst (dfsrsa_shr1 num 0)) = length num" using v(1) e by simp
  have "unat c = 0" using v(2,3) assms by simp presburger
  then show "2 * num_val (fst (dfsrsa_shr1 num 0)) = num_val num" using v(2) e by simp
qed

text \<open>Halving by an odd modulus: a number or its sum with the modulus is even.\<close>

lemma half_by_mod:
  assumes "odd (num_val mod4)" "num_val x < num_val mod4" "length x = length mod4"
    and "(if hd x AND 1 \<noteq> 0 then dfsrsa_add x mod4 else (x, 0)) = (y, carry)"
  defines "z \<equiv> fst (dfsrsa_shr1 y (word_of_int carry))"
  shows "length z = length mod4" "2 * num_val z = num_val x + (if odd (num_val x) then num_val mod4 else 0)" "num_val z < num_val mod4"
proof -
  have ne: "x \<noteq> []" using assms(1,3) by auto
  have y: "length y = length mod4" "carry \<in> {0, 1}"
    "num_val y + num_bound (length y) * nat carry = num_val x + (if odd (num_val x) then num_val mod4 else 0)"
    using assms(3,4) hd_parity [OF ne] dfsrsa_add_val [OF assms(3), of y carry] by (auto split: if_splits)
  obtain c where c: "dfsrsa_shr1 y (word_of_int carry) = (z, c)" by (cases "dfsrsa_shr1 y (word_of_int carry)") (simp add: z_def)
  have w: "(word_of_int carry :: u32) \<in> {0, 1}" "unat (word_of_int carry :: u32) = nat carry" using y(2) by auto
  note v = shr1_val [OF w(1) c]
  have e: "2 * num_val z + unat c = num_val x + (if odd (num_val x) then num_val mod4 else 0)"
    using v(2) y(3) w(2) by (simp add: mult.commute)
  moreover have "even (num_val x + (if odd (num_val x) then num_val mod4 else 0))" using assms(1) by simp
  ultimately have "unat c = 0" using v(3) by presburger
  then show t: "2 * num_val z = num_val x + (if odd (num_val x) then num_val mod4 else 0)" using e by simp
  show "length z = length mod4" using v(1) y(1) by simp
  show "num_val z < num_val mod4" using t assms(2) by (simp split: if_splits)
qed

section \<open>The invariant\<close>

definition related :: "nat \<Rightarrow> nat \<Rightarrow> dfsrsa_num \<Rightarrow> dfsrsa_num \<Rightarrow> nat \<Rightarrow> bool" where
  "related m N n x l \<longleftrightarrow> length n = l \<and> length x = l \<and> 0 < num_val n \<and> num_val x < m \<and>
     int m dvd int (num_val n) - int (num_val x) * int N"

lemma halve_loop_ok:
  assumes "odd (num_val mod4)" "related (num_val mod4) N n x (length mod4)"
  shows "\<exists>n' x' k. halve_loop mod4 n x = Some (n', x') \<and> related (num_val mod4) N n' x' (length mod4) \<and>
    odd (num_val n') \<and> num_val n = 2 ^ k * num_val n'"
  using assms(2)
proof (induction "num_val n" arbitrary: n x rule: less_induct)
  case less
  note r = less.prems [unfolded related_def]
  have ne: "n \<noteq> []" using r by auto
  show ?case
  proof (cases "odd (num_val n)")
    case True
    then have "halve_loop mod4 n x = Some (n, x)" using hd_parity [OF ne] by (simp add: halve_loop.simps [of mod4 n])
    moreover have "num_val n = 2 ^ 0 * num_val n" by simp
    ultimately show ?thesis using less.prems True by blast
  next
    case False
    obtain y carry where y: "(if hd x AND 1 \<noteq> 0 then dfsrsa_add x mod4 else (x, 0)) = (y, carry)" by fastforce
    let ?n = "fst (dfsrsa_shr1 n 0)" and ?x = "fst (dfsrsa_shr1 y (word_of_int carry))"
    have n: "length ?n = length n" "num_val n = 2 * num_val ?n" using shr1_even [of n] False by simp_all
    have x: "length ?x = length mod4" "2 * num_val ?x = num_val x + (if odd (num_val x) then num_val mod4 else 0)" "num_val ?x < num_val mod4"
      using half_by_mod [OF assms(1) _ _ y] r by simp_all
    have "2 * (int (num_val ?n) - int (num_val ?x) * int N) = int (2 * num_val ?n) - int (2 * num_val ?x) * int N"
      by (simp add: algebra_simps)
    also have "\<dots> = (int (num_val n) - int (num_val x) * int N) - int (num_val mod4) * (if odd (num_val x) then int N else 0)"
      unfolding x(2) n(2) [symmetric] by (simp add: algebra_simps)
    finally have dvd: "int (num_val mod4) dvd 2 * (int (num_val ?n) - int (num_val ?x) * int N)" using r by simp
    have cop: "coprime (int (num_val mod4)) 2" using assms(1) by simp
    note dvd [unfolded coprime_dvd_mult_right_iff [OF cop]]
    then have rel: "related (num_val mod4) N ?n ?x (length mod4)" using r n x by (simp add: related_def)
    have "num_val ?n < num_val n" using n(2) r by linarith
    from less.hyps [OF this rel] obtain n' x' k where IH: "halve_loop mod4 ?n ?x = Some (n', x')"
      "related (num_val mod4) N n' x' (length mod4)" "odd (num_val n')" "num_val ?n = 2 ^ k * num_val n'" by blast
    have "halve_loop mod4 n x = halve_loop mod4 ?n ?x" using hd_parity [OF ne] False y by (simp add: halve_loop.simps [of mod4 n] Let_def)
    moreover have "num_val n = 2 ^ Suc k * num_val n'" using n(2) IH(4) by simp
    ultimately show ?thesis using IH by metis
  qed
qed

lemma sub_by_mod_val:
  assumes "length x = length mod4" "length y = length mod4" "num_val x < num_val mod4" "num_val y < num_val mod4"
  shows "length (sub_by_mod mod4 x y) = length mod4" "num_val (sub_by_mod mod4 x y) < num_val mod4"
    "int (num_val mod4) dvd int (num_val (sub_by_mod mod4 x y)) - (int (num_val x) - int (num_val y))"
proof -
  obtain d b where d: "dfsrsa_sub x y = (d, b)" by fastforce
  obtain e c where e: "dfsrsa_add d mod4 = (e, c)" by fastforce
  have l: "length x = length y" using assms by simp
  note v = dfsrsa_sub_val [OF l d]
  have ld: "length d = length mod4" using v(1) assms by simp
  note w = dfsrsa_add_val [OF ld e]
  have "length (sub_by_mod mod4 x y) = length mod4 \<and>
    int (num_val (sub_by_mod mod4 x y)) = int (num_val x) - int (num_val y) + (if num_val x < num_val y then int (num_val mod4) else 0)"
  proof (cases "num_val x < num_val y")
    case True
    then have s: "sub_by_mod mod4 x y = e" using v(2) by (simp add: sub_by_mod_def d e)
    have t: "num_val d + num_val y = num_val x + num_bound (length d)" using v(1,3) True by simp
    then have "num_val e + num_bound (length d) * nat c = num_bound (length d) + (num_val x + num_val mod4 - num_val y)"
      using w(2) assms(4) by linarith
    moreover have "num_val x + num_val mod4 - num_val y < num_bound (length d)"
      using num_val_bound [of mod4] True ld by simp
    moreover have "num_val e < num_bound (length d)" using num_val_bound [of e] w(1) by simp
    ultimately have "num_val e = num_val x + num_val mod4 - num_val y" using w(3) by auto
    then show ?thesis using True assms(4) w(1) ld by (simp add: s)
  next
    case False
    then have "sub_by_mod mod4 x y = d" using v(2) by (simp add: sub_by_mod_def d)
    then show ?thesis using False v(3) ld by simp
  qed
  then show "length (sub_by_mod mod4 x y) = length mod4" "num_val (sub_by_mod mod4 x y) < num_val mod4"
    "int (num_val mod4) dvd int (num_val (sub_by_mod mod4 x y)) - (int (num_val x) - int (num_val y))"
    using assms(3) by (auto split: if_splits)
qed

lemma related_sub:
  assumes "related (num_val mod4) N p x (length mod4)" "related (num_val mod4) N q y (length mod4)" "num_val q < num_val p"
  shows "related (num_val mod4) N (fst (dfsrsa_sub p q)) (sub_by_mod mod4 x y) (length mod4)"
    "num_val (fst (dfsrsa_sub p q)) = num_val p - num_val q"
proof -
  let ?m = "int (num_val mod4)" and ?z = "int (num_val (sub_by_mod mod4 x y))"
  note r = assms(1,2) [unfolded related_def]
  obtain d b where d: "dfsrsa_sub p q = (d, b)" by fastforce
  have l: "length p = length q" using r by simp
  note v = dfsrsa_sub_val [OF l d]
  show n: "num_val (fst (dfsrsa_sub p q)) = num_val p - num_val q" using v(3) assms(3) d by simp
  have s: "length (sub_by_mod mod4 x y) = length mod4" "num_val (sub_by_mod mod4 x y) < num_val mod4"
    "?m dvd ?z - (int (num_val x) - int (num_val y))" using sub_by_mod_val [of x mod4 y] r by simp_all
  have "int (num_val p - num_val q) - ?z * int N = (int (num_val p) - int (num_val x) * int N) -
      (int (num_val q) - int (num_val y) * int N) - (?z - (int (num_val x) - int (num_val y))) * int N"
    using assms(3) by (simp add: algebra_simps)
  moreover have "?m dvd int (num_val p) - int (num_val x) * int N" "?m dvd int (num_val q) - int (num_val y) * int N" using r by blast+
  ultimately have "?m dvd int (num_val p - num_val q) - ?z * int N" using s(3) by (simp only: dvd_diff dvd_mult2)
  then show "related (num_val mod4) N (fst (dfsrsa_sub p q)) (sub_by_mod mod4 x y) (length mod4)"
    unfolding related_def n using s v(1) r assms(3) d by simp
qed

lemma inverse_loop_ok:
  assumes odd: "odd (num_val mod4)"
    and "related (num_val mod4) N pn px (length mod4)" "related (num_val mod4) N qn qx (length mod4)"
    and "\<And>d. odd d \<Longrightarrow> d dvd num_val pn \<and> d dvd num_val qn \<longleftrightarrow> d dvd N \<and> d dvd num_val mod4"
  shows "\<exists>n x. inverse_loop mod4 pn px qn qx = Some (n, x) \<and> related (num_val mod4) N n x (length mod4) \<and>
    num_val n = gcd N (num_val mod4)"
  using assms(2-)
proof (induction "num_val pn + num_val qn" arbitrary: pn px qn qx rule: less_induct)
  case less
  let ?m = "num_val mod4"
  obtain p x k where p: "halve_loop mod4 pn px = Some (p, x)" "related ?m N p x (length mod4)" "odd (num_val p)" "num_val pn = 2 ^ k * num_val p"
    using halve_loop_ok [OF odd less.prems(1)] by blast
  obtain q y j where q: "halve_loop mod4 qn qx = Some (q, y)" "related ?m N q y (length mod4)" "odd (num_val q)" "num_val qn = 2 ^ j * num_val q"
    using halve_loop_ok [OF odd less.prems(2)] by blast
  have l: "length p = length q" using p(2) q(2) by (simp add: related_def)
  have pos: "0 < num_val p" "0 < num_val q" using p(2) q(2) by (simp_all add: related_def)
  have le: "num_val p \<le> num_val pn" "num_val q \<le> num_val qn" using p(4) q(4) by simp_all
  have D: "d dvd num_val p \<and> d dvd num_val q \<longleftrightarrow> d dvd N \<and> d dvd ?m" if "odd d" for d
  proof -
    have "coprime d (2 ^ i)" for i using that by simp
    then show ?thesis using less.prems(3) [OF that] by (simp add: p(4) q(4) coprime_dvd_mult_right_iff)
  qed
  note step = inverse_loop.simps [of mod4 pn px qn qx, unfolded p(1) q(1)]
  consider "num_val p = num_val q" | "num_val q < num_val p" | "num_val p < num_val q" by linarith
  then show ?case
  proof cases
    case 1
    have "odd (gcd N ?m)" using odd by (meson dvd_trans gcd_dvd2)
    from D [OF this] have "gcd N ?m dvd num_val p" by (simp only: gcd_dvd1 gcd_dvd2 simp_thms)
    moreover have "num_val p dvd gcd N ?m" using D [OF p(3)] 1 by simp
    ultimately have "num_val p = gcd N ?m" by (rule dvd_antisym [rotated])
    then show ?thesis using step p(2) l 1 by (simp add: dfsrsa_cmp_val)
  next
    case 2
    note r = related_sub [OF p(2) q(2) 2]
    have "num_val (fst (dfsrsa_sub p q)) + num_val q < num_val pn + num_val qn" using r(2) 2 le pos by linarith
    moreover have "d dvd num_val (fst (dfsrsa_sub p q)) \<and> d dvd num_val q \<longleftrightarrow> d dvd N \<and> d dvd ?m" if "odd d" for d
      unfolding r(2) D [OF that, symmetric] using 2 by (metis dvd_diffD dvd_diff_nat less_imp_le)
    ultimately show ?thesis using less.hyps [OF _ r(1) q(2)] step 2 l by (simp add: dfsrsa_cmp_val)
  next
    case 3
    note r = related_sub [OF q(2) p(2) 3]
    have "num_val p + num_val (fst (dfsrsa_sub q p)) < num_val pn + num_val qn" using r(2) 3 le pos by linarith
    moreover have "d dvd num_val p \<and> d dvd num_val (fst (dfsrsa_sub q p)) \<longleftrightarrow> d dvd N \<and> d dvd ?m" if "odd d" for d
      unfolding r(2) D [OF that, symmetric] using 3 by (metis dvd_diffD dvd_diff_nat less_imp_le)
    ultimately show ?thesis using less.hyps [OF _ p(2) r(1)] step 3 l by (simp add: dfsrsa_cmp_val)
  qed
qed

section \<open>The result\<close>

lemma strip_loop_ok:
  assumes "0 < num_val md" "num_val md = 2 ^ k * m" "odd m"
  shows "\<exists>mod4. strip_loop md (mask j) = Some (mod4, mask (j + k)) \<and> length mod4 = length md \<and> num_val mod4 = m"
  using assms(1,2)
proof (induction k arbitrary: md j)
  case 0
  then have "md \<noteq> []" by auto
  from hd_parity [OF this] show ?case using 0 assms(3) by (simp add: strip_loop.simps [of md])
next
  case (Suc k)
  have ne: "md \<noteq> []" and e: "even (num_val md)" using Suc.prems by auto
  note v = shr1_even [OF e]
  have "num_val (fst (dfsrsa_shr1 md 0)) = 2 ^ k * m" "0 < num_val (fst (dfsrsa_shr1 md 0))" using v(2) Suc.prems by simp_all
  then obtain mod4 where IH: "strip_loop (fst (dfsrsa_shr1 md 0)) (mask (Suc j)) = Some (mod4, mask (Suc j + k))"
    "length mod4 = length (fst (dfsrsa_shr1 md 0))" "num_val mod4 = m" using Suc.IH [of _ "Suc j"] by blast
  have "strip_loop md (mask j) = strip_loop (fst (dfsrsa_shr1 md 0)) (push_bit 1 (mask j) OR 1)"
    using hd_parity [OF ne] e by (simp add: strip_loop.simps [of md])
  also have "push_bit 1 (mask j) OR 1 = (mask (Suc j) :: u32)" by (simp add: mask_Suc_double or.commute mult.commute)
  finally show ?case using IH v(1) by simp
qed

lemma low_bits_agree:
  assumes "xs \<noteq> []" "ys \<noteq> []" "k \<le> 32"
  shows "(hd xs XOR hd ys) AND mask k = (0 :: u32) \<longleftrightarrow> num_val xs mod 2 ^ k = num_val ys mod 2 ^ k"
proof -
  have low: "num_val zs mod 2 ^ k = unat (take_bit k (hd zs))" if "zs \<noteq> []" for zs
  proof -
    have "(2 :: nat) ^ k dvd 2 ^ 32" using assms(3) by (rule le_imp_power_dvd)
    then have "num_val zs mod 2 ^ k = unat (hd zs) mod 2 ^ k"
      using that by (cases zs) (simp_all add: mod_add_eq [symmetric] mod_mult_left_eq dvd_imp_mod_0)
    then show ?thesis by (simp only: unsigned_take_bit_eq take_bit_nat_def)
  qed
  have "(hd xs XOR hd ys) AND mask k = 0 \<longleftrightarrow> take_bit k (hd xs) = take_bit k (hd ys)"
    by (auto simp: bit_eq_iff bit_and_iff bit_xor_iff bit_mask_iff bit_take_bit_iff)
  then show ?thesis using assms low by (simp add: word_unat_eq_iff)
qed

lemma fit_loop_ok:
  assumes "length iv = length mod4" "0 < num_val mod4" "num \<noteq> []" "k \<le> 2"
    and "num_val iv + j * num_val mod4 < num_bound (length mod4)"
    and "num_val num mod 2 ^ k = (num_val iv + j * num_val mod4) mod 2 ^ k"
  shows "\<exists>i x. i \<le> j \<and> fit_loop mod4 (mask k) num iv = Some x \<and> length x = length mod4 \<and>
    num_val x = num_val iv + i * num_val mod4 \<and> num_val num mod 2 ^ k = num_val x mod 2 ^ k"
  using assms(1,5,6)
proof (induction j arbitrary: iv)
  case 0
  then have "iv \<noteq> []" using assms(2) by auto
  from low_bits_agree [OF assms(3) this, of k] show ?case using 0 assms(4) by (simp add: fit_loop.simps [of mod4 _ num iv])
next
  case (Suc j)
  have ne: "iv \<noteq> []" using Suc.prems assms(2) by auto
  show ?case
  proof (cases "num_val num mod 2 ^ k = num_val iv mod 2 ^ k")
    case True
    have "fit_loop mod4 (mask k) num iv = Some iv"
      using True low_bits_agree [OF assms(3) ne, of k] assms(4) by (simp add: fit_loop.simps [of mod4 _ num iv])
    then show ?thesis using Suc.prems(1) True by (intro exI [of _ 0] exI [of _ iv]) simp
  next
    case False
    obtain d c where d: "dfsrsa_add iv mod4 = (d, c)" by fastforce
    note v = dfsrsa_add_val [OF Suc.prems(1) d]
    have "num_val iv + num_val mod4 < num_bound (length iv)" using Suc.prems(1,2) by simp
    then have "nat c = 0" using v(2,3) by auto
    then have n: "num_val d = num_val iv + num_val mod4" using v(2) by simp
    have "\<exists>i x. i \<le> j \<and> fit_loop mod4 (mask k) num d = Some x \<and> length x = length mod4 \<and>
        num_val x = num_val d + i * num_val mod4 \<and> num_val num mod 2 ^ k = num_val x mod 2 ^ k"
      using Suc.prems v(1) by (intro Suc.IH) (simp_all add: n algebra_simps)
    then obtain i x where x: "i \<le> j" "fit_loop mod4 (mask k) num d = Some x" "length x = length mod4"
        "num_val x = num_val d + i * num_val mod4" "num_val num mod 2 ^ k = num_val x mod 2 ^ k" by blast
    have "fit_loop mod4 (mask k) num iv = Some x"
      using False low_bits_agree [OF assms(3) ne, of k] assms(4) x(2) d by (simp add: fit_loop.simps [of mod4 _ num iv])
    then show ?thesis using x by (intro exI [of _ "Suc i"] exI [of _ x]) (simp add: n)
  qed
qed

lemma square_of_odd: "odd (n :: nat) \<Longrightarrow> k \<le> 2 \<Longrightarrow> n * n mod 2 ^ k = 1 mod 2 ^ k"
proof -
  assume n: "odd n" and "k \<le> 2"
  then obtain i where "n = 2 * i + 1" by (elim oddE)
  then have "n * n = 4 * (i * i + i) + 1" by (simp add: algebra_simps)
  then have "n * n mod 4 = 1" by simp
  moreover have "(2 :: nat) ^ k dvd 2 ^ 2" using \<open>k \<le> 2\<close> by (rule le_imp_power_dvd)
  ultimately show ?thesis using mod_mod_cancel [of "2 ^ k" 4 "n * n"] by simp
qed

lemma residue_reached:
  assumes "odd (m :: nat)" "k \<le> 2"
  shows "\<exists>j < 2 ^ k. a mod 2 ^ k = (b + j * m) mod 2 ^ k"
proof (intro exI conjI)
  let ?M = "2 ^ k :: nat" and ?j = "m * (a + 3 * b) mod 2 ^ k"
  show "?j < ?M" by simp
  have "(b + ?j * m) mod ?M = (b + m * (a + 3 * b) * m) mod ?M" by (metis mod_add_right_eq mod_mult_left_eq)
  also have "\<dots> = (b + m * m * (a + 3 * b)) mod ?M" by (simp add: ac_simps)
  also have "\<dots> = (b + (m * m mod ?M) * (a + 3 * b)) mod ?M" by (metis mod_add_right_eq mod_mult_left_eq)
  also have "\<dots> = (b + 1 * (a + 3 * b)) mod ?M" unfolding square_of_odd [OF assms] by (metis mod_add_right_eq mod_mult_left_eq)
  also have "\<dots> = (a + 2 ^ 2 * b) mod ?M" by (simp add: ac_simps)
  also have "\<dots> = (a + ?M * (2 ^ (2 - k) * b)) mod ?M" using assms(2) by (simp add: mult.assoc [symmetric] power_add [symmetric])
  finally show "a mod ?M = (b + ?j * m) mod ?M" by simp
qed

lemma residue_1:
  assumes "int m dvd int a - 1" "a mod 2 ^ k = 1 mod 2 ^ k" "odd m" "1 < m"
  shows "a mod (2 ^ k * m) = 1"
proof -
  have "int a mod int (2 ^ k) = int 1 mod int (2 ^ k)" using assms(2) by (simp only: zmod_int [symmetric])
  then have "int (2 ^ k) dvd int a - 1" by (simp only: mod_eq_dvd_iff of_nat_1)
  moreover have "coprime (int (2 ^ k)) (int m)" using assms(3) by simp
  ultimately have "int (2 ^ k * m) dvd int a - int 1" using assms(1) by (simp only: of_nat_mult divides_mult of_nat_1)
  then have "int a mod int (2 ^ k * m) = int 1 mod int (2 ^ k * m)" by (simp only: mod_eq_dvd_iff)
  then have "int (a mod (2 ^ k * m)) = int (1 mod (2 ^ k * m))" by (simp only: zmod_int)
  moreover have "1 < 2 ^ k * m" using less_le_trans [OF assms(4), of "2 ^ k * m"] by simp
  ultimately show ?thesis by (simp only: of_nat_eq_iff mod_less)
qed

lemma dfsrsa_inverse_val:
  assumes "length num = length md" "num_val md = 2 ^ k * m" "odd m" "1 < m" "k \<le> 2" "odd (num_val num)"
  shows "\<exists>e x. dfsrsa_inverse num md = Some (e, x) \<and> e = (if coprime (num_val num) (num_val md) then 0 else - 1) \<and>
    (e = 0 \<longrightarrow> length x = length md \<and> num_val x < num_val md \<and> num_val num * num_val x mod num_val md = 1)"
proof -
  have pos: "0 < num_val md" using assms(2,4) by simp
  obtain mod4 where s: "strip_loop md 0 = Some (mod4, mask k)" "length mod4 = length md" "num_val mod4 = m"
    using strip_loop_ok [OF pos assms(2,3), of 0] by auto
  have len: "length num = length mod4" "0 < length num" using s(2) assms(1,6) by auto
  have "\<exists>n x. inverse_loop mod4 num (dfsrsa_set (length num) 1) mod4 (dfsrsa_set (length num) 0) = Some (n, x) \<and>
      related (num_val mod4) (num_val num) n x (length mod4) \<and> num_val n = gcd (num_val num) (num_val mod4)"
    using assms(3,4,6) len s(3) odd_pos [OF assms(6)]
    by (intro inverse_loop_ok) (simp_all add: related_def num_val_set, simp_all add: dfsrsa_set_def)
  then obtain n iv where loop: "inverse_loop mod4 num (dfsrsa_set (length num) 1) mod4 (dfsrsa_set (length num) 0) = Some (n, iv)"
      "related m (num_val num) n iv (length mod4)" "num_val n = gcd (num_val num) m" unfolding s(3) by blast
  have rel: "length iv = length mod4" "num_val iv < m" "int m dvd int (num_val n) - int (num_val iv) * int (num_val num)" "length n = length mod4"
    using loop(2) by (simp_all add: related_def)
  have cop: "coprime (num_val num) (num_val md) \<longleftrightarrow> num_val n = 1"
    using assms(6) unfolding loop(3) coprime_iff_gcd_eq_1 [symmetric] by (simp add: assms(2))
  have cmp: "dfsrsa_cmp n (dfsrsa_set (length num) 1) \<noteq> 0 \<longleftrightarrow> num_val n \<noteq> 1"
    using rel(4) len by (subst dfsrsa_cmp_val) (auto simp: num_val_set dfsrsa_set_def)
  show ?thesis
  proof (cases "num_val n = 1")
    case False
    then show ?thesis using cop cmp s(1) loop(1) by (simp add: dfsrsa_inverse_def)
  next
    case True
    obtain j where j: "j < 2 ^ k" "num_val num mod 2 ^ k = (num_val iv + j * m) mod 2 ^ k"
      using residue_reached [OF assms(3,5)] by blast
    have up: "num_val iv + i * m < num_val md" if "i \<le> j" for i
    proof -
      have "num_val iv + i * m < Suc i * m" using rel(2) by simp
      also have "\<dots> \<le> 2 ^ k * m" using that j(1) by (intro mult_right_mono) simp_all
      finally show ?thesis by (simp add: assms(2))
    qed
    have "num_val iv + j * num_val mod4 < num_bound (length mod4)"
      using up [of j] num_val_bound [of md] s(2,3) by simp
    from fit_loop_ok [OF rel(1) _ _ assms(5) this, of num] obtain i x where x: "i \<le> j" "fit_loop mod4 (mask k) num iv = Some x"
        "length x = length mod4" "num_val x = num_val iv + i * m" "num_val num mod 2 ^ k = num_val x mod 2 ^ k"
      using j(2) assms(4) s(3) len(2) by auto
    have "int m dvd (int (num_val n) - int (num_val iv) * int (num_val num)) - int m * (int i * int (num_val num))" using rel(3) by simp
    also have "\<dots> = - (int (num_val num * num_val x) - 1)" by (simp add: True x(4) algebra_simps)
    finally have "int m dvd int (num_val num * num_val x) - 1" by (simp only: dvd_minus_iff)
    moreover have "num_val num * num_val x mod 2 ^ k = num_val num * num_val num mod 2 ^ k" using x(5) by (metis mod_mult_right_eq)
    ultimately have "num_val num * num_val x mod num_val md = 1"
      using residue_1 [OF _ _ assms(3,4)] square_of_odd [OF assms(6,5)] by (simp only: assms(2))
    then show ?thesis using cop cmp True s(1,2) loop(1) x(2,3) up [OF x(1)] x(4) by (simp add: dfsrsa_inverse_def)
  qed
qed

end
