(* ===== verification/Rsa_Crypt.thy ===== *)
theory Rsa_Crypt
  imports Rsa_Karatsuba Rsa_Division Rsa_Inverse
begin

text \<open>
  dfslib/dfsrsa.c: Montgomery reduction, powers by a modulus, and encryption of a
  message by parts.
\<close>

section \<open>Montgomery reduction\<close>

text \<open>The number \<open>k\<close> that reductions by the modulus \<open>md\<close> need; -1 for an error.\<close>

definition dfsrsa_montgomery_init :: "dfsrsa_num \<Rightarrow> (int \<times> dfsrsa_num) option" where
  "dfsrsa_montgomery_init md =
     do {
       let len = length md;
       let zero = dfsrsa_set len 0;
       (e, iv) \<leftarrow> dfsrsa_inverse (fst (dfsrsa_sub zero md)) md;
       (if e \<noteq> 0 then Some (- 1, zero)
        else do {
          (e, _, quotient) \<leftarrow> dfsrsa_divmod (zero @ iv) md (dfsrsa_set (2 * len) 0);
          Some (if e \<noteq> 0 then - 1 else 0, take len quotient)
        })
     }"

definition dfsrsa_montgomery_reduce :: "dfsrsa_num \<Rightarrow> dfsrsa_num \<Rightarrow> (int \<times> dfsrsa_num) option" where
  "dfsrsa_montgomery_reduce num md =
     map_option (\<lambda>(e, r). if e \<noteq> 0 then (- 1, num) else (0, take (length md) r))
       (dfsrsa_mod (dfsrsa_set (length md) 0 @ num) md)"

text \<open>Division of \<open>num\<close>, of twice the length, by the power \<open>R\<close> of the length of \<open>md\<close>.\<close>

definition dfsrsa_montgomery_mod :: "dfsrsa_num \<Rightarrow> dfsrsa_num \<Rightarrow> dfsrsa_num \<Rightarrow> dfsrsa_num" where
  "dfsrsa_montgomery_mod num md k =
     (let len = length md; low = take len num; high = drop len num in
      if dfsrsa_getlen low \<noteq> 0 then
        (let t = dfsrsa_karatsuba_mul low k;
             u = dfsrsa_karatsuba_mul (take len t) md;
             (r, carry) = dfsrsa_adc high (drop len u) 1
         in if carry \<noteq> 0 \<or> dfsrsa_cmp r md \<ge> 0 then fst (dfsrsa_sub r md) else r)
      else if dfsrsa_cmp high md \<ge> 0 then fst (dfsrsa_sub high md) else high)"

section \<open>Powers\<close>

definition exp_bits :: "dfsrsa_num \<Rightarrow> bool list" where
  "exp_bits exp = concat (map (\<lambda>bits. map (bit bits) (rev [0..<32])) (rev (take (dfsrsa_getlen exp) exp)))"

text \<open>The last two products stand in two areas that change their roles.\<close>

fun pow_loop ::
  "(dfsrsa_num \<Rightarrow> dfsrsa_num \<Rightarrow> dfsrsa_num option) \<Rightarrow> dfsrsa_num \<Rightarrow> bool \<Rightarrow> dfsrsa_num \<times> dfsrsa_num \<Rightarrow> bool list \<Rightarrow>
    (dfsrsa_num \<times> dfsrsa_num) option" where
  "pow_loop mulmod base flag (cur, other) [] = Some (cur, other)"
| "pow_loop mulmod base flag (cur, other) (b # bs) =
     do {
       (cur, other) \<leftarrow> (if flag then map_option (\<lambda>p. (p, cur)) (mulmod cur cur) else Some (cur, other));
       (cur, other) \<leftarrow> (if b then map_option (\<lambda>p. (p, cur)) (mulmod cur base) else Some (cur, other));
       pow_loop mulmod base (flag \<or> b) (cur, other) bs
     }"

definition plain_mulmod :: "dfsrsa_num \<Rightarrow> dfsrsa_num \<Rightarrow> dfsrsa_num \<Rightarrow> dfsrsa_num option" where
  "plain_mulmod md x y = map_option (\<lambda>(e, r). take (length md) r) (dfsrsa_mod (dfsrsa_karatsuba_mul x y) md)"

definition dfsrsa_powmod ::
  "dfsrsa_num \<Rightarrow> dfsrsa_num \<Rightarrow> dfsrsa_num \<Rightarrow> dfsrsa_num \<Rightarrow> (dfsrsa_num \<times> dfsrsa_num) option" where
  "dfsrsa_powmod other base exp md = pow_loop (plain_mulmod md) base False (dfsrsa_set (length md) 1, other) (exp_bits exp)"

definition mont_mulmod :: "dfsrsa_num \<Rightarrow> dfsrsa_num \<Rightarrow> dfsrsa_num \<Rightarrow> dfsrsa_num \<Rightarrow> dfsrsa_num option" where
  "mont_mulmod md k x y = Some (dfsrsa_montgomery_mod (dfsrsa_karatsuba_mul x y) md k)"

text \<open>The result, and the contents of the other area.\<close>

definition dfsrsa_montgomery_powmod ::
  "dfsrsa_num \<Rightarrow> dfsrsa_num \<Rightarrow> dfsrsa_num \<Rightarrow> dfsrsa_num \<Rightarrow> (dfsrsa_num \<times> dfsrsa_num) option" where
  "dfsrsa_montgomery_powmod other base exp md =
     do {
       let zero = dfsrsa_set (length md) 0;
       (e, k) \<leftarrow> dfsrsa_montgomery_init md;
       (if e \<noteq> 0 then dfsrsa_powmod other base exp md
        else do {
          (e, one) \<leftarrow> dfsrsa_montgomery_reduce (dfsrsa_set (length md) 1) md;
          (if e \<noteq> 0 then dfsrsa_powmod other base exp md
           else do {
             (e, mbase) \<leftarrow> dfsrsa_montgomery_reduce base md;
             (if e \<noteq> 0 then dfsrsa_powmod other base exp md
              else do {
                (cur, other) \<leftarrow> pow_loop (mont_mulmod md k) mbase False (one, other) (exp_bits exp);
                Some (dfsrsa_montgomery_mod (cur @ zero) md k, dfsrsa_montgomery_mod (other @ zero) md k)
              })
           })
        })
     }"

section \<open>Encryption\<close>

fun message_parts :: "nat \<Rightarrow> dfsrsa_num \<Rightarrow> dfsrsa_num list" where
  "message_parts len data = (if len = 0 \<or> data = [] then [] else take len data # message_parts len (drop len data))"

declare message_parts.simps [simp del]

text \<open>\<open>junk i\<close>: what the second area of the working memory holds when part \<open>i\<close> is reached.\<close>

fun crypt_parts :: "(nat \<Rightarrow> dfsrsa_num) \<Rightarrow> dfsrsa_num \<Rightarrow> dfsrsa_num \<Rightarrow> nat \<Rightarrow> dfsrsa_num list \<Rightarrow> dfsrsa_num option" where
  "crypt_parts junk exp md i [] = Some []"
| "crypt_parts junk exp md i (part # parts) =
     do {
       (r, _) \<leftarrow> dfsrsa_montgomery_powmod (junk i) part exp md;
       rs \<leftarrow> crypt_parts junk exp md (Suc i) parts;
       Some (r @ rs)
     }"

definition dfsrsa_crypt :: "bool \<Rightarrow> (nat \<Rightarrow> dfsrsa_num) \<Rightarrow> dfsrsa_num \<Rightarrow> dfsrsa_num \<Rightarrow> (int \<times> dfsrsa_num) option" where
  "dfsrsa_crypt malloc_ok junk data key =
     (let keylen = length key; len = keylen div 2; md = drop len key in
      if keylen = 0 \<or> odd keylen \<or> length data mod len \<noteq> 0 then Some (- 1, data)
      else if \<exists>part \<in> set (message_parts len data). dfsrsa_cmp part md \<ge> 0 then Some (- 1, data)
      else if \<not> malloc_ok then Some (- 1, data)
      else map_option (\<lambda>r. (0, r)) (crypt_parts junk (take len key) md 0 (message_parts len data)))"

section \<open>Montgomery numbers\<close>

lemma mod_cancel:
  fixes a b R N :: nat
  assumes "coprime R N" "a * R mod N = b * R mod N"
  shows "a mod N = b mod N"
proof -
  have "int (a * R) mod int N = int (b * R) mod int N" using assms(2) by (simp only: zmod_int [symmetric])
  then have "int N dvd (int a - int b) * int R" by (simp add: mod_eq_dvd_iff algebra_simps)
  moreover have cop: "coprime (int N) (int R)" using assms(1) by (simp add: coprime_commute)
  ultimately have "int N dvd int a - int b" by (simp only: coprime_dvd_mult_left_iff)
  then have "int a mod int N = int b mod int N" by (simp only: mod_eq_dvd_iff)
  then show ?thesis by (simp only: zmod_int [symmetric] of_nat_eq_iff)
qed

definition mont_ok :: "dfsrsa_num \<Rightarrow> dfsrsa_num \<Rightarrow> bool" where
  "mont_ok md k \<longleftrightarrow> odd (num_val md) \<and> 1 < num_val md \<and> length k = length md \<and>
     num_bound (length md) dvd num_val k * num_val md + 1"

lemma coprime_bound: "odd N \<Longrightarrow> coprime (num_bound len) N"
  unfolding power_mult [symmetric] by simp

lemma montgomery_init_ok:
  assumes "odd (num_val md)" "1 < num_val md"
  shows "\<exists>k. dfsrsa_montgomery_init md = Some (0, k) \<and> mont_ok md k"
proof -
  let ?len = "length md" and ?N = "num_val md"
  let ?R = "num_bound ?len" and ?zero = "dfsrsa_set ?len 0"
  have ne: "0 < ?len" using assms by (cases md) auto
  have z: "length ?zero = ?len" "num_val ?zero = 0" using ne by (simp_all add: num_val_set) (simp add: dfsrsa_set_def)
  obtain d b where d: "dfsrsa_sub ?zero md = (d, b)" by fastforce
  have dv: "length d = ?len" "num_val d + ?N = ?R" using dfsrsa_sub_val [OF z(1) d] z assms(2) by simp_all
  have "even ?R" using ne by simp
  then have od: "odd (num_val d)" using dv(2) assms(1) by presburger
  have "coprime (num_val d + ?N) ?N" unfolding dv(2) using assms(1) by (rule coprime_bound)
  then have cop: "coprime (num_val d) ?N" by (simp add: coprime_iff_gcd_eq_1)
  obtain x where x: "dfsrsa_inverse d md = Some (0, x)" "length x = ?len" "num_val x < ?N" "num_val d * num_val x mod ?N = 1"
    using dfsrsa_inverse_val [of d md 0 ?N] assms dv(1) od cop by auto
  have "(num_val d + ?N) * num_val x mod ?N = 1" using x(4) by (simp add: distrib_right)
  then have inv: "?R * num_val x mod ?N = 1" by (simp only: dv(2))
  obtain r q where q: "dfsrsa_divmod (?zero @ x) md (dfsrsa_set (2 * ?len) 0) = Some (0, r, q)" "length q = length (?zero @ x)"
      "num_val q = num_val (?zero @ x) div ?N"
    using dfsrsa_divmod_val [of md "?zero @ x"] assms ne z by fastforce
  have v: "num_val (?zero @ x) = ?R * num_val x" using z by (simp add: num_val_append)
  have "?R * num_val x < ?R * ?N" using x(3) by simp
  then have "num_val q < ?R" unfolding q(3) v using assms(2) by (simp add: div_less_iff_less_mult)
  then have k: "num_val (take ?len q) = num_val q" using q(2) z x(2) by (intro num_val_take_all) simp_all
  have "num_val q * ?N + 1 = ?R * num_val x" unfolding q(3) v using inv div_mult_mod_eq [of "?R * num_val x" ?N] by simp
  then have "mont_ok md (take ?len q)" using assms q(2) z x(2) unfolding mont_ok_def k by simp
  then show ?thesis using d x(1) q(1) by (simp add: dfsrsa_montgomery_init_def Let_def)
qed

text \<open>The product with \<open>k\<close> completes the low half to a multiple of \<open>R\<close>.\<close>

lemma montgomery_complete:
  fixes L R K N T :: nat
  assumes "R dvd K * N + 1" "0 < L" "L < R" "T = L * K mod R"
  shows "L + T * N = R * (T * N div R + 1)"
proof -
  have "(L + T * N) mod R = (L + L * K * N) mod R" unfolding assms(4) by (metis mod_add_right_eq mod_mult_left_eq)
  also have "\<dots> = L * (K * N + 1) mod R" by (simp add: algebra_simps)
  also have "\<dots> = 0" using assms(1) by (simp only: dvd_mult dvd_imp_mod_0)
  finally have "(L + T * N mod R) mod R = 0" by (simp only: mod_add_right_eq)
  then have "R dvd L + T * N mod R" by (simp only: dvd_eq_mod_eq_0)
  then obtain c where c: "L + T * N mod R = R * c" ..
  have "T * N mod R < R" using assms(2,3) by simp
  then have "R * c < R * 2" using assms(3) unfolding c [symmetric] by linarith
  then have "c < 2" by (simp only: mult_less_cancel1)
  moreover have "c \<noteq> 0" using c assms(2) by (intro notI) simp
  ultimately have "c = 1" by simp
  then have "L + T * N mod R = R" using c by simp
  then show ?thesis using mult_div_mod_eq [of R "T * N"] unfolding distrib_left mult_1_right by linarith
qed

lemma reduce_once:
  assumes "length r = length md" "num_val r + num_bound (length md) * unat (c :: u32) = s" "unat c \<le> 1" "s < 2 * num_val md"
  defines "z \<equiv> (if c \<noteq> 0 \<or> dfsrsa_cmp r md \<ge> 0 then fst (dfsrsa_sub r md) else r)"
  shows "length z = length md" "num_val z = (if s < num_val md then s else s - num_val md)"
proof -
  obtain d b where d: "dfsrsa_sub r md = (d, b)" by fastforce
  note v = dfsrsa_sub_val [OF assms(1) d]
  have N: "num_val md < num_bound (length md)" by (rule num_val_bound)
  show "length z = length md" using v(1) d assms(1) by (simp add: z_def)
  show "num_val z = (if s < num_val md then s else s - num_val md)"
  proof (cases "c = 0")
    case True
    then show ?thesis using assms(1,2) v(3) d by (auto simp: z_def dfsrsa_cmp_val)
  next
    case False
    then have "unat c = 1" using assms(3) by (simp add: word_unat_eq_iff)
    then have "num_val r + num_bound (length md) = s" using assms(2) by simp
    then show ?thesis using assms(1,4) v(3) d False N by (simp add: z_def)
  qed
qed

lemma montgomery_mod_ok:
  assumes "mont_ok md k" "length num = 2 * length md" "num_val num < num_val md * num_bound (length md)"
  defines "r \<equiv> dfsrsa_montgomery_mod num md k"
  shows "length r = length md" "num_val r < num_val md" "num_val r * num_bound (length md) mod num_val md = num_val num mod num_val md"
proof -
  let ?len = "length md" and ?N = "num_val md"
  let ?R = "num_bound ?len" and ?L = "num_val (take ?len num)" and ?H = "num_val (drop ?len num)"
  have V: "num_val num = ?L + ?R * ?H" using num_val_split [of ?len num] assms(2) by simp
  have "?R * ?H < ?R * ?N" using assms(3) unfolding V mult.commute [of ?N] by linarith
  then have H: "?H < ?N" by (simp only: mult_less_cancel1)
  have lh: "length (take ?len num) = ?len" "length (drop ?len num) = ?len" using assms(2) by simp_all
  have "length r = ?len \<and> num_val r < ?N \<and> num_val r * ?R mod ?N = num_val num mod ?N"
  proof (cases "?L = 0")
    case True
    then have "r = drop ?len num"
      using H lh by (simp add: r_def dfsrsa_montgomery_mod_def getlen_0 dfsrsa_cmp_val)
    then show ?thesis using H lh V True by (simp add: mult.commute)
  next
    case False
    let ?T = "take ?len (dfsrsa_karatsuba_mul (take ?len num) k)"
    let ?u = "dfsrsa_karatsuba_mul ?T md"
    have k: "length k = ?len" "?R dvd num_val k * ?N + 1" using assms(1) by (simp_all add: mont_ok_def)
    have t: "length (dfsrsa_karatsuba_mul (take ?len num) k) = 2 * ?len" "num_val (dfsrsa_karatsuba_mul (take ?len num) k) = ?L * num_val k"
      using karatsuba_val [of "take ?len num" k] lh k(1) by simp_all
    have T: "length ?T = ?len" "num_val ?T = ?L * num_val k mod ?R" using num_val_take_mod [of ?len] t by simp_all
    have u: "length ?u = 2 * ?len" "num_val ?u = num_val ?T * ?N" using karatsuba_val [of ?T md] T(1) by simp_all
    have hi: "length (drop ?len ?u) = ?len" "num_val (drop ?len ?u) = num_val ?T * ?N div ?R"
      using num_val_split [of ?len ?u] num_val_bound [of "take ?len ?u"] u by simp_all
    obtain s c where sc: "dfsrsa_adc (drop ?len num) (drop ?len ?u) 1 = (s, c)" by fastforce
    have lu: "length (drop ?len num) = length (drop ?len ?u)" using lh hi(1) by simp
    note sv = dfsrsa_adc_val [OF lu sc, unfolded lh(2)]
    let ?S = "?H + num_val ?T * ?N div ?R + 1"
    have "?L < ?R" using num_val_bound [of "take ?len num"] lh(1) by simp
    from montgomery_complete [OF k(2) _ this T(2)] False
    have "?L + num_val ?T * ?N = ?R * (num_val ?T * ?N div ?R + 1)" by blast
    then have S: "?R * ?S = num_val num + num_val ?T * ?N" unfolding V by (simp add: algebra_simps)
    have "num_val ?T * ?N \<le> ?R * ?N" using num_val_bound [of ?T] T(1) by (intro mult_right_mono) simp_all
    then have "?R * ?S < ?R * (2 * ?N)" unfolding S using assms(3) mult.commute [of ?N ?R] by linarith
    then have S2: "?S < 2 * ?N" by (simp only: mult_less_cancel1)
    have "r = (if c \<noteq> 0 \<or> dfsrsa_cmp s md \<ge> 0 then fst (dfsrsa_sub s md) else s)"
      using False sc by (simp add: r_def dfsrsa_montgomery_mod_def getlen_0 Let_def)
    note rv = reduce_once [OF sv(1) _ sv(3) S2, folded this]
    have r: "length r = ?len" "num_val r = (if ?S < ?N then ?S else ?S - ?N)" using rv sv(2) hi(2) by simp_all
    obtain j where j: "?S = num_val r + j * ?N" using r(2) by (cases "?S < ?N") (auto intro: that [of 0] that [of 1])
    have "?R * ?S = num_val r * ?R + j * ?R * ?N" unfolding j by (simp add: algebra_simps)
    then have "num_val r * ?R mod ?N = ?R * ?S mod ?N" by (simp only: mod_mult_self1)
    moreover have "num_val r < ?N" using r(2) S2 by (simp only: split: if_splits) linarith+
    ultimately show ?thesis using r(1) unfolding S by simp
  qed
  then show "length r = length md" "num_val r < num_val md" "num_val r * num_bound (length md) mod num_val md = num_val num mod num_val md"
    by blast+
qed

lemma montgomery_reduce_ok:
  assumes "num_val md \<noteq> 0" "length num = length md"
  shows "\<exists>r. dfsrsa_montgomery_reduce num md = Some (0, r) \<and> length r = length md \<and>
    num_val r = num_val num * num_bound (length md) mod num_val md"
proof -
  let ?n = "dfsrsa_set (length md) 0 @ num"
  have ne: "md \<noteq> []" using assms(1) by auto
  have z: "length (dfsrsa_set (length md) 0) = length md" using ne by (simp add: dfsrsa_set_def Suc_le_eq)
  have v: "num_val ?n = num_val num * num_bound (length md)" using z by (simp add: num_val_append num_val_set mult.commute)
  obtain r where r: "dfsrsa_mod ?n md = Some (0, r)" "length r = length ?n" "num_val r = num_val ?n mod num_val md"
    using dfsrsa_mod_val [of ?n md] assms(1) by auto
  have "num_val r < num_bound (length md)" using r(3) num_val_bound [of md] mod_less_divisor [of "num_val md" "num_val ?n"] assms(1) by linarith
  then have "num_val (take (length md) r) = num_val r" using r(2) z by (intro num_val_take_all) simp_all
  then show ?thesis using r z v by (simp add: dfsrsa_montgomery_reduce_def)
qed

section \<open>Powers\<close>

text \<open>Numbers that stand for residues, and a product of such numbers.\<close>

locale residue_numbers =
  fixes stands :: "nat \<Rightarrow> dfsrsa_num \<Rightarrow> bool" and mulmod :: "dfsrsa_num \<Rightarrow> dfsrsa_num \<Rightarrow> dfsrsa_num option"
  assumes mulmod_stands: "stands a x \<Longrightarrow> stands b y \<Longrightarrow> \<exists>z. mulmod x y = Some z \<and> stands (a * b) z"
begin

lemma pow_loop_stands:
  assumes "stands a base" "stands (a ^ e) cur" "\<not> flag \<Longrightarrow> e = 0"
  shows "\<exists>c z. pow_loop mulmod base flag (cur, other) bs = Some (c, z) \<and> stands (a ^ foldl (\<lambda>e b. 2 * e + of_bool b) e bs) c"
  using assms(2,3)
proof (induction bs arbitrary: e flag cur other)
  case (Cons b bs)
  obtain c1 z1 where sq: "(if flag then map_option (\<lambda>p. (p, cur)) (mulmod cur cur) else Some (cur, other)) = Some (c1, z1)"
    "stands (a ^ (2 * e)) c1"
    using mulmod_stands [OF Cons.prems(1) Cons.prems(1)] Cons.prems by (cases flag) (auto simp: mult_2 power_add)
  obtain c2 z2 where ml: "(if b then map_option (\<lambda>p. (p, c1)) (mulmod c1 base) else Some (c1, z1)) = Some (c2, z2)"
    "stands (a ^ (2 * e + of_bool b)) c2"
    using mulmod_stands [OF sq(2) assms(1)] sq(2) by (cases b) (auto simp: mult.commute)
  show ?case using Cons.IH [OF ml(2), of "flag \<or> b" z2] Cons.prems(2) sq(1) ml(1) by auto
qed auto

end

definition plain_stands :: "dfsrsa_num \<Rightarrow> nat \<Rightarrow> dfsrsa_num \<Rightarrow> bool" where
  "plain_stands md a x \<longleftrightarrow> num_val md \<noteq> 0 \<and> length x = length md \<and> num_val x = a mod num_val md"

definition mont_stands :: "dfsrsa_num \<Rightarrow> dfsrsa_num \<Rightarrow> nat \<Rightarrow> dfsrsa_num \<Rightarrow> bool" where
  "mont_stands md k a x \<longleftrightarrow> mont_ok md k \<and> length x = length md \<and> num_val x = a * num_bound (length md) mod num_val md"

interpretation plain: residue_numbers "plain_stands md" "plain_mulmod md" for md
proof
  fix a b x y
  assume xy: "plain_stands md a x" "plain_stands md b y"
  then have p: "length (dfsrsa_karatsuba_mul x y) = 2 * length md" "num_val (dfsrsa_karatsuba_mul x y) = num_val x * num_val y"
    using karatsuba_val [of x y] by (simp_all add: plain_stands_def)
  have N: "num_val md \<noteq> 0" using xy by (simp add: plain_stands_def)
  obtain r where r: "dfsrsa_mod (dfsrsa_karatsuba_mul x y) md = Some (0, r)" "length r = 2 * length md"
      "num_val r = num_val x * num_val y mod num_val md"
    using dfsrsa_mod_val [of "dfsrsa_karatsuba_mul x y" md] p N by auto
  have "num_val r < num_bound (length md)"
    using r(3) num_val_bound [of md] mod_less_divisor [of "num_val md" "num_val x * num_val y"] N by linarith
  then have "num_val (take (length md) r) = num_val r" using r(2) by (intro num_val_take_all) simp_all
  then have "plain_stands md (a * b) (take (length md) r)"
    using r xy by (simp add: plain_stands_def mod_mult_eq)
  then show "\<exists>z. plain_mulmod md x y = Some z \<and> plain_stands md (a * b) z" using r(1) by (simp add: plain_mulmod_def)
qed

lemma montgomery_mod_stands:
  assumes "mont_ok md k" "length num = 2 * length md" "num_val num < num_val md * num_bound (length md)"
    and "num_val num mod num_val md = a * num_bound (length md) mod num_val md"
  shows "length (dfsrsa_montgomery_mod num md k) = length md" "num_val (dfsrsa_montgomery_mod num md k) = a mod num_val md"
proof -
  note r = montgomery_mod_ok [OF assms(1-3)]
  show "length (dfsrsa_montgomery_mod num md k) = length md" by (rule r(1))
  have "coprime (num_bound (length md)) (num_val md)" using assms(1) by (intro coprime_bound) (simp add: mont_ok_def)
  from mod_cancel [OF this, of "num_val (dfsrsa_montgomery_mod num md k)" a] r(2,3) assms(4)
  show "num_val (dfsrsa_montgomery_mod num md k) = a mod num_val md" by simp
qed

interpretation mont: residue_numbers "mont_stands md k" "mont_mulmod md k" for md k
proof
  fix a b x y
  assume xy: "mont_stands md k a x" "mont_stands md k b y"
  let ?R = "num_bound (length md)" and ?p = "dfsrsa_karatsuba_mul x y"
  have ok: "mont_ok md k" and N: "0 < num_val md" using xy by (auto simp: mont_stands_def mont_ok_def)
  have p: "length ?p = 2 * length md" "num_val ?p = num_val x * num_val y"
    using karatsuba_val [of x y] xy by (simp_all add: mont_stands_def)
  have "num_val x < num_val md" "num_val y < num_val md" using xy N by (simp_all add: mont_stands_def)
  then have "num_val x * num_val y < num_val md * ?R"
    using num_val_bound [of md] by (intro mult_strict_mono) simp_all
  moreover have "num_val x * num_val y mod num_val md = a * b * ?R * ?R mod num_val md"
    using xy by (simp add: mont_stands_def mod_mult_eq ac_simps)
  ultimately have "length (dfsrsa_montgomery_mod ?p md k) = length md"
      "num_val (dfsrsa_montgomery_mod ?p md k) = a * b * ?R mod num_val md"
    using montgomery_mod_stands [OF ok p(1), of "a * b * ?R"] p(2) by simp_all
  then show "\<exists>z. mont_mulmod md k x y = Some z \<and> mont_stands md k (a * b) z" using ok by (simp add: mont_mulmod_def mont_stands_def)
qed

section \<open>Results\<close>

lemma foldl_bits: "foldl (\<lambda>e b. 2 * e + of_bool b) e (map (bit w) (rev [0..<n])) = e * 2 ^ n + unat (take_bit n w)" for w :: u32
proof (induction n arbitrary: e)
  case (Suc n)
  have "bit (unat w) n \<longleftrightarrow> bit w n" by (auto simp: bit_unsigned_iff dest: bit_imp_le_length)
  then have "unat (take_bit (Suc n) w) = 2 ^ n * of_bool (bit w n) + unat (take_bit n w)"
    by (simp only: unsigned_take_bit_eq take_bit_Suc_from_most)
  then show ?case using Suc by (simp add: algebra_simps)
qed simp

lemma exp_bits_val: "foldl (\<lambda>e b. 2 * e + of_bool b) 0 (exp_bits exp) = num_val exp"
proof -
  have "foldl (\<lambda>e b. 2 * e + of_bool b) e (concat (map (\<lambda>bits. map (bit bits) (rev [0..<32])) (rev ds))) = e * num_bound (length ds) + num_val ds"
    for e and ds :: dfsrsa_num
  proof (induction ds arbitrary: e)
    case (Cons d ds)
    have "unat (take_bit 32 d) = unat d" by (subst take_bit_word_eq_self) simp_all
    then show ?case by (simp add: Cons foldl_bits add_mult_distrib)
  qed simp
  then show ?thesis by (simp add: exp_bits_def num_val_getlen)
qed

lemma plain_powmod_val:
  assumes "length base = length md" "1 < num_val md" "num_val base < num_val md"
  shows "\<exists>r z. dfsrsa_powmod other base exp md = Some (r, z) \<and> length r = length md \<and>
    num_val r = num_val base ^ num_val exp mod num_val md"
proof -
  have ne: "md \<noteq> []" using assms(2) by auto
  have b: "plain_stands md (num_val base) base" and o: "plain_stands md (num_val base ^ 0) (dfsrsa_set (length md) 1)"
    using assms ne by (simp_all add: plain_stands_def num_val_set) (simp add: dfsrsa_set_def Suc_le_eq)
  show ?thesis
    using plain.pow_loop_stands [OF b o, of False other "exp_bits exp"] unfolding exp_bits_val dfsrsa_powmod_def
    by (auto simp: plain_stands_def)
qed

lemma montgomery_powmod_val:
  assumes "length base = length md" "odd (num_val md)" "1 < num_val md"
  shows "\<exists>r z. dfsrsa_montgomery_powmod other base exp md = Some (r, z) \<and> length r = length md \<and>
    num_val r = num_val base ^ num_val exp mod num_val md"
proof -
  have ne: "md \<noteq> []" using assms(2) by auto
  let ?R = "num_bound (length md)" and ?zero = "dfsrsa_set (length md) 0" and ?one = "dfsrsa_set (length md) 1"
  have z: "length ?zero = length md" "length ?one = length md" using ne by (simp_all add: dfsrsa_set_def Suc_le_eq)
  obtain k where k: "dfsrsa_montgomery_init md = Some (0, k)" "mont_ok md k" using montgomery_init_ok [OF assms(2,3)] by blast
  obtain i where i: "dfsrsa_montgomery_reduce ?one md = Some (0, i)" "length i = length md" "num_val i = 1 * ?R mod num_val md"
    using montgomery_reduce_ok [of md ?one] assms(3) z(2) by (auto simp: num_val_set)
  obtain b where b: "dfsrsa_montgomery_reduce base md = Some (0, b)" "length b = length md" "num_val b = num_val base * ?R mod num_val md"
    using montgomery_reduce_ok [of md base] assms by auto
  have st: "mont_stands md k (num_val base) b" "mont_stands md k (num_val base ^ 0) i" using k b i by (simp_all add: mont_stands_def)
  obtain c y where c: "pow_loop (mont_mulmod md k) b False (i, other) (exp_bits exp) = Some (c, y)"
      "mont_stands md k (num_val base ^ num_val exp) c"
    using mont.pow_loop_stands [OF st, of False other "exp_bits exp"] unfolding exp_bits_val by auto
  have cv: "length c = length md" "num_val c = num_val base ^ num_val exp * ?R mod num_val md" using c(2) by (simp_all add: mont_stands_def)
  have v: "num_val (c @ ?zero) = num_val c" by (simp add: num_val_append num_val_set)
  have "num_val (c @ ?zero) < num_val md * 1" unfolding v cv(2) using assms(3) by simp
  also have "\<dots> \<le> num_val md * ?R" by (intro mult_left_mono) simp_all
  finally have less: "num_val (c @ ?zero) < num_val md * ?R" .
  have len: "length (c @ ?zero) = 2 * length md" using cv(1) z(1) by simp
  have "num_val (c @ ?zero) mod num_val md = num_val base ^ num_val exp * ?R mod num_val md" unfolding v cv(2) by simp
  note r = montgomery_mod_stands [OF k(2) len less this]
  show ?thesis using r k(1) i(1) b(1) c(1) by (simp add: dfsrsa_montgomery_powmod_def Let_def)
qed

section \<open>Messages\<close>

lemma message_parts_append:
  assumes "length p = len" "0 < len"
  shows "message_parts len (p @ ds) = p # message_parts len ds"
  using assms by (subst message_parts.simps) auto

lemma message_parts_concat: "\<forall>p \<in> set ps. length p = len \<Longrightarrow> 0 < len \<Longrightarrow> message_parts len (concat ps) = ps"
proof (induction ps)
  case Nil
  show ?case by (subst message_parts.simps) simp
qed (simp add: message_parts_append)

text \<open>The parts of an encrypted message: the powers of the parts.\<close>

definition power_parts :: "nat \<Rightarrow> nat \<Rightarrow> dfsrsa_num list \<Rightarrow> dfsrsa_num list \<Rightarrow> bool" where
  "power_parts N e ps rs \<longleftrightarrow> list_all2 (\<lambda>p r. length r = length p \<and> num_val r = num_val p ^ e mod N) ps rs"

lemma power_parts_range:
  assumes "power_parts N e ps rs" "\<forall>p \<in> set ps. length p = n \<and> num_val p < N" "0 < N"
  shows "\<forall>r \<in> set rs. length r = n \<and> num_val r < N"
proof
  fix r
  assume "r \<in> set rs"
  then obtain i where i: "i < length rs" "rs ! i = r" unfolding in_set_conv_nth by blast
  have l: "length ps = length rs" and v: "length (rs ! i) = length (ps ! i)" "num_val (rs ! i) = num_val (ps ! i) ^ e mod N"
    using assms(1) i(1) by (simp_all add: power_parts_def list_all2_conv_all_nth)
  have "ps ! i \<in> set ps" using i(1) l by simp
  then have "length (ps ! i) = n" using assms(2) by blast
  then show "length r = n \<and> num_val r < N" using v assms(3) i(2) by simp
qed

lemma crypt_parts_val:
  assumes "odd (num_val md)" "1 < num_val md"
  shows "\<forall>p \<in> set ps. length p = length md \<Longrightarrow>
    \<exists>rs. crypt_parts junk exp md i ps = Some (concat rs) \<and> power_parts (num_val md) (num_val exp) ps rs"
proof (induction ps arbitrary: i)
  case (Cons p ps)
  obtain r z where r: "dfsrsa_montgomery_powmod (junk i) p exp md = Some (r, z)" "length r = length md"
      "num_val r = num_val p ^ num_val exp mod num_val md"
    using montgomery_powmod_val [OF _ assms, of p "junk i" exp] Cons.prems by auto
  obtain rs where "crypt_parts junk exp md (Suc i) ps = Some (concat rs)" "power_parts (num_val md) (num_val exp) ps rs"
    using Cons.IH [of "Suc i"] Cons.prems by auto
  then show ?case using r Cons.prems by (intro exI [of _ "r # rs"]) (simp add: power_parts_def)
qed (simp add: power_parts_def)

lemma dfsrsa_crypt_val:
  assumes "length exp = length md" "odd (num_val md)" "1 < num_val md" "\<forall>p \<in> set ps. length p = length md \<and> num_val p < num_val md"
  shows "\<exists>rs. dfsrsa_crypt True junk (concat ps) (exp @ md) = Some (0, concat rs) \<and> power_parts (num_val md) (num_val exp) ps rs"
proof -
  have pos: "0 < length md" using assms(3) by (cases md) auto
  have "message_parts (length md) (concat ps) = ps" using assms(4) pos by (intro message_parts_concat) auto
  moreover have "length (concat ps) mod length md = 0"
    using assms(4) by (induction ps) (auto)
  moreover have "\<not> dfsrsa_cmp p md \<ge> 0" if "p \<in> set ps" for p using assms(4) that by (simp add: dfsrsa_cmp_val)
  ultimately show ?thesis
    using crypt_parts_val [OF assms(2,3), of ps junk exp 0] assms(1,4) pos by (auto simp: dfsrsa_crypt_def Let_def)
qed

lemma dfsrsa_crypt_error:
  assumes "length exp = length md" "p \<in> set ps" "num_val md \<le> num_val p" "\<forall>p \<in> set ps. length p = length md" "0 < length md"
  shows "dfsrsa_crypt ok junk (concat ps) (exp @ md) = Some (- 1, concat ps)"
proof -
  have "message_parts (length md) (concat ps) = ps" using assms(4,5) by (intro message_parts_concat) auto
  moreover have "dfsrsa_cmp p md \<ge> 0" using assms by (auto simp: dfsrsa_cmp_val)
  ultimately show ?thesis using assms(1,2) by (auto simp: dfsrsa_crypt_def Let_def)
qed

section \<open>Encryption and decryption\<close>

definition prime_number :: "nat \<Rightarrow> bool" where
  "prime_number p \<longleftrightarrow> 1 < p \<and> (\<forall>d. d dvd p \<longrightarrow> d = 1 \<or> d = p)"

lemma prime_coprime:
  assumes "prime_number p" "\<not> p dvd a"
  shows "coprime p a"
  using assms unfolding prime_number_def by (intro coprimeI) (metis nat_dvd_1_iff_1)

text \<open>Fermat's theorem.\<close>

lemma prime_dvd_choose:
  assumes "prime_number p" "0 < k" "k < p"
  shows "p dvd (p choose k)"
proof -
  have "k * (p choose k) = p * (p - 1 choose (k - 1))" using assms(2) binomial_absorption [of "k - 1" p] by simp
  then have "p dvd k * (p choose k)" by simp
  moreover have "coprime p k" using assms by (intro prime_coprime) (auto dest: dvd_imp_le)
  ultimately show ?thesis by (simp only: coprime_dvd_mult_right_iff)
qed

lemma fermat_power:
  assumes "prime_number p"
  shows "a ^ p mod p = a mod p"
proof (induction a)
  case 0
  then show ?case using assms by (simp add: prime_number_def zero_power)
next
  case (Suc a)
  have p: "1 < p" using assms by (simp add: prime_number_def)
  have "(a + 1) ^ p = (\<Sum>k\<le>p. (p choose k) * a ^ k)" using binomial [of a 1 p] by simp
  also have "{..p} = insert 0 (insert p {0<..<p})" using p by auto
  finally have e: "(a + 1) ^ p = 1 + a ^ p + (\<Sum>k\<in>{0<..<p}. (p choose k) * a ^ k)" using p by simp
  have "p dvd (\<Sum>k\<in>{0<..<p}. (p choose k) * a ^ k)" using prime_dvd_choose [OF assms] by (intro dvd_sum dvd_mult2) auto
  then have "(a + 1) ^ p mod p = (1 + a ^ p) mod p" unfolding e by (metis add.right_neutral dvd_imp_mod_0 mod_add_right_eq)
  also have "\<dots> = (1 + a) mod p" using Suc by (metis mod_add_right_eq)
  finally show ?case by simp
qed

lemma fermat_exponent:
  assumes "prime_number p"
  shows "a ^ (1 + j * (p - 1)) mod p = a mod p"
proof (induction j)
  case (Suc j)
  have p: "1 < p" using assms by (simp add: prime_number_def)
  have "1 + Suc j * (p - 1) = p + j * (p - 1)" using p by simp
  then have "a ^ (1 + Suc j * (p - 1)) = a ^ (p + j * (p - 1))" by (rule arg_cong)
  also have "\<dots> = a ^ p * a ^ (j * (p - 1))" by (rule power_add)
  finally have "a ^ (1 + Suc j * (p - 1)) mod p = a * a ^ (j * (p - 1)) mod p" using fermat_power [OF assms, of a] by (metis mod_mult_left_eq)
  then show ?case using Suc by simp
qed simp

lemma rsa_exponent:
  assumes "prime_number p" "prime_number q" "p \<noteq> q" "a < p * q" "e * d mod ((p - 1) * (q - 1)) = 1"
  shows "(a ^ e mod (p * q)) ^ d mod (p * q) = a"
proof -
  define j where "j = e * d div ((p - 1) * (q - 1))"
  have "e * d = 1 + j * ((p - 1) * (q - 1))" using div_mult_mod_eq [of "e * d" "(p - 1) * (q - 1)"] assms(5) by (simp add: j_def)
  then have ed: "e * d = 1 + j * (q - 1) * (p - 1)" "e * d = 1 + j * (p - 1) * (q - 1)" by (simp_all only: ac_simps)
  have "a ^ (e * d) mod p = a mod p" unfolding ed(1) by (rule fermat_exponent [OF assms(1)])
  moreover have "a ^ (e * d) mod q = a mod q" unfolding ed(2) by (rule fermat_exponent [OF assms(2)])
  ultimately have "int p dvd int (a ^ (e * d)) - int a" "int q dvd int (a ^ (e * d)) - int a"
    by (simp_all only: mod_eq_dvd_iff [symmetric] zmod_int [symmetric])
  moreover have "coprime (int p) (int q)" using assms(1-3) prime_coprime [of p q] unfolding prime_number_def by auto
  ultimately have "int (p * q) dvd int (a ^ (e * d)) - int a" by (simp only: of_nat_mult divides_mult)
  then have "a ^ (e * d) mod (p * q) = a mod (p * q)" by (simp only: mod_eq_dvd_iff [symmetric] zmod_int [symmetric] of_nat_eq_iff)
  moreover have "(a ^ e mod (p * q)) ^ d mod (p * q) = a ^ (e * d) mod (p * q)" by (simp add: power_mod power_mult)
  ultimately show ?thesis using assms(4) by simp
qed

text \<open>Decryption after encryption, for numbers that are inverse by \<open>(p - 1) * (q - 1)\<close>.\<close>

lemma rsa_roundtrip:
  assumes "prime_number p" "prime_number q" "p \<noteq> q" "odd p" "odd q" "num_val n = p * q"
    and "length e = length n" "length d = length n" "num_val e * num_val d mod ((p - 1) * (q - 1)) = 1"
    and "\<forall>part \<in> set ps. length part = length n \<and> num_val part < num_val n"
  shows "\<exists>c. dfsrsa_crypt True junk (concat ps) (e @ n) = Some (0, c) \<and>
    dfsrsa_crypt True junk' c (d @ n) = Some (0, concat ps)"
proof -
  have "1 < p" "1 < q" using assms(1,2) by (simp_all add: prime_number_def)
  then have "1 * 1 < p * q" by (intro mult_strict_mono) simp_all
  then have N: "odd (num_val n)" "1 < num_val n" using assms(4-6) by simp_all
  from dfsrsa_crypt_val [OF assms(7) N assms(10)] obtain rs where
    rs: "dfsrsa_crypt True junk (concat ps) (e @ n) = Some (0, concat rs)" "power_parts (num_val n) (num_val e) ps rs" by blast
  have "\<forall>r \<in> set rs. length r = length n \<and> num_val r < num_val n"
    by (rule power_parts_range [OF rs(2) assms(10)]) (use N(2) in simp)
  from dfsrsa_crypt_val [OF assms(8) N this] obtain ts where
    ts: "dfsrsa_crypt True junk' (concat rs) (d @ n) = Some (0, concat ts)" "power_parts (num_val n) (num_val d) rs ts" by blast
  have "ts = ps"
  proof (rule nth_equalityI)
    show len: "length ts = length ps" using rs(2) ts(2) by (simp add: power_parts_def list_all2_conv_all_nth)
    fix i
    assume "i < length ts"
    then have "length (ts ! i) = length (ps ! i)" "num_val (ts ! i) = (num_val (ps ! i) ^ num_val e mod num_val n) ^ num_val d mod num_val n"
      "num_val (ps ! i) < p * q"
      using rs(2) ts(2) assms(6,10) len by (auto simp: power_parts_def list_all2_conv_all_nth)
    then show "ts ! i = ps ! i" using rsa_exponent [OF assms(1-3) _ assms(9)] assms(6) by (intro num_val_inj) simp_all
  qed
  then show ?thesis using rs(1) ts(1) by blast
qed

end
