(* ===== verification/Rsa_Keys.thy ===== *)
theory Rsa_Keys
  imports Rsa_Crypt
begin

text \<open>
  dfslib/dfsrsa.c: a pair of keys from two primes, and the round trip of a message
  through both keys.  The test for small primes by trial division is here too.
\<close>

section \<open>Operations\<close>

partial_function (option) geninv_loop :: "dfsrsa_num \<Rightarrow> dfsrsa_num \<Rightarrow> (dfsrsa_num \<times> dfsrsa_num) option" where
  "geninv_loop md pubkey =
     do {
       (e, privkey) \<leftarrow> dfsrsa_inverse pubkey md;
       (if e \<noteq> 0 then geninv_loop md (dfsrsa_addeq pubkey 2) else Some (privkey, pubkey))
     }"

definition dfsrsa_geninv :: "dfsrsa_num \<Rightarrow> dfsrsa_num \<Rightarrow> (dfsrsa_num \<times> dfsrsa_num) option" where
  "dfsrsa_geninv pubkey md =
     do {
       (_, pubkey) \<leftarrow> dfsrsa_mod pubkey md;
       geninv_loop md ((hd pubkey OR 1) # tl pubkey)
     }"

text \<open>The keys for the primes \<open>p\<close> and \<open>q\<close>; \<open>pubkey\<close> holds random digits. Public key first.\<close>

definition key_pair :: "dfsrsa_num \<Rightarrow> dfsrsa_num \<Rightarrow> dfsrsa_num \<Rightarrow> (dfsrsa_num \<times> dfsrsa_num) option" where
  "key_pair p q pubkey =
     do {
       let n = dfsrsa_karatsuba_mul p q;
       let phin = dfsrsa_karatsuba_mul ((hd p - 1) # tl p) ((hd q - 1) # tl q);
       (privkey, pubkey) \<leftarrow> dfsrsa_geninv pubkey phin;
       Some (pubkey @ n, privkey @ n)
     }"

fun modsmall_loop :: "u64 \<Rightarrow> u32 \<Rightarrow> u32 list \<Rightarrow> u64" where
  "modsmall_loop rem md [] = rem"
| "modsmall_loop rem md (d # ds) = modsmall_loop ((push_bit 32 rem OR ucast d) mod ucast md) md ds"

definition dfsrsa_modsmall :: "dfsrsa_num \<Rightarrow> u32 \<Rightarrow> u32" where
  "dfsrsa_modsmall num md = (if md = 0 then 0 else ucast (modsmall_loop 0 md (rev num)))"

text \<open>Trial division by odd numbers, with squares of 32 bits.\<close>

partial_function (option) trial_loop :: "u32 \<Rightarrow> u32 \<Rightarrow> bool option" where
  "trial_loop n d = (if d * d \<le> n then if n mod d = 0 then Some False else trial_loop n (d + 2) else Some True)"

definition dfsrsa_isprime0 :: "u32 \<Rightarrow> bool option" where
  "dfsrsa_isprime0 n =
     (if n < 32 then Some (drop_bit (unat n) 0xA08A28AC AND 1 \<noteq> (0 :: u32))
      else if n AND 1 = 0 then Some False
      else trial_loop n 3)"

section \<open>Inverse exponents\<close>

lemma geninv_loop_ok:
  assumes phi: "num_val md = 2 ^ 2 * m" "odd m" "1 < m"
    and "length pubkey = length md" "odd (num_val pubkey)" "num_val pubkey < num_val md"
  shows "\<exists>d e. geninv_loop md pubkey = Some (d, e) \<and> length d = length md \<and> length e = length md \<and>
    num_val e * num_val d mod num_val md = 1"
  using assms(4-)
proof (induction "num_val md - num_val pubkey" arbitrary: pubkey rule: less_induct)
  case less
  from dfsrsa_inverse_val [OF less.prems(1) phi _ less.prems(2)] obtain x e where
    x: "dfsrsa_inverse pubkey md = Some (e, x)" "e = (if coprime (num_val pubkey) (num_val md) then 0 else - 1)"
      "e = 0 \<longrightarrow> length x = length md \<and> num_val pubkey * num_val x mod num_val md = 1" by auto
  show ?case
  proof (cases "coprime (num_val pubkey) (num_val md)")
    case True
    then show ?thesis using x less.prems(1) by (simp add: geninv_loop.simps [of md pubkey])
  next
    case False
    have "coprime (num_val md - 1) (num_val md)" using less.prems(3) coprime_Suc_right_nat [of "num_val md - 1"] by simp
    then have "num_val pubkey \<noteq> num_val md - 1" using False by metis
    moreover have "even (num_val md)" by (simp add: phi(1))
    ultimately have up: "num_val pubkey + 2 < num_val md" using less.prems(2,3) by presburger
    have "num_val pubkey + unat (ucast (2 :: u32) :: u64) < num_bound (length pubkey)"
      using up num_val_bound [of md] less.prems(1) by simp
    then have v: "length (dfsrsa_addeq pubkey 2) = length pubkey" "num_val (dfsrsa_addeq pubkey 2) = num_val pubkey + 2"
      using addeq_loop_val [of "ucast (2 :: u32)" pubkey] by (simp_all add: dfsrsa_addeq_def)
    have "\<exists>d e. geninv_loop md (dfsrsa_addeq pubkey 2) = Some (d, e) \<and> length d = length md \<and> length e = length md \<and>
        num_val e * num_val d mod num_val md = 1"
      using less.prems v up by (intro less.hyps) simp_all
    then show ?thesis using x False by (simp add: geninv_loop.simps [of md pubkey])
  qed
qed

lemma set_low_bit:
  assumes "xs \<noteq> []" "even N" "num_val xs < N"
  shows "odd (num_val ((hd xs OR 1) # tl xs))" "num_val ((hd xs OR 1) # tl xs) < N"
proof -
  obtain d ds where xs: "xs = d # ds" using assms(1) by (cases xs) auto
  have par: "odd (unat d) \<longleftrightarrow> odd d" by (simp add: bit_unsigned_iff flip: bit_0)
  have u: "unat (d OR 1) = (if odd (unat d) then unat d else unat d + 1)"
  proof (cases "odd d")
    case False
    then have "1 + d \<noteq> 0" by (metis add.commute add_eq_0_iff even_minus odd_one)
    then show ?thesis using False par unatSuc [of d] by (simp add: or_one_eq add.commute)
  qed (simp add: or_one_eq par)
  then show "odd (num_val ((hd xs OR 1) # tl xs))" by (simp add: xs)
  have "num_val xs + 1 < N" if "even (unat d)"
  proof -
    have "even (num_val xs)" using that by (simp add: xs)
    then show ?thesis using assms(2,3) by presburger
  qed
  then show "num_val ((hd xs OR 1) # tl xs) < N" using assms(3) u by (simp add: xs)
qed

lemma geninv_ok:
  assumes "num_val md = 2 ^ 2 * m" "odd m" "1 < m" "length pubkey = length md"
  shows "\<exists>d e. dfsrsa_geninv pubkey md = Some (d, e) \<and> length d = length md \<and> length e = length md \<and>
    num_val e * num_val d mod num_val md = 1"
proof -
  have N: "num_val md \<noteq> 0" "even (num_val md)" using assms(1,3) by simp_all
  obtain r where r: "dfsrsa_mod pubkey md = Some (0, r)" "length r = length md" "num_val r = num_val pubkey mod num_val md"
    using dfsrsa_mod_val [of pubkey md] N assms(4) by auto
  have ne: "r \<noteq> []" using r(2) N(1) by auto
  have "num_val r < num_val md" using r(3) N(1) by simp
  note low = set_low_bit [OF ne N(2) this]
  have "length ((hd r OR 1) # tl r) = length md" using r(2) ne by (cases r) simp_all
  from geninv_loop_ok [OF assms(1-3) this low] show ?thesis using r(1) by (simp add: dfsrsa_geninv_def)
qed

section \<open>Keys\<close>

lemma decrement_odd:
  assumes "odd (num_val xs)"
  shows "length ((hd xs - 1) # tl xs) = length xs" "num_val ((hd xs - 1) # tl xs) = num_val xs - 1"
proof -
  obtain d ds where xs: "xs = d # ds" using assms by (cases xs) auto
  have "d \<noteq> 0" using assms by (auto simp: xs)
  then have "unat (d - 1) = unat d - 1" by (rule unat_minus_one)
  moreover have "1 \<le> unat d" using \<open>d \<noteq> 0\<close> by (simp add: Suc_le_eq unat_gt_0)
  ultimately show "length ((hd xs - 1) # tl xs) = length xs" "num_val ((hd xs - 1) # tl xs) = num_val xs - 1" by (simp_all add: xs)
qed

lemma totient_parts:
  assumes "p mod 4 = 3" "q mod 4 = 3" "p \<noteq> q"
  shows "\<exists>m. (p - 1) * (q - 1) = 2 ^ 2 * m \<and> odd m \<and> 1 < (m :: nat)"
proof -
  define i j where ij: "i = p div 4" "j = q div 4"
  have p: "p = 4 * i + 3" "q = 4 * j + 3" using assms(1,2) mult_div_mod_eq [of 4 p] mult_div_mod_eq [of 4 q] by (simp_all add: ij)
  then have "i \<noteq> j" using assms(3) by simp
  then have "(2 * i + 1) * (2 * j + 1) \<noteq> 1" by auto
  moreover have "(p - 1) * (q - 1) = 2 ^ 2 * ((2 * i + 1) * (2 * j + 1))" by (simp add: p algebra_simps)
  moreover have "odd ((2 * i + 1) * (2 * j + 1))" by simp
  moreover have "1 < t" if "t \<noteq> 1" "odd t" for t :: nat using that odd_pos [of t] by linarith
  ultimately show ?thesis by blast
qed

text \<open>
  C19: the keys made from two primes serve each other.  For two different primes of
  the form 4k + 3 and any random digits the generation of the exponents ends, and
  a message whose parts are smaller than the product of the primes, encrypted with
  the public key and decrypted with the private one, or the other way round, comes
  back, whatever the working memory held.
\<close>

theorem rsa_keys_roundtrip:
  assumes "prime_number (num_val p)" "prime_number (num_val q)" "num_val p \<noteq> num_val q"
    and "num_val p mod 4 = 3" "num_val q mod 4 = 3" "length p = len" "length q = len" "length random = 2 * len"
    and "\<forall>part \<in> set ps. length part = 2 * len \<and> num_val part < num_val p * num_val q"
  shows "\<exists>pubkey privkey. key_pair p q random = Some (pubkey, privkey) \<and>
    (\<exists>c. dfsrsa_crypt True junk (concat ps) pubkey = Some (0, c) \<and> dfsrsa_crypt True junk' c privkey = Some (0, concat ps)) \<and>
    (\<exists>c. dfsrsa_crypt True junk (concat ps) privkey = Some (0, c) \<and> dfsrsa_crypt True junk' c pubkey = Some (0, concat ps))"
proof -
  let ?n = "dfsrsa_karatsuba_mul p q" and ?p = "(hd p - 1) # tl p" and ?q = "(hd q - 1) # tl q"
  have odd: "odd (num_val p)" "odd (num_val q)" using assms(4,5) by presburger+
  have n: "length ?n = 2 * len" "num_val ?n = num_val p * num_val q" using karatsuba_val [of p q] assms(6,7) by simp_all
  have phi: "length (dfsrsa_karatsuba_mul ?p ?q) = 2 * len" "num_val (dfsrsa_karatsuba_mul ?p ?q) = (num_val p - 1) * (num_val q - 1)"
    using karatsuba_val [of ?p ?q] decrement_odd [OF odd(1)] decrement_odd [OF odd(2)] assms(6,7) by simp_all
  obtain m where m: "(num_val p - 1) * (num_val q - 1) = 2 ^ 2 * m" "odd m" "1 < m" using totient_parts [OF assms(4,5,3)] by blast
  obtain d e where de: "dfsrsa_geninv random (dfsrsa_karatsuba_mul ?p ?q) = Some (d, e)" "length d = 2 * len" "length e = 2 * len"
      "num_val e * num_val d mod ((num_val p - 1) * (num_val q - 1)) = 1"
    using geninv_ok [of "dfsrsa_karatsuba_mul ?p ?q" m random] phi m assms(8) by auto
  have k: "key_pair p q random = Some (e @ ?n, d @ ?n)" using de(1) by (simp add: key_pair_def Let_def)
  have len: "length e = length ?n" "length d = length ?n" using de n by simp_all
  have parts: "\<forall>part \<in> set ps. length part = length ?n \<and> num_val part < num_val ?n" using assms(9) n by simp
  have inv: "num_val d * num_val e mod ((num_val p - 1) * (num_val q - 1)) = 1" using de(4) by (simp only: mult.commute)
  note trip = rsa_roundtrip [OF assms(1-3) odd n(2)]
  show ?thesis
    by (intro exI [of _ "e @ ?n"] exI [of _ "d @ ?n"] conjI k trip [OF len de(4) parts] trip [OF len(2,1) inv parts])
qed

lemma prime_number_upto: "prime_number p \<longleftrightarrow> 1 < p \<and> (\<forall>d \<in> set [2..<p]. \<not> d dvd p)"
proof
  assume "1 < p \<and> (\<forall>d \<in> set [2..<p]. \<not> d dvd p)"
  then have p: "1 < p" "\<And>d. 2 \<le> d \<Longrightarrow> d < p \<Longrightarrow> \<not> d dvd p" by auto
  show "prime_number p"
    unfolding prime_number_def
  proof (intro conjI allI impI p(1))
    fix d
    assume d: "d dvd p"
    then have "d \<le> p" using p(1) by (intro dvd_imp_le) simp_all
    moreover have "d \<noteq> 0" using d p(1) by (intro notI) simp
    ultimately show "d = 1 \<or> d = p" using p(2) [of d] d by linarith
  qed
qed (auto simp: prime_number_def)

theorem rsa_keys_roundtrip_witness:
  "\<exists>pubkey privkey. key_pair [3] [7] [5, 0] = Some (pubkey, privkey) \<and>
    (\<exists>c. dfsrsa_crypt True (\<lambda>_. []) [11, 0, 20, 0] pubkey = Some (0, c) \<and> dfsrsa_crypt True (\<lambda>_. []) c privkey = Some (0, [11, 0, 20, 0])) \<and>
    (\<exists>c. dfsrsa_crypt True (\<lambda>_. []) [11, 0, 20, 0] privkey = Some (0, c) \<and> dfsrsa_crypt True (\<lambda>_. []) c pubkey = Some (0, [11, 0, 20, 0]))"
  using rsa_keys_roundtrip [of "[3]" "[7]" 1 "[5, 0]" "[[11, 0], [20, 0]]" "\<lambda>_. []" "\<lambda>_. []"]
  by (simp add: prime_number_upto upt_rec)

section \<open>Trial division\<close>

lemma unat_shifted_rem:
  assumes "unat (rem :: u64) < 2 ^ 32"
  shows "unat (push_bit 32 rem OR ucast (d :: u32)) = unat rem * 2 ^ 32 + unat d"
proof -
  have u: "unat (ucast rem :: u32) = unat rem" using assms by (simp add: unsigned_ucast_eq take_bit_nat_eq_self)
  then have "rem = ucast (ucast rem :: u32)" by (simp add: word_unat_eq_iff unat_ucast_digit)
  then show ?thesis using unat_two_digits [of "ucast rem" d] u by simp
qed

lemma modsmall_loop_val:
  "md \<noteq> 0 \<Longrightarrow> unat rem < unat md \<Longrightarrow>
   unat (modsmall_loop rem md ds) = (unat rem * num_bound (length ds) + num_val (rev ds)) mod unat md"
proof (induction ds arbitrary: rem)
  case (Cons d ds)
  let ?r = "(push_bit 32 rem OR ucast d) mod ucast md"
  have "unat rem < 2 ^ 32" using Cons.prems(2) u32_less [of md] by linarith
  then have r: "unat ?r = (unat rem * 2 ^ 32 + unat d) mod unat md" by (simp only: unat_mod unat_shifted_rem unat_ucast_digit)
  have "0 < unat md" using Cons.prems(1) by (simp add: unat_gt_0)
  then have "unat ?r < unat md" unfolding r by simp
  then have "unat (modsmall_loop rem md (d # ds)) = (unat ?r * num_bound (length ds) + num_val (rev ds)) mod unat md"
    using Cons.IH [of ?r] Cons.prems(1) by simp
  also have "\<dots> = ((unat rem * 2 ^ 32 + unat d) * num_bound (length ds) + num_val (rev ds)) mod unat md"
    unfolding r by (metis mod_add_left_eq mod_mult_left_eq)
  also have "(unat rem * 2 ^ 32 + unat d) * num_bound (length ds) + num_val (rev ds) =
      unat rem * num_bound (length (d # ds)) + num_val (rev (d # ds))" by (simp add: num_val_append algebra_simps)
  finally show ?case .
qed simp

lemma dfsrsa_modsmall_val: "unat (dfsrsa_modsmall num md) = (if md = 0 then 0 else num_val num mod unat md)"
proof (cases "md = 0")
  case False
  then have v: "unat (modsmall_loop 0 md (rev num)) = num_val num mod unat md"
    using modsmall_loop_val [of md 0 "rev num"] by (simp add: unat_gt_0)
  have "num_val num mod unat md < unat md" using False by (intro mod_less_divisor) (simp add: unat_gt_0)
  then have "num_val num mod unat md < 2 ^ 32" using u32_less [of md] by (rule less_trans)
  then show ?thesis using v False by (simp add: dfsrsa_modsmall_def unsigned_ucast_eq take_bit_nat_eq_self)
qed (simp add: dfsrsa_modsmall_def)

lemma no_small_divisor_prime:
  assumes "1 < n" "\<And>c. 2 \<le> c \<Longrightarrow> c < d \<Longrightarrow> \<not> c dvd n" "n < d * d"
  shows "prime_number n"
  unfolding prime_number_def
proof (intro conjI allI impI assms(1))
  fix c
  assume "c dvd n"
  then obtain e where e: "n = c * e" ..
  show "c = 1 \<or> c = n"
  proof (rule ccontr)
    assume "\<not> (c = 1 \<or> c = n)"
    then have "2 \<le> c" "2 \<le> e" using e assms(1) by (cases c; cases e; auto)+
    then have "d \<le> c" "d \<le> e" using assms(2) [of c] assms(2) [of e] e by (auto simp: not_less [symmetric])
    then have "d * d \<le> n" unfolding e by (rule mult_le_mono)
    then show False using assms(3) by simp
  qed
qed

lemma trial_loop_ok:
  assumes "odd (unat n)" "9 \<le> unat n" "unat n \<le> 65535 * 65535"
    and "odd (unat d)" "3 \<le> unat d" "unat d \<le> 65535" "\<And>c. 2 \<le> c \<Longrightarrow> c < unat d \<Longrightarrow> \<not> c dvd unat n"
  shows "trial_loop n d = Some (prime_number (unat n))"
  using assms(4-)
proof (induction "65537 - unat d" arbitrary: d rule: less_induct)
  case less
  have "unat d * unat d \<le> 65535 * 65535" using less.prems(3) by (rule mult_le_mono) (rule less.prems(3))
  then have sq: "unat (d * d) = unat d * unat d" by (simp add: unat_word_ariths)
  show ?case
  proof (cases "d * d \<le> n")
    case False
    then have "unat n < unat d * unat d" using sq by (simp add: word_le_nat_alt not_le)
    then have "prime_number (unat n)" using no_small_divisor_prime [of "unat n" "unat d"] assms(2) less.prems(4) by simp
    then show ?thesis using False by (simp add: trial_loop.simps [of n d])
  next
    case True
    then have le: "unat d * unat d \<le> unat n" using sq by (simp add: word_le_nat_alt)
    have md: "n mod d = 0 \<longleftrightarrow> unat d dvd unat n" by (simp add: word_unat_eq_iff unat_mod dvd_eq_mod_eq_0)
    show ?thesis
    proof (cases "unat d dvd unat n")
      case dvd: True
      have "unat d * 1 < unat d * unat d" using less.prems(2) by (intro mult_strict_left_mono) simp_all
      then have "unat d \<noteq> 1" "unat d \<noteq> unat n" using le less.prems(2) by linarith+
      then have "\<not> prime_number (unat n)" using dvd unfolding prime_number_def by blast
      then show ?thesis using True md dvd by (simp add: trial_loop.simps [of n d])
    next
      case nd: False
      have "unat d \<noteq> 65535"
      proof
        assume "unat d = 65535"
        then have "unat n = 65535 * unat d" using le assms(3) by simp
        then show False using nd by simp
      qed
      then have d2: "unat d + 2 \<le> 65535" using less.prems(1,3) by presburger
      then have u: "unat (d + 2) = unat d + 2" by (simp add: unat_word_ariths)
      have "\<not> c dvd unat n" if c: "2 \<le> c" "c < unat d + 2" for c
      proof (cases "c < unat d")
        case False
        then have "c = unat d \<or> c = Suc (unat d)" using c by linarith
        then show ?thesis using nd assms(1) less.prems(1) by (auto dest: dvd_trans [of 2])
      qed (use less.prems(4) c in blast)
      then have "trial_loop n (d + 2) = Some (prime_number (unat n))"
        using less.prems d2 u by (intro less.hyps) simp_all
      then show ?thesis using True md nd by (simp add: trial_loop.simps [of n d])
    qed
  qed
qed

lemma prime_table: "\<forall>k \<in> set [0..<32]. bit (0xA08A28AC :: u32) k \<longleftrightarrow> 1 < k \<and> (\<forall>d \<in> set [2..<k]. \<not> d dvd k)"
  by code_simp

text \<open>
  The simple test for primes is right for all numbers up to 65535 squared: it
  ends and tells whether the number is a prime.
\<close>

lemma isprime0_correct:
  assumes "unat n \<le> 65535 * 65535"
  shows "dfsrsa_isprime0 n = Some (prime_number (unat n))"
proof -
  have par: "n AND 1 = 0 \<longleftrightarrow> even (unat n)" using unat_and_1 [of n] by (simp add: word_unat_eq_iff even_iff_mod_2_eq_zero)
  consider "n < 32" | "\<not> n < 32" "even (unat n)" | "\<not> n < 32" "odd (unat n)" by blast
  then show ?thesis
  proof cases
    case 1
    then have "unat n \<in> set [0..<32]" by (simp add: word_less_nat_alt)
    then have "bit (0xA08A28AC :: u32) (unat n) \<longleftrightarrow> prime_number (unat n)" using prime_table unfolding prime_number_upto by blast
    then show ?thesis using 1 by (simp add: dfsrsa_isprime0_def bit_iff_odd_drop_bit and_one_eq mod_2_eq_odd)
  next
    case 2
    then have "2 dvd unat n" "32 \<le> unat n" by (simp_all add: word_less_nat_alt)
    then have "\<not> prime_number (unat n)" unfolding prime_number_def by (intro notI) auto
    then show ?thesis using 2 par by (simp add: dfsrsa_isprime0_def)
  next
    case 3
    then have "\<not> c dvd unat n" if "2 \<le> c" "c < 3" for c using that by (cases "c = 2") auto
    then show ?thesis using 3 par trial_loop_ok [of n 3] assms by (simp add: dfsrsa_isprime0_def word_less_nat_alt)
  qed
qed

end
