(* ===== verification/Spec2Isabelle.thy ===== *)
theory Spec2Isabelle
  imports Supply Chain_Progress Ledger_Properties Block_Index Hash Address Checksum Dfs_Crypt Text_Utils Orphans
    Crypt Block_Cache Add_Block_Inv Add_Block_Correct Add_Block_Keys Add_Block_Properties Add_Block_Errors Create_Block_Properties
    Storage_Loading Cache_Storage Sync_Request Sync_Blocks Node_Properties Memory Wallet Rsa_Keys
begin

text \<open>
  A verification development for the XDAG node, the C program under src/client
  with its libraries src/ldus, src/dfslib and src/dnet.

  \<^bold>\<open>The program.\<close>  A node keeps a graph of blocks of sixteen 32-byte fields.  A
  block links to older blocks; some links carry money.  Every 64 seconds (a
  frame) the nodes produce a block with much work, and the chain of links with
  the greatest accumulated difficulty is the main chain.  Its blocks are
  promoted to main blocks in order: a main block earns a reward and applies the
  transfers of all blocks it references, directly or not, for the first time.
  When another chain becomes heavier the main blocks are demoted again.  Blocks
  are stored in files by time together with sums over intervals of time, which
  the nodes compare to find the blocks they lack.

  \<^bold>\<open>Parts, theories and sources.\<close>

  \<^item> Words, lists and option values that all parts share: Prelude.

  \<^item> Data of client/block.h, client/block.c and the global variables: Block_Types
    (fields, blocks, internal blocks, field types), Block_State (the record
    xdag_state of all variables of block.c and the heap of internal blocks, a
    pointer is an index), Flags, Example_State (a small state for witnesses).

  \<^item> ldus/rbtree.h: RBTree has insertion, search and removal with the colours and
    rotations of the macros; Block_Index is the index of blocks by hash over it.
    Both refine a finite map and keep the red-black invariants.

  \<^item> The ledger and main chain of client/block.c: Block_Chain holds apply_block,
    unapply_block, set_main, unset_main, check_new_main, unwind_main, the own
    blocks and the RandomX fork bookkeeping of client/rx_hash.c.  Dag says what these operations
    leave alone, Ledger that money is conserved, Rollback and Ledger_Properties
    that a demotion undoes a promotion, MainChain the invariant of the main chain,
    Chain_Progress that waiting blocks become main blocks, Supply the reward
    schedule and xdag_get_supply.

  \<^item> Adding a block, add_block_nolock of client/block.c, phase by phase: Add_Block
    (scan of the fields, resolution of the links, signatures, choice of the
    maximal chain, storing), Block_Cache (signatures of linked blocks and the
    cache of recent blocks), Orphans (lists of unreferenced blocks, back
    references and remarks), Add_Block_Inv, Add_Block_Correct, Add_Block_Keys
    and Add_Block_Properties (the graph stays well formed, how keys are freed),
    Add_Block_Errors (a specification of the checks, and that the first one that
    fails decides the error code and the state).

  \<^item> Creating and mining a block, xdag_create_block: Create_Block and
    Create_Block_Properties (signatures of a created block are accepted, a mining
    task has the hash of the block).

  \<^item> Hashing and signatures: Sha256 (client/algorithms/sha256.c), Sha256_Spec
    (FIPS 180-4 as specification), Hash (client/hash.c, the double hash and the two nonce
    searches), Crypt (client/crypt.c, the DER form of a signature).

  \<^item> Storage, client/storage.c: Storage (block files, sums files of four levels,
    saving and loading), Storage_Properties (what is saved is loaded, the sums
    are sums), Storage_Loading (loading an interval), Cache_Storage (what a check of
    a signature through the block cache has to do with one through the storage).

  \<^item> Synchronisation, client/sync.c and the request part of client/transport.c:
    Sync_Request (the descent through the sums of a peer), Sync (the two tables of blocks
    that wait for others), Sync_Tables (their invariant, and what is requested for
    a block that cannot be added yet) and Sync_Blocks (adding a block and all
    blocks that waited for it).

  \<^item> The node: Node_State and Node_Properties (work_thread of client/block.c),
    Wallet (client/wallet.c and the user encryption of dnet/dnet_crypt.c), Memory
    (client/memory.c).

  \<^item> Codecs: Address (client/address.c, client/utils/base64.c), Checksum
    (client/algorithms/crc.c, client/math.c, client/time.c), Text_Utils (client/utils),
    Dfs_String (dfslib/dfslib_string.c) and Dfs_Crypt (dfslib/dfslib_crypt.c).

  \<^item> RSA, dfslib/dfsrsa.c: Rsa_Number (digits, sums, differences and the schoolbook
    product), Rsa_Karatsuba, Rsa_Division, Rsa_Inverse (binary Euclidean algorithm), Rsa_Crypt
    (Montgomery reduction, powers, encryption) and Rsa_Keys (keys from two primes,
    and the round trip of a message).

  \<^bold>\<open>How the code is modelled.\<close>  Machine integers are words of their width, so
  wrap-around is that of the code.  Functions that change global variables take
  the state and return it updated; an error is the integer the code returns or a
  value of a sum type.  Lists that the code links by pointers are lists of
  indices of cells.  Code outside the repository (OpenSSL, secp256k1 and the RandomX
  machine) and the outside world (clock, random numbers, results of system
  calls, what other threads did meanwhile, answers of a peer) are arguments; where
  a theorem relies on them the hypothesis says on what.  Interfaces between
  components are locales, interpreted on the definitions of the model: the finite
  map behind an index, the block database that the synchronisation calls, and others beside
  the components that provide them.

  \<^bold>\<open>Recursion and fuel.\<close>  The recursions of apply_block and unapply_block over
  the graph have fuel; chain_fuel, one more than the number of cells, is enough,
  because links lead to older blocks (Dag).  The loops over the chain have the
  same fuel.  The mutual recursion of the synchronisation has the fuel
  2 (n + 1) ^ 2 + n + 1 for n waiting blocks.  Sync_Blocks proves that a result is
  reached with it, after at most (n + 1) ^ 2 + n + 1 additions, when these meet
  states in which add_block_nolock is known to return; for a pool that includes
  a consistent main chain, and that a reorganisation keeps the whole invariant of
  the main chain is not shown.  load_loop of the storage and make_room of the allocator are partial functions
  with the value None for a loop that does not end; both are proved to return,
  and so are the loops of long division, of the inverse and of the search for a
  public exponent.

  \<^bold>\<open>What is shown.\<close>  The numbered properties stand in the theories of their
  components: conservation of money and its reversal, the invariants of the
  block graph, of the main chain, of the orphan lists, of the sums files, of the
  tables of waiting blocks; refinement of finite maps by the index; equivalence
  of the hash functions with FIPS 180-4, of the eight-lane search with the plain
  one, of the cached signature check with the uncached one, of the table-driven
  CRC with the bitwise one; round trips of addresses, base64, UTF-8, the cipher,
  signatures, storage, the wallet and RSA; termination and completeness of loading
  and synchronising; progress of the main chain.  Some of them say exactly where
  the code does not do what it means to: conservation needs blocks that list no
  input twice, and the rollback blocks whose fee is not lost; which keys are freed
  twice or never by compaction; how far the reported supply is above the rewards
  after the first halving; and when loading a part of a frame spoils its sums.

  \<^bold>\<open>Not modelled.\<close>  Threads and locks: each operation runs to its end, and where
  the code releases a lock the changes by others are an argument.  Printing,
  logging and the conversions to long double for display.  Sockets and servers:
  the pool and miner protocol (client/pool.c, client/miner.c), client/network.c, client/netdb.c,
  dnet/dnet_xdag.c, client/http, client/json-rpc, client/websocket.  Command
  line and console (client/commands.c, client/init.c, client/terminal.c).
  The search for primes of dfslib/dfsrsa.c and its assembly routines.
  Third-party code: secp256k1, cJSON, uthash, linenoise and wslay.
\<close>

end
